(* ===== verification/Prelude.thy ===== *)
theory Prelude
  imports Main "HOL-Library.Word" "HOL-Library.Code_Target_Numeral"
begin

text \<open>
  Shared vocabulary of the development: the machine integers of the sources, the
  result type in which every undefined access, exception, failed assertion and
  non-returning loop of the C++ code is a value, the monadic helpers that thread it,
  vector access with its bounds check, bounded loops, and generic lemmas on them.
\<close>

unbundle bit_operations_syntax

type_synonym u8 = "8 word"
type_synonym u16 = "16 word"
type_synonym u32 = "32 word"
type_synonym u64 = "64 word"

text \<open>
  Ways in which a C++ call does not return normally: an out-of-range element access
  (undefined behaviour), a loop or recursion that does not return, a thrown
  exception, a failed \<open>assert\<close> (the build does not define \<open>NDEBUG\<close>), a call of
  \<open>exit\<close>, and arithmetic the language leaves undefined (a division by zero, a shift by a
  negative amount or by the width or more).
\<close>

datatype cpp_error =
    OutOfBounds
  | Diverges
  | Thrown string
  | AssertFailed
  | Exit
  | Undefined

type_synonym 'a res = "cpp_error + 'a"

definition rbind :: "'a res \<Rightarrow> ('a \<Rightarrow> 'b res) \<Rightarrow> 'b res" where
  "rbind m f = (case m of Inl e \<Rightarrow> Inl e | Inr x \<Rightarrow> f x)"

lemma rbind_simps [simp]:
  "rbind (Inr x) f = f x"
  "rbind (Inl e) f = Inl e"
  by (simp_all add: rbind_def)

lemma rbind_eq_Inr: "rbind m f = Inr y \<longleftrightarrow> (\<exists>x. m = Inr x \<and> f x = Inr y)"
  by (auto simp: rbind_def split: sum.splits)

lemma rbind_Inr_right [simp]: "rbind m Inr = m"
  by (auto simp: rbind_def split: sum.splits)

lemma rbind_assoc: "rbind (rbind m f) g = rbind m (\<lambda>x. rbind (f x) g)"
  by (auto simp: rbind_def split: sum.splits)

lemma rbind_cong [fundef_cong]:
  "m = m' \<Longrightarrow> (\<And>x. m' = Inr x \<Longrightarrow> f x = f' x) \<Longrightarrow> rbind m f = rbind m' f'"
  by (auto simp: rbind_def split: sum.splits)

definition guard :: "cpp_error \<Rightarrow> bool \<Rightarrow> unit res" where
  "guard e b = (if b then Inr () else Inl e)"

lemma guard_simps [simp]:
  "guard e True = Inr ()"
  "guard e False = Inl e"
  by (simp_all add: guard_def)

lemma guard_eq_Inr [simp]: "guard e b = Inr u \<longleftrightarrow> b"
  by (simp add: guard_def)

subsection \<open>Vectors\<close>

definition vat :: "'a list \<Rightarrow> nat \<Rightarrow> 'a res" where
  "vat xs i = (if i < length xs then Inr (xs ! i) else Inl OutOfBounds)"

definition vput :: "'a list \<Rightarrow> nat \<Rightarrow> 'a \<Rightarrow> 'a list res" where
  "vput xs i x = (if i < length xs then Inr (xs[i := x]) else Inl OutOfBounds)"

lemma vat_in [simp]: "i < length xs \<Longrightarrow> vat xs i = Inr (xs ! i)"
  by (simp add: vat_def)

lemma vput_in [simp]: "i < length xs \<Longrightarrow> vput xs i x = Inr (xs[i := x])"
  by (simp add: vput_def)

lemma vat_out: "\<not> i < length xs \<Longrightarrow> vat xs i = Inl OutOfBounds"
  by (simp add: vat_def)

lemma vput_out: "\<not> i < length xs \<Longrightarrow> vput xs i x = Inl OutOfBounds"
  by (simp add: vput_def)

lemma vat_eq_Inr: "vat xs i = Inr x \<longleftrightarrow> i < length xs \<and> x = xs ! i"
  by (auto simp: vat_def)

lemma vput_eq_Inr: "vput xs i x = Inr ys \<longleftrightarrow> i < length xs \<and> ys = xs[i := x]"
  by (auto simp: vput_def)

text \<open>\<open>v.resize(n, x)\<close>: shrink to a prefix or pad with copies of \<open>x\<close>.\<close>

definition vresize :: "nat \<Rightarrow> 'a \<Rightarrow> 'a list \<Rightarrow> 'a list" where
  "vresize n x xs = take n xs @ replicate (n - length xs) x"

lemma length_vresize [simp]: "length (vresize n x xs) = n"
  by (auto simp: vresize_def)

lemma nth_vresize: "i < n \<Longrightarrow> vresize n x xs ! i = (if i < length xs then xs ! i else x)"
  by (auto simp: vresize_def nth_append)

subsection \<open>Loops over a range or a list\<close>

fun rfold :: "('a \<Rightarrow> 's \<Rightarrow> 's res) \<Rightarrow> 'a list \<Rightarrow> 's \<Rightarrow> 's res" where
  "rfold f [] s = Inr s"
| "rfold f (x # xs) s = rbind (f x s) (rfold f xs)"

lemma rfold_append: "rfold f (xs @ ys) s = rbind (rfold f xs s) (rfold f ys)"
  by (induction xs arbitrary: s) (auto simp: rbind_def split: sum.splits)

lemma rfold_cong [fundef_cong]:
  "xs = ys \<Longrightarrow> s = t \<Longrightarrow> (\<And>x s. x \<in> set ys \<Longrightarrow> f x s = g x s) \<Longrightarrow> rfold f xs s = rfold g ys t"
proof (induction xs arbitrary: ys s t)
  case Nil
  then show ?case by auto
next
  case (Cons x xs)
  then show ?case by (auto simp: rbind_def split: sum.splits)
qed

text \<open>
  The loop rule: an invariant indexed by the number of iterations done.
\<close>

lemma rfold_inv:
  assumes "I 0 s"
    and "\<And>i s. i < length xs \<Longrightarrow> I i s \<Longrightarrow> \<exists>s'. f (xs ! i) s = Inr s' \<and> I (Suc i) s'"
  shows "\<exists>s'. rfold f xs s = Inr s' \<and> I (length xs) s'"
  using assms
proof (induction xs arbitrary: s I)
  case Nil
  then show ?case by simp
next
  case (Cons x xs)
  from Cons.prems(2)[of 0 s] Cons.prems(1) obtain s1
    where s1: "f x s = Inr s1" "I (Suc 0) s1" by auto
  have "\<exists>s'. rfold f xs s1 = Inr s' \<and> (\<lambda>i. I (Suc i)) (length xs) s'"
  proof (rule Cons.IH)
    show "I (Suc 0) s1" by (rule s1)
    show "\<exists>s'. f (xs ! i) s = Inr s' \<and> I (Suc (Suc i)) s'"
      if "i < length xs" "I (Suc i) s" for i s
      using Cons.prems(2)[of "Suc i" s] that by simp
  qed
  with s1 show ?case by simp
qed

subsection \<open>Wrap-around and XOR on natural numbers\<close>

text \<open>Unsigned 32-bit quantities used as indices are natural numbers reduced by \<open>w32\<close>.\<close>

definition w32 :: "nat \<Rightarrow> nat" where
  "w32 n = n mod 2 ^ 32"

lemma w32_id [simp]: "n < 2 ^ 32 \<Longrightarrow> w32 n = n"
  by (simp add: w32_def)

lemma w32_less [simp]: "w32 n < 2 ^ 32" "w32 n < 4294967296"
  by (simp_all add: w32_def)

lemma nat_xor_cancel [simp]:
  fixes a b :: nat
  shows "a XOR (a XOR b) = b" "(a XOR b) XOR b = a" "a XOR (b XOR a) = b"
    "(a XOR b) XOR a = b"
  by (simp_all add: bit_eq_iff bit_xor_iff) auto

lemma word_xor_cancel [simp]:
  fixes a b :: "'a::len word"
  shows "a XOR (a XOR b) = b" "(a XOR b) XOR b = a" "a XOR (b XOR a) = b"
    "(a XOR b) XOR a = b"
  by (simp_all add: bit_eq_iff bit_xor_iff) auto

lemma nat_xor_shift [simp]: "(x XOR a) XOR (x XOR b) = a XOR (b :: nat)"
  by (simp add: bit_eq_iff bit_xor_iff) auto

lemma word_xor_shift [simp]: "(x XOR a) XOR (x XOR b) = a XOR (b :: 'a::len word)"
  by (simp add: bit_eq_iff bit_xor_iff) auto

lemma word_xor_eq_self [simp]: "x XOR a = a \<longleftrightarrow> x = (0 :: 'a::len word)"
  by (metis xor.left_neutral word_xor_cancel(2) xor_self_eq)

text \<open>A loop keeps what every iteration keeps.\<close>

lemma rfold_keeps:
  "rfold f xs s = Inr s' \<Longrightarrow> (\<And>x s s'. x \<in> set xs \<Longrightarrow> f x s = Inr s' \<Longrightarrow> g s' = g s) \<Longrightarrow> g s' = g s"
proof (induction xs arbitrary: s)
  case (Cons x xs)
  from Cons.prems(1) obtain s1 where s1: "f x s = Inr s1" "rfold f xs s1 = Inr s'" by (auto simp: rbind_eq_Inr)
  have "g s' = g s1" by (rule Cons.IH[OF s1(2)]) (rule Cons.prems(2), simp_all)
  also have "g s1 = g s" by (rule Cons.prems(2)[OF _ s1(1)]) simp
  finally show ?case .
qed simp

end
