(* ===== verification/Packed_Cells.thy ===== *)
theory Packed_Cells
  imports Prelude
begin

text \<open>
  Fixed-width cells packed into a vector of 64-bit words, a cell possibly straddling
  two words. The same code occurs as \<open>memSet\<close>/\<open>memGet\<close> and
  \<open>memValueSet\<close>/\<open>memValueGet\<close> of the two Othello planes
  (\<open>src/platform/control_plane_othello.h\<close>, \<open>data_plane_othello.h\<close>) and as
  \<open>memSet\<close>/\<open>getAt\<close> of \<open>bloom_filter.h\<close>; the theories of those components call
  \<open>packed_set\<close> and \<open>packed_get\<close> with their widths and bit positions. The interface
  \<open>cell_array\<close> states what a client may rely on: a read returns the cell last
  written there, cut to its width, and no write touches another cell.
\<close>

subsection \<open>The code\<close>

text \<open>
  \<open>low_mask w\<close> is \<open>~(uint64_t(-1) << w)\<close>; \<open>pos\<close> is the bit position of the cell and
  \<open>w\<close> its width. \<open>left\<close> is the number of bits that fall into the next word; it is a
  \<open>char\<close> in the code and lies between \<open>-63\<close> and \<open>63\<close> for the widths in use.
\<close>

definition low_mask :: "nat \<Rightarrow> u64" where
  "low_mask w = NOT (push_bit w (- 1))"

definition packed_set :: "nat \<Rightarrow> nat \<Rightarrow> u64 \<Rightarrow> u64 list \<Rightarrow> u64 list res" where
  "packed_set w pos value m =
    (let v = value AND low_mask w;
         start = pos div 64;
         offset = pos mod 64;
         left = int offset + int w - 64
     in rbind (vat m start) (\<lambda>x.
        rbind (vput m start ((x AND NOT (push_bit offset (low_mask w))) OR push_bit offset v)) (\<lambda>m1.
        if 0 < left
        then rbind (vat m1 (start + 1)) (\<lambda>y.
             vput m1 (start + 1) ((y AND push_bit (nat left) (- 1)) OR drop_bit (nat (int w - left)) v))
        else Inr m1)))"

definition packed_get :: "nat \<Rightarrow> nat \<Rightarrow> u64 list \<Rightarrow> u64 res" where
  "packed_get w pos m =
    (let start = pos div 64;
         offset = pos mod 64;
         left = max 0 (int offset + int w - 64);
         low = nat (int w - left)
     in rbind (vat m start) (\<lambda>x.
        let r = drop_bit offset x AND low_mask low
        in if 0 < left
           then rbind (vat m (start + 1)) (\<lambda>y.
                Inr (r OR push_bit low (y AND low_mask (nat left))))
           else Inr r))"

lemma bit_low_mask [simp]: "bit (low_mask w) i \<longleftrightarrow> i < 64 \<and> i < w"
  by (auto simp: low_mask_def bit_simps)

lemma low_mask_mask: "low_mask w = mask w"
  by (rule bit_word_eqI) (auto simp: bit_simps)

text \<open>
  The memory as one vector of bits: bit \<open>p\<close> is bit \<open>p mod 64\<close> of word \<open>p div 64\<close>.
\<close>

definition mbit :: "u64 list \<Rightarrow> nat \<Rightarrow> bool" where
  "mbit m p = bit (m ! (p div 64)) (p mod 64)"



lemma pos_div_mod [simp]:
  fixes s x :: nat
  assumes "x < 64"
  shows "(64 * s + x) div 64 = s" "(64 * s + x) mod 64 = x"
  using assms by simp_all

lemma mbit_pos: "x < 64 \<Longrightarrow> mbit m (64 * s + x) = bit (m ! s) x"
  by (simp add: mbit_def)

lemma obtain_pos:
  fixes pos :: nat
  obtains s x where "pos = 64 * s + x" "x < 64"
proof
  show "pos = 64 * (pos div 64) + pos mod 64" "pos mod 64 < 64" by simp_all
qed

lemma packed_get_one:
  assumes "s < length m" "x < 64" "x + w \<le> 64"
  shows "packed_get w (64 * s + x) m = Inr (drop_bit x (m ! s) AND low_mask w)"
proof -
  have "max 0 (int x + int w - 64) = 0" using assms by linarith
  then show ?thesis using assms by (simp add: packed_get_def Let_def)
qed

lemma packed_get_two:
  assumes "Suc s < length m" "x < 64" "64 < x + w" "w \<le> 64"
  shows "packed_get w (64 * s + x) m = Inr ((drop_bit x (m ! s) AND low_mask (64 - x))
       OR push_bit (64 - x) (m ! Suc s AND low_mask (x + w - 64)))"
proof -
  have l: "max 0 (int x + int w - 64) = int (x + w - 64)"
    using assms by linarith
  have low: "nat (int w - int (x + w - 64)) = 64 - x"
    using assms by linarith
  have "s < length m" "0 < int (x + w - 64)" using assms by simp_all
  with assms show ?thesis
    by (simp only: packed_get_def Let_def l low pos_div_mod vat_in rbind_simps if_True nat_int Suc_eq_plus1)
qed

lemma bit_packed_get:
  assumes "pos + w \<le> 64 * length m" "w \<le> 64" "0 < w"
  obtains r where "packed_get w pos m = Inr r" "\<And>b. bit r b \<longleftrightarrow> b < w \<and> mbit m (pos + b)"
proof -
  obtain s x where pos: "pos = 64 * s + x" and x: "x < 64" by (rule obtain_pos)
  show thesis
  proof (cases "x + w \<le> 64")
    case True
    have "s < length m" using assms pos by linarith
    note eq = packed_get_one[OF this x True]
    have "bit (drop_bit x (m ! s) AND low_mask w) b \<longleftrightarrow> b < w \<and> mbit m (pos + b)" for b
    proof (cases "b < w")
      case bw: True
      then have "x + b < 64" using True by linarith
      with bw show ?thesis
        by (simp add: pos add.assoc mbit_pos bit_simps)
    qed (simp add: bit_simps)
    with eq pos that show thesis by blast
  next
    case False
    have "Suc s < length m" using assms False pos by linarith
    note eq = packed_get_two[OF this x _ assms(2)]
    have *: "bit ((drop_bit x (m ! s) AND low_mask (64 - x))
         OR push_bit (64 - x) (m ! Suc s AND low_mask (x + w - 64))) b
        \<longleftrightarrow> b < w \<and> mbit m (pos + b)" for b
    proof (cases "x + b < 64")
      case lo: True
      have "b < w" "b < 64" "\<not> 64 - x \<le> b" using lo False by linarith+
      with lo show ?thesis by (simp add: pos add.assoc mbit_pos bit_simps)
    next
      case hi: False
      then have b: "64 - x \<le> b" "pos + b = 64 * Suc s + (b - (64 - x))" 
        using pos x by simp_all
      show ?thesis
      proof (cases "b < w")
        case True
        then have "b < 64" "b - (64 - x) < x + w - 64" "b - (64 - x) < 64"
          using x hi True False assms(2) by linarith+
        then show ?thesis using b True unfolding b(2)
          by (simp only: mbit_pos bit_simps bit_low_mask) (simp add: bit_simps)
      next
        case False
        with hi x have "\<not> b < 64 - x" "\<not> b - (64 - x) < x + w - 64"
          by linarith+
        with False show ?thesis by (simp add: bit_simps)
      qed
    qed
    from False have "64 < x + w" by simp
    from eq[OF this] * pos that show thesis by blast
  qed
qed

lemma packed_set_one:
  assumes "s < length m" "x < 64" "x + w \<le> 64"
  shows "packed_set w (64 * s + x) v m = Inr (m[s := (m ! s AND NOT (push_bit x (low_mask w)))
     OR push_bit x (v AND low_mask w)])"
proof -
  have "\<not> 0 < int x + int w - 64" using assms by linarith
  then show ?thesis using assms by (simp add: packed_set_def Let_def)
qed

lemma packed_set_two:
  assumes "Suc s < length m" "x < 64" "64 < x + w" "w \<le> 64"
  shows "packed_set w (64 * s + x) v m = Inr (m
     [s := (m ! s AND NOT (push_bit x (low_mask w))) OR push_bit x (v AND low_mask w),
      Suc s := (m ! Suc s AND push_bit (x + w - 64) (- 1)) OR drop_bit (64 - x) (v AND low_mask w)])"
proof -
  have l: "int x + int w - 64 = int (x + w - 64)"
    using assms by linarith
  have low: "nat (int w - int (x + w - 64)) = 64 - x"
    using assms by linarith
  have "s < length m" "0 < int (x + w - 64)" "s \<noteq> Suc s" using assms by simp_all
  with assms show ?thesis
    by (simp only: packed_set_def Let_def l low pos_div_mod vat_in vput_in rbind_simps if_True
       nat_int Suc_eq_plus1[symmetric] length_list_update nth_list_update_neq not_False_eq_True)
qed

lemma mbit_packed_set:
  assumes "pos + w \<le> 64 * length m" "w \<le> 64" "0 < w"
  obtains m' where "packed_set w pos v m = Inr m'" "length m' = length m"
    "\<And>p. p < 64 * length m \<Longrightarrow>
       mbit m' p \<longleftrightarrow> (if pos \<le> p \<and> p < pos + w then bit v (p - pos) else mbit m p)"
proof -
  obtain s x where pos: "pos = 64 * s + x" and x: "x < 64" by (rule obtain_pos)
  show thesis
  proof (cases "x + w \<le> 64")
    case True
    have s: "s < length m" using assms pos by linarith
    note eq = packed_set_one[OF this x True, of v]
    let ?m = "m[s := (m ! s AND NOT (push_bit x (low_mask w))) OR push_bit x (v AND low_mask w)]"
    have "mbit ?m p \<longleftrightarrow> (if pos \<le> p \<and> p < pos + w then bit v (p - pos) else mbit m p)"
      if "p < 64 * length m" for p
    proof -
      obtain t y where p: "p = 64 * t + y" and y: "y < 64" by (rule obtain_pos)
      show ?thesis
      proof (cases "t = s")
        case same: True
        then have "p - pos = y - x" "pos \<le> p \<longleftrightarrow> x \<le> y" "p < pos + w \<longleftrightarrow> y < x + w"
          using p pos by auto
        with s same x y show ?thesis
          by (auto simp add: p mbit_pos bit_simps)
      next
        case diff: False
        then have "\<not> (pos \<le> p \<and> p < pos + w)" using True p pos x y by linarith
        with diff y show ?thesis by (simp only: p mbit_pos) simp
      qed
    qed
    with eq pos that show thesis by (metis length_list_update)
  next
    case False
    have s: "Suc s < length m" using assms False pos by linarith
    let ?m = "m
       [s := (m ! s AND NOT (push_bit x (low_mask w))) OR push_bit x (v AND low_mask w),
        Suc s := (m ! Suc s AND push_bit (x + w - 64) (- 1)) OR drop_bit (64 - x) (v AND low_mask w)]"
    have eq: "packed_set w pos v m = Inr ?m"
      using packed_set_two[OF s x _ assms(2)] False pos by simp
    have "mbit ?m p \<longleftrightarrow> (if pos \<le> p \<and> p < pos + w then bit v (p - pos) else mbit m p)"
      if "p < 64 * length m" for p
    proof -
      obtain t y where p: "p = 64 * t + y" and y: "y < 64" by (rule obtain_pos)
      consider "t = s" | "t = Suc s" | "t \<noteq> s" "t \<noteq> Suc s" by blast
      then show ?thesis
      proof cases
        case 1
        then have "p - pos = y - x" "pos \<le> p \<longleftrightarrow> x \<le> y" "p < pos + w" "y < x + w"
          using p pos False y by auto
        with s 1 x y show ?thesis
          by (auto simp add: p mbit_pos bit_simps)
      next
        case 2
        then have "p - pos = 64 - x + y" "pos \<le> p" "p < pos + w \<longleftrightarrow> y < x + w - 64"
          using p pos x False by auto
        moreover have "64 - x + y < 64 \<and> 64 - x + y < w \<longleftrightarrow> y < x + w - 64" "64 - x + y < w \<longleftrightarrow> y < x + w - 64"
          using False x assms(2) by linarith+
        ultimately show ?thesis using s 2 y
          by (auto simp add: p mbit_pos bit_simps simp del: mult_Suc_right)
      next
        case 3
        then have "\<not> (pos \<le> p \<and> p < pos + w)" using p pos x y assms(2) False by linarith
        with 3 y show ?thesis by (simp only: p mbit_pos) simp
      qed
    qed
    with eq that show thesis by (metis length_list_update)
  qed
qed


lemma mem_eqI:
  assumes "length m = length m'" "\<And>p. p < 64 * length m \<Longrightarrow> mbit m p = mbit m' p"
  shows "m = m'"
proof (rule nth_equalityI [OF assms(1)])
  fix s assume s: "s < length m"
  show "m ! s = m' ! s"
  proof (rule bit_word_eqI)
    fix x assume "x < LENGTH(64)"
    then have x: "x < 64" by simp
    with s have "64 * s + x < 64 * length m" by linarith
    from assms(2)[OF this] show "bit (m ! s) x = bit (m' ! s) x"
      by (simp only: mbit_pos[OF x])
  qed
qed

subsection \<open>Cells\<close>

definition cell_val :: "nat \<Rightarrow> u64 list \<Rightarrow> nat \<Rightarrow> u64" where
  "cell_val w m i = (case packed_get w (i * w) m of Inr r \<Rightarrow> r | Inl _ \<Rightarrow> 0)"

definition cells_valid :: "nat \<Rightarrow> nat \<Rightarrow> u64 list \<Rightarrow> bool" where
  "cells_valid w n m \<longleftrightarrow> 0 < w \<and> w \<le> 64 \<and> n * w \<le> 64 * length m"

lemma cell_pos_bound: "cells_valid w n m \<Longrightarrow> i < n \<Longrightarrow> i * w + w \<le> 64 * length m"
proof -
  assume "cells_valid w n m" "i < n"
  moreover from \<open>i < n\<close> have "Suc i * w \<le> n * w" by (intro mult_le_mono1) simp
  ultimately show ?thesis by (simp add: cells_valid_def)
qed

lemma packed_get_cell:
  assumes "cells_valid w n m" "i < n"
  shows "packed_get w (i * w) m = Inr (cell_val w m i)"
proof -
  obtain r where "packed_get w (i * w) m = Inr r"
    using bit_packed_get cell_pos_bound[OF assms] assms by (metis cells_valid_def)
  then show ?thesis by (simp add: cell_val_def)
qed

lemma bit_cell_val:
  assumes "cells_valid w n m" "i < n"
  shows "bit (cell_val w m i) b \<longleftrightarrow> b < w \<and> mbit m (i * w + b)"
proof -
  obtain r where "packed_get w (i * w) m = Inr r" "\<And>b. bit r b \<longleftrightarrow> b < w \<and> mbit m (i * w + b)"
    using bit_packed_get cell_pos_bound[OF assms] assms by (metis cells_valid_def)
  then show ?thesis by (simp add: cell_val_def)
qed

lemma cell_disjoint:
  fixes i j w b :: nat
  assumes "i \<noteq> j" "b < w"
  shows "\<not> (i * w \<le> j * w + b \<and> j * w + b < i * w + w)"
proof (cases "i < j")
  case True
  then have "Suc i * w \<le> j * w" by (intro mult_le_mono1) simp
  then show ?thesis by simp
next
  case False
  with assms have "Suc j * w \<le> i * w" by (intro mult_le_mono1) simp
  with assms show ?thesis by simp
qed

lemma packed_set_cell:
  assumes v: "cells_valid w n m" and i: "i < n"
  obtains m' where "packed_set w (i * w) x m = Inr m'" "length m' = length m"
    "cells_valid w n m'"
    "\<And>j. j < n \<Longrightarrow> cell_val w m' j = (if j = i then x AND low_mask w else cell_val w m j)"
proof -
  from v have w: "w \<le> 64" "0 < w" by (simp_all add: cells_valid_def)
  obtain m' where m': "packed_set w (i * w) x m = Inr m'" "length m' = length m"
    and b: "\<And>p. p < 64 * length m \<Longrightarrow>
       mbit m' p \<longleftrightarrow> (if i * w \<le> p \<and> p < i * w + w then bit x (p - i * w) else mbit m p)"
    using mbit_packed_set[OF cell_pos_bound[OF v i] w] by blast
  from v m' have v': "cells_valid w n m'" by (simp add: cells_valid_def)
  have "cell_val w m' j = (if j = i then x AND low_mask w else cell_val w m j)" if j: "j < n" for j
  proof (rule bit_word_eqI)
    fix a assume a: "a < LENGTH(64)"
    show "bit (cell_val w m' j) a = bit (if j = i then x AND low_mask w else cell_val w m j) a"
    proof (cases "a < w")
      case True
      from cell_pos_bound[OF v j] True have "j * w + a < 64 * length m" by linarith
      from b[OF this] True a cell_disjoint[of i j a w] show ?thesis
        by (auto simp: bit_cell_val[OF v' j] bit_cell_val[OF v j] bit_simps)
    next
      case False
      then show ?thesis
        by (simp add: bit_cell_val[OF v' j] bit_cell_val[OF v j] bit_simps)
    qed
  qed
  with m' v' that show thesis by blast
qed

lemma packed_set_flip:
  assumes "p < 64 * length m"
  shows "packed_set 1 p x m =
    Inr (if bit x 0 = mbit m p then m
         else m[p div 64 := m ! (p div 64) XOR push_bit (p mod 64) 1])"
proof -
  have "p + 1 \<le> 64 * length m" using assms by simp
  then obtain m' where m': "packed_set 1 p x m = Inr m'" "length m' = length m"
    "\<And>q. q < 64 * length m \<Longrightarrow>
       mbit m' q \<longleftrightarrow> (if p \<le> q \<and> q < p + 1 then bit x (q - p) else mbit m q)"
    using mbit_packed_set[of p 1 m x] by auto
  have d: "p div 64 < length m" using assms by (simp add: less_mult_imp_div_less mult.commute)
  have "m' = (if bit x 0 = mbit m p then m
         else m[p div 64 := m ! (p div 64) XOR push_bit (p mod 64) 1])" (is "_ = ?r")
  proof (rule mem_eqI)
    show "length m' = length ?r" using m' by simp
    fix q assume "q < 64 * length m'"
    then have "mbit m' q = (if q = p then bit x 0 else mbit m q)"
      using m' by auto
    moreover have "mbit ?r q = (if q = p then bit x 0 else mbit m q)"
    proof -
      obtain t y where q: "q = 64 * t + y" and y: "y < 64" by (rule obtain_pos)
      obtain s z where p: "p = 64 * s + z" and z: "z < 64" by (rule obtain_pos)
      from p d z have "s < length m" by simp
      with p q y z show ?thesis
        by (cases "t = s") (auto simp add: mbit_pos bit_simps)
    qed
    ultimately show "mbit m' q = mbit ?r q" by simp
  qed
  with m' show ?thesis by simp
qed

subsection \<open>The interface\<close>

text \<open>
  What the tables need of their cell memory. \<open>ok m\<close> is the provider's invariant,
  \<open>n\<close> the number of cells, \<open>keep\<close> the mask of a cell's bits.
\<close>

locale cell_array =
  fixes get :: "nat \<Rightarrow> 'm \<Rightarrow> u64 res"
    and put :: "nat \<Rightarrow> u64 \<Rightarrow> 'm \<Rightarrow> 'm res"
    and cell :: "'m \<Rightarrow> nat \<Rightarrow> u64"
    and ok :: "'m \<Rightarrow> bool"
    and n :: nat
    and keep :: u64
  assumes get_cell: "ok m \<Longrightarrow> i < n \<Longrightarrow> get i m = Inr (cell m i)"
    and put_cell: "ok m \<Longrightarrow> i < n \<Longrightarrow> \<exists>m'. put i x m = Inr m' \<and> ok m' \<and>
      (\<forall>j<n. cell m' j = (if j = i then x AND keep else cell m j))"
begin

lemma get_put_same:
  assumes "ok m" "i < n"
  shows "rbind (put i x m) (get i) = Inr (x AND keep)"
proof -
  from put_cell[OF assms] obtain m' where m': "put i x m = Inr m'" "ok m'"
    "\<forall>j<n. cell m' j = (if j = i then x AND keep else cell m j)" by blast
  with assms get_cell[of m' i] show ?thesis by simp
qed

lemma get_put_other:
  assumes "ok m" "i < n" "j < n" "j \<noteq> i"
  shows "rbind (put i x m) (get j) = get j m"
proof -
  from put_cell[OF assms(1,2)] obtain m' where m': "put i x m = Inr m'" "ok m'"
    "\<forall>j<n. cell m' j = (if j = i then x AND keep else cell m j)" by blast
  with assms get_cell[of m' j] get_cell[of m j] show ?thesis by simp
qed

text \<open>Writing the first \<open>k\<close> cells one after the other.\<close>

lemma put_all:
  assumes "ok m" "k \<le> n"
  shows "\<exists>m'. rfold (\<lambda>i. put i (f i)) [0..<k] m = Inr m' \<and> ok m' \<and>
     (\<forall>j<n. cell m' j = (if j < k then f j AND keep else cell m j))"
proof -
  let ?I = "\<lambda>i m'. ok m' \<and> (\<forall>j<n. cell m' j = (if j < i then f j AND keep else cell m j))"
  have "\<exists>m'. rfold (\<lambda>i. put i (f i)) [0..<k] m = Inr m' \<and> ?I (length [0..<k]) m'"
  proof (rule rfold_inv[where I = ?I])
    show "?I 0 m" using assms by simp
    fix i m1 assume i: "i < length [0..<k]" and I: "?I i m1"
    with assms have "i < n" by simp
    with put_cell[of m1 i "f i"] I obtain m' where m': "put i (f i) m1 = Inr m'" "ok m'"
      "\<forall>j<n. cell m' j = (if j = i then f i AND keep else cell m1 j)" by blast
    with I have "\<forall>j<n. cell m' j = (if j < Suc i then f j AND keep else cell m j)"
      by (auto simp: less_Suc_eq)
    with m' i show "\<exists>m'. put ([0..<k] ! i) (f ([0..<k] ! i)) m1 = Inr m' \<and> ?I (Suc i) m'"
      by auto
  qed
  then show ?thesis by simp
qed

end

interpretation packed: cell_array
  "\<lambda>i. packed_get w (i * w)" "\<lambda>i. packed_set w (i * w)" "cell_val w" "cells_valid w n" n "low_mask w"
  for w n
proof
  show "packed_get w (i * w) m = Inr (cell_val w m i)" if "cells_valid w n m" "i < n" for m i
    using that by (rule packed_get_cell)
  show "\<exists>m'. packed_set w (i * w) x m = Inr m' \<and> cells_valid w n m' \<and>
      (\<forall>j<n. cell_val w m' j = (if j = i then x AND low_mask w else cell_val w m j))"
    if "cells_valid w n m" "i < n" for m i x
    using packed_set_cell[OF that, of x] by metis
qed

subsection \<open>Reading back what was written\<close>

text \<open>
  C34: Writing a value of \<open>w\<close> bits into cell \<open>i\<close> of a packed memory stays inside the vector
  and changes that cell only: reading cell \<open>i\<close> gives the value cut to \<open>w\<close> bits, and reading
  any other cell gives what it gave before, also when cells straddle two memory words.
\<close>

theorem packed_write_read:
  assumes "cells_valid w n m" "i < n"
  shows "\<exists>m'. packed_set w (i * w) v m = Inr m' \<and> length m' = length m \<and>
     (\<forall>j<n. packed_get w (j * w) m' = (if j = i then Inr (v AND low_mask w) else packed_get w (j * w) m))"
proof -
  obtain m' where m': "packed_set w (i * w) v m = Inr m'" "length m' = length m" "cells_valid w n m'"
    "\<And>j. j < n \<Longrightarrow> cell_val w m' j = (if j = i then v AND low_mask w else cell_val w m j)"
    using packed_set_cell[OF assms] by metis
  then show ?thesis using packed_get_cell assms(1) by auto
qed

lemma packed_write_read_witness:
  "\<exists>m'. packed_set 5 (12 * 5) 29 [7, 9] = Inr m' \<and> length m' = length [7, 9 :: u64] \<and>
     (\<forall>j<25. packed_get 5 (j * 5) m' = (if j = 12 then Inr (29 AND low_mask 5) else packed_get 5 (j * 5) [7, 9]))"
  by (rule packed_write_read) (simp_all add: cells_valid_def)

end
