(* ===== verification/Disjoint_Set.thy ===== *)
theory Disjoint_Set
  imports Prelude
begin

text \<open>
  The disjoint-set structure of \<open>src/utils/disjointset.h\<close>: a vector of parents with
  \<open>-1\<close> for a node not seen yet, path compression by recursion, and no union by rank.
  \<open>ds_ok m R d\<close> is its invariant: \<open>R\<close> gives every node its representative and \<open>d\<close> is a
  depth that strictly decreases towards the representative and stays below the size of
  the class, which bounds the recursion of \<open>representative\<close> by the number of nodes.
\<close>

text \<open>Indices are \<open>int\<close>; an unsigned 32-bit argument is converted to it.\<close>

definition s32 :: "nat \<Rightarrow> int" where
  "s32 n = (if n < 2 ^ 31 then int n else int n - 2 ^ 32)"

definition ivat :: "'a list \<Rightarrow> int \<Rightarrow> 'a res" where
  "ivat xs i = (if 0 \<le> i then vat xs (nat i) else Inl OutOfBounds)"

definition ivput :: "'a list \<Rightarrow> int \<Rightarrow> 'a \<Rightarrow> 'a list res" where
  "ivput xs i x = (if 0 \<le> i then vput xs (nat i) x else Inl OutOfBounds)"

lemma ivat_int [simp]: "ivat xs (int i) = vat xs i"
  by (simp add: ivat_def)

lemma ivput_int [simp]: "ivput xs (int i) x = vput xs i x"
  by (simp add: ivput_def)

lemma s32_small [simp]: "n < 2 ^ 31 \<Longrightarrow> s32 n = int n"
  by (simp add: s32_def)

subsection \<open>The code\<close>

definition ds_set :: "int list \<Rightarrow> int \<Rightarrow> int \<Rightarrow> int list res" where
  "ds_set m i parent = ivput m i parent"

fun representative :: "nat \<Rightarrow> int list \<Rightarrow> int \<Rightarrow> (int \<times> int list) res" where
  "representative 0 m i = Inl Diverges"
| "representative (Suc fuel) m i =
     rbind (ivat m i) (\<lambda>p.
     if p < 0 then rbind (ivput m i i) (\<lambda>m1. Inr (i, m1))
     else if p \<noteq> i then
       rbind (representative fuel m p) (\<lambda>(r, m1).
       rbind (ivput m1 i r) (\<lambda>m2. Inr (r, m2)))
     else Inr (i, m))"

definition ds_find :: "int list \<Rightarrow> int \<Rightarrow> (int \<times> int list) res" where
  "ds_find m i = representative (Suc (length m)) m i"

text \<open>
  \<open>merge\<close> computes both representatives in one assignment, in an order C++11 leaves open; the model
  takes that of \<open>b\<close> first. The compressed paths, and the array after the assignment, are the same in the other order.
\<close>

definition ds_merge :: "int list \<Rightarrow> int \<Rightarrow> int \<Rightarrow> int list res" where
  "ds_merge m a b =
     rbind (ds_find m b) (\<lambda>(rb, m1).
     rbind (ds_find m1 a) (\<lambda>(ra, m2).
     ivput m2 rb ra))"

definition ds_sameSet :: "int list \<Rightarrow> int \<Rightarrow> int \<Rightarrow> (bool \<times> int list) res" where
  "ds_sameSet m a b =
     rbind (ds_find m a) (\<lambda>(ra, m1).
     rbind (ds_find m1 b) (\<lambda>(rb, m2).
     Inr (ra = rb, m2)))"

definition ds_isRoot :: "int list \<Rightarrow> int \<Rightarrow> bool res" where
  "ds_isRoot m a = rbind (ivat m a) (\<lambda>p. Inr (p = a))"

definition ds_reset :: "int list \<Rightarrow> int list" where
  "ds_reset m = map (\<lambda>_. - 1) m"

definition ds_resize :: "int list \<Rightarrow> nat \<Rightarrow> int list" where
  "ds_resize m n = vresize n (- 1) m"

subsection \<open>The invariant\<close>

definition class_of :: "int list \<Rightarrow> (nat \<Rightarrow> nat) \<Rightarrow> nat \<Rightarrow> nat set" where
  "class_of m R i = {j. j < length m \<and> R j = R i}"

definition ds_ok :: "int list \<Rightarrow> (nat \<Rightarrow> nat) \<Rightarrow> (nat \<Rightarrow> nat) \<Rightarrow> bool" where
  "ds_ok m R d \<longleftrightarrow> (\<forall>i < length m.
     R i < length m \<and> R (R i) = R i \<and> d (R i) = 0 \<and> d i < card (class_of m R i) \<and>
     (m ! i < 0 \<longrightarrow> R i = i) \<and>
     (0 \<le> m ! i \<longrightarrow> nat (m ! i) < length m \<and> R (nat (m ! i)) = R i) \<and>
     (0 \<le> m ! i \<and> m ! i = int i \<longrightarrow> R i = i) \<and>
     (0 \<le> m ! i \<and> m ! i \<noteq> int i \<longrightarrow> d (nat (m ! i)) < d i))"

lemma ds_okD:
  assumes "ds_ok m R d" "i < length m"
  shows "R i < length m" "R (R i) = R i" "d (R i) = 0" "d i < card (class_of m R i)"
    "m ! i < 0 \<Longrightarrow> R i = i"
    "0 \<le> m ! i \<Longrightarrow> nat (m ! i) < length m" "0 \<le> m ! i \<Longrightarrow> R (nat (m ! i)) = R i"
    "m ! i = int i \<Longrightarrow> R i = i"
    "0 \<le> m ! i \<Longrightarrow> m ! i \<noteq> int i \<Longrightarrow> d (nat (m ! i)) < d i"
  using assms by (auto simp: ds_ok_def)

lemma finite_class [simp]: "finite (class_of m R i)"
  by (simp add: class_of_def)

lemma class_of_le: "card (class_of m R i) \<le> length m"
proof -
  have "card (class_of m R i) \<le> card {..<length m}"
    by (rule card_mono) (auto simp: class_of_def)
  then show ?thesis by simp
qed

lemma ds_ok_root: "ds_ok m R d \<Longrightarrow> i < length m \<Longrightarrow> d i = 0 \<longleftrightarrow> R i = i"
  by (metis ds_okD(3,5,8,9) leI less_nat_zero_code)

text \<open>writing the representative at a node keeps the structure\<close>
lemma ds_ok_compress:
  assumes "ds_ok m R d" "i < length m"
  shows "ds_ok (m[i := int (R i)]) R d"
proof -
  have "class_of (m[i := int (R i)]) R j = class_of m R j" for j
    by (simp add: class_of_def)
  moreover have "R i \<noteq> i \<Longrightarrow> 0 < d i" using ds_ok_root[OF assms] by simp
  ultimately show ?thesis using assms
    unfolding ds_ok_def by (auto simp: nth_list_update)
qed

text \<open>
  Path compression only writes entries of the classes \<open>S\<close> it looks at, and never makes an
  entry negative again.
\<close>

definition touch :: "(nat \<Rightarrow> nat) \<Rightarrow> nat set \<Rightarrow> int list \<Rightarrow> int list \<Rightarrow> bool" where
  "touch R S m m' \<longleftrightarrow> length m' = length m \<and>
     (\<forall>j < length m. (0 \<le> m ! j \<longrightarrow> 0 \<le> m' ! j) \<and> (R j \<notin> S \<longrightarrow> m' ! j = m ! j))"

lemma touchD:
  assumes "touch R S m m'"
  shows "length m' = length m" "j < length m \<Longrightarrow> 0 \<le> m ! j \<Longrightarrow> 0 \<le> m' ! j"
    "j < length m \<Longrightarrow> R j \<notin> S \<Longrightarrow> m' ! j = m ! j"
  using assms by (simp_all add: touch_def)

lemma touch_refl [simp]: "touch R S m m"
  by (simp add: touch_def)

lemma touch_trans: "touch R S m m' \<Longrightarrow> touch R T m' m'' \<Longrightarrow> touch R (S \<union> T) m m''"
  by (simp add: touch_def)

lemma touch_put: "touch R S m m' \<Longrightarrow> i < length m \<Longrightarrow> R i \<in> S \<Longrightarrow> touch R S m (m'[i := int r])"
  by (auto simp: touch_def nth_list_update)

lemma representative_ok:
  assumes "ds_ok m R d" "i < length m" "d i < fuel"
  shows "\<exists>m'. representative fuel m (int i) = Inr (int (R i), m') \<and> ds_ok m' R d \<and>
     touch R {R i} m m' \<and> 0 \<le> m' ! R i"
  using assms
proof (induction fuel arbitrary: i m)
  case 0
  then show ?case by simp
next
  case (Suc fuel)
  note ok = ds_okD[OF Suc.prems(1,2)]
  consider "m ! i < 0" | "0 \<le> m ! i" "m ! i = int i" | "0 \<le> m ! i" "m ! i \<noteq> int i" by linarith
  then show ?case
  proof cases
    case 1
    then have R: "R i = i" by (rule ok)
    with ds_ok_compress[OF Suc.prems(1,2)] have "ds_ok (m[i := int i]) R d" by simp
    with 1 R Suc.prems touch_put[OF touch_refl Suc.prems(2), of R "{i}"] show ?thesis
      by (auto simp: nth_list_update)
  next
    case 2
    then have "R i = i" using ok by blast
    with 2 Suc.prems show ?thesis by auto
  next
    case 3
    have p: "nat (m ! i) < length m" "R (nat (m ! i)) = R i" "d (nat (m ! i)) < fuel"
      using ok(6,7,9) 3 Suc.prems(3) by auto
    from Suc.IH[OF Suc.prems(1) p(1,3)] 3(1) obtain m1 where m1:
      "representative fuel m (m ! i) = Inr (int (R i), m1)" "ds_ok m1 R d"
      "touch R {R i} m m1" "0 \<le> m1 ! R i"
      by (auto simp: p(2))
    note l = touchD(1)[OF m1(3)]
    from m1 l Suc.prems have "ds_ok (m1[i := int (R i)]) R d"
      by (intro ds_ok_compress) auto
    moreover have "touch R {R i} m (m1[i := int (R i)])"
      using m1(3) Suc.prems(2) by (rule touch_put) simp
    moreover have "0 \<le> m1[i := int (R i)] ! R i" using m1 l ok Suc.prems
      by (auto simp: nth_list_update)
    ultimately show ?thesis using 3 m1 l Suc.prems by auto
  qed
qed

lemma ds_find_ok:
  assumes "ds_ok m R d" "i < length m"
  obtains m' where "ds_find m (int i) = Inr (int (R i), m')" "ds_ok m' R d"
     "touch R {R i} m m'" "0 \<le> m' ! R i"
proof -
  have "d i < Suc (length m)" using ds_okD(4)[OF assms] class_of_le[of m R i] by linarith
  from representative_ok[OF assms this] that show thesis by (auto simp: ds_find_def)
qed

definition join_rep :: "(nat \<Rightarrow> nat) \<Rightarrow> nat \<Rightarrow> nat \<Rightarrow> nat \<Rightarrow> nat" where
  "join_rep R a b = (\<lambda>j. if R j = R b then R a else R j)"

lemma ds_ok_join:
  assumes ok: "ds_ok m R d" and a: "a < length m" and b: "b < length m" and ne: "R a \<noteq> R b"
  shows "ds_ok (m[R b := int (R a)]) (join_rep R a b) (\<lambda>j. if R j = R b then Suc (d j) else d j)"
    (is "ds_ok ?m ?R ?d")
proof -
  note A = ds_okD[OF ok a] and B = ds_okD[OF ok b]
  have cls: "class_of m R a \<union> class_of m R b \<subseteq> class_of ?m ?R i" if "R i = R a \<or> R i = R b" for i
    using that by (auto simp: class_of_def join_rep_def)
  have disj: "class_of m R a \<inter> class_of m R b = {}"
    using ne by (auto simp: class_of_def)
  have ge: "card (class_of m R a) + card (class_of m R b) \<le> card (class_of ?m ?R i)"
    if "R i = R a \<or> R i = R b" for i
    using card_mono[OF _ cls[OF that]] card_Un_disjoint[OF _ _ disj] by simp
  have other: "class_of ?m ?R i = class_of m R i" if "R i \<noteq> R a" "R i \<noteq> R b" for i
    using that by (auto simp: class_of_def join_rep_def)
  have ca: "0 < card (class_of m R a)" using A(4) by simp
  show ?thesis unfolding ds_ok_def
  proof (intro allI impI)
    fix i assume "i < length ?m"
    then have i: "i < length m" by simp
    note I = ds_okD[OF ok i]
    have sz: "?d i < card (class_of ?m ?R i)"
    proof (cases "R i = R b")
      case True
      then have "class_of m R i = class_of m R b" by (auto simp: class_of_def)
      with I(4) ge[of i] ca True show ?thesis by simp
    next
      case False
      then show ?thesis
      proof (cases "R i = R a")
        case True
        then have "class_of m R i = class_of m R a" by (auto simp: class_of_def)
        with I(4) ge[of i] False True show ?thesis by simp
      qed (use I(4) other in simp)
    qed
    show "?R i < length ?m \<and> ?R (?R i) = ?R i \<and> ?d (?R i) = 0 \<and> ?d i < card (class_of ?m ?R i) \<and>
     (?m ! i < 0 \<longrightarrow> ?R i = i) \<and>
     (0 \<le> ?m ! i \<longrightarrow> nat (?m ! i) < length ?m \<and> ?R (nat (?m ! i)) = ?R i) \<and>
     (0 \<le> ?m ! i \<and> ?m ! i = int i \<longrightarrow> ?R i = i) \<and>
     (0 \<le> ?m ! i \<and> ?m ! i \<noteq> int i \<longrightarrow> ?d (nat (?m ! i)) < ?d i)"
    proof (cases "i = R b")
      case True
      with A B ne sz i show ?thesis by (auto simp: join_rep_def)
    next
      case False
      then have "?m ! i = m ! i" by simp
      moreover have "m ! i < 0 \<Longrightarrow> R i \<noteq> R b" "m ! i = int i \<Longrightarrow> R i \<noteq> R b"
        using I(5,8) False by auto
      ultimately show ?thesis using I A B ne sz i
        by (auto simp: join_rep_def)
    qed
  qed
qed

lemma ds_merge_ok:
  assumes ok: "ds_ok m R d" and a: "a < length m" and b: "b < length m"
  obtains m' d' where "ds_merge m (int a) (int b) = Inr m'" "ds_ok m' (join_rep R a b) d'"
    "touch R {R a, R b} m m'" "0 \<le> m' ! R a"
proof -
  from ds_find_ok[OF ok b] obtain m1 where m1:
    "ds_find m (int b) = Inr (int (R b), m1)" "ds_ok m1 R d" "touch R {R b} m m1" by metis
  note l1 = touchD(1)[OF m1(3)]
  from ds_find_ok[OF m1(2), of a] a l1 obtain m2 where m2:
    "ds_find m1 (int a) = Inr (int (R a), m2)" "ds_ok m2 R d" "touch R {R a} m1 m2" "0 \<le> m2 ! R a" by metis
  note l2 = touchD(1)[OF m2(3)]
  have rb: "R b < length m" "R a < length m" "R (R b) = R b" using ds_okD(1,2)[OF ok] a b by auto
  have eq: "ds_merge m (int a) (int b) = Inr (m2[R b := int (R a)])"
    using m1 m2 rb l1 l2 by (simp add: ds_merge_def)
  have t: "touch R {R a, R b} m m2" using touch_trans[OF m1(3) m2(3)] by (simp add: insert_commute)
  have "touch R {R a, R b} m (m2[R b := int (R a)])"
    by (rule touch_put[OF t rb(1)]) (simp add: rb)
  moreover have "\<exists>d'. ds_ok (m2[R b := int (R a)]) (join_rep R a b) d'"
  proof (cases "R a = R b")
    case True
    then have "join_rep R a b = R" by (auto simp: join_rep_def)
    then show ?thesis using True ds_ok_compress[OF m2(2), of "R b"] rb l1 l2 by auto
  next
    case False
    from ds_ok_join[OF m2(2) _ _ False] a b l1 l2 show ?thesis by auto
  qed
  moreover have "0 \<le> m2[R b := int (R a)] ! R a" using m2 rb l1 l2 by (auto simp: nth_list_update)
  ultimately show thesis using eq that[of "m2[R b := int (R a)]"] by blast
qed

lemma ds_sameSet_ok:
  assumes ok: "ds_ok m R d" and a: "a < length m" and b: "b < length m"
  obtains m' where "ds_sameSet m (int a) (int b) = Inr (R a = R b, m')" "ds_ok m' R d"
    "touch R {R a, R b} m m'"
proof -
  from ds_find_ok[OF ok a] obtain m1 where m1:
    "ds_find m (int a) = Inr (int (R a), m1)" "ds_ok m1 R d" "touch R {R a} m m1" by metis
  note l1 = touchD(1)[OF m1(3)]
  from ds_find_ok[OF m1(2), of b] b l1 obtain m2 where m2:
    "ds_find m1 (int b) = Inr (int (R b), m2)" "ds_ok m2 R d" "touch R {R b} m1 m2" by metis
  have "touch R {R a, R b} m m2" using touch_trans[OF m1(3) m2(3)] by (simp add: insert_commute)
  with m1 m2 that[of m2] show thesis by (simp add: ds_sameSet_def)
qed

lemma ds_reset_ok: "ds_ok (ds_reset m) (\<lambda>i. i) (\<lambda>_. 0)"
  by (auto simp: ds_ok_def ds_reset_def class_of_def card_gt_0_iff)

lemma length_ds_reset [simp]: "length (ds_reset m) = length m"
  by (simp add: ds_reset_def)

lemma ds_isRoot_ok:
  assumes "ds_ok m R d" "i < length m"
  shows "ds_isRoot m (int i) = Inr (R i = i \<and> 0 \<le> m ! i)"
proof -
  note I = ds_okD[OF assms]
  have "m ! i = int i \<longleftrightarrow> R i = i \<and> 0 \<le> m ! i"
    using I(3,8,9) by (metis less_nat_zero_code of_nat_0_le_iff)
  with assms show ?thesis by (simp add: ds_isRoot_def)
qed

text \<open>splitting a class into two flat classes\<close>
lemma ds_ok_split:
  assumes ok: "ds_ok m R d" and a: "a < length m" and b: "b < length m"
    and cls: "A \<union> B = class_of m R a" "A \<inter> B = {}" "a \<in> A" "b \<in> B"
    and m': "length m' = length m"
      "\<And>j. j < length m \<Longrightarrow> m' ! j = (if j \<in> A then int a else if j \<in> B then int b else m ! j)"
  shows "ds_ok m' (\<lambda>j. if j \<in> A then a else if j \<in> B then b else R j)
      (\<lambda>j. if j \<in> A \<union> B then (if j = a \<or> j = b then 0 else 1) else d j)"
    (is "ds_ok m' ?R ?d")
  unfolding ds_ok_def
proof (intro allI impI)
  fix i assume "i < length m'"
  with m' have i: "i < length m" by simp
  note I = ds_okD[OF ok i]
  have AB: "j \<in> A \<or> j \<in> B \<longleftrightarrow> j < length m \<and> R j = R a" for j
    using cls(1) by (auto simp: class_of_def)
  have AB': "j \<in> A \<longleftrightarrow> j < length m \<and> R j = R a \<and> j \<notin> B" for j
    using AB[of j] cls(2) by blast
  have ab: "a \<noteq> b" "a \<notin> B" "b \<notin> A" using cls by auto
  have inAB: "j < length m" if "j \<in> A \<or> j \<in> B" for j using that AB by blast
  have clsA: "class_of m' ?R j = A" if "j \<in> A" for j
  proof -
    have *: "?R k = a \<longleftrightarrow> k \<in> A" if k: "k < length m" for k
      using k ab cls(2,3) AB[of k] AB[of a] ds_okD(2)[OF ok k] by (cases "k \<in> B") auto
    have "class_of m' ?R j = {k. k < length m \<and> ?R k = a}"
      using that m'(1) by (simp add: class_of_def)
    also have "\<dots> = A" using * inAB by blast
    finally show ?thesis .
  qed
  have clsB: "class_of m' ?R j = B" if "j \<in> B" for j
  proof -
    have "j \<notin> A" using that cls(2) by blast
    have *: "?R k = b \<longleftrightarrow> k \<in> B" if k: "k < length m" for k
      using k ab cls(2,4) AB[of k] AB[of b] ds_okD(2)[OF ok k] by (cases "k \<in> A") auto
    have "class_of m' ?R j = {k. k < length m \<and> ?R k = b}"
      using that m'(1) \<open>j \<notin> A\<close> by (simp add: class_of_def)
    also have "\<dots> = B" using * inAB by blast
    finally show ?thesis .
  qed
  have rr: "R k \<notin> A \<and> R k \<notin> B" if "k \<notin> A" "k \<notin> B" "k < length m" for k
    using that AB ds_okD(1,2)[OF ok] by metis
  have clsO: "class_of m' ?R i = class_of m R i" if o: "i \<notin> A" "i \<notin> B"
  proof -
    have *: "?R k = ?R i \<longleftrightarrow> R k = R i" if k: "k < length m" for k
      using k o ab cls(3,4) AB[of k] AB[of i] rr[OF o i] i by auto
    have "class_of m' ?R i = {k. k < length m \<and> ?R k = ?R i}"
      using m'(1) by (simp only: class_of_def)
    also have "\<dots> = class_of m R i" unfolding class_of_def using * by blast
    finally show ?thesis .
  qed
  have fin: "finite A" "finite B" using finite_subset[OF _ finite_class[of m R a]] cls(1) by blast+
  have "1 < card A" if "j \<in> A" "j \<noteq> a" for j
    using that cls(3) fin card_le_Suc0_iff_eq[of A] by (metis One_nat_def not_less)
  moreover have "1 < card B" if "j \<in> B" "j \<noteq> b" for j
    using that cls(4) fin card_le_Suc0_iff_eq[of B] by (metis One_nat_def not_less)
  moreover have "0 < card A" "0 < card B" using fin cls(3,4) by (auto simp: card_gt_0_iff)
  ultimately have sz: "?d i < card (class_of m' ?R i)"
    using clsA[of i] clsB[of i] clsO I(4) ab by auto
  show "?R i < length m' \<and> ?R (?R i) = ?R i \<and> ?d (?R i) = 0 \<and> ?d i < card (class_of m' ?R i) \<and>
     (m' ! i < 0 \<longrightarrow> ?R i = i) \<and>
     (0 \<le> m' ! i \<longrightarrow> nat (m' ! i) < length m' \<and> ?R (nat (m' ! i)) = ?R i) \<and>
     (0 \<le> m' ! i \<and> m' ! i = int i \<longrightarrow> ?R i = i) \<and>
     (0 \<le> m' ! i \<and> m' ! i \<noteq> int i \<longrightarrow> ?d (nat (m' ! i)) < ?d i)"
  proof (cases "i \<in> A \<or> i \<in> B")
    case True
    have aA: "a \<in> A" and bB: "b \<in> B" by (fact cls)+
    from True show ?thesis
    proof
      assume iA: "i \<in> A"
      then have "m' ! i = int a" using m'(2)[OF i] by simp
      moreover have "i \<noteq> b" using iA ab by blast
      ultimately show ?thesis using iA sz m'(1) a aA by simp
    next
      assume iB: "i \<in> B"
      then have "i \<notin> A" using cls(2) by blast
      with iB have "m' ! i = int b" using m'(2)[OF i] by simp
      moreover have "i \<noteq> a" using iB ab by blast
      ultimately show ?thesis using iB \<open>i \<notin> A\<close> sz m'(1) b bB ab by simp
    qed
  next
    case False
    then have pn: "nat (m ! i) \<notin> A \<and> nat (m ! i) \<notin> B" if "0 \<le> m ! i"
      using that AB i I(7) by metis
    from False have "m' ! i = m ! i" using m'(2)[OF i] by simp
    with False sz I rr[of i] i pn m'(1) show ?thesis by auto
  qed
qed

subsection \<open>Union and find\<close>

text \<open>
  C35: On a well-formed array with representatives \<open>R\<close>, \<open>merge\<close> returns, joins exactly the two
  classes of its arguments and leaves the array well-formed; a \<open>sameSet\<close> asked next, which
  compresses paths itself, returns and answers by the joined classes.
\<close>

theorem merge_then_sameSet:
  assumes "ds_ok m R d" "a < length m" "b < length m" "u < length m" "v < length m"
  shows "\<exists>m1 m2 d'. ds_merge m (int a) (int b) = Inr m1 \<and> ds_ok m1 (join_rep R a b) d' \<and>
     ds_sameSet m1 (int u) (int v) = Inr (R u = R v \<or> (R u \<in> {R a, R b} \<and> R v \<in> {R a, R b}), m2) \<and>
     ds_ok m2 (join_rep R a b) d'"
proof -
  from ds_merge_ok[OF assms(1-3)] obtain m1 d' where m1: "ds_merge m (int a) (int b) = Inr m1"
    "ds_ok m1 (join_rep R a b) d'" "touch R {R a, R b} m m1" by metis
  have l: "u < length m1" "v < length m1" using touchD(1)[OF m1(3)] assms(4,5) by simp_all
  from ds_sameSet_ok[OF m1(2) l] obtain m2 where m2:
    "ds_sameSet m1 (int u) (int v) = Inr (join_rep R a b u = join_rep R a b v, m2)"
    "ds_ok m2 (join_rep R a b) d'" by metis
  have eq: "(join_rep R a b u = join_rep R a b v) = (R u = R v \<or> (R u \<in> {R a, R b} \<and> R v \<in> {R a, R b}))"
    by (auto simp: join_rep_def)
  show ?thesis by (rule exI[of _ m1], rule exI[of _ m2], rule exI[of _ d'])
    (simp only: m1(1,2) m2(2) m2(1)[unfolded eq] simp_thms)
qed

lemma merge_then_sameSet_witness:
  "\<exists>m1 m2 d'. ds_merge (ds_reset [0, 0, 0]) (int 0) (int 2) = Inr m1 \<and> ds_ok m1 (join_rep (\<lambda>i. i) 0 2) d' \<and>
     ds_sameSet m1 (int 2) (int 0) =
       Inr ((2 :: nat) = 0 \<or> ((2 :: nat) \<in> {0, 2} \<and> (0 :: nat) \<in> {0, 2}), m2) \<and>
     ds_ok m2 (join_rep (\<lambda>i. i) 0 2) d'"
  by (rule merge_then_sameSet[OF ds_reset_ok]) simp_all

text \<open>The union-find contract, as the control plane uses it.\<close>

locale union_find =
  fixes same :: "'m \<Rightarrow> nat \<Rightarrow> nat \<Rightarrow> (bool \<times> 'm) res"
    and join :: "'m \<Rightarrow> nat \<Rightarrow> nat \<Rightarrow> 'm res"
    and rel :: "'m \<Rightarrow> (nat \<Rightarrow> nat) \<Rightarrow> bool"
    and size :: "'m \<Rightarrow> nat"
  assumes same_ok: "rel m R \<Longrightarrow> a < size m \<Longrightarrow> b < size m \<Longrightarrow>
      \<exists>m'. same m a b = Inr (R a = R b, m') \<and> rel m' R \<and> size m' = size m"
    and join_ok: "rel m R \<Longrightarrow> a < size m \<Longrightarrow> b < size m \<Longrightarrow>
      \<exists>m'. join m a b = Inr m' \<and> rel m' (join_rep R a b) \<and> size m' = size m"
begin

text \<open>Asking and joining edge by edge, stopping at the first edge inside one class.\<close>

fun join_all :: "(nat \<times> nat) list \<Rightarrow> 'm \<Rightarrow> (bool \<times> 'm) res" where
  "join_all [] m = Inr (True, m)"
| "join_all ((a, b) # es) m =
     rbind (same m a b) (\<lambda>(s, m1). if s then Inr (False, m1) else rbind (join m1 a b) (join_all es))"

fun fold_rep :: "(nat \<times> nat) list \<Rightarrow> (nat \<Rightarrow> nat) \<Rightarrow> (nat \<Rightarrow> nat) option" where
  "fold_rep [] R = Some R"
| "fold_rep ((a, b) # es) R = (if R a = R b then None else fold_rep es (join_rep R a b))"

lemma join_all_ok:
  assumes "rel m R" "\<forall>(a, b) \<in> set es. a < size m \<and> b < size m"
  shows "\<exists>m'. join_all es m = Inr (fold_rep es R \<noteq> None, m') \<and> size m' = size m \<and>
     (\<forall>R'. fold_rep es R = Some R' \<longrightarrow> rel m' R')"
  using assms
proof (induction es arbitrary: m R)
  case (Cons e es)
  obtain a b where e: "e = (a, b)" by force
  from same_ok[OF Cons.prems(1), of a b] Cons.prems(2) e obtain m1 where m1:
    "same m a b = Inr (R a = R b, m1)" "rel m1 R" "size m1 = size m" by auto
  show ?case
  proof (cases "R a = R b")
    case False
    from join_ok[OF m1(2), of a b] Cons.prems(2) e m1(3) obtain m2 where m2:
      "join m1 a b = Inr m2" "rel m2 (join_rep R a b)" "size m2 = size m" by auto
    from Cons.IH[OF m2(2)] Cons.prems(2) m2(3) show ?thesis using e m1(1) m2(1) False by simp
  qed (use m1 e in simp)
qed auto

end

interpretation ds: union_find
  "\<lambda>m a b. ds_sameSet m (int a) (int b)" "\<lambda>m a b. ds_merge m (int a) (int b)"
  "\<lambda>m R. \<exists>d. ds_ok m R d" "length"
proof
  fix m :: "int list" and R a b
  assume h: "\<exists>d. ds_ok m R d" "a < length m" "b < length m"
  then obtain d where d: "ds_ok m R d" by blast
  from ds_sameSet_ok[OF d h(2,3)] obtain m' where
    "ds_sameSet m (int a) (int b) = Inr (R a = R b, m')" "ds_ok m' R d" "touch R {R a, R b} m m'" by metis
  then show "\<exists>m'. ds_sameSet m (int a) (int b) = Inr (R a = R b, m') \<and> (\<exists>d. ds_ok m' R d) \<and> length m' = length m"
    using touchD(1) by metis
  from ds_merge_ok[OF d h(2,3)] obtain m' d' where
    "ds_merge m (int a) (int b) = Inr m'" "ds_ok m' (join_rep R a b) d'" "touch R {R a, R b} m m'" by metis
  then show "\<exists>m'. ds_merge m (int a) (int b) = Inr m' \<and> (\<exists>d. ds_ok m' (join_rep R a b) d) \<and> length m' = length m"
    using touchD(1) by metis
qed

end
