(* ===== verification/Forest.thy ===== *)
theory Forest
  imports Main
begin

text \<open>
  The graph theory behind Othello: every key is an edge (its number and its node in
  array A and in array B), and a table can be built when these edges form a forest. A
  \<open>branch\<close> is what lies behind an edge, and it is what the depth-first walks of the
  code visit. Nothing here is specific to the representation used by the code.
\<close>

type_synonym edges = "(nat \<times> nat \<times> nat) set"

definition links :: "edges \<Rightarrow> (nat \<times> nat) set" where
  "links G = {(u, w). \<exists>k. (k, u, w) \<in> G \<or> (k, w, u) \<in> G}"

definition conn :: "edges \<Rightarrow> nat \<Rightarrow> nat \<Rightarrow> bool" where
  "conn G u w \<longleftrightarrow> (u, w) \<in> (links G)\<^sup>*"

definition incident :: "edges \<Rightarrow> nat \<Rightarrow> (nat \<times> nat) set" where
  "incident G v = {(k, w). (k, v, w) \<in> G \<or> (k, w, v) \<in> G}"

definition without :: "nat \<Rightarrow> edges \<Rightarrow> edges" where
  "without k G = {e \<in> G. fst e \<noteq> k}"

definition away :: "nat \<Rightarrow> edges \<Rightarrow> edges" where
  "away v G = {(k, u, w) \<in> G. u \<noteq> v \<and> w \<noteq> v}"

definition keyed :: "edges \<Rightarrow> bool" where
  "keyed G \<longleftrightarrow> (\<forall>k u w u' w'. (k, u, w) \<in> G \<longrightarrow> (k, u', w') \<in> G \<longrightarrow> u' = u \<and> w' = w)"

definition forest :: "edges \<Rightarrow> bool" where
  "forest G \<longleftrightarrow> keyed G \<and> (\<forall>k u w. (k, u, w) \<in> G \<longrightarrow> \<not> conn (without k G) u w)"

definition branch :: "edges \<Rightarrow> nat \<Rightarrow> nat \<Rightarrow> nat set" where
  "branch G k v = {z. conn (without k G) v z}"

lemma conn_refl [simp, intro]: "conn G u u"
  by (simp add: conn_def)

lemma conn_trans: "conn G u v \<Longrightarrow> conn G v w \<Longrightarrow> conn G u w"
  unfolding conn_def by (rule rtrancl_trans)

lemma links_sym: "(u, w) \<in> links G \<Longrightarrow> (w, u) \<in> links G"
  by (auto simp: links_def)

lemma conn_sym: "conn G u w \<Longrightarrow> conn G w u"
  unfolding conn_def
  by (induction rule: rtrancl_induct) (auto intro: links_sym converse_rtrancl_into_rtrancl)

lemma conn_mono: "G \<subseteq> H \<Longrightarrow> conn G u w \<Longrightarrow> conn H u w"
  unfolding conn_def
  by (rule subsetD[OF rtrancl_mono]) (auto simp: links_def)

lemma conn_step: "(k, w) \<in> incident G v \<Longrightarrow> conn G v w"
  unfolding conn_def by (rule r_into_rtrancl) (auto simp: links_def incident_def)

lemma conn_edge: "(k, u, w) \<in> G \<Longrightarrow> conn G u w"
  by (rule conn_step[of k]) (simp add: incident_def)

lemma incident_sym: "(k, w) \<in> incident G v \<longleftrightarrow> (k, v) \<in> incident G w"
  by (auto simp: incident_def)

lemma incident_without: "incident (without k G) v = {(k', w) \<in> incident G v. k' \<noteq> k}"
  by (auto simp: incident_def without_def)

lemma conn_induct [consumes 1, case_names refl step]:
  assumes "conn G u z" "P u"
    "\<And>k y z. conn G u y \<Longrightarrow> (k, z) \<in> incident G y \<Longrightarrow> P y \<Longrightarrow> P z"
  shows "P z"
  using assms(1) unfolding conn_def
proof (induction rule: rtrancl_induct)
  case base
  show ?case by (rule assms)
next
  case (step y z)
  then obtain k where "(k, z) \<in> incident G y" by (auto simp: links_def incident_def)
  with step assms(3) show ?case by (auto simp: conn_def)
qed

lemma without_absent: "k \<notin> fst ` G \<Longrightarrow> without k G = G"
  by (auto simp: without_def)

lemma branch_absent: "k \<notin> fst ` G \<Longrightarrow> branch G k v = {z. conn G v z}"
  by (simp add: branch_def without_absent)

lemma branch_self [simp]: "v \<in> branch G k v"
  by (simp add: branch_def)

lemma forest_keyed: "forest G \<Longrightarrow> (k, u, w) \<in> G \<Longrightarrow> (k, u', w') \<in> G \<Longrightarrow> u' = u \<and> w' = w"
  by (auto simp: forest_def keyed_def)

lemma forest_cut: "forest G \<Longrightarrow> (k, w) \<in> incident G v \<Longrightarrow> \<not> conn (without k G) w v"
  by (auto simp: forest_def incident_def dest: conn_sym)

lemma forest_incident_ends:
  assumes "forest G" "(k, w) \<in> incident G v" "(k, y) \<in> incident G x"
  shows "(x = v \<and> y = w) \<or> (x = w \<and> y = v)"
  using assms forest_keyed[OF assms(1)] unfolding incident_def by blast

lemma forest_no_loop: "forest G \<Longrightarrow> (k, w) \<in> incident G v \<Longrightarrow> w \<noteq> v"
  using forest_cut by fastforce

definition leads_to :: "edges \<Rightarrow> nat \<Rightarrow> nat \<Rightarrow> bool" where
  "leads_to G k v \<longleftrightarrow> k \<notin> fst ` G \<or> (\<exists>u. (k, u) \<in> incident G v)"

lemma leads_to_away: "forest G \<Longrightarrow> leads_to G k v \<Longrightarrow> away v G \<subseteq> without k G"
proof
  fix e assume a: "forest G" "leads_to G k v" "e \<in> away v G"
  obtain k' u w where e: "e = (k', u, w)" by (cases e)
  with a have "(k', u, w) \<in> G" "u \<noteq> v" "w \<noteq> v" by (auto simp: away_def)
  moreover have "k' \<noteq> k"
  proof
    assume "k' = k"
    with a(2) \<open>(k', u, w) \<in> G\<close> obtain x where "(k, x) \<in> incident G v"
      by (force simp: leads_to_def)
    with forest_incident_ends[OF a(1) this, of w u] \<open>k' = k\<close> \<open>(k', u, w) \<in> G\<close> \<open>u \<noteq> v\<close> \<open>w \<noteq> v\<close>
    show False by (auto simp: incident_def)
  qed
  ultimately show "e \<in> without k G" by (simp add: e without_def)
qed

text \<open>Behind an edge of a forest nothing leads back: the branch avoids the node.\<close>

lemma branch_away:
  assumes f: "forest G" and i: "(k, w) \<in> incident G v"
  shows "branch G k w = {z. conn (away v G) w z}"
proof
  have "away v G \<subseteq> without k G"
    using leads_to_away[OF f] i by (auto simp: leads_to_def)
  then show "{z. conn (away v G) w z} \<subseteq> branch G k w"
    using conn_mono by (auto simp: branch_def)
  show "branch G k w \<subseteq> {z. conn (away v G) w z}"
  proof
    fix z assume "z \<in> branch G k w"
    then have "conn (without k G) w z" by (simp add: branch_def)
    then have "conn (away v G) w z \<and> conn (without k G) w z"
    proof (induction rule: conn_induct)
      case refl
      show ?case by simp
    next
      case (step k' y z)
      then have "(k', z) \<in> incident (away v G) y"
        using forest_cut[OF f i] conn_trans[OF step(1) conn_step[OF step(2)]]
        by (auto simp: incident_def away_def without_def)
      with step show ?case by (meson conn_trans conn_step)
    qed
    then show "z \<in> {z. conn (away v G) w z}" by simp
  qed
qed

lemma branch_decomp:
  assumes f: "forest G" and l: "leads_to G k v"
  shows "branch G k v = insert v (\<Union>(k', w) \<in> incident (without k G) v. branch G k' w)"
proof
  show "branch G k v \<subseteq> insert v (\<Union>(k', w) \<in> incident (without k G) v. branch G k' w)"
  proof
    fix z assume "z \<in> branch G k v"
    then have "conn (without k G) v z" by (simp add: branch_def)
    then show "z \<in> insert v (\<Union>(k', w) \<in> incident (without k G) v. branch G k' w)"
    proof (induction rule: conn_induct)
      case refl
      show ?case by simp
    next
      case (step k1 y z)
      from step(2) have s2: "(k1, z) \<in> incident G y" by (simp add: incident_without)
      show ?case
      proof (cases "y = v")
        case True
        with step(2) branch_self show ?thesis by blast
      next
        case False
        with step(3) obtain k' w where kw: "(k', w) \<in> incident (without k G) v" "y \<in> branch G k' w"
          by auto
        show ?thesis
        proof (cases "k1 = k'")
          case True
          from kw(1) have "(k', w) \<in> incident G v" by (simp add: incident_without)
          from forest_incident_ends[OF f this, of z y] s2 True have "z = v \<or> z = w" by auto
          with kw branch_self show ?thesis by blast
        next
          case False
          with s2 have "(k1, z) \<in> incident (without k' G) y" by (simp add: incident_without)
          with kw(2) have "z \<in> branch G k' w"
            by (auto simp: branch_def intro: conn_trans conn_step)
          with kw(1) show ?thesis by blast
        qed
      qed
    qed
  qed
  show "insert v (\<Union>(k', w) \<in> incident (without k G) v. branch G k' w) \<subseteq> branch G k v"
  proof -
    have "branch G k' w \<subseteq> branch G k v" if kw: "(k', w) \<in> incident (without k G) v" for k' w
    proof -
      from kw have "(k', w) \<in> incident G v" by (simp add: incident_without)
      note b = branch_away[OF f this]
      show ?thesis
      proof
        fix z assume "z \<in> branch G k' w"
        then have "conn (without k G) w z"
          using b conn_mono[OF leads_to_away[OF f l]] by auto
        with conn_step[OF kw] show "z \<in> branch G k v"
          by (auto simp: branch_def intro: conn_trans)
      qed
    qed
    then show ?thesis by auto
  qed
qed

lemma branch_avoids: "forest G \<Longrightarrow> (k, w) \<in> incident G v \<Longrightarrow> v \<notin> branch G k w"
  by (simp add: branch_def forest_cut)

lemma branch_disjoint:
  assumes f: "forest G" and i: "(k, w) \<in> incident G v" and j: "(k', w') \<in> incident G v" and ne: "k \<noteq> k'"
  shows "branch G k w \<inter> branch G k' w' = {}"
proof (rule ccontr)
  assume "branch G k w \<inter> branch G k' w' \<noteq> {}"
  then obtain z where "conn (away v G) w z" "conn (away v G) w' z"
    using branch_away[OF f i] branch_away[OF f j] by auto
  then have "conn (away v G) w w'" by (meson conn_sym conn_trans)
  moreover have "away v G \<subseteq> without k G"
    using leads_to_away[OF f] i by (auto simp: leads_to_def)
  ultimately have "conn (without k G) w w'" using conn_mono by blast
  moreover have "(k', v) \<in> incident (without k G) w'"
    using j ne by (simp add: incident_without incident_sym[of k' v])
  ultimately have "conn (without k G) w v" by (meson conn_step conn_trans)
  with forest_cut[OF f i] show False by simp
qed

subsection \<open>Growing and shrinking a forest\<close>

lemma forest_empty [simp]: "forest {}"
  by (simp add: forest_def keyed_def)

lemma forest_subset: "forest G \<Longrightarrow> H \<subseteq> G \<Longrightarrow> forest H"
  unfolding forest_def keyed_def
proof (intro conjI allI impI)
  assume a: "(\<forall>k u w u' w'. (k, u, w) \<in> G \<longrightarrow> (k, u', w') \<in> G \<longrightarrow> u' = u \<and> w' = w) \<and>
    (\<forall>k u w. (k, u, w) \<in> G \<longrightarrow> \<not> conn (without k G) u w)" and s: "H \<subseteq> G"
  show "u' = u" "w' = w" if "(k, u, w) \<in> H" "(k, u', w') \<in> H" for k u w u' w'
    using a s that by blast+
  fix k u w assume e: "(k, u, w) \<in> H"
  have "without k H \<subseteq> without k G" using s by (auto simp: without_def)
  from conn_mono[OF this] have "conn (without k H) u w \<Longrightarrow> conn (without k G) u w" .
  with a e s show "\<not> conn (without k H) u w" by blast
qed

lemma without_subset: "without k G \<subseteq> G"
  by (auto simp: without_def)

lemma forest_without: "forest G \<Longrightarrow> forest (without k G)"
  by (rule forest_subset[OF _ without_subset])

lemma conn_insert:
  "conn (insert (k, a, b) G) u w \<longleftrightarrow>
     conn G u w \<or> (conn G u a \<and> conn G b w) \<or> (conn G u b \<and> conn G a w)"
    (is "?l \<longleftrightarrow> ?r")
proof
  assume ?l
  then show ?r
  proof (induction rule: conn_induct)
    case refl
    show ?case by simp
  next
    case (step k1 y z)
    from step(2) have "(y = a \<and> z = b) \<or> (y = b \<and> z = a) \<or> (k1, z) \<in> incident G y"
      by (auto simp: incident_def)
    then show ?case
    proof (elim disjE conjE)
      assume "(k1, z) \<in> incident G y"
      then have "conn G y z" by (rule conn_step)
      with step(3) conn_trans show ?thesis by blast
    next
      assume "y = a" "z = b"
      with step(3) conn_sym conn_trans show ?thesis by blast
    next
      assume "y = b" "z = a"
      with step(3) conn_sym conn_trans show ?thesis by blast
    qed
  qed
next
  have s: "G \<subseteq> insert (k, a, b) G" by auto
  have "conn (insert (k, a, b) G) a b" by (rule conn_edge[of k]) simp
  then show "?r \<Longrightarrow> ?l" using conn_mono[OF s] by (meson conn_sym conn_trans)
qed

lemma forest_insert:
  assumes f: "forest G" and k: "k \<notin> fst ` G" and nc: "\<not> conn G a b"
  shows "forest (insert (k, a, b) G)"
proof -
  have "keyed (insert (k, a, b) G)" using f k
    unfolding keyed_def forest_def by (auto simp: image_iff)
  moreover have "\<not> conn (without k' (insert (k, a, b) G)) u w"
    if e: "(k', u, w) \<in> insert (k, a, b) G" for k' u w
  proof (cases "k' = k")
    case True
    then have "u = a" "w = b" using e k by (auto simp: image_iff)
    moreover have "without k' (insert (k, a, b) G) = G"
      using True k by (auto simp: without_def image_iff)
    ultimately show ?thesis using nc by simp
  next
    case False
    then have e: "(k', u, w) \<in> G" using e by auto
    have w: "without k' (insert (k, a, b) G) = insert (k, a, b) (without k' G)"
      using False by (auto simp: without_def)
    have "\<not> conn (without k' G) u w" using f e by (auto simp: forest_def)
    moreover have "\<not> (conn (without k' G) u a \<and> conn (without k' G) b w)"
      "\<not> (conn (without k' G) u b \<and> conn (without k' G) a w)"
      using nc conn_edge[OF e] conn_mono[OF without_subset] by (meson conn_sym conn_trans)+
    ultimately show ?thesis unfolding w conn_insert by blast
  qed
  ultimately show ?thesis by (simp add: forest_def)
qed

text \<open>Removing an edge splits exactly its component, into the two branches behind it.\<close>

lemma insert_without:
  assumes "forest G" "(k, a, b) \<in> G"
  shows "insert (k, a, b) (without k G) = G"
proof
  show "insert (k, a, b) (without k G) \<subseteq> G" using assms by (auto simp: without_def)
  show "G \<subseteq> insert (k, a, b) (without k G)"
  proof
    fix e assume "e \<in> G"
    moreover obtain k' u w where "e = (k', u, w)" by (cases e)
    ultimately show "e \<in> insert (k, a, b) (without k G)"
      using forest_keyed[OF assms, of u w] by (auto simp: without_def)
  qed
qed

lemma split_component:
  assumes f: "forest G" and e: "(k, a, b) \<in> G"
  shows "{z. conn G a z} = branch G k a \<union> branch G k b" "branch G k a \<inter> branch G k b = {}"
proof -
  have nc: "\<not> conn (without k G) a b" using f e by (auto simp: forest_def)
  have "conn G a z \<longleftrightarrow> conn (without k G) a z \<or> conn (without k G) b z" for z
    using conn_insert[of k a b "without k G" a z] insert_without[OF f e] nc by simp
  then show "{z. conn G a z} = branch G k a \<union> branch G k b"
    unfolding branch_def by blast
  show "branch G k a \<inter> branch G k b = {}"
  proof (rule ccontr)
    assume "branch G k a \<inter> branch G k b \<noteq> {}"
    then obtain z where "conn (without k G) a z" "conn (without k G) b z"
      by (auto simp: branch_def)
    with nc conn_sym conn_trans show False by blast
  qed
qed

end
