(* ===== verification/Tree_Walk.thy ===== *)
theory Tree_Walk
  imports Prelude Forest
begin

text \<open>
  The \<open>do ... while (!stack.empty())\<close> walk that seven functions of
  \<open>src/platform/control_plane_othello.h\<close> share: pop a node with the key it was reached
  by, run over its list of incident keys, skip that key, perform an action and push the
  other end. \<open>walk_tree\<close> is the loop with its action as a parameter and fuel; \<open>trace\<close>
  is the sequence of its visits. The main result, \<open>trace_forest\<close>, says that over a
  forest the walk returns (fuel above the number of nodes behind the stack is enough)
  and that it visits every node behind the stack exactly once, each from a node that
  was reached before it, and crosses every key there.
\<close>

subsection \<open>The loop\<close>

type_synonym stack = "(nat \<times> nat) list"

fun push_cells :: "(nat \<Rightarrow> nat \<Rightarrow> nat \<Rightarrow> 's \<Rightarrow> 's res) \<Rightarrow> nat \<Rightarrow> nat \<Rightarrow> (nat \<times> nat) list
    \<Rightarrow> 's \<Rightarrow> stack \<Rightarrow> ('s \<times> stack) res" where
  "push_cells act prev nid [] s st = Inr (s, st)"
| "push_cells act prev nid ((k, w) # cs) s st =
     (if k = prev then push_cells act prev nid cs s st
      else rbind (act k w nid s) (\<lambda>s1. push_cells act prev nid cs s1 ((k, w) # st)))"

fun walk_tree :: "('s \<Rightarrow> nat \<Rightarrow> (nat \<times> nat) list res) \<Rightarrow> (nat \<Rightarrow> nat \<Rightarrow> nat \<Rightarrow> 's \<Rightarrow> 's res)
    \<Rightarrow> nat \<Rightarrow> stack \<Rightarrow> 's \<Rightarrow> 's res" where
  "walk_tree cells act 0 st s = Inl Diverges"
| "walk_tree cells act (Suc fuel) stk s =
     (case stk of
        [] \<Rightarrow> Inr s
      | (prev, nid) # st \<Rightarrow>
          rbind (cells s nid) (\<lambda>cs.
          rbind (push_cells act prev nid cs s st) (\<lambda>(s1, st1).
          walk_tree cells act fuel st1 s1)))"

text \<open>The visits of a walk, without its effects: (key, node reached, node it is reached from).\<close>

type_synonym visit = "nat \<times> nat \<times> nat"

fun trace :: "(nat \<Rightarrow> (nat \<times> nat) list) \<Rightarrow> nat \<Rightarrow> stack \<Rightarrow> visit list option" where
  "trace adj 0 st = None"
| "trace adj (Suc fuel) stk =
     (case stk of
        [] \<Rightarrow> Some []
      | (prev, nid) # st \<Rightarrow>
          (let cs = filter (\<lambda>c. fst c \<noteq> prev) (adj nid)
           in map_option (append (map (\<lambda>(k, w). (k, w, nid)) cs)) (trace adj fuel (rev cs @ st))))"

definition node_of :: "visit \<Rightarrow> nat" where "node_of = (\<lambda>(k, w, p). w)"
definition parent_of :: "visit \<Rightarrow> nat" where "parent_of = (\<lambda>(k, w, p). p)"

lemma visit_simps [simp]: "node_of (k, w, p) = w" "parent_of (k, w, p) = p"
  by (simp_all add: node_of_def parent_of_def)

definition visit_act :: "(nat \<Rightarrow> nat \<Rightarrow> nat \<Rightarrow> 's \<Rightarrow> 's res) \<Rightarrow> visit \<Rightarrow> 's \<Rightarrow> 's res" where
  "visit_act act = (\<lambda>(k, w, p). act k w p)"

lemma visit_act_simp [simp]: "visit_act act (k, w, p) = act k w p"
  by (simp add: visit_act_def)

lemma push_cells_eq:
  "push_cells act prev nid cs s st =
     rbind (rfold (visit_act act) (map (\<lambda>(k, w). (k, w, nid)) (filter (\<lambda>c. fst c \<noteq> prev) cs)) s)
       (\<lambda>s1. Inr (s1, rev (filter (\<lambda>c. fst c \<noteq> prev) cs) @ st))"
proof (induction cs arbitrary: s st)
  case Nil
  then show ?case by simp
next
  case (Cons c cs)
  then show ?case by (cases c) (auto simp: rbind_assoc)
qed

text \<open>A walk that does not touch the lists it follows performs its actions along the trace.\<close>

lemma walk_tree_trace:
  assumes cells: "\<And>s u. P s \<Longrightarrow> u \<in> D \<Longrightarrow> cells s u = Inr (adj u)"
    and act: "\<And>k w p s s'. P s \<Longrightarrow> act k w p s = Inr s' \<Longrightarrow> P s'"
    and closed: "\<And>u. u \<in> D \<Longrightarrow> snd ` set (adj u) \<subseteq> D"
    and st: "snd ` set st \<subseteq> D" and "P s"
    and tr: "trace adj fuel st = Some ts"
  shows "walk_tree cells act fuel st s = rfold (visit_act act) ts s"
  using st \<open>P s\<close> tr
proof (induction fuel arbitrary: st s ts)
  case 0
  then show ?case by simp
next
  case (Suc fuel)
  show ?case
  proof (cases st)
    case Nil
    with Suc.prems show ?thesis by simp
  next
    case (Cons e st1)
    obtain prev nid where e: "e = (prev, nid)" by (cases e)
    define cs where "cs = filter (\<lambda>c. fst c \<noteq> prev) (adj nid)"
    from Suc.prems Cons e obtain ts1 where ts1: "trace adj fuel (rev cs @ st1) = Some ts1"
      "ts = map (\<lambda>(k, w). (k, w, nid)) cs @ ts1"
      by (auto simp: Let_def cs_def)
    have nid: "nid \<in> D" using Suc.prems Cons e by auto
    have "snd ` set cs \<subseteq> D" using closed[OF nid] by (auto simp: cs_def)
    then have D: "snd ` set (rev cs @ st1) \<subseteq> D" using Suc.prems Cons by auto
    have pres: "P s'" if "rfold (visit_act act) l s = Inr s'" "P s" for l s s'
      using that by (induction l arbitrary: s) (auto simp: rbind_eq_Inr visit_act_def dest: act)
    show ?thesis
    proof (cases "rfold (visit_act act) (map (\<lambda>(k, w). (k, w, nid)) cs) s")
      case (Inl err)
      then show ?thesis using Suc.prems nid Cons e
        by (simp add: cells push_cells_eq flip: cs_def) (simp add: ts1 rfold_append)
    next
      case (Inr s1)
      from Suc.IH[OF D pres[OF Inr Suc.prems(2)] ts1(1)] Inr show ?thesis using Suc.prems nid Cons e
        by (simp add: cells push_cells_eq flip: cs_def) (simp add: ts1 rfold_append)
    qed
  qed
qed

subsection \<open>The walk over a forest\<close>

definition branches :: "edges \<Rightarrow> stack \<Rightarrow> nat set" where
  "branches G st = (\<Union>(k, v) \<in> set st. branch G k v)"

fun apart :: "edges \<Rightarrow> stack \<Rightarrow> bool" where
  "apart G [] = True"
| "apart G ((k, v) # st) = (branch G k v \<inter> branches G st = {} \<and> apart G st)"

definition work :: "edges \<Rightarrow> stack \<Rightarrow> nat" where
  "work G st = (\<Sum>(k, v) \<leftarrow> st. card (branch G k v))"

lemma branches_simps [simp]:
  "branches G [] = {}"
  "branches G ((k, v) # st) = branch G k v \<union> branches G st"
  "branches G (st @ st') = branches G st \<union> branches G st'"
  "branches G (rev st) = branches G st"
  by (auto simp: branches_def)

lemma work_simps [simp]:
  "work G [] = 0"
  "work G ((k, v) # st) = card (branch G k v) + work G st"
  "work G (st @ st') = work G st + work G st'"
  "work G (rev st) = work G st"
  by (simp_all add: work_def sum_list_rev flip: rev_map)

lemma apart_append: "apart G (st @ st') \<longleftrightarrow>
    apart G st \<and> apart G st' \<and> branches G st \<inter> branches G st' = {}"
  by (induction st) auto

lemma apart_rev: "apart G (rev st) = apart G st"
  by (induction st) (auto simp: apart_append)

lemma finite_branch:
  assumes "finite G"
  shows "finite (branch G k v)"
proof -
  let ?N = "(\<lambda>(k, u, w). u) ` G \<union> (\<lambda>(k, u, w). w) ` G"
  have "z \<in> insert v ?N" if "conn (without k G) v z" for z
    using that
  proof (induction rule: conn_induct)
    case (step k y z)
    then show ?case by (force simp: incident_def without_def)
  qed simp
  then have "branch G k v \<subseteq> insert v ?N" by (auto simp: branch_def)
  with assms show ?thesis by (auto intro: finite_subset)
qed

lemma card_branches: "finite G \<Longrightarrow> apart G st \<Longrightarrow> card (branches G st) = work G st"
proof (induction st)
  case (Cons e st)
  moreover have "finite (branches G st)" using Cons.prems
    by (auto simp: branches_def finite_branch)
  ultimately show ?case by (cases e) (simp add: card_Un_disjoint finite_branch)
qed simp

definition adjacency :: "edges \<Rightarrow> nat set \<Rightarrow> (nat \<Rightarrow> (nat \<times> nat) list) \<Rightarrow> bool" where
  "adjacency G D adj \<longleftrightarrow>
     (\<forall>v \<in> D. distinct (map fst (adj v)) \<and> set (adj v) = incident G v \<and> snd ` incident G v \<subseteq> D)"

text \<open>The entries pushed for one node are its remaining branches.\<close>

lemma children:
  assumes f: "forest G" and fin: "finite G" and l: "leads_to G k v"
    and adj: "distinct (map fst l)" "set l = incident G v"
    and cs: "cs = filter (\<lambda>c. fst c \<noteq> k) l"
  shows "branch G k v = insert v (branches G cs)" "v \<notin> branches G cs" "apart G cs"
    "card (branch G k v) = Suc (work G cs)" "set cs = incident (without k G) v"
    "distinct (map snd cs)" "\<And>k' w. (k', w) \<in> set cs \<Longrightarrow> leads_to G k' w"
proof -
  show set: "set cs = incident (without k G) v"
    by (auto simp: cs adj incident_without)
  show b: "branch G k v = insert v (branches G cs)"
    unfolding branches_def set by (rule branch_decomp[OF f l])
  have inc: "(k', w) \<in> incident G v" if "(k', w) \<in> set cs" for k' w
    using that by (simp add: set incident_without)
  show nv: "v \<notin> branches G cs"
    using branch_avoids[OF f inc] by (auto simp: branches_def)
  have "distinct (map fst cs)" unfolding cs using adj(1) by (rule distinct_map_filter)
  then have "apart G cs \<and> distinct (map snd cs)" using inc
  proof (induction cs)
    case (Cons c cs)
    obtain k' w where c: "c = (k', w)" by (cases c)
    have d: "branch G k' w \<inter> branch G k'' w'' = {}" if "(k'', w'') \<in> set cs" for k'' w''
      using branch_disjoint[OF f Cons.prems(2) Cons.prems(2), of k' w k'' w''] that Cons.prems(1) c
      by force
    have "w \<noteq> w''" if "(k'', w'') \<in> set cs" for k'' w''
      using d[OF that] branch_self by blast
    then have "w \<notin> snd ` set cs" by force
    moreover have "branch G k' w \<inter> branches G cs = {}" using d by (auto simp: branches_def)
    moreover have "apart G cs \<and> distinct (map snd cs)"
      using Cons.IH Cons.prems by simp
    ultimately show ?case by (simp add: c)
  qed simp
  then show ap: "apart G cs" and "distinct (map snd cs)" by auto
  have "finite (branches G cs)" by (auto simp: branches_def finite_branch[OF fin])
  then show "card (branch G k v) = Suc (work G cs)"
    unfolding b using nv card_branches[OF fin ap] by simp
  show "leads_to G k' w" if "(k', w) \<in> set cs" for k' w
    using inc[OF that] by (auto simp: leads_to_def incident_sym[of k' w])
qed

definition stack_ok :: "edges \<Rightarrow> nat set \<Rightarrow> stack \<Rightarrow> bool" where
  "stack_ok G D st \<longleftrightarrow> apart G st \<and> (\<forall>(k, v) \<in> set st. v \<in> D \<and> leads_to G k v)"

definition trace_ok :: "edges \<Rightarrow> stack \<Rightarrow> visit list \<Rightarrow> bool" where
  "trace_ok G st ts \<longleftrightarrow>
     distinct (map node_of ts) \<and>
     node_of ` set ts = (\<Union>(k, v) \<in> set st. branch G k v - {v}) \<and>
     (\<forall>(k, w, p) \<in> set ts. (k, w) \<in> incident G p) \<and>
     (\<forall>i < length ts. parent_of (ts ! i) \<in> snd ` set st \<union> node_of ` set (take i ts)) \<and>
     (\<forall>e \<in> set st. \<forall>x \<in> branch G (fst e) (snd e). \<forall>c \<in> incident G x.
        fst c \<noteq> fst e \<longrightarrow> fst c \<in> fst ` set ts)"

lemma trace_forest:
  assumes f: "forest G" and fin: "finite G" and adj: "adjacency G D adj"
    and st: "stack_ok G D st" and fuel: "work G st < fuel"
  shows "\<exists>ts. trace adj fuel st = Some ts \<and> trace_ok G st ts"
  using st fuel
proof (induction fuel arbitrary: st)
  case 0
  then show ?case by simp
next
  case (Suc fuel)
  show ?case
  proof (cases st)
    case Nil
    then show ?thesis by (simp add: trace_ok_def)
  next
    case (Cons e st1)
    obtain k v where e: "e = (k, v)" by (cases e)
    from Suc.prems Cons e have v: "v \<in> D" "leads_to G k v" and st1: "stack_ok G D st1"
      and ap: "branch G k v \<inter> branches G st1 = {}"
      by (auto simp: stack_ok_def)
    from adj v have av: "distinct (map fst (adj v))" "set (adj v) = incident G v"
      "snd ` incident G v \<subseteq> D" by (auto simp: adjacency_def)
    define cs where "cs = filter (\<lambda>c. fst c \<noteq> k) (adj v)"
    note ch = children[OF f fin v(2) av(1,2) cs_def]
    have "snd ` set cs \<subseteq> D" using av(3) unfolding ch(5) by (auto simp: incident_without)
    then have st2: "stack_ok G D (rev cs @ st1)"
      using st1 ch(1,3,7) ap by (auto simp: stack_ok_def apart_append apart_rev)
    have w: "work G (rev cs @ st1) < fuel"
      using Suc.prems(2) Cons e ch(4) by simp
    from Suc.IH[OF st2 w] obtain ts1 where ts1: "trace adj fuel (rev cs @ st1) = Some ts1"
      "trace_ok G (rev cs @ st1) ts1" by blast
    let ?c = "map (\<lambda>(k, w). (k, w, v)) cs"
    have tr: "trace adj (Suc fuel) st = Some (?c @ ts1)"
      using ts1(1) by (simp add: Cons e Let_def flip: cs_def)
    have nc: "map node_of ?c = map snd cs" "fst ` set ?c = fst ` set cs" "node_of ` set ?c = snd ` set cs"
      "\<And>i. i < length cs \<Longrightarrow> parent_of (?c ! i) = v"
      by (auto simp: image_image split_def node_of_def parent_of_def)
    note T = ts1(2)[unfolded trace_ok_def]
    have nodes1: "node_of ` set ts1 = (\<Union>(k, w) \<in> set cs. branch G k w - {w}) \<union> (\<Union>(k, w) \<in> set st1. branch G k w - {w})"
      using T by auto
    have br_disj: "branch G k1 w1 \<inter> branch G k2 w2 = {}"
      if "(k1, w1) \<in> set cs" "(k2, w2) \<in> set cs" "(k1, w1) \<noteq> (k2, w2)" for k1 w1 k2 w2
    proof -
      have "(k1, w1) \<in> incident G v" "(k2, w2) \<in> incident G v"
        using that ch(5) by (auto simp: incident_without)
      moreover have "k1 \<noteq> k2" using that av(1) calculation
        by (metis av(2) eq_key_imp_eq_value)
      ultimately show ?thesis by (rule branch_disjoint[OF f])
    qed
    have t1: "distinct (map node_of (?c @ ts1))"
    proof -
      have "w \<notin> node_of ` set ts1" if "(k1, w) \<in> set cs" for k1 w
      proof
        assume "w \<in> node_of ` set ts1"
        then consider k2 w2 where "(k2, w2) \<in> set cs" "w \<in> branch G k2 w2" "w \<noteq> w2"
          | "w \<in> branches G st1"
          unfolding nodes1 by (auto simp: branches_def)
        then show False
        proof cases
          case 1
          with br_disj[OF that 1(1)] branch_self show False by blast
        next
          case 2
          have "w \<in> branch G k v" unfolding ch(1) using that by (force simp: branches_def)
          with 2 ap show False by blast
        qed
      qed
      then have "snd c \<notin> node_of ` set ts1" if "c \<in> set cs" for c
        using that by (cases c) simp
      then have "snd ` set cs \<inter> node_of ` set ts1 = {}" by blast
      moreover have "distinct (map node_of ts1)" using T by simp
      ultimately show ?thesis using ch(6) nc(3)
        by (simp only: map_append distinct_append nc(1) set_map simp_thms)
    qed
    have t2: "node_of ` set (?c @ ts1) = (\<Union>(k, v) \<in> set st. branch G k v - {v})"
    proof -
      have "branch G k v - {v} = branches G cs" using ch(1,2) by auto
      also have "\<dots> = snd ` set cs \<union> (\<Union>(k, w) \<in> set cs. branch G k w - {w})"
        by (force simp: branches_def)
      finally have "branch G k v - {v} = snd ` set cs \<union> (\<Union>(k, w) \<in> set cs. branch G k w - {w})" .
      then show ?thesis
        by (simp only: set_append image_Un nc(3) nodes1 Cons e list.set UN_insert prod.case Un_assoc)
    qed
    have t3: "\<forall>(k, w, p) \<in> set (?c @ ts1). (k, w) \<in> incident G p"
      using T ch(5) by (auto simp: incident_without)
    have t4: "\<forall>i < length (?c @ ts1). parent_of ((?c @ ts1) ! i) \<in> snd ` set st \<union> node_of ` set (take i (?c @ ts1))"
    proof (intro allI impI)
      fix i assume i: "i < length (?c @ ts1)"
      show "parent_of ((?c @ ts1) ! i) \<in> snd ` set st \<union> node_of ` set (take i (?c @ ts1))"
      proof (cases "i < length cs")
        case True
        with nc(4)[OF True] show ?thesis by (simp add: nth_append Cons e)
      next
        case False
        then have "parent_of (ts1 ! (i - length cs)) \<in> snd ` set (rev cs @ st1) \<union> node_of ` set (take (i - length cs) ts1)"
          using T i by auto
        with False nc(3) show ?thesis by (auto simp: nth_append Cons)
      qed
    qed
    have t5: "\<forall>e \<in> set st. \<forall>x \<in> branch G (fst e) (snd e). \<forall>c \<in> incident G x.
        fst c \<noteq> fst e \<longrightarrow> fst c \<in> fst ` set (?c @ ts1)"
    proof (intro ballI impI)
      fix e' x c
      assume e': "e' \<in> set st" and x: "x \<in> branch G (fst e') (snd e')"
        and c: "c \<in> incident G x" "fst c \<noteq> fst e'"
      have T5: "fst c \<in> fst ` set ts1"
        if "e2 \<in> set (rev cs @ st1)" "x \<in> branch G (fst e2) (snd e2)" "fst c \<noteq> fst e2" for e2
        using T that c(1) by blast
      have fs: "fst ` set (?c @ ts1) = fst ` set cs \<union> fst ` set ts1"
        by (simp only: set_append image_Un nc(2))
      show "fst c \<in> fst ` set (?c @ ts1)"
      proof (cases "e' = (k, v)")
        case True
        show ?thesis
        proof (cases "x = v")
          case xv: True
          then have "c \<in> set cs" using c True ch(5) by (cases c) (simp add: incident_without)
          then show ?thesis unfolding fs by blast
        next
          case False
          with x True ch(1) obtain e2 where "e2 \<in> set cs" "x \<in> branch G (fst e2) (snd e2)"
            by (auto simp: branches_def split_beta)
          with T5[of e2] show ?thesis unfolding fs by (cases "fst c = fst e2") auto
        qed
      next
        case False
        with e' Cons e have "e' \<in> set st1" by simp
        with T5[of e'] x c(2) show ?thesis unfolding fs by simp
      qed
    qed
    from t1 t2 t3 t4 t5 have "trace_ok G st (?c @ ts1)" by (simp only: trace_ok_def simp_thms)
    with tr show ?thesis by blast
  qed
qed

text \<open>The walk as the code starts it: one entry on the stack.\<close>

lemma trace_from:
  assumes f: "forest G" and fin: "finite G" and adj: "adjacency G D adj"
    and v: "v \<in> D" "leads_to G k v" and fuel: "card (branch G k v) < fuel"
  obtains ts where "trace adj fuel [(k, v)] = Some ts" "distinct (map node_of ts)"
    "node_of ` set ts = branch G k v - {v}"
    "\<And>k' w p. (k', w, p) \<in> set ts \<Longrightarrow> (k', w) \<in> incident G p"
    "\<And>i. i < length ts \<Longrightarrow> parent_of (ts ! i) \<in> insert v (node_of ` set (take i ts))"
    "\<And>x k' y. x \<in> branch G k v \<Longrightarrow> (k', y) \<in> incident G x \<Longrightarrow> k' \<noteq> k \<Longrightarrow> k' \<in> fst ` set ts"
proof -
  have "stack_ok G D [(k, v)]" using v by (simp add: stack_ok_def)
  moreover have "work G [(k, v)] < fuel" using fuel by simp
  ultimately obtain ts where ts: "trace adj fuel [(k, v)] = Some ts" "trace_ok G [(k, v)] ts"
    using trace_forest[OF f fin adj] by blast
  from ts(2) have t: "distinct (map node_of ts)" "node_of ` set ts = branch G k v - {v}"
    "\<forall>(k', w, p) \<in> set ts. (k', w) \<in> incident G p"
    "\<forall>i < length ts. parent_of (ts ! i) \<in> {v} \<union> node_of ` set (take i ts)"
    "\<forall>x \<in> branch G k v. \<forall>c \<in> incident G x. fst c \<noteq> k \<longrightarrow> fst c \<in> fst ` set ts"
    by (simp_all add: trace_ok_def)
  have "(k', w) \<in> incident G p" if "(k', w, p) \<in> set ts" for k' w p
    using bspec[OF t(3) that] by simp
  moreover have "parent_of (ts ! i) \<in> insert v (node_of ` set (take i ts))" if "i < length ts" for i
    using t(4) that by blast
  moreover have "k' \<in> fst ` set ts"
    if "x \<in> branch G k v" "(k', y) \<in> incident G x" "k' \<noteq> k" for x k' y
    using bspec[OF bspec[OF t(5) that(1)] that(2)] that(3) by simp
  ultimately show thesis by (rule that[OF ts(1) t(1,2)])
qed

end
