(* ===== verification/Rounding.thy ===== *)
theory Rounding
  imports Main
begin

text \<open>
  The floating-point steps of the sources on non-negative values, computed on natural
  numbers: a binary floating-point number is a natural number over a fixed power of two,
  and a product is the exact product rounded to 24 (\<open>float\<close>) or 53 (\<open>double\<close>)
  significant bits, ties to even. The constants are the nearest doubles of the
  literals in \<open>src/platform/control_plane_othello.h\<close>. This is strict IEEE arithmetic; the build passes
  \<open>-Ofast\<close> (\<open>src/CMakeLists.txt\<close>), which lets a compiler deviate from it, for example by multiplying
  with a reciprocal instead of dividing. Bucket and node counts can differ by the last bit of
  such a step.
\<close>

fun bit_length :: "nat \<Rightarrow> nat" where
  "bit_length n = (if n = 0 then 0 else Suc (bit_length (n div 2)))"

declare bit_length.simps [simp del]

definition round_even :: "nat \<Rightarrow> nat \<Rightarrow> nat" where
  "round_even p n =
     (let s = bit_length n - p
      in if s = 0 then n
         else let q = n div 2 ^ s; r = n mod 2 ^ s; half = 2 ^ (s - 1)
              in (if half < r \<or> (r = half \<and> odd q) then q + 1 else q) * 2 ^ s)"

text \<open>\<open>1.33334 * n\<close> cut to an integer; the double is \<open>6004829527158177 / 2 ^ 52\<close>.\<close>

definition mul_1_33334 :: "nat \<Rightarrow> nat" where
  "mul_1_33334 n = round_even 53 (6004829527158177 * n) div 2 ^ 52"

text \<open>\<open>a < 0.8 * n\<close>.\<close>

definition less_0_8 :: "nat \<Rightarrow> nat \<Rightarrow> bool" where
  "less_0_8 a n \<longleftrightarrow> a * 2 ^ 53 < round_even 53 (7205759403792794 * n)"

text \<open>A \<open>float\<close> factor: its significand over a power of two.\<close>

type_synonym float32 = "nat \<times> nat"

text \<open>\<open>(uint32_t)(n * r)\<close> for a \<open>uint32_t\<close> \<open>n\<close> and a \<open>float\<close> \<open>r\<close>.\<close>

definition mul_float32 :: "nat \<Rightarrow> float32 \<Rightarrow> nat" where
  "mul_float32 n r = round_even 24 (round_even 24 n * fst r) div 2 ^ snd r"

text \<open>
  The quotient of two floating-point numbers \<open>a\<close> and \<open>s / 2 ^ e\<close> with \<open>p\<close> significant bits,
  cut to an integer: 64 more bits and a sticky bit decide the rounding.
\<close>

definition div_float :: "nat \<Rightarrow> nat \<Rightarrow> nat \<times> nat \<Rightarrow> nat" where
  "div_float p a r =
     (let x = a * 2 ^ (snd r + 64);
          q = 2 * (x div fst r) + (if x mod fst r = 0 then 0 else 1)
      in round_even p q div 2 ^ 65)"

text \<open>\<open>(uint64_t)(n / r)\<close> for an \<open>int\<close> \<open>n\<close> and a \<open>float\<close> \<open>r\<close>; \<open>(uint64_t)(n / 0.95)\<close> in \<open>double\<close>.\<close>

definition div_float32 :: "nat \<Rightarrow> float32 \<Rightarrow> nat" where
  "div_float32 n r = div_float 24 (round_even 24 n) r"

definition div_0_95 :: "nat \<Rightarrow> nat" where
  "div_0_95 n = div_float 53 n (8556839292003942, 53)"

lemma bit_length_bound: "n < 2 ^ k \<Longrightarrow> bit_length n \<le> k"
proof (induction n arbitrary: k rule: bit_length.induct)
  case (1 n)
  show ?case
  proof (cases "n = 0")
    case False
    with 1(2) obtain k' where k: "k = Suc k'" by (cases k) auto
    with 1(2) have "n div 2 < 2 ^ k'" by simp
    from 1(1)[OF False this] False k show ?thesis by (subst bit_length.simps) simp
  qed (simp add: bit_length.simps)
qed

lemma round_even_exact: "n < 2 ^ p \<Longrightarrow> round_even p n = n"
  using bit_length_bound[of n p] by (simp add: round_even_def)

lemma mul_float32_one: "n < 2 ^ 24 \<Longrightarrow> mul_float32 n (1, 0) = n"
  by (simp add: mul_float32_def round_even_exact)

text \<open>Rounding moves a number by less than its last place.\<close>

lemma bit_length_pos: "0 < n \<Longrightarrow> 2 ^ (bit_length n - 1) \<le> n \<and> 0 < bit_length n"
proof (induction n rule: bit_length.induct)
  case (1 n)
  have b: "bit_length n = Suc (bit_length (n div 2))" using 1(2) by (subst bit_length.simps) simp
  show ?case
  proof (cases "n div 2 = 0")
    case True
    then have "bit_length n = 1" using b by (simp add: bit_length.simps[of 0])
    with 1(2) show ?thesis by simp
  next
    case False
    with 1 have h: "2 ^ (bit_length (n div 2) - 1) \<le> n div 2" "0 < bit_length (n div 2)" by auto
    then have "(2::nat) ^ bit_length (n div 2) = 2 * 2 ^ (bit_length (n div 2) - 1)" by (cases "bit_length (n div 2)") auto
    also have "\<dots> \<le> n" using h(1) by linarith
    finally show ?thesis using b by simp
  qed
qed

lemma round_even_near:
  assumes "0 < p"
  shows "round_even p n * 2 ^ (p - 1) \<le> n * (2 ^ (p - 1) + 1) \<and> n * 2 ^ (p - 1) \<le> round_even p n * 2 ^ (p - 1) + n"
proof (cases "bit_length n - p = 0")
  case True
  then show ?thesis by (simp add: round_even_def)
next
  case False
  define s where "s = bit_length n - p"
  have n: "0 < n" using False by (rule contrapos_np) (simp add: bit_length.simps[of 0])
  have "s + (p - 1) = bit_length n - 1" using assms False by (simp add: s_def)
  then have "(2::nat) ^ s * 2 ^ (p - 1) = 2 ^ (bit_length n - 1)" by (metis power_add)
  then have w: "2 ^ s * 2 ^ (p - 1) \<le> n" using bit_length_pos[OF n] by (simp only:)
  have r: "round_even p n = (if 2 ^ (s - 1) < n mod 2 ^ s \<or> (n mod 2 ^ s = 2 ^ (s - 1) \<and> odd (n div 2 ^ s)) then n div 2 ^ s + 1 else n div 2 ^ s) * 2 ^ s"
    using False unfolding round_even_def s_def Let_def by (simp only: if_False)
  have d: "n div 2 ^ s * 2 ^ s + n mod 2 ^ s = n" "n mod 2 ^ s < 2 ^ s" by (rule div_mult_mod_eq) simp
  have "round_even p n = n div 2 ^ s * 2 ^ s \<or> round_even p n = n div 2 ^ s * 2 ^ s + 2 ^ s"
    unfolding r by (simp add: add_mult_distrib)
  then have "round_even p n \<le> n + 2 ^ s" "n \<le> round_even p n + 2 ^ s" using d by linarith+
  then have "round_even p n * 2 ^ (p - 1) \<le> (n + 2 ^ s) * 2 ^ (p - 1)" "n * 2 ^ (p - 1) \<le> (round_even p n + 2 ^ s) * 2 ^ (p - 1)"
    by (intro mult_right_mono, simp_all)+
  with w show ?thesis by (simp add: add_mult_distrib add_mult_distrib2)
qed

lemma mul_1_33334_bounds: "n \<le> mul_1_33334 n \<and> mul_1_33334 n \<le> 2 * n"
proof -
  let ?x = "6004829527158177 * n" and ?r = "round_even 53 (6004829527158177 * n)"
  have h: "?r * 2 ^ 52 \<le> ?x * (2 ^ 52 + 1)" "?x * 2 ^ 52 \<le> ?r * 2 ^ 52 + ?x" using round_even_near[of 53 ?x] by simp_all
  have "?r \<le> 2 * n * 2 ^ 52"
  proof -
    have "?r * 2 ^ 52 \<le> (2 * n * 2 ^ 52) * 2 ^ 52" using h(1) by simp
    then show ?thesis by simp
  qed
  moreover have "n * 2 ^ 52 \<le> ?r"
  proof -
    have "(n * 2 ^ 52) * 2 ^ 52 \<le> ?r * 2 ^ 52" using h(2) by simp
    then show ?thesis by simp
  qed
  ultimately show ?thesis unfolding mul_1_33334_def
    by (metis div_le_mono div_mult_self_is_m zero_less_numeral zero_less_power)
qed

end
