(* ===== verification/Othello_Control.thy ===== *)
theory Othello_Control
  imports Packed_Cells Disjoint_Set Tree_Walk Rounding
begin

text \<open>
  The control plane of Othello, \<open>ControlPlaneOthello\<close> of
  \<open>src/platform/control_plane_othello.h\<close>: its state, and one definition per method. The
  template parameters, the hash functions behind \<open>Hasher64\<close>/\<open>Hasher32\<close> and the
  sequence of \<open>InputBase::rand()\<close> are the record \<open>template\<close>, so the model covers every
  instantiation with \<open>V = uint32_t\<close>; \<open>DASS_Tracker\<close> uses \<open>L = 1\<close>, \<open>DL = 0\<close>. Nothing is
  proved here; the correctness of these operations is in \<open>Othello_Invariant\<close> and the
  theories after it.

  Unsigned 32-bit fields that serve as sizes and indices (\<open>ma\<close>, \<open>mb\<close>, \<open>keyCnt\<close>, the cells
  of the linked lists and \<open>indMem\<close>) are natural numbers with the wrap-around written out
  as \<open>w32\<close>; memory words, hash seeds and values are machine words.
\<close>

subsection \<open>State\<close>

text \<open>\<open>uint32_t(-1)\<close>, the end of a linked list and "no key".\<close>

definition NOKEY :: nat where
  "NOKEY = 4294967295"

record OthelloCPCell =
  keyId :: nat
  nodeId :: nat

record 'k template =
  tL :: nat
  tDL :: nat
  tMaintainDP :: bool
  tMaintainDisjointSet :: bool
  tRandomized :: bool
  hash64 :: "u64 \<Rightarrow> 'k \<Rightarrow> u64"
  hash32 :: "u32 \<Rightarrow> 'k \<Rightarrow> u32"
  rand :: "nat \<Rightarrow> u32"

record 'k othello =
  mem :: "u64 list"
  ma :: nat
  mb :: nat
  hab :: u64
  hd_seed :: u32
  maintainingDP :: bool
  keyCnt :: nat
  minimalKeyCapacity :: nat
  keys :: "'k list"
  vals :: "u32 list"
  indMem :: "nat list"
  head :: "OthelloCPCell list"
  nextAtA :: "OthelloCPCell list"
  nextAtB :: "OthelloCPCell list"
  connectivityForest :: "int list"
  rand_pos :: nat

definition VDL :: "'k template \<Rightarrow> nat" where
  "VDL t = tL t + tDL t"

text \<open>\<open>InputBase::rand()\<close>: the next value of the sequence.\<close>

definition next_rand :: "'k template \<Rightarrow> 'k othello \<Rightarrow> u32 \<times> 'k othello" where
  "next_rand t ot = (rand t (rand_pos ot), ot\<lparr>rand_pos := Suc (rand_pos ot)\<rparr>)"

subsection \<open>Indices and cell memory\<close>

definition multiply_high_u32 :: "nat \<Rightarrow> nat \<Rightarrow> nat" where
  "multiply_high_u32 x y = w32 ((x * y mod 2 ^ 64) div 2 ^ 32)"

definition getIndices :: "'k template \<Rightarrow> 'k othello \<Rightarrow> 'k \<Rightarrow> nat \<times> nat" where
  "getIndices t ot k =
     (let hash = hash64 t (hab ot) k;
          bInd = w32 (multiply_high_u32 (w32 (unat (drop_bit 32 hash))) (mb ot) + ma ot);
          aInd = multiply_high_u32 (w32 (unat hash)) (ma ot)
      in (aInd, bInd))"

definition memResize :: "'k template \<Rightarrow> 'k othello \<Rightarrow> 'k othello" where
  "memResize t ot =
     (if \<not> maintainingDP ot then ot
      else ot\<lparr>mem := vresize (w32 (w32 (w32 (ma ot + mb ot) * VDL t) + 63) div 64) 0 (mem ot)\<rparr>)"

definition memSet :: "'k template \<Rightarrow> nat \<Rightarrow> u64 \<Rightarrow> 'k othello \<Rightarrow> 'k othello res" where
  "memSet t index value ot =
     (if VDL t = 0 then Inr ot
      else rbind (packed_set (VDL t) (w32 (index * VDL t)) value (mem ot)) (\<lambda>m.
           Inr (ot\<lparr>mem := m\<rparr>)))"

definition memGet :: "'k template \<Rightarrow> 'k othello \<Rightarrow> nat \<Rightarrow> u64 res" where
  "memGet t ot index =
     (if VDL t = 0 then Inr 0 else packed_get (VDL t) (w32 (index * VDL t)) (mem ot))"

definition memValueSet :: "'k template \<Rightarrow> nat \<Rightarrow> u64 \<Rightarrow> 'k othello \<Rightarrow> 'k othello res" where
  "memValueSet t index value ot =
     (if tL t = 0 then Inr ot
      else rbind (packed_set (tL t) (w32 (w32 (index * VDL t) + tDL t)) value (mem ot)) (\<lambda>m.
           Inr (ot\<lparr>mem := m\<rparr>)))"

definition memValueGet :: "'k template \<Rightarrow> 'k othello \<Rightarrow> nat \<Rightarrow> u64 res" where
  "memValueGet t ot index =
     (if tL t = 0 then Inr 0
      else packed_get (tL t) (w32 (w32 (index * VDL t) + tDL t)) (mem ot))"

subsection \<open>Lookups\<close>

definition queryIndex :: "'k template \<Rightarrow> 'k othello \<Rightarrow> 'k \<Rightarrow> nat res" where
  "queryIndex t ot k =
     (let (ha, hb) = getIndices t ot k
      in rbind (vat (indMem ot) ha) (\<lambda>aa.
         rbind (vat (indMem ot) hb) (\<lambda>bb.
         Inr (aa XOR bb))))"

text \<open>\<open>query\<close> returns its success flag and the out parameter: \<open>None\<close> is \<open>false\<close>.\<close>

definition query :: "'k template \<Rightarrow> 'k othello \<Rightarrow> 'k \<Rightarrow> u32 option res" where
  "query t ot k =
     (if tMaintainDP t then
        (let (ha, hb) = getIndices t ot k
         in rbind (memGet t ot ha) (\<lambda>a.
            rbind (memGet t ot hb) (\<lambda>b.
            let aa = (ucast a :: u32); bb = (ucast b :: u32);
                vd = (ucast (aa XOR bb) :: u64)
            in Inr (Some (ucast (drop_bit (tDL t) vd))))))
      else
        rbind (queryIndex t ot k) (\<lambda>index.
        if length (vals ot) \<le> index then Inr None
        else rbind (vat (vals ot) index) (\<lambda>v. Inr (Some v))))"

definition isMember :: "'k template \<Rightarrow> 'k othello \<Rightarrow> 'k \<Rightarrow> bool res" where
  "isMember t ot x =
     rbind (queryIndex t ot x) (\<lambda>index.
     if index < keyCnt ot then rbind (vat (keys ot) index) (\<lambda>k. Inr (k = x))
     else Inr False)"

subsection \<open>The linked lists of a node\<close>

text \<open>
  \<open>for (cell = head[nid]; cell.keyId != -1; cell = next[cell.keyId])\<close> as the list of
  the cells it runs over; the bodies of these loops change neither \<open>head\<close> nor \<open>next\<close>.
\<close>

fun chain :: "nat \<Rightarrow> OthelloCPCell list \<Rightarrow> OthelloCPCell \<Rightarrow> OthelloCPCell list res" where
  "chain 0 nxt c = Inl Diverges"
| "chain (Suc fuel) nxt c =
     (if keyId c = NOKEY then Inr []
      else rbind (vat nxt (keyId c)) (\<lambda>c1.
           rbind (chain fuel nxt c1) (\<lambda>cs. Inr (c # cs))))"

definition node_cells :: "'k othello \<Rightarrow> nat \<Rightarrow> (nat \<times> nat) list res" where
  "node_cells ot nid =
     (let nextKeyOfThisKey = (if nid < ma ot then nextAtA ot else nextAtB ot)
      in rbind (vat (head ot) nid) (\<lambda>c.
         rbind (chain (Suc (length nextKeyOfThisKey)) nextKeyOfThisKey c) (\<lambda>cs.
         Inr (map (\<lambda>c. (keyId c, nodeId c)) cs))))"

definition addEdge :: "nat \<Rightarrow> nat \<Rightarrow> nat \<Rightarrow> 'k othello \<Rightarrow> 'k othello res" where
  "addEdge key ha hb ot =
     rbind (vat (head ot) ha) (\<lambda>ca.
     rbind (vput (nextAtA ot) key ca) (\<lambda>na.
     rbind (vput (head ot) ha \<lparr>keyId = key, nodeId = hb\<rparr>) (\<lambda>hd1.
     rbind (vat hd1 hb) (\<lambda>cb.
     rbind (vput (nextAtB ot) key cb) (\<lambda>nb.
     rbind (vput hd1 hb \<lparr>keyId = key, nodeId = ha\<rparr>) (\<lambda>hd2.
     rbind (ds_merge (connectivityForest ot) (s32 ha) (s32 hb)) (\<lambda>cf.
     Inr (ot\<lparr>nextAtA := na, nextAtB := nb, head := hd2, connectivityForest := cf\<rparr>))))))))"

subsection \<open>Filling and fixing nodes\<close>

definition fillSingle :: "'k template \<Rightarrow> bool \<Rightarrow> bool \<Rightarrow> bool \<Rightarrow> nat \<Rightarrow> nat \<Rightarrow> nat
    \<Rightarrow> 'k othello \<Rightarrow> 'k othello res" where
  "fillSingle t fillValue fillIndex keepDigest key nodeToFill oppositeNode ot =
     rbind
       (if fillValue \<and> maintainingDP ot then
          rbind (vat (vals ot) key) (\<lambda>val.
          if keepDigest then
            rbind (memValueGet t ot oppositeNode) (\<lambda>w.
            memValueSet t nodeToFill (ucast val XOR w) ot)
          else if tDL t \<noteq> 0 then
            rbind (vat (keys ot) key) (\<lambda>k.
            rbind (memGet t ot oppositeNode) (\<lambda>w.
            let digest = ucast (hash32 t (hd_seed ot) k) AND low_mask (tDL t);
                vd = ucast (push_bit (tDL t) val) OR digest
            in memSet t nodeToFill ((vd XOR w) OR 1) ot))
          else
            rbind (memGet t ot oppositeNode) (\<lambda>w.
            memSet t nodeToFill (ucast val XOR w) ot))
        else Inr ot) (\<lambda>ot1.
     if fillIndex then
       rbind (vat (indMem ot1) oppositeNode) (\<lambda>i.
       rbind (vput (indMem ot1) nodeToFill (key XOR i)) (\<lambda>im.
       Inr (ot1\<lparr>indMem := im\<rparr>)))
     else Inr ot1)"

definition fixSingle :: "'k template \<Rightarrow> bool \<Rightarrow> bool \<Rightarrow> bool \<Rightarrow> nat \<Rightarrow> u64 \<Rightarrow> nat
    \<Rightarrow> 'k othello \<Rightarrow> 'k othello res" where
  "fixSingle t fillValue fillIndex keepDigest nodeToFix x ix ot =
     rbind
       (if fillValue \<and> tMaintainDP t then
          if keepDigest then
            rbind (memValueGet t ot nodeToFix) (\<lambda>w. memValueSet t nodeToFix (x XOR w) ot)
          else
            rbind (memGet t ot nodeToFix) (\<lambda>w. memSet t nodeToFix (x XOR w) ot)
        else Inr ot) (\<lambda>ot1.
     if fillIndex then
       rbind (vat (indMem ot1) nodeToFix) (\<lambda>i.
       rbind (vput (indMem ot1) nodeToFix (ix XOR i)) (\<lambda>im.
       Inr (ot1\<lparr>indMem := im\<rparr>)))
     else Inr ot1)"

text \<open>
  A walk pops every node of its component once, so one more than the number of nodes is
  fuel for it; on a cyclic component the C++ loop does not return.
\<close>

definition walk_fuel :: "'k othello \<Rightarrow> nat" where
  "walk_fuel ot = Suc (ma ot + mb ot)"

definition fillTreeDFS :: "'k template \<Rightarrow> bool \<Rightarrow> bool \<Rightarrow> bool \<Rightarrow> nat \<Rightarrow> 'k othello \<Rightarrow> 'k othello res" where
  "fillTreeDFS t fillValue fillIndex keepDigest root ot =
     rbind (guard AssertFailed (root < ma ot)) (\<lambda>_.
     walk_tree node_cells (\<lambda>key nextNode nid. fillSingle t fillValue fillIndex keepDigest key nextNode nid)
       (walk_fuel ot) [(NOKEY, root)] ot)"

text \<open>
  The opening of \<open>fixHalfTreeDFS\<close> and of its \<open>_on_demand\<close> twin: with digests (\<open>DL > 0\<close>),
  an empty \<open>hb\<close> is marked taken, and the roles of the two ends are swapped when \<open>root\<close>
  is taken. The result is \<open>(root, hb, swapped)\<close>.
\<close>

definition fix_orient :: "'k template \<Rightarrow> bool \<Rightarrow> nat \<Rightarrow> nat \<Rightarrow> 'k othello
    \<Rightarrow> ((nat \<times> nat \<times> bool) \<times> 'k othello) res" where
  "fix_orient t fillValue root hb ot =
     (if fillValue then
        rbind (memGet t ot root) (\<lambda>rootVal.
        rbind (memGet t ot hb) (\<lambda>hbVal.
        if tDL t \<noteq> 0 \<and> \<not> bit hbVal 0 then
          rbind (memSet t hb (hbVal OR 1) ot) (\<lambda>ot1.
          if bit rootVal 0 then Inr ((hb, root, True), ot1) else Inr ((root, hb, False), ot1))
        else Inr ((root, hb, False), ot)))
      else Inr ((root, hb, False), ot))"

definition read_value :: "'k template \<Rightarrow> bool \<Rightarrow> bool \<Rightarrow> 'k othello \<Rightarrow> nat \<Rightarrow> u64 res" where
  "read_value t fillValue keepDigest ot node =
     (if fillValue then (if keepDigest then memValueGet t ot node else memGet t ot node) else Inr 0)"

definition read_index :: "bool \<Rightarrow> 'k othello \<Rightarrow> nat \<Rightarrow> nat res" where
  "read_index fillIndex ot node = (if fillIndex then vat (indMem ot) node else Inr 0)"

text \<open>The result is the returned \<open>int64_t\<close> as its bit pattern.\<close>

definition fixHalfTreeDFS :: "'k template \<Rightarrow> bool \<Rightarrow> bool \<Rightarrow> bool \<Rightarrow> nat \<Rightarrow> nat \<Rightarrow> nat
    \<Rightarrow> 'k othello \<Rightarrow> (u64 \<times> 'k othello) res" where
  "fixHalfTreeDFS t fillValue fillIndex keepDigest key root0 hb0 ot0 =
     rbind (guard AssertFailed (root0 < ma ot0 \<and> key \<noteq> NOKEY)) (\<lambda>_.
     rbind (fix_orient t fillValue root0 hb0 ot0) (\<lambda>((root, hb, swapped), ot).
     rbind (read_value t fillValue keepDigest ot root) (\<lambda>x0.
     rbind (read_index fillIndex ot root) (\<lambda>ix0.
     rbind (fillSingle t fillValue fillIndex keepDigest key root hb ot) (\<lambda>ot1.
     rbind (read_value t fillValue keepDigest ot1 root) (\<lambda>x1.
     rbind (read_index fillIndex ot1 root) (\<lambda>ix1.
     let x = (if fillValue then x0 XOR x1 else 0);
         ix = (if fillIndex then ix0 XOR ix1 else 0)
     in rbind (walk_tree node_cells (\<lambda>_ nextNode _. fixSingle t fillValue fillIndex keepDigest nextNode x ix)
                 (walk_fuel ot1) [(key, root)] ot1) (\<lambda>ot2.
        Inr (if swapped then - x else x, ot2)))))))))"

text \<open>The twin that also appends the nodes whose cell changed to \<open>flipped_index\<close>.\<close>

definition fixHalfTreeDFS_on_demand :: "'k template \<Rightarrow> bool \<Rightarrow> bool \<Rightarrow> bool \<Rightarrow> nat \<Rightarrow> nat \<Rightarrow> nat
    \<Rightarrow> 'k othello \<times> nat list \<Rightarrow> (u64 \<times> 'k othello \<times> nat list) res" where
  "fixHalfTreeDFS_on_demand t fillValue fillIndex keepDigest key root0 hb0 = (\<lambda>(ot0, flipped_index).
     rbind (guard AssertFailed (root0 < ma ot0 \<and> key \<noteq> NOKEY)) (\<lambda>_.
     rbind (fix_orient t fillValue root0 hb0 ot0) (\<lambda>((root, hb, swapped), ot).
     rbind (read_value t fillValue keepDigest ot root) (\<lambda>x0.
     rbind (read_index fillIndex ot root) (\<lambda>ix0.
     rbind (memGet t ot root) (\<lambda>pre_root_value.
     rbind (fillSingle t fillValue fillIndex keepDigest key root hb ot) (\<lambda>ot1.
     rbind (memGet t ot1 root) (\<lambda>post_root_value.
     rbind (read_value t fillValue keepDigest ot1 root) (\<lambda>x1.
     rbind (read_index fillIndex ot1 root) (\<lambda>ix1.
     let fl1 = (if pre_root_value \<noteq> post_root_value then flipped_index @ [root] else flipped_index);
         x = (if fillValue then x0 XOR x1 else 0);
         ix = (if fillIndex then ix0 XOR ix1 else 0)
     in rbind (walk_tree (\<lambda>(ot, _). node_cells ot)
                 (\<lambda>_ nextNode _ (ot, fl).
                    rbind (fixSingle t fillValue fillIndex keepDigest nextNode x ix ot) (\<lambda>ot'.
                    Inr (ot', if x \<noteq> 0 then fl @ [nextNode] else fl)))
                 (walk_fuel ot1) [(key, root)] (ot1, fl1)) (\<lambda>(ot2, fl2).
        Inr (if swapped then - x else x, ot2, fl2))))))))))))"

definition getConnectedComponent :: "'k othello \<Rightarrow> nat \<Rightarrow> nat \<Rightarrow> nat list res" where
  "getConnectedComponent ot skip root =
     walk_tree (\<lambda>_. node_cells ot) (\<lambda>_ nextNode _ result. Inr (result @ [nextNode]))
       (walk_fuel ot) [(skip, root)] []"

subsection \<open>Connectivity\<close>

text \<open>One node of the search: \<open>None\<close> when \<open>hb0\<close> is met, the stack otherwise.\<close>

fun search_cells :: "nat \<Rightarrow> nat \<Rightarrow> (nat \<times> nat) list \<Rightarrow> stack \<Rightarrow> stack option" where
  "search_cells hb0 prev [] st = Some st"
| "search_cells hb0 prev ((k, w) # cs) st =
     (if k = prev then search_cells hb0 prev cs st
      else if w = hb0 then None
      else search_cells hb0 prev cs ((k, w) # st))"

fun search_tree :: "'k othello \<Rightarrow> nat \<Rightarrow> nat \<Rightarrow> stack \<Rightarrow> bool res" where
  "search_tree ot hb0 0 st = Inl Diverges"
| "search_tree ot hb0 (Suc fuel) stk =
     (case stk of
        [] \<Rightarrow> Inr False
      | (prev, nid) # st \<Rightarrow>
          rbind (node_cells ot nid) (\<lambda>cs.
          case search_cells hb0 prev cs st of
            None \<Rightarrow> Inr True
          | Some st1 \<Rightarrow> search_tree ot hb0 fuel st1))"

definition isConnectedDFS :: "'k template \<Rightarrow> nat \<Rightarrow> nat \<Rightarrow> 'k othello \<Rightarrow> (bool \<times> 'k othello) res" where
  "isConnectedDFS t ha0 hb0 ot =
     (if tMaintainDisjointSet t then
        rbind (ds_sameSet (connectivityForest ot) (s32 ha0) (s32 hb0)) (\<lambda>(b, cf).
        Inr (b, ot\<lparr>connectivityForest := cf\<rparr>))
      else if ha0 = hb0 then Inr (True, ot)
      else rbind (search_tree ot hb0 (walk_fuel ot) [(NOKEY, ha0)]) (\<lambda>b. Inr (b, ot)))"

definition forest_set :: "nat \<Rightarrow> nat \<Rightarrow> 'k othello \<Rightarrow> 'k othello res" where
  "forest_set node root ot =
     rbind (ds_set (connectivityForest ot) (s32 node) (s32 root)) (\<lambda>cf.
     Inr (ot\<lparr>connectivityForest := cf\<rparr>))"

definition connectBFS :: "'k template \<Rightarrow> nat \<Rightarrow> 'k othello \<Rightarrow> 'k othello res" where
  "connectBFS t root ot =
     rbind (forest_set root root ot) (\<lambda>ot1.
     rbind (vat (head ot1) root) (\<lambda>c.
     if keyId c = NOKEY then
       (if maintainingDP ot1 then
          rbind (memGet t ot1 root) (\<lambda>v. memSet t root (v AND push_bit 1 (- 1)) ot1)
        else Inr ot1)
     else walk_tree node_cells (\<lambda>_ nextNode _. forest_set nextNode root)
            (walk_fuel ot1) [(NOKEY, root)] ot1))"

definition connectBFS_on_demand :: "'k template \<Rightarrow> nat \<Rightarrow> 'k othello \<times> nat list
    \<Rightarrow> ('k othello \<times> nat list) res" where
  "connectBFS_on_demand t root = (\<lambda>(ot, flipped_index).
     rbind (forest_set root root ot) (\<lambda>ot1.
     rbind (vat (head ot1) root) (\<lambda>c.
     if keyId c = NOKEY then
       rbind (memGet t ot1 root) (\<lambda>pre_root_value.
       rbind (if maintainingDP ot1 then
                rbind (memGet t ot1 root) (\<lambda>v. memSet t root (v AND push_bit 1 (- 1)) ot1)
              else Inr ot1) (\<lambda>ot2.
       rbind (memGet t ot2 root) (\<lambda>post_root_value.
       Inr (ot2, if (ucast pre_root_value :: u32) \<noteq> ucast post_root_value
                 then flipped_index @ [root] else flipped_index))))
     else rbind (walk_tree node_cells (\<lambda>_ nextNode _. forest_set nextNode root)
                   (walk_fuel ot1) [(NOKEY, root)] ot1) (\<lambda>ot2.
          Inr (ot2, flipped_index)))))"

subsection \<open>Building\<close>

definition VDMASK :: "'k template \<Rightarrow> u64" where
  "VDMASK t = push_bit 1 (low_mask (VDL t)) AND low_mask (VDL t)"

definition resetBuildState :: "'k template \<Rightarrow> 'k othello \<Rightarrow> 'k othello res" where
  "resetBuildState t ot =
     rbind (rfold (\<lambda>i o1.
       if maintainingDP o1 then
         (if tRandomized t then
            (let (v, o2) = next_rand t o1 in memSet t i (ucast v AND VDMASK t) o2)
          else memSet t i 0 o1)
       else Inr o1) [0..<w32 (ma ot + mb ot)] ot) (\<lambda>o3.
     let none = \<lparr>keyId = NOKEY, nodeId = NOKEY\<rparr>
     in Inr (o3\<lparr>head := map (\<lambda>_. none) (head o3),
                nextAtA := map (\<lambda>_. none) (nextAtA o3),
                nextAtB := map (\<lambda>_. none) (nextAtB o3),
                connectivityForest := ds_reset (connectivityForest o3)\<rparr>))"

fun testHash_from :: "'k template \<Rightarrow> nat list \<Rightarrow> 'k othello \<Rightarrow> (bool \<times> 'k othello) res" where
  "testHash_from t [] ot = Inr (True, ot)"
| "testHash_from t (i # is) ot =
     rbind (vat (keys ot) i) (\<lambda>k.
     let (ha, hb) = getIndices t ot k
     in rbind (ds_sameSet (connectivityForest ot) (s32 ha) (s32 hb)) (\<lambda>(same, cf).
        let o1 = ot\<lparr>connectivityForest := cf\<rparr>
        in if same then Inr (False, o1)
           else rbind (addEdge i ha hb o1) (testHash_from t is)))"

definition testHash :: "'k template \<Rightarrow> 'k othello \<Rightarrow> (bool \<times> 'k othello) res" where
  "testHash t ot = testHash_from t [0..<keyCnt ot] ot"

definition fillValue :: "'k template \<Rightarrow> bool \<Rightarrow> 'k othello \<Rightarrow> 'k othello res" where
  "fillValue t keepDigest ot =
     rfold (\<lambda>i o1.
       rbind (ds_isRoot (connectivityForest o1) (s32 i)) (\<lambda>r.
       if r then
         rbind (if (tDL t \<noteq> 0 \<or> tRandomized t) \<and> maintainingDP o1 then
                  (if tRandomized t then
                     (let (v, o2) = next_rand t o1 in memSet t i (ucast (v OR 1)) o2)
                   else memSet t i 1 o1)
                else Inr o1)
               (fillTreeDFS t True True keepDigest i)
       else Inr o1)) [0..<w32 (ma ot + mb ot)] ot"

definition tryBuild :: "'k template \<Rightarrow> 'k othello \<Rightarrow> (bool \<times> 'k othello) res" where
  "tryBuild t ot =
     rbind (resetBuildState t ot) (\<lambda>o1.
     if keyCnt o1 = 0 then Inr (True, o1)
     else rbind (testHash t o1) (\<lambda>(succ, o2).
          if succ then rbind (fillValue t False o2) (\<lambda>o3. Inr (True, o3))
          else Inr (False, o2)))"

definition MAX_REHASH :: nat where
  "MAX_REHASH = 50"

text \<open>\<open>(uint64_t(rand()) << 32) | rand()\<close>, the left operand first.\<close>

definition new_seed :: "'k template \<Rightarrow> 'k othello \<Rightarrow> 'k othello" where
  "new_seed t ot =
     (let (a, o1) = next_rand t ot; (b, o2) = next_rand t o1
      in o2\<lparr>hab := push_bit 32 (ucast a) OR ucast b\<rparr>)"

text \<open>The remaining tries are the recursion; \<open>build\<close> returns \<open>true\<close> or throws.\<close>

fun build_tries :: "'k template \<Rightarrow> nat \<Rightarrow> 'k othello \<Rightarrow> 'k othello res" where
  "build_tries t 0 ot = Inl (Thrown ''exception'')"
| "build_tries t (Suc n) ot =
     rbind (tryBuild t (new_seed t ot)) (\<lambda>(built, o1).
     if built then Inr o1 else build_tries t n o1)"

definition build :: "'k template \<Rightarrow> 'k othello \<Rightarrow> 'k othello res" where
  "build t ot = build_tries t MAX_REHASH ot"

subsection \<open>Sizes\<close>

text \<open>\<open>while (nextMb < targetCapacity) nextMb <<= 1\<close>; 33 rounds pass every 32-bit start but 0.\<close>

fun double_until :: "nat \<Rightarrow> nat \<Rightarrow> nat \<Rightarrow> nat res" where
  "double_until 0 nextMb target = Inl Diverges"
| "double_until (Suc fuel) nextMb target =
     (if nextMb < target then double_until fuel (w32 (2 * nextMb)) target else Inr nextMb)"

definition zero_cell :: OthelloCPCell where
  "zero_cell = \<lparr>keyId = 0, nodeId = 0\<rparr>"

definition resizeKey :: "'k::zero template \<Rightarrow> nat \<Rightarrow> bool \<Rightarrow> 'k othello \<Rightarrow> 'k othello res" where
  "resizeKey t target0 compact ot =
     (let targetCapacity = max target0 (minimalKeyCapacity ot)
      in if targetCapacity < keyCnt ot
         then Inl (Thrown ''The specified capacity is less than current key size! '')
         else
           rbind (if compact then Inr targetCapacity
                  else double_until 33 (minimalKeyCapacity ot) targetCapacity) (\<lambda>nextMb.
           let nextMa = w32 (mul_1_33334 nextMb);
               o1 = (if length (keys ot) < targetCapacity then
                       (let keyCntReserve = max 256 (w32 (targetCapacity * 2))
                        in ot\<lparr>keys := vresize keyCntReserve 0 (keys ot),
                              vals := vresize keyCntReserve 0 (vals ot),
                              nextAtA := vresize keyCntReserve zero_cell (nextAtA ot),
                              nextAtB := vresize keyCntReserve zero_cell (nextAtB ot)\<rparr>)
                     else ot)
           in if ma o1 < nextMa \<or> less_0_8 nextMa (ma o1) then
                let o2 = memResize t (o1\<lparr>ma := nextMa, mb := nextMb\<rparr>);
                    n = w32 (nextMa + nextMb)
                in build t (o2\<lparr>indMem := vresize n 0 (indMem o2),
                               head := vresize n zero_cell (head o2),
                               connectivityForest := ds_resize (connectivityForest o2) n\<rparr>)
              else Inr o1))"

text \<open>The members before the constructor's body runs, with the seeds drawn from \<open>rand\<close>.\<close>

definition othello_init :: "'k template \<Rightarrow> nat \<Rightarrow> 'k othello" where
  "othello_init t pos =
     \<lparr>mem = [], ma = 0, mb = 0,
      hab = push_bit 32 (ucast (rand t pos)) + ucast (rand t (pos + 1)),
      hd_seed = rand t (pos + 2), maintainingDP = tMaintainDP t, keyCnt = 0,
      minimalKeyCapacity = 0, keys = [], vals = [], indMem = [], head = [],
      nextAtA = [], nextAtB = [], connectivityForest = [], rand_pos = pos + 3\<rparr>"

definition othello_new :: "'k::zero template \<Rightarrow> nat \<Rightarrow> float32 \<Rightarrow> nat \<Rightarrow> 'k othello res" where
  "othello_new t keyCapacity o_ratio pos =
     (let o1 = (othello_init t pos)\<lparr>minimalKeyCapacity := w32 (w32 (mul_float32 keyCapacity o_ratio) + 1)\<rparr>
      in rbind (resizeKey t 0 True o1) (\<lambda>o2.
         rbind (resetBuildState t o2) (build t)))"

definition setMinimalKeyCapacity :: "'k::zero template \<Rightarrow> nat \<Rightarrow> 'k othello \<Rightarrow> 'k othello res" where
  "setMinimalKeyCapacity t c ot = resizeKey t 0 False (ot\<lparr>minimalKeyCapacity := c\<rparr>)"

definition clear :: "'k::zero template \<Rightarrow> 'k othello \<Rightarrow> 'k othello res" where
  "clear t ot = setMinimalKeyCapacity t 0 (ot\<lparr>keyCnt := 0\<rparr>)"

definition prepareDP :: "'k template \<Rightarrow> 'k othello \<Rightarrow> 'k othello res" where
  "prepareDP t ot =
     (if tMaintainDP t then Inr ot
      else rbind (fillValue t False (memResize t (ot\<lparr>maintainingDP := True\<rparr>))) (\<lambda>o1.
           Inr (o1\<lparr>maintainingDP := False\<rparr>)))"

subsection \<open>Insertion and update\<close>

text \<open>
  \<open>1 << VDL\<close> shifts an \<open>int\<close> and is undefined from 32 bits on.
\<close>

definition insert_kv :: "'k::zero template \<Rightarrow> bool \<Rightarrow> 'k \<times> u32 \<Rightarrow> 'k othello \<Rightarrow> (u64 \<times> 'k othello) res" where
  "insert_kv t DoNotRebuild = (\<lambda>(k, v) ot.
     rbind (isMember t ot k) (\<lambda>member.
     rbind (guard AssertFailed (\<not> member)) (\<lambda>_.
     let lastIndex = keyCnt ot
     in rbind (if length (keys ot) \<le> w32 (keyCnt ot + 1) \<or> mb ot \<le> keyCnt ot
               then resizeKey t (w32 (keyCnt ot + 1)) False ot else Inr ot) (\<lambda>o1.
        rbind (vput (keys o1) lastIndex k) (\<lambda>ks.
        rbind (vput (vals o1) lastIndex v) (\<lambda>vs.
        let o2 = o1\<lparr>keyCnt := w32 (keyCnt o1 + 1), keys := ks, vals := vs\<rparr>;
            (ha, hb) = getIndices t o2 k;
            result = (scast (push_bit (VDL t) 1 :: u32) :: u64)
        in rbind (guard Undefined (VDL t < 32)) (\<lambda>_.
           rbind (isConnectedDFS t ha hb o2) (\<lambda>(connected, o3).
           if connected then
             (if DoNotRebuild then Inl (Thrown ''Do not allow rebuild'')
              else rbind (build t o3) (\<lambda>o4. Inr (result, o4)))
           else rbind (addEdge lastIndex ha hb o3) (\<lambda>o4.
                fixHalfTreeDFS t (tMaintainDP t) True False (w32 (keyCnt o4 + (2 ^ 32 - 1))) ha hb o4)))))))))"

text \<open>
  \<open>insert_on_demand\<close> never resizes: it writes at \<open>keyCnt\<close> whatever the capacity is. The
  Boolean is its result, \<open>False\<close> when a rebuild is needed. The value \<open>1 << VDL\<close> it computes
  too is never used and left out.
\<close>

definition insert_on_demand :: "'k template \<Rightarrow> 'k \<times> u32 \<Rightarrow> 'k othello \<times> nat list
    \<Rightarrow> (bool \<times> 'k othello \<times> nat list) res" where
  "insert_on_demand t = (\<lambda>(k, v) (ot, flipped_index).
     rbind (isMember t ot k) (\<lambda>member.
     rbind (guard AssertFailed (\<not> member)) (\<lambda>_.
     let lastIndex = keyCnt ot
     in rbind (vput (keys ot) lastIndex k) (\<lambda>ks.
        rbind (vput (vals ot) lastIndex v) (\<lambda>vs.
        let o2 = ot\<lparr>keyCnt := w32 (keyCnt ot + 1), keys := ks, vals := vs\<rparr>;
            (ha, hb) = getIndices t o2 k
        in rbind (isConnectedDFS t ha hb o2) (\<lambda>(connected, o3).
           if connected then Inr (False, o3, flipped_index)
           else rbind (addEdge lastIndex ha hb o3) (\<lambda>o4.
                rbind (fixHalfTreeDFS_on_demand t (tMaintainDP t) True False
                         (w32 (keyCnt o4 + (2 ^ 32 - 1))) ha hb (o4, flipped_index)) (\<lambda>(_, o5, fl).
                Inr (True, o5, fl)))))))))"

definition updateValueAt :: "'k template \<Rightarrow> nat \<Rightarrow> u32 \<Rightarrow> 'k othello \<Rightarrow> (u64 \<times> 'k othello) res" where
  "updateValueAt t key val ot =
     (if keyCnt ot \<le> key then Inl (Thrown ''exception'')
      else rbind (vput (vals ot) key val) (\<lambda>vs.
           let o1 = ot\<lparr>vals := vs\<rparr>
           in if tMaintainDP t then
                rbind (vat (keys o1) key) (\<lambda>k.
                let (ha, hb) = getIndices t o1 k
                in fixHalfTreeDFS t True False True key ha hb o1)
              else Inr (0, o1)))"

definition updateValueAt_on_demand :: "'k template \<Rightarrow> nat \<Rightarrow> u32 \<Rightarrow> 'k othello \<times> nat list
    \<Rightarrow> (u64 \<times> 'k othello \<times> nat list) res" where
  "updateValueAt_on_demand t key val = (\<lambda>(ot, flipped_index).
     if keyCnt ot \<le> key then Inl (Thrown ''exception'')
     else rbind (vput (vals ot) key val) (\<lambda>vs.
          let o1 = ot\<lparr>vals := vs\<rparr>
          in if tMaintainDP t then
               rbind (vat (keys o1) key) (\<lambda>k.
               let (ha, hb) = getIndices t o1 k
               in fixHalfTreeDFS_on_demand t True False True key ha hb (o1, flipped_index))
             else Inr (0, o1, flipped_index)))"

definition valueFlip :: "'k template \<Rightarrow> 'k \<times> u32 \<Rightarrow> 'k othello \<Rightarrow> 'k othello res" where
  "valueFlip t = (\<lambda>(k, v) ot.
     rbind (queryIndex t ot k) (\<lambda>i. rbind (updateValueAt t i v ot) (\<lambda>(_, o1). Inr o1)))"

definition valueFlip_on_demand :: "'k template \<Rightarrow> 'k \<times> u32 \<Rightarrow> 'k othello \<times> nat list
    \<Rightarrow> ('k othello \<times> nat list) res" where
  "valueFlip_on_demand t = (\<lambda>(k, v) (ot, fl).
     rbind (queryIndex t ot k) (\<lambda>i.
     rbind (updateValueAt_on_demand t i v (ot, fl)) (\<lambda>(_, o1, fl1). Inr (o1, fl1))))"

definition updateMapping :: "'k template \<Rightarrow> 'k \<Rightarrow> u32 \<Rightarrow> 'k othello \<Rightarrow> (u64 \<times> 'k othello) res" where
  "updateMapping t k val ot = rbind (queryIndex t ot k) (\<lambda>i. updateValueAt t i val ot)"

subsection \<open>Deletion\<close>

text \<open>\<open>while (next[t].keyId != target) t = next[t].keyId\<close>; the result is the last \<open>t\<close>.\<close>

fun find_pred :: "nat \<Rightarrow> OthelloCPCell list \<Rightarrow> nat \<Rightarrow> nat \<Rightarrow> nat res" where
  "find_pred 0 nxt target t = Inl Diverges"
| "find_pred (Suc fuel) nxt target t =
     rbind (vat nxt t) (\<lambda>c. if keyId c \<noteq> target then find_pred fuel nxt target (keyId c) else Inr t)"

text \<open>Take the cell of key \<open>key\<close> out of the list of node \<open>nd\<close>.\<close>

definition unlink :: "nat \<Rightarrow> nat \<Rightarrow> OthelloCPCell list \<times> OthelloCPCell list
    \<Rightarrow> (OthelloCPCell list \<times> OthelloCPCell list) res" where
  "unlink nd key = (\<lambda>(heads, nxt).
     rbind (vat heads nd) (\<lambda>c.
     if keyId c = key then
       rbind (vat nxt key) (\<lambda>c1. rbind (vput heads nd c1) (\<lambda>h. Inr (h, nxt)))
     else
       rbind (find_pred (Suc (length nxt)) nxt key (keyId c)) (\<lambda>t.
       rbind (vat nxt key) (\<lambda>c1. rbind (vput nxt t c1) (\<lambda>n. Inr (heads, n))))))"

text \<open>
  Give the cell of key \<open>lastId\<close> in the list of node \<open>nd\<close> the number \<open>key\<close>: copy its
  successor and replace the cell that points to it by \<open>c'\<close>.
\<close>

definition relink :: "nat \<Rightarrow> nat \<Rightarrow> nat \<Rightarrow> OthelloCPCell \<Rightarrow> OthelloCPCell list \<times> OthelloCPCell list
    \<Rightarrow> (OthelloCPCell list \<times> OthelloCPCell list) res" where
  "relink nd lastId key c' = (\<lambda>(heads, nxt).
     rbind (vat nxt lastId) (\<lambda>cl.
     rbind (vput nxt key cl) (\<lambda>nxt1.
     rbind (vat heads nd) (\<lambda>c.
     if keyId c = lastId then rbind (vput heads nd c') (\<lambda>h. Inr (h, nxt1))
     else rbind (find_pred (Suc (length nxt1)) nxt1 lastId (keyId c)) (\<lambda>t.
          rbind (vput nxt1 t c') (\<lambda>n. Inr (heads, n)))))))"

text \<open>
  The part that \<open>erase\<close> and \<open>erase_on_demand\<close> share: delete the edge of key number
  \<open>key\<close>, then move the last key into its place. The second component names the moved
  edge, whose index has to be fixed by the caller.
\<close>

definition erase_links :: "'k template \<Rightarrow> nat \<Rightarrow> nat \<Rightarrow> nat \<Rightarrow> 'k othello
    \<Rightarrow> ('k othello \<times> (nat \<times> nat) option) res" where
  "erase_links t key ha hb ot =
     (let n = w32 (keyCnt ot + (2 ^ 32 - 1)); o1 = ot\<lparr>keyCnt := n\<rparr>
      in rbind (unlink ha key (head o1, nextAtA o1)) (\<lambda>(h1, na1).
         rbind (unlink hb key (h1, nextAtB o1)) (\<lambda>(h2, nb1).
         let o2 = o1\<lparr>head := h2, nextAtA := na1, nextAtB := nb1\<rparr>
         in if key \<noteq> n then
              rbind (vat (keys o2) n) (\<lambda>lastKey.
              rbind (vput (keys o2) key lastKey) (\<lambda>ks.
              rbind (vat (vals o2) n) (\<lambda>lastVal.
              rbind (vput (vals o2) key lastVal) (\<lambda>vs.
              let o3 = o2\<lparr>keys := ks, vals := vs\<rparr>;
                  (hal, hbl) = getIndices t o3 lastKey
              in rbind (relink hal n key \<lparr>keyId = key, nodeId = hbl\<rparr> (head o3, nextAtA o3)) (\<lambda>(h3, na2).
                 rbind (relink hbl n key \<lparr>keyId = key, nodeId = hal\<rparr> (h3, nextAtB o3)) (\<lambda>(h4, nb2).
                 Inr (o3\<lparr>head := h4, nextAtA := na2, nextAtB := nb2\<rparr>, Some (hal, hbl))))))))
            else Inr (o2, None))))"

text \<open>
  The number of the key to delete: the argument, or (for \<open>-1\<close>) the looked-up one; \<open>None\<close>
  when the key is not stored.
\<close>

definition erase_target :: "'k template \<Rightarrow> 'k \<Rightarrow> nat \<Rightarrow> 'k othello \<Rightarrow> nat option res" where
  "erase_target t k key ot =
     (if key = NOKEY then
        rbind (queryIndex t ot k) (\<lambda>i.
        if keyCnt ot \<le> i then Inr None
        else rbind (vat (keys ot) i) (\<lambda>k'. Inr (if k' \<noteq> k then None else Some i)))
      else Inr (Some key))"

definition erase :: "'k template \<Rightarrow> 'k \<Rightarrow> nat \<Rightarrow> 'k othello \<Rightarrow> 'k othello res" where
  "erase t k key0 ot =
     rbind (erase_target t k key0 ot) (\<lambda>target.
     case target of
       None \<Rightarrow> Inr ot
     | Some key \<Rightarrow>
         (let (ha, hb) = getIndices t ot k
          in rbind (erase_links t key ha hb ot) (\<lambda>(o1, moved).
             rbind (case moved of
                      None \<Rightarrow> Inr o1
                    | Some (hal, hbl) \<Rightarrow>
                        rbind (fixHalfTreeDFS t False True True key hal hbl o1) (\<lambda>(_, o2). Inr o2)) (\<lambda>o3.
             if tMaintainDisjointSet t then rbind (connectBFS t ha o3) (connectBFS t hb)
             else Inr o3))))"

definition erase_on_demand :: "'k template \<Rightarrow> 'k \<Rightarrow> nat \<Rightarrow> 'k othello \<times> nat list
    \<Rightarrow> ('k othello \<times> nat list) res" where
  "erase_on_demand t k key0 = (\<lambda>(ot, flipped_index).
     rbind (erase_target t k key0 ot) (\<lambda>target.
     case target of
       None \<Rightarrow> Inr (ot, flipped_index)
     | Some key \<Rightarrow>
         (let (ha, hb) = getIndices t ot k
          in rbind (erase_links t key ha hb ot) (\<lambda>(o1, moved).
             rbind (case moved of
                      None \<Rightarrow> Inr (o1, flipped_index)
                    | Some (hal, hbl) \<Rightarrow>
                        rbind (fixHalfTreeDFS_on_demand t False True True key hal hbl (o1, flipped_index))
                          (\<lambda>(_, o2, fl). Inr (o2, fl))) (\<lambda>s3.
             if tMaintainDisjointSet t
             then rbind (connectBFS_on_demand t ha s3) (connectBFS_on_demand t hb)
             else Inr s3)))))"

definition eraseAt :: "'k template \<Rightarrow> nat \<Rightarrow> 'k othello \<Rightarrow> 'k othello res" where
  "eraseAt t key ot =
     (if keyCnt ot \<le> key then Inl (Thrown ''exception'')
      else rbind (vat (keys ot) key) (\<lambda>k. erase t k key ot))"

subsection \<open>Checks and reports\<close>

text \<open>\<open>checkIntegrity\<close> asserts, for every key, its value and its index.\<close>

definition checkIntegrity :: "'k template \<Rightarrow> 'k othello \<Rightarrow> bool res" where
  "checkIntegrity t ot =
     rfold (\<lambda>i _.
       rbind (vat (keys ot) i) (\<lambda>k.
       rbind (query t ot k) (\<lambda>q.
       rbind (guard AssertFailed (q \<noteq> None)) (\<lambda>_.
       rbind (vat (vals ot) i) (\<lambda>v.
       rbind (guard AssertFailed
         ((ucast (the q) :: u64) AND low_mask (tL t) = ucast v AND low_mask (tL t))) (\<lambda>_.
       rbind (queryIndex t ot k) (\<lambda>j.
       rbind (guard AssertFailed (j = i)) (\<lambda>_. Inr True)))))))) [0..<keyCnt ot] True"

text \<open>\<open>getCnt\<close>: how many pairs of nodes a lookup would answer with each value.\<close>

definition getCnt :: "'k template \<Rightarrow> 'k othello \<Rightarrow> u32 list res" where
  "getCnt t ot =
     rfold (\<lambda>i cnt.
       rfold (\<lambda>j cnt1.
         rbind (memGet t ot i) (\<lambda>x.
         rbind (memGet t ot j) (\<lambda>y.
         rbind (vat cnt1 (unat (x XOR y))) (\<lambda>c.
         vput cnt1 (unat (x XOR y)) (c + 1)))))
       [ma ot..<w32 (ma ot + mb ot)] cnt)
     [0..<ma ot] (replicate (2 ^ tL t) 0)"

end
