(* ===== verification/Othello_Tables.thy ===== *)
theory Othello_Tables
  imports Othello_Control
begin

text \<open>
  The tables of the control plane: when its vectors are large enough for every access
  (\<open>sizes\<close>), what one cell of \<open>mem\<close> holds, and the effect of \<open>memSet\<close>, \<open>fillSingle\<close> and
  \<open>fixSingle\<close> on all cells. \<open>plain\<close> is the instantiation \<open>DASS_Tracker\<close> uses: values of \<open>L\<close>
  bits without digests, a maintained data plane and a maintained disjoint set.
\<close>

definition plain :: "'k template \<Rightarrow> bool" where
  "plain t \<longleftrightarrow> tDL t = 0 \<and> 0 < tL t \<and> tL t \<le> 32 \<and> tMaintainDP t \<and> tMaintainDisjointSet t \<and> \<not> tRandomized t"

definition nodes :: "'k othello \<Rightarrow> nat" where
  "nodes ot = ma ot + mb ot"

definition sizes :: "'k template \<Rightarrow> 'k othello \<Rightarrow> bool" where
  "sizes t ot \<longleftrightarrow> maintainingDP ot \<and> 0 < ma ot \<and> 0 < mb ot \<and> nodes ot < 2 ^ 31 \<and>
     nodes ot * tL t < 2 ^ 32 \<and> nodes ot * tL t \<le> 64 * length (mem ot) \<and> 64 * length (mem ot) < nodes ot * tL t + 64 \<and>
     length (indMem ot) = nodes ot \<and> length (head ot) = nodes ot \<and>
     length (connectivityForest ot) = nodes ot \<and>
     length (vals ot) = length (keys ot) \<and> length (nextAtA ot) = length (keys ot) \<and>
     length (nextAtB ot) = length (keys ot) \<and> length (keys ot) < 2 ^ 32 \<and>
     keyCnt ot \<le> length (keys ot)"

definition value_cell :: "'k template \<Rightarrow> 'k othello \<Rightarrow> nat \<Rightarrow> u64" where
  "value_cell t ot i = cell_val (tL t) (mem ot) i"

definition value_bits :: "'k template \<Rightarrow> u32 \<Rightarrow> u64" where
  "value_bits t v = ucast v AND low_mask (tL t)"

text \<open>Steps that change nothing but the two tables.\<close>
definition frame :: "'k othello \<Rightarrow> 'k othello \<Rightarrow> bool" where
  "frame ot ot' \<longleftrightarrow> ot' = ot\<lparr>mem := mem ot', indMem := indMem ot'\<rparr>"

lemma frame_refl [simp]: "frame ot ot"
  by (simp add: frame_def)

lemma frame_trans: "frame a b \<Longrightarrow> frame b c \<Longrightarrow> frame a c"
  by (cases a; cases b; cases c) (simp add: frame_def)

lemma frameD:
  assumes "frame ot ot'"
  shows "ma ot' = ma ot" "mb ot' = mb ot" "hab ot' = hab ot" "hd_seed ot' = hd_seed ot"
    "maintainingDP ot' = maintainingDP ot" "keyCnt ot' = keyCnt ot" "keys ot' = keys ot" "vals ot' = vals ot"
    "head ot' = head ot" "nextAtA ot' = nextAtA ot" "nextAtB ot' = nextAtB ot"
    "connectivityForest ot' = connectivityForest ot" "nodes ot' = nodes ot"
    "getIndices t ot' k = getIndices t ot k" "node_cells ot' u = node_cells ot u" "walk_fuel ot' = walk_fuel ot"
    "minimalKeyCapacity ot' = minimalKeyCapacity ot" "rand_pos ot' = rand_pos ot"
proof -
  from assms have e: "ot' = ot\<lparr>mem := mem ot', indMem := indMem ot'\<rparr>" by (simp add: frame_def)
  show "ma ot' = ma ot" by (subst e) simp
  show "mb ot' = mb ot" by (subst e) simp
  show "hab ot' = hab ot" by (subst e) simp
  show "hd_seed ot' = hd_seed ot" by (subst e) simp
  show "maintainingDP ot' = maintainingDP ot" by (subst e) simp
  show "keyCnt ot' = keyCnt ot" by (subst e) simp
  show "keys ot' = keys ot" by (subst e) simp
  show "vals ot' = vals ot" by (subst e) simp
  show "head ot' = head ot" by (subst e) simp
  show "nextAtA ot' = nextAtA ot" by (subst e) simp
  show "nextAtB ot' = nextAtB ot" by (subst e) simp
  show "connectivityForest ot' = connectivityForest ot" by (subst e) simp
  show "nodes ot' = nodes ot" by (subst e) (simp add: nodes_def)
  show "getIndices t ot' k = getIndices t ot k" by (subst e) (simp add: getIndices_def)
  show "node_cells ot' u = node_cells ot u" by (subst e) (simp add: node_cells_def)
  show "walk_fuel ot' = walk_fuel ot" by (subst e) (simp add: walk_fuel_def)
  show "minimalKeyCapacity ot' = minimalKeyCapacity ot" by (subst e) simp
  show "rand_pos ot' = rand_pos ot" by (subst e) simp
qed

lemma plainD [simp]:
  assumes "plain t"
  shows "tDL t = 0" "0 < tL t" "tL t \<le> 32" "tMaintainDP t" "tMaintainDisjointSet t"
    "\<not> tRandomized t" "VDL t = tL t" "tL t \<noteq> 0" "tL t \<le> 64"
  using assms by (auto simp: plain_def VDL_def)

lemma sizes_cells: "plain t \<Longrightarrow> sizes t ot \<Longrightarrow> cells_valid (tL t) (nodes ot) (mem ot)"
  by (simp add: sizes_def cells_valid_def)

lemma cell_pos: "plain t \<Longrightarrow> sizes t ot \<Longrightarrow> i < nodes ot \<Longrightarrow> i * tL t < 2 ^ 32"
proof -
  assume "plain t" "sizes t ot" "i < nodes ot"
  then have "i * tL t \<le> nodes ot * tL t" "nodes ot * tL t < 2 ^ 32"
    by (auto simp: sizes_def)
  then show ?thesis by linarith
qed

lemma memGet_ok:
  assumes "plain t" "sizes t ot" "i < nodes ot"
  shows "memGet t ot i = Inr (value_cell t ot i)" "memValueGet t ot i = Inr (value_cell t ot i)"
proof -
  note p = cell_pos[OF assms]
  from packed.get_cell[OF sizes_cells[OF assms(1,2)] assms(3)]
  have "packed_get (tL t) (i * tL t) (mem ot) = Inr (value_cell t ot i)"
    by (simp add: value_cell_def)
  with p assms(1) show "memGet t ot i = Inr (value_cell t ot i)" "memValueGet t ot i = Inr (value_cell t ot i)"
    by (simp_all add: memGet_def memValueGet_def)
qed

lemma memValueSet_eq: "plain t \<Longrightarrow> memValueSet t i v ot = memSet t i v ot"
  by (simp add: memValueSet_def memSet_def w32_def)

lemma memSet_ok:
  assumes "plain t" "sizes t ot" "i < nodes ot"
  obtains ot' where "memSet t i v ot = Inr ot'" "frame ot ot'" "sizes t ot'" "indMem ot' = indMem ot"
    "\<And>j. j < nodes ot \<Longrightarrow> value_cell t ot' j = (if j = i then v AND low_mask (tL t) else value_cell t ot j)"
proof -
  note p = cell_pos[OF assms]
  obtain m where m: "packed_set (tL t) (i * tL t) v (mem ot) = Inr m" "length m = length (mem ot)"
    "\<And>j. j < nodes ot \<Longrightarrow> cell_val (tL t) m j = (if j = i then v AND low_mask (tL t) else cell_val (tL t) (mem ot) j)"
    using packed_set_cell[OF sizes_cells[OF assms(1,2)] assms(3)] by metis
  show thesis
  proof
    show "memSet t i v ot = Inr (ot\<lparr>mem := m\<rparr>)" using p m assms(1) by (simp add: memSet_def)
    show "frame ot (ot\<lparr>mem := m\<rparr>)" by (simp add: frame_def)
    show "sizes t (ot\<lparr>mem := m\<rparr>)" using assms(2) m(2) by (simp add: sizes_def nodes_def)
    show "indMem (ot\<lparr>mem := m\<rparr>) = indMem ot" by simp
    show "value_cell t (ot\<lparr>mem := m\<rparr>) j = (if j = i then v AND low_mask (tL t) else value_cell t ot j)"
      if "j < nodes ot" for j using m(3)[OF that] by (simp add: value_cell_def)
  qed
qed

lemma packed_set_length: "packed_set L n v m = Inr m' \<Longrightarrow> length m' = length m"
  by (auto simp: packed_set_def Let_def rbind_eq_Inr vput_eq_Inr split: if_splits)

lemma memSet_length: "memSet t i v ot = Inr ot' \<Longrightarrow> length (mem ot') = length (mem ot)"
  by (auto simp: memSet_def rbind_eq_Inr packed_set_length split: if_splits)

lemma value_cell_low: "plain t \<Longrightarrow> sizes t ot \<Longrightarrow> i < nodes ot \<Longrightarrow>
    value_cell t ot i AND low_mask (tL t) = value_cell t ot i"
  by (rule bit_word_eqI) (auto simp: value_cell_def bit_cell_val[OF sizes_cells] bit_simps)

lemma sizes_frame: "sizes t ot \<Longrightarrow> frame ot ot' \<Longrightarrow> length (mem ot') = length (mem ot) \<Longrightarrow>
    length (indMem ot') = length (indMem ot) \<Longrightarrow> sizes t ot'"
  by (simp add: sizes_def frameD)

text \<open>The effect of a step on the two tables.\<close>

definition tables :: "'k template \<Rightarrow> 'k othello \<Rightarrow> 'k othello \<Rightarrow> (nat \<Rightarrow> u64) \<Rightarrow> (nat \<Rightarrow> nat) \<Rightarrow> bool" where
  "tables t ot ot' C I \<longleftrightarrow> frame ot ot' \<and> sizes t ot' \<and>
     (\<forall>j < nodes ot. value_cell t ot' j = C j \<and> indMem ot' ! j = I j)"

lemma xor_low: "(v XOR w) AND low_mask n = (v AND low_mask n) XOR (w AND low_mask n)"
  by (rule bit_word_eqI) (auto simp: bit_simps)

lemma set_index_tables:
  assumes "sizes t ot" "i < nodes ot"
  shows "tables t ot (ot\<lparr>indMem := (indMem ot)[i := x]\<rparr>) (value_cell t ot) ((\<lambda>j. indMem ot ! j)(i := x))"
  using assms by (auto simp: tables_def frame_def sizes_def nodes_def value_cell_def nth_list_update)

lemma fixSingle_ok:
  assumes t: "plain t" and s: "sizes t ot" and w: "w < nodes ot" and x: "x AND low_mask (tL t) = x"
  shows "\<exists>ot'. fixSingle t fv fi kd w x ix ot = Inr ot' \<and>
    tables t ot ot' (\<lambda>j. if fv \<and> j = w then x XOR value_cell t ot j else value_cell t ot j)
      (\<lambda>j. if fi \<and> j = w then ix XOR indMem ot ! j else indMem ot ! j)"
proof -
  let ?C = "\<lambda>j. if fv \<and> j = w then x XOR value_cell t ot j else value_cell t ot j"
  obtain o1 where o1: "(if fv \<and> tMaintainDP t then
          if kd then rbind (memValueGet t ot w) (\<lambda>c. memValueSet t w (x XOR c) ot)
          else rbind (memGet t ot w) (\<lambda>c. memSet t w (x XOR c) ot)
        else Inr ot) = Inr o1" "frame ot o1" "sizes t o1" "indMem o1 = indMem ot"
    "\<And>j. j < nodes ot \<Longrightarrow> value_cell t o1 j = ?C j"
  proof (cases fv)
    case True
    obtain o1 where o1: "memSet t w (x XOR value_cell t ot w) ot = Inr o1" "frame ot o1" "sizes t o1" "indMem o1 = indMem ot"
      "\<And>j. j < nodes ot \<Longrightarrow> value_cell t o1 j = (if j = w then (x XOR value_cell t ot w) AND low_mask (tL t) else value_cell t ot j)"
      using memSet_ok[OF t s w] by metis
    have "(x XOR value_cell t ot w) AND low_mask (tL t) = x XOR value_cell t ot w"
      by (simp only: xor_low x value_cell_low[OF t s w])
    with o1 True t that[of o1] show thesis by (simp add: memGet_ok[OF t s w] memValueSet_eq)
  qed (use s that[of ot] in simp)
  have w1: "w < nodes o1" using w o1(2) by (simp add: frameD)
  show ?thesis
  proof (cases fi)
    case False
    with o1 show ?thesis by (auto simp: fixSingle_def tables_def)
  next
    case True
    have l: "w < length (indMem o1)" using o1(3) w1 by (simp add: sizes_def)
    from set_index_tables[OF o1(3) w1, of "ix XOR indMem o1 ! w"] o1 have
      "tables t ot (o1\<lparr>indMem := (indMem o1)[w := ix XOR indMem o1 ! w]\<rparr>) ?C
        (\<lambda>j. if j = w then ix XOR indMem ot ! j else indMem ot ! j)"
      by (auto simp: tables_def frameD intro: frame_trans)
    with o1 True l show ?thesis by (simp add: fixSingle_def)
  qed
qed

lemma fillSingle_ok:
  assumes t: "plain t" and s: "sizes t ot" and w: "w < nodes ot" and p: "p < nodes ot" and k: "k < length (keys ot)"
  shows "\<exists>ot'. fillSingle t fv fi kd k w p ot = Inr ot' \<and>
    tables t ot ot' (\<lambda>j. if fv \<and> j = w then value_bits t (vals ot ! k) XOR value_cell t ot p else value_cell t ot j)
      (\<lambda>j. if fi \<and> j = w then k XOR indMem ot ! p else indMem ot ! j)"
proof -
  let ?C = "\<lambda>j. if fv \<and> j = w then value_bits t (vals ot ! k) XOR value_cell t ot p else value_cell t ot j"
  have kv: "k < length (vals ot)" using s k by (simp add: sizes_def)
  have mdp: "maintainingDP ot" using s by (simp add: sizes_def)
  let ?e = "(if fv \<and> maintainingDP ot then
          rbind (vat (vals ot) k) (\<lambda>val.
          if kd then
            rbind (memValueGet t ot p) (\<lambda>w'.
            memValueSet t w (ucast val XOR w') ot)
          else if tDL t \<noteq> 0 then
            rbind (vat (keys ot) k) (\<lambda>k.
            rbind (memGet t ot p) (\<lambda>w'.
            let digest = ucast (hash32 t (hd_seed ot) k) AND low_mask (tDL t);
                vd = ucast (push_bit (tDL t) val) OR digest
            in memSet t w ((vd XOR w') OR 1) ot))
          else
            rbind (memGet t ot p) (\<lambda>w'.
            memSet t w (ucast val XOR w') ot))
        else Inr ot)"
  obtain o1 where o1: "?e = Inr o1" "frame ot o1" "sizes t o1" "indMem o1 = indMem ot"
    "\<And>j. j < nodes ot \<Longrightarrow> value_cell t o1 j = ?C j"
  proof (cases fv)
    case True
    obtain o1 where o1: "memSet t w (ucast (vals ot ! k) XOR value_cell t ot p) ot = Inr o1" "frame ot o1" "sizes t o1" "indMem o1 = indMem ot"
      "\<And>j. j < nodes ot \<Longrightarrow> value_cell t o1 j = (if j = w then (ucast (vals ot ! k) XOR value_cell t ot p) AND low_mask (tL t) else value_cell t ot j)"
      using memSet_ok[OF t s w] by metis
    have "(ucast (vals ot ! k) XOR value_cell t ot p) AND low_mask (tL t) = value_bits t (vals ot ! k) XOR value_cell t ot p"
      by (simp only: xor_low value_bits_def value_cell_low[OF t s p])
    with o1 True t kv mdp that[of o1] show thesis by (simp add: memGet_ok[OF t s p] memValueSet_eq)
  qed (use s that[of ot] in simp)
  have w1: "w < nodes o1" "p < nodes o1" using w p o1(2) by (simp_all add: frameD)
  show ?thesis
  proof (cases fi)
    case False
    with o1 show ?thesis by (auto simp: fillSingle_def tables_def)
  next
    case True
    have l: "w < length (indMem o1)" "p < length (indMem o1)" using o1(3) w1 by (simp_all add: sizes_def)
    from set_index_tables[OF o1(3) w1(1), of "k XOR indMem o1 ! p"] o1 have
      "tables t ot (o1\<lparr>indMem := (indMem o1)[w := k XOR indMem o1 ! p]\<rparr>) ?C
        (\<lambda>j. if j = w then k XOR indMem ot ! p else indMem ot ! j)"
      by (auto simp: tables_def frameD intro: frame_trans)
    with o1 True l show ?thesis by (simp add: fillSingle_def)
  qed
qed

end
