(* ===== verification/Othello_Links.thy ===== *)
theory Othello_Links
  imports Othello_Tables
begin

text \<open>
  The linked lists of the control plane: \<open>head[u]\<close> starts the list of the keys with end
  \<open>u\<close>, threaded through \<open>nextAtA\<close> or \<open>nextAtB\<close>. \<open>is_chain\<close> relates an array to the list
  it represents; \<open>unlink\<close> and \<open>relink\<close> (the two list surgeries of \<open>erase\<close>) and the push of
  \<open>addEdge\<close> are shown to delete, renumber and add one pair. The last part lifts this to the
  graph: \<open>linked ot G\<close> says that the lists of \<open>ot\<close> are the adjacency lists of \<open>G\<close>.
\<close>

subsection \<open>One list\<close>

fun is_chain :: "OthelloCPCell list \<Rightarrow> OthelloCPCell \<Rightarrow> OthelloCPCell list \<Rightarrow> bool" where
  "is_chain nxt c [] = (keyId c = NOKEY)"
| "is_chain nxt c (x # xs) =
     (x = c \<and> keyId c \<noteq> NOKEY \<and> keyId c < length nxt \<and> is_chain nxt (nxt ! keyId c) xs)"

lemma is_chain_cells: "is_chain nxt c cs \<Longrightarrow> x \<in> set cs \<Longrightarrow> keyId x < length nxt \<and> keyId x \<noteq> NOKEY"
  by (induction cs arbitrary: c) auto

lemma is_chain_Nil: "is_chain nxt c cs \<Longrightarrow> cs = [] \<longleftrightarrow> keyId c = NOKEY"
  by (cases cs) auto

lemma chain_eq: "is_chain nxt c cs \<Longrightarrow> length cs < fuel \<Longrightarrow> chain fuel nxt c = Inr cs"
proof (induction cs arbitrary: c fuel)
  case Nil
  then show ?case by (cases fuel) auto
next
  case (Cons x xs)
  then show ?case by (cases fuel) auto
qed

lemma is_chain_length: "is_chain nxt c cs \<Longrightarrow> distinct (map keyId cs) \<Longrightarrow> length cs \<le> length nxt"
proof -
  assume c: "is_chain nxt c cs" and d: "distinct (map keyId cs)"
  have "set (map keyId cs) \<subseteq> {..<length nxt}" using is_chain_cells[OF c] by auto
  from card_mono[OF _ this] distinct_card[OF d] show ?thesis by simp
qed

text \<open>Writes to cells that a list does not run through leave it alone.\<close>

lemma is_chain_update:
  "is_chain nxt c cs \<Longrightarrow> k \<notin> keyId ` set cs \<Longrightarrow> is_chain (nxt[k := x]) c cs"
  by (induction cs arbitrary: c) (auto simp: nth_list_update)

text \<open>A chain split at one of its cells.\<close>

lemma is_chain_append:
  "is_chain nxt c (xs @ y # ys) \<Longrightarrow> is_chain nxt y (y # ys)"
  by (induction xs arbitrary: c) auto

lemma is_chain_cut:
  "is_chain nxt c (xs @ [t] @ ys) \<Longrightarrow> keyId t \<notin> keyId ` set (xs @ zs) \<Longrightarrow> is_chain nxt c' zs \<Longrightarrow>
   is_chain (nxt[keyId t := c']) c (xs @ [t] @ zs)"
  by (induction xs arbitrary: c) (auto simp: nth_list_update intro!: is_chain_update)

lemma find_pred_ok:
  "is_chain nxt c (xs @ [t, y] @ ys) \<Longrightarrow> distinct (map keyId (xs @ [t, y] @ ys)) \<Longrightarrow> length xs < fuel \<Longrightarrow>
   find_pred fuel nxt (keyId y) (keyId c) = Inr (keyId t)"
proof (induction xs arbitrary: c fuel)
  case Nil
  then show ?case by (cases fuel) auto
next
  case (Cons x xs)
  then obtain f where f: "fuel = Suc f" by (cases fuel) auto
  from Cons.prems have c: "is_chain nxt (nxt ! keyId c) (xs @ [t, y] @ ys)" "keyId c < length nxt" by auto
  have "keyId (nxt ! keyId c) \<noteq> keyId y"
    using c Cons.prems(2) by (cases xs) auto
  with Cons.IH[OF c(1), of f] Cons.prems c(2) f show ?case by simp
qed


subsection \<open>All lists of one side\<close>

abbreviation cell_pair :: "OthelloCPCell \<Rightarrow> nat \<times> nat" where
  "cell_pair c \<equiv> (keyId c, nodeId c)"

text \<open>
  The nodes \<open>D\<close> of one side share the array \<open>nxt\<close>; the list of node \<open>u\<close> holds, once per
  key, the pairs of \<open>inc u\<close>, and no key is in two lists.
\<close>

definition lists_of :: "OthelloCPCell list \<Rightarrow> OthelloCPCell list \<Rightarrow> nat set \<Rightarrow> (nat \<Rightarrow> (nat \<times> nat) set) \<Rightarrow> bool" where
  "lists_of heads nxt D inc \<longleftrightarrow> (\<forall>u \<in> D. u < length heads \<and>
     (\<exists>cs. is_chain nxt (heads ! u) cs \<and> distinct (map keyId cs) \<and> cell_pair ` set cs = inc u) \<and>
     (\<forall>v \<in> D. u \<noteq> v \<longrightarrow> fst ` inc u \<inter> fst ` inc v = {}))"

lemma lists_ofE:
  assumes "lists_of heads nxt D inc" "u \<in> D"
  obtains cs where "is_chain nxt (heads ! u) cs" "distinct (map keyId cs)" "cell_pair ` set cs = inc u"
    "keyId ` set cs = fst ` inc u"
proof -
  from assms obtain cs where cs: "is_chain nxt (heads ! u) cs" "distinct (map keyId cs)" "cell_pair ` set cs = inc u"
    unfolding lists_of_def by blast
  moreover from cs(3) have "keyId ` set cs = fst ` inc u" by (force simp: image_image)
  ultimately show thesis by (rule that)
qed

lemma lists_of_disj: "lists_of heads nxt D inc \<Longrightarrow> u \<in> D \<Longrightarrow> v \<in> D \<Longrightarrow> u \<noteq> v \<Longrightarrow> fst ` inc u \<inter> fst ` inc v = {}"
  by (simp add: lists_of_def)

lemma lists_of_cong:
  assumes "\<And>u. u \<in> D \<Longrightarrow> heads' ! u = heads ! u \<and> inc' u = inc u" "length heads' = length heads"
  shows "lists_of heads nxt D inc \<Longrightarrow> lists_of heads' nxt D inc'"
  using assms unfolding lists_of_def by simp

text \<open>
  Rewriting one list: the writes hit \<open>nxt\<close> only at keys of that list or at keys of no list.
\<close>

lemma lists_of_replace:
  assumes l: "lists_of heads nxt D inc" and u: "u \<in> D"
    and new: "is_chain nxt' (heads' ! u) cs'" "distinct (map keyId cs')" "cell_pair ` set cs' = inc'"
    and other: "\<And>v. v \<in> D \<Longrightarrow> v \<noteq> u \<Longrightarrow> heads' ! v = heads ! v" "length heads' = length heads"
    and keep: "length nxt' = length nxt" "\<And>k. k \<in> fst ` (\<Union>v \<in> D - {u}. inc v) \<Longrightarrow> nxt' ! k = nxt ! k"
    and fresh: "fst ` inc' \<inter> fst ` (\<Union>v \<in> D - {u}. inc v) = {}"
  shows "lists_of heads' nxt' D (inc(u := inc'))"
proof -
  have keep1: "is_chain nxt c cs \<Longrightarrow> (\<And>k. k \<in> keyId ` set cs \<Longrightarrow> nxt' ! k = nxt ! k) \<Longrightarrow> is_chain nxt' c cs" for c cs
    using keep(1) by (induction cs arbitrary: c) auto
  show ?thesis unfolding lists_of_def
  proof (intro ballI conjI impI)
    fix v assume v: "v \<in> D"
    show "v < length heads'" using l v other(2) by (simp add: lists_of_def)
    show "\<exists>cs. is_chain nxt' (heads' ! v) cs \<and> distinct (map keyId cs) \<and> cell_pair ` set cs = (inc(u := inc')) v"
    proof (cases "v = u")
      case True
      with new show ?thesis by auto
    next
      case False
      from lists_ofE[OF l v] obtain cs where cs: "is_chain nxt (heads ! v) cs" "distinct (map keyId cs)"
        "cell_pair ` set cs = inc v" "keyId ` set cs = fst ` inc v" by metis
      have "is_chain nxt' (heads ! v) cs"
        by (rule keep1[OF cs(1)], rule keep(2)) (use cs(4) v False in blast)
      with cs False other(1)[OF v False] show ?thesis by auto
    qed
    fix w assume w: "w \<in> D" "v \<noteq> w"
    show "fst ` (inc(u := inc')) v \<inter> fst ` (inc(u := inc')) w = {}"
    proof (cases "v = u \<or> w = u")
      case True
      then obtain z where z: "z \<in> D - {u}" "{v, w} = {u, z}" using w v by auto
      from z(1) have "fst ` inc z \<subseteq> fst ` (\<Union>v \<in> D - {u}. inc v)" by blast
      with fresh have "fst ` inc' \<inter> fst ` inc z = {}" by blast
      with z w show ?thesis by (auto simp: doubleton_eq_iff)
    next
      case False
      with lists_of_disj[OF l v w] show ?thesis by simp
    qed
  qed
qed

lemma lists_of_push:
  assumes l: "lists_of heads nxt D inc" and u: "u \<in> D" and k: "k < length nxt" "k \<noteq> NOKEY"
    and fresh: "\<And>v. v \<in> D \<Longrightarrow> k \<notin> fst ` inc v"
  shows "lists_of (heads[u := \<lparr>keyId = k, nodeId = w\<rparr>]) (nxt[k := heads ! u]) D (inc(u := insert (k, w) (inc u)))"
proof -
  have ul: "u < length heads" using l u by (simp add: lists_of_def)
  from lists_ofE[OF l u] obtain cs where cs: "is_chain nxt (heads ! u) cs" "distinct (map keyId cs)"
        "cell_pair ` set cs = inc u" "keyId ` set cs = fst ` inc u" by metis
  have nk: "k \<notin> keyId ` set cs" using cs(4) fresh[OF u] by simp
  show ?thesis
  proof (rule lists_of_replace[OF l u, where cs' = "\<lparr>keyId = k, nodeId = w\<rparr> # cs"])
    show "is_chain (nxt[k := heads ! u]) (heads[u := \<lparr>keyId = k, nodeId = w\<rparr>] ! u) (\<lparr>keyId = k, nodeId = w\<rparr> # cs)"
      using ul k is_chain_update[OF cs(1) nk] by simp
    show "distinct (map keyId (\<lparr>keyId = k, nodeId = w\<rparr> # cs))" using cs(2) nk by simp
    show "cell_pair ` set (\<lparr>keyId = k, nodeId = w\<rparr> # cs) = insert (k, w) (inc u)" using cs(3) by simp
    show "nxt[k := heads ! u] ! k' = nxt ! k'" if "k' \<in> fst ` (\<Union>v \<in> D - {u}. inc v)" for k'
    proof -
      have "k' \<noteq> k" using that fresh by blast
      then show ?thesis by simp
    qed
    show "fst ` insert (k, w) (inc u) \<inter> fst ` (\<Union>v \<in> D - {u}. inc v) = {}"
    proof -
      have "fst ` inc u \<inter> fst ` inc v = {}" if "v \<in> D - {u}" for v using lists_of_disj[OF l u, of v] that by auto
      moreover have "k \<notin> fst ` inc v" if "v \<in> D - {u}" for v using fresh that by auto
      ultimately show ?thesis unfolding image_insert image_UN fst_conv by blast
    qed
  qed auto
qed

lemma chain_split:
  assumes "is_chain nxt c cs" "distinct (map keyId cs)" "k \<in> keyId ` set cs"
  obtains (first) y ys where "cs = y # ys" "keyId y = k" "c = y" "is_chain nxt (nxt ! k) ys"
    | (later) xs t y ys where "cs = xs @ [t, y] @ ys" "keyId y = k" "keyId c \<noteq> k" "is_chain nxt (nxt ! k) ys"
        "find_pred (Suc (length nxt)) nxt k (keyId c) = Inr (keyId t)"
        "nxt ! keyId t = y" "keyId t < length nxt"
proof -
  from assms(3) obtain y where y: "y \<in> set cs" "keyId y = k" by auto
  then obtain zs ys where cs: "cs = zs @ y # ys" by (auto dest: split_list)
  have "is_chain nxt y (y # ys)" using is_chain_append[of nxt c zs y ys] assms(1) unfolding cs by blast
  then have tl: "is_chain nxt (nxt ! k) ys" using y(2) by simp
  show thesis
  proof (cases zs rule: rev_cases)
    case Nil
    with cs have cs': "cs = y # ys" by simp
    with assms(1) have "c = y" by simp
    with cs' y tl show thesis by (intro first)
  next
    case (snoc xs t)
    with cs have cs': "cs = xs @ [t, y] @ ys" by simp
    have len: "length xs < Suc (length nxt)" using is_chain_length[OF assms(1,2)] cs' by simp
    have "find_pred (Suc (length nxt)) nxt (keyId y) (keyId c) = Inr (keyId t)"
      using find_pred_ok[of nxt c xs t y ys] assms(1,2) len unfolding cs' by blast
    moreover have "keyId c \<noteq> k"
    proof -
      have "c \<in> set (xs @ [t])" using assms(1) unfolding cs' by (cases xs) simp_all
      moreover have "k \<notin> keyId ` set (xs @ [t])" using assms(2) y(2) unfolding cs' by force
      ultimately show ?thesis by blast
    qed
    moreover have "is_chain nxt t (t # y # ys)" using is_chain_append[of nxt c xs t "y # ys"] assms(1) cs' by simp
    then have "nxt ! keyId t = y" "keyId t < length nxt" by simp_all
    ultimately show thesis using later[OF cs'] y tl by simp
  qed
qed

lemma keys_elsewhere:
  assumes "lists_of heads nxt D inc" "u \<in> D" "k \<in> fst ` inc u" "k' \<in> fst ` (\<Union>v \<in> D - {u}. inc v)"
  shows "k' \<noteq> k"
proof -
  from assms(4) obtain v where v: "v \<in> D" "v \<noteq> u" "k' \<in> fst ` inc v" by auto
  with lists_of_disj[OF assms(1,2) v(1)] assms(3) show ?thesis by auto
qed

lemma own_disj:
  assumes "lists_of heads nxt D inc" "u \<in> D" "A \<subseteq> fst ` inc u"
  shows "A \<inter> fst ` (\<Union>v \<in> D - {u}. inc v) = {}"
  using keys_elsewhere[OF assms(1,2)] assms(3) by blast

lemma cell_pair_remove:
  assumes "distinct (map keyId cs)" "cell_pair ` set cs = I" "(k, w) \<in> I" "y \<in> set cs" "keyId y = k"
  shows "cell_pair ` (set cs - {y}) = I - {(k, w)}"
proof -
  from assms(2,3) obtain y' where y': "y' \<in> set cs" "keyId y' = k" "nodeId y' = w" by force
  with assms have "y' = y" by (auto simp: distinct_map inj_on_def)
  then have "cell_pair y = (k, w)" using y' by simp
  moreover have "inj_on cell_pair (set cs)" using assms(1) by (auto simp: distinct_map inj_on_def)
  then have "cell_pair ` (set cs - {y}) = cell_pair ` set cs - cell_pair ` {y}"
    using assms(4) by (intro inj_on_image_set_diff) auto
  ultimately show ?thesis using assms(2) by simp
qed

lemma unlink_ok:
  assumes l: "lists_of heads nxt D inc" and u: "u \<in> D" and k: "(k, w) \<in> inc u"
  obtains heads' nxt' where "unlink u k (heads, nxt) = Inr (heads', nxt')"
    "lists_of heads' nxt' D (inc(u := inc u - {(k, w)}))" "length heads' = length heads" "length nxt' = length nxt"
    "\<And>v. v \<noteq> u \<Longrightarrow> heads' ! v = heads ! v"
proof -
  have ul: "u < length heads" using l u by (simp add: lists_of_def)
  from lists_ofE[OF l u] obtain cs where cs: "is_chain nxt (heads ! u) cs" "distinct (map keyId cs)"
        "cell_pair ` set cs = inc u" "keyId ` set cs = fst ` inc u" by metis
  have kin: "k \<in> keyId ` set cs" using cs(4) k by force
  have kl: "k < length nxt" using kin is_chain_cells[OF cs(1)] by auto
  note inj = cell_pair_remove[OF cs(2,3) k]
  note disj = own_disj[OF l u]
  have sub: "fst ` (inc u - {(k, w)}) \<inter> fst ` (\<Union>v \<in> D - {u}. inc v) = {}" by (rule disj) auto
  from cs(1,2) kin show thesis
  proof (cases rule: chain_split)
    case (first y ys)
    have "set ys = set cs - {y}" using cs(2) first by auto
    then have "cell_pair ` set ys = inc u - {(k, w)}" using inj[of y] first by simp
    then have "lists_of (heads[u := nxt ! k]) nxt D (inc(u := inc u - {(k, w)}))"
      using first cs(2) ul sub by (intro lists_of_replace[OF l u, where cs' = ys]) auto
    moreover have "unlink u k (heads, nxt) = Inr (heads[u := nxt ! k], nxt)"
      using first ul kl by (simp add: unlink_def)
    ultimately show thesis using that by auto
  next
    case (later xs t y ys)
    have ty: "t \<in> set cs" "y \<in> set cs" using later by auto
    have "set (xs @ [t] @ ys) = set cs - {y}" using cs(2) later by auto
    then have s: "cell_pair ` set (xs @ [t] @ ys) = inc u - {(k, w)}" using inj[of y] later by simp
    have "is_chain nxt (heads ! u) (xs @ [t] @ (y # ys))" using cs(1) later(1) by simp
    from is_chain_cut[OF this _ later(4)] cs(2) later(1)
    have c: "is_chain (nxt[keyId t := nxt ! k]) (heads ! u) (xs @ [t] @ ys)" by auto
    have kt: "keyId t \<in> fst ` inc u" using ty(1) unfolding cs(4)[symmetric] by (rule imageI)
    have "lists_of heads (nxt[keyId t := nxt ! k]) D (inc(u := inc u - {(k, w)}))"
    proof (rule lists_of_replace[OF l u c _ s _ refl _ _ sub])
      show "distinct (map keyId (xs @ [t] @ ys))" using cs(2) later(1) by auto
      show "nxt[keyId t := nxt ! k] ! k' = nxt ! k'" if "k' \<in> fst ` (\<Union>v \<in> D - {u}. inc v)" for k'
        using keys_elsewhere[OF l u kt that] by simp
    qed auto
    moreover have "unlink u k (heads, nxt) = Inr (heads, nxt[keyId t := nxt ! k])"
      using later(3,7) ul kl by (simp add: unlink_def later(5) del: find_pred.simps)
    ultimately show thesis using that by auto
  qed
qed

lemma relink_ok:
  assumes l: "lists_of heads nxt D inc" and u: "u \<in> D" and n: "(n, w0) \<in> inc u"
    and k: "k < length nxt" "k \<noteq> NOKEY" "\<And>v. v \<in> D \<Longrightarrow> k \<notin> fst ` inc v"
  obtains heads' nxt' where "relink u n k \<lparr>keyId = k, nodeId = w\<rparr> (heads, nxt) = Inr (heads', nxt')"
    "lists_of heads' nxt' D (inc(u := insert (k, w) (inc u - {(n, w0)})))"
    "length heads' = length heads" "length nxt' = length nxt" "\<And>v. v \<noteq> u \<Longrightarrow> heads' ! v = heads ! v"
proof -
  let ?c = "\<lparr>keyId = k, nodeId = w\<rparr>" and ?n1 = "nxt[k := nxt ! n]"
  let ?inc = "insert (k, w) (inc u - {(n, w0)})"
  have ul: "u < length heads" using l u by (simp add: lists_of_def)
  from lists_ofE[OF l u] obtain cs where cs: "is_chain nxt (heads ! u) cs" "distinct (map keyId cs)"
        "cell_pair ` set cs = inc u" "keyId ` set cs = fst ` inc u" by metis
  have nin: "n \<in> keyId ` set cs" using cs(4) n by force
  have nk: "k \<notin> keyId ` set cs" using cs(4) k(3)[OF u] by simp
  then have ne: "n \<noteq> k" using nin by blast
  have nl: "n < length nxt" using nin is_chain_cells[OF cs(1)] by auto
  have c1: "is_chain ?n1 (heads ! u) cs" using cs(1) nk by (rule is_chain_update)
  have n1: "?n1 ! n = nxt ! n" "?n1 ! k = nxt ! n" using ne k(1) by simp_all
  have own: "is_chain ?n1 ?c (?c # ys)" if "is_chain ?n1 (?n1 ! n) ys" for ys
    using that k(1,2) n1 by simp
  note inj = cell_pair_remove[OF cs(2,3) n]
  have fresh: "k' \<noteq> k" if "k' \<in> fst ` (\<Union>v \<in> D - {u}. inc v)" for k'
    using that k(3) by blast
  have sub: "fst ` ?inc \<inter> fst ` (\<Union>v \<in> D - {u}. inc v) = {}"
  proof -
    have "fst ` (inc u - {(n, w0)}) \<inter> fst ` (\<Union>v \<in> D - {u}. inc v) = {}" by (rule own_disj[OF l u]) auto
    then show ?thesis using fresh unfolding image_insert fst_conv by blast
  qed
  from c1 cs(2) nin show thesis
  proof (cases rule: chain_split)
    case (first y ys)
    have "set ys = set cs - {y}" using cs(2) first(1) by auto
    then have s: "cell_pair ` set (?c # ys) = ?inc" using inj[of y] first(1,2) by simp
    have "lists_of (heads[u := ?c]) ?n1 D (inc(u := ?inc))"
    proof (rule lists_of_replace[OF l u _ _ s _ _ _ _ sub])
      show "is_chain ?n1 (heads[u := ?c] ! u) (?c # ys)" using own[OF first(4)] ul k(1) by simp
      show "distinct (map keyId (?c # ys))" using cs(2) nk first(1) by simp
      show "?n1 ! k' = nxt ! k'" if "k' \<in> fst ` (\<Union>v \<in> D - {u}. inc v)" for k'
        using fresh[OF that] by simp
    qed simp_all
    moreover have "relink u n k ?c (heads, nxt) = Inr (heads[u := ?c], ?n1)"
      using first(2,3) ul nl k(1) by (simp add: relink_def)
    ultimately show thesis using that by auto
  next
    case (later xs t y ys)
    have ty: "t \<in> set cs" "y \<in> set cs" using later(1) by auto
    have "set (xs @ [t] @ ys) = set cs - {y}" using cs(2) later(1) by auto
    then have "cell_pair ` set (xs @ [t] @ ys) = inc u - {(n, w0)}" using inj[OF ty(2) later(2)] by simp
    then have s: "cell_pair ` set (xs @ [t] @ ?c # ys) = ?inc" by auto
    have "is_chain ?n1 (heads ! u) (xs @ [t] @ (y # ys))" using c1 later(1) by simp
    from is_chain_cut[OF this _ own[OF later(4)]] cs(2) nk later(1)
    have c: "is_chain (?n1[keyId t := ?c]) (heads ! u) (xs @ [t] @ ?c # ys)" by auto
    have kt: "keyId t \<in> fst ` inc u" using ty(1) unfolding cs(4)[symmetric] by (rule imageI)
    have "lists_of heads (?n1[keyId t := ?c]) D (inc(u := ?inc))"
    proof (rule lists_of_replace[OF l u c _ s _ refl _ _ sub])
      show "distinct (map keyId (xs @ [t] @ ?c # ys))" using cs(2) nk later(1) by auto
      show "?n1[keyId t := ?c] ! k' = nxt ! k'" if "k' \<in> fst ` (\<Union>v \<in> D - {u}. inc v)" for k'
        using keys_elsewhere[OF l u kt that] fresh[OF that] by simp
    qed auto
    moreover have "relink u n k ?c (heads, nxt) = Inr (heads, ?n1[keyId t := ?c])"
      using later(3,7) ul nl k(1) by (simp add: relink_def later(5)[unfolded length_list_update] del: find_pred.simps)
    ultimately show thesis using that by auto
  qed
qed

subsection \<open>The lists of all nodes\<close>

definition sided :: "'k othello \<Rightarrow> edges \<Rightarrow> bool" where
  "sided ot G \<longleftrightarrow> (\<forall>(k, a, b) \<in> G. a < ma ot \<and> ma ot \<le> b \<and> b < nodes ot \<and> k < length (keys ot))"

definition linked :: "'k othello \<Rightarrow> edges \<Rightarrow> bool" where
  "linked ot G \<longleftrightarrow> lists_of (head ot) (nextAtA ot) {..<ma ot} (incident G) \<and>
     lists_of (head ot) (nextAtB ot) {ma ot..<nodes ot} (incident G)"

definition adj_of :: "'k othello \<Rightarrow> nat \<Rightarrow> (nat \<times> nat) list" where
  "adj_of ot u = (case node_cells ot u of Inr cs \<Rightarrow> cs | Inl _ \<Rightarrow> [])"

lemma sidedD: "sided ot G \<Longrightarrow> (k, a, b) \<in> G \<Longrightarrow> a < ma ot \<and> ma ot \<le> b \<and> b < nodes ot \<and> k < length (keys ot)"
  by (auto simp: sided_def)

lemma sided_mono: "sided ot G \<Longrightarrow> H \<subseteq> G \<Longrightarrow> sided ot H"
  by (auto simp: sided_def)

lemma finite_sided:
  assumes "sided ot G"
  shows "finite G"
proof (rule finite_subset)
  show "G \<subseteq> {..<length (keys ot)} \<times> {..<ma ot} \<times> {..<nodes ot}" using assms by (auto simp: sided_def)
qed simp

lemma lists_of_cells:
  assumes "lists_of heads nxt D inc" "u \<in> D" "length nxt < fuel"
  obtains cs where "chain fuel nxt (heads ! u) = Inr cs" "distinct (map keyId cs)" "cell_pair ` set cs = inc u"
    "cs = [] \<longleftrightarrow> keyId (heads ! u) = NOKEY"
proof -
  from lists_ofE[OF assms(1,2)] obtain cs where cs: "is_chain nxt (heads ! u) cs" "distinct (map keyId cs)"
    "cell_pair ` set cs = inc u" by metis
  have "length cs < fuel" using is_chain_length[OF cs(1,2)] assms(3) by simp
  from that[OF chain_eq[OF cs(1) this] cs(2,3) is_chain_Nil[OF cs(1)]] show thesis .
qed

lemma node_cells_ok:
  assumes s: "sizes t ot" and l: "linked ot G" and u: "u < nodes ot"
  shows "node_cells ot u = Inr (adj_of ot u)" "distinct (map fst (adj_of ot u))"
    "set (adj_of ot u) = incident G u"
    "keyId (head ot ! u) = NOKEY \<longleftrightarrow> incident G u = {}"
proof -
  have h: "u < length (head ot)" using s u by (simp add: sizes_def)
  obtain cs where cs: "chain (Suc (length (if u < ma ot then nextAtA ot else nextAtB ot)))
      (if u < ma ot then nextAtA ot else nextAtB ot) (head ot ! u) = Inr cs"
    "distinct (map keyId cs)" "cell_pair ` set cs = incident G u" "cs = [] \<longleftrightarrow> keyId (head ot ! u) = NOKEY"
  proof (cases "u < ma ot")
    case True
    have "lists_of (head ot) (nextAtA ot) {..<ma ot} (incident G)" using l by (simp add: linked_def)
    from lists_of_cells[OF this _ lessI, of u] True obtain cs where
      "chain (Suc (length (nextAtA ot))) (nextAtA ot) (head ot ! u) = Inr cs" "distinct (map keyId cs)"
      "cell_pair ` set cs = incident G u" "cs = [] \<longleftrightarrow> keyId (head ot ! u) = NOKEY"
      by (simp del: chain.simps) blast
    with True show thesis by (intro that[of cs]) (simp_all del: chain.simps)
  next
    case False
    have "lists_of (head ot) (nextAtB ot) {ma ot..<nodes ot} (incident G)" using l by (simp add: linked_def)
    from lists_of_cells[OF this _ lessI, of u] False u obtain cs where
      "chain (Suc (length (nextAtB ot))) (nextAtB ot) (head ot ! u) = Inr cs" "distinct (map keyId cs)"
      "cell_pair ` set cs = incident G u" "cs = [] \<longleftrightarrow> keyId (head ot ! u) = NOKEY"
      by (simp del: chain.simps) blast
    with False show thesis by (intro that[of cs]) (simp_all del: chain.simps)
  qed
  have n: "node_cells ot u = Inr (map cell_pair cs)"
    unfolding node_cells_def Let_def using h cs(1) by (simp del: chain.simps)
  then have a: "adj_of ot u = map cell_pair cs" by (simp add: adj_of_def)
  show "node_cells ot u = Inr (adj_of ot u)" using n a by simp
  show "distinct (map fst (adj_of ot u))" using cs(2) a by (simp add: comp_def)
  show "set (adj_of ot u) = incident G u" using cs(3) a by simp
  show "keyId (head ot ! u) = NOKEY \<longleftrightarrow> incident G u = {}" using cs(3,4) by (metis image_is_empty set_empty)
qed

lemma incident_nodes: "sided ot G \<Longrightarrow> (k, w) \<in> incident G u \<Longrightarrow> u < nodes ot \<and> w < nodes ot \<and> k < length (keys ot)"
  by (force simp: incident_def sided_def nodes_def)

lemma linked_adjacency:
  assumes "sizes t ot" "linked ot G" "sided ot G"
  shows "adjacency G {..<nodes ot} (adj_of ot)"
  unfolding adjacency_def using node_cells_ok[OF assms(1,2)] incident_nodes[OF assms(3)] by auto

lemma incident_insert:
  "a \<noteq> b \<Longrightarrow> incident (insert (k, a, b) G) =
     (incident G)(a := insert (k, b) (incident G a), b := insert (k, a) (incident G b))"
  by (rule ext) (auto simp: incident_def)


subsection \<open>The disjoint set and the graph\<close>

definition joined :: "'k othello \<Rightarrow> edges \<Rightarrow> (nat \<Rightarrow> nat) \<Rightarrow> (nat \<Rightarrow> nat) \<Rightarrow> bool" where
  "joined ot G R d \<longleftrightarrow> length (connectivityForest ot) = nodes ot \<and> nodes ot < 2 ^ 31 \<and>
     ds_ok (connectivityForest ot) R d \<and>
     (\<forall>u < nodes ot. \<forall>v < nodes ot. R u = R v \<longleftrightarrow> conn G u v)"

lemma joinedD:
  assumes "joined ot G R d"
  shows "length (connectivityForest ot) = nodes ot" "nodes ot < 2 ^ 31" "ds_ok (connectivityForest ot) R d"
    "u < nodes ot \<Longrightarrow> v < nodes ot \<Longrightarrow> R u = R v \<longleftrightarrow> conn G u v"
  using assms by (simp_all add: joined_def)

lemma isConnected_ok:
  assumes t: "plain t" and j: "joined ot G R d" and u: "u < nodes ot" "v < nodes ot"
  obtains cf where "isConnectedDFS t u v ot = Inr (conn G u v, ot\<lparr>connectivityForest := cf\<rparr>)"
    "ds_sameSet (connectivityForest ot) (s32 u) (s32 v) = Inr (conn G u v, cf)"
    "joined (ot\<lparr>connectivityForest := cf\<rparr>) G R d" "touch R {R u, R v} (connectivityForest ot) cf"
proof -
  note J = joinedD[OF j]
  have s: "s32 u = int u" "s32 v = int v" using u J(2) by simp_all
  from ds_sameSet_ok[OF J(3), of u v] u J(1) obtain cf where cf:
    "ds_sameSet (connectivityForest ot) (int u) (int v) = Inr (R u = R v, cf)" "ds_ok cf R d"
    "touch R {R u, R v} (connectivityForest ot) cf" by metis
  have "joined (ot\<lparr>connectivityForest := cf\<rparr>) G R d"
    using j cf(2) touchD(1)[OF cf(3)] by (simp add: joined_def nodes_def)
  with cf t show thesis
    by (intro that[of cf]) (simp_all add: isConnectedDFS_def s J(4)[OF u, symmetric])
qed

lemma join_rep_conn:
  assumes j: "\<And>u v. u < n \<Longrightarrow> v < n \<Longrightarrow> R u = R v \<longleftrightarrow> conn G u v" and a: "a < n" "b < n" and u: "u < n" "v < n"
  shows "join_rep R a b u = join_rep R a b v \<longleftrightarrow> conn (insert (k, a, b) G) u v"
  unfolding conn_insert join_rep_def
  using j[OF u] j[OF u(1) a(1)] j[OF u(1) a(2)] j[OF a(1) u(2)] j[OF a(2) u(2)] by metis

lemma lists_of_congs:
  assumes "lists_of heads nxt D inc" "\<And>u. u \<in> D \<Longrightarrow> heads' ! u = heads ! u \<and> inc' u = inc u" "length heads' = length heads"
  shows "lists_of heads' nxt D inc'"
  using lists_of_cong[OF assms(2,3) assms(1)] .

lemma addEdge_ok:
  assumes s: "sizes t ot" and l: "linked ot G" and j: "joined ot G R d"
    and k: "k < length (keys ot)" "k \<notin> fst ` G" and ab: "a < ma ot" "ma ot \<le> b" "b < nodes ot"
  obtains h na nb cf d' where
    "addEdge k a b ot = Inr (ot\<lparr>nextAtA := na, nextAtB := nb, head := h, connectivityForest := cf\<rparr>)"
    "sizes t (ot\<lparr>nextAtA := na, nextAtB := nb, head := h, connectivityForest := cf\<rparr>)"
    "linked (ot\<lparr>nextAtA := na, nextAtB := nb, head := h, connectivityForest := cf\<rparr>) (insert (k, a, b) G)"
    "joined (ot\<lparr>nextAtA := na, nextAtB := nb, head := h, connectivityForest := cf\<rparr>) (insert (k, a, b) G)
       (join_rep R a b) d'"
    "touch R {R a, R b} (connectivityForest ot) cf" "0 \<le> cf ! R a"
proof -
  note J = joinedD[OF j]
  have n: "a < nodes ot" "a \<noteq> b" using ab by (auto simp: nodes_def)
  have s32: "s32 a = int a" "s32 b = int b" using n ab(3) J(2) by simp_all
  let ?G = "insert (k, a, b) G"
  have len: "k < length (nextAtA ot)" "k < length (nextAtB ot)" "length (head ot) = nodes ot" "k \<noteq> NOKEY"
    using s k(1) by (auto simp: sizes_def NOKEY_def)
  have fr: "k \<notin> fst ` incident G v" for v using k(2) by (force simp: incident_def)
  define h1 where "h1 = (head ot)[a := \<lparr>keyId = k, nodeId = b\<rparr>]"
  define h2 where "h2 = h1[b := \<lparr>keyId = k, nodeId = a\<rparr>]"
  define na where "na = (nextAtA ot)[k := head ot ! a]"
  define nb where "nb = (nextAtB ot)[k := h1 ! b]"
  have lA: "lists_of h1 na {..<ma ot} ((incident G)(a := insert (k, b) (incident G a)))"
    unfolding h1_def na_def using l ab len fr by (intro lists_of_push) (auto simp: linked_def)
  have lA2: "lists_of h2 na {..<ma ot} (incident ?G)"
    by (rule lists_of_congs[OF lA]) (use ab n in \<open>auto simp: h2_def incident_insert\<close>)
  have lB: "lists_of h1 (nextAtB ot) {ma ot..<nodes ot} (incident G)"
    by (rule lists_of_congs[of "head ot"]) (use l ab in \<open>auto simp: h1_def linked_def\<close>)
  have lB2: "lists_of h2 nb {ma ot..<nodes ot} ((incident G)(b := insert (k, a) (incident G b)))"
    unfolding h2_def nb_def using lB ab len fr by (intro lists_of_push) auto
  have lB3: "lists_of h2 nb {ma ot..<nodes ot} (incident ?G)"
    by (rule lists_of_congs[OF lB2]) (use ab n in \<open>auto simp: incident_insert\<close>)
  obtain cf d' where cf: "ds_merge (connectivityForest ot) (int a) (int b) = Inr cf" "ds_ok cf (join_rep R a b) d'"
    "touch R {R a, R b} (connectivityForest ot) cf" "0 \<le> cf ! R a"
    using ds_merge_ok[OF J(3), of a b] n ab(3) J(1) by metis
  have lcf: "length cf = nodes ot" using touchD(1)[OF cf(3)] J(1) by simp
  let ?o = "ot\<lparr>nextAtA := na, nextAtB := nb, head := h2, connectivityForest := cf\<rparr>"
  show thesis
  proof
    show "addEdge k a b ot = Inr ?o"
      using len n ab by (simp add: addEdge_def s32 cf(1) na_def nb_def h1_def h2_def)
    show "sizes t ?o" using s lcf by (simp add: sizes_def nodes_def na_def nb_def h1_def h2_def)
    show "linked ?o ?G" using lA2 lB3 by (simp add: linked_def nodes_def)
    have "nodes ?o = nodes ot" by (simp add: nodes_def)
    then show "joined ?o ?G (join_rep R a b) d'"
      using cf(2) lcf J(2) join_rep_conn[OF J(4) n(1) ab(3)] by (simp add: joined_def)
  qed (use cf in simp_all)
qed
end
