(* ===== verification/Othello_Fix.thy ===== *)
theory Othello_Fix
  imports Othello_Links
begin

text \<open>
  The walks of the control plane over one component: \<open>walk_trace\<close> is the sequence of visits
  of a walk, and \<open>fixHalfTreeDFS_ok\<close> describes \<open>fixHalfTreeDFS\<close> and
  \<open>fixHalfTreeDFS_on_demand\<close> completely: both shift the cells of one branch by the same
  value, the second also appends the nodes of that branch when their cells change.
\<close>

subsection \<open>Steps that only write the tables\<close>

lemma memSet_frame: "memSet t i v ot = Inr ot' \<Longrightarrow> frame ot ot'"
  by (auto simp: memSet_def frame_def rbind_eq_Inr split: if_splits)

lemma memValueSet_frame: "memValueSet t i v ot = Inr ot' \<Longrightarrow> frame ot ot'"
  by (auto simp: memValueSet_def frame_def rbind_eq_Inr split: if_splits)

lemma index_frame: "frame ot (ot\<lparr>indMem := im\<rparr>)"
  by (simp add: frame_def)

lemma fixSingle_frame:
  assumes "fixSingle t fv fi kd w x ix ot = Inr ot'"
  shows "frame ot ot'"
proof -
  from assms obtain o1 where o1: "(if fv \<and> tMaintainDP t then
          if kd then rbind (memValueGet t ot w) (\<lambda>c. memValueSet t w (x XOR c) ot)
          else rbind (memGet t ot w) (\<lambda>c. memSet t w (x XOR c) ot)
        else Inr ot) = Inr o1" "(if fi then
       rbind (vat (indMem o1) w) (\<lambda>i.
       rbind (vput (indMem o1) w (ix XOR i)) (\<lambda>im.
       Inr (o1\<lparr>indMem := im\<rparr>)))
     else Inr o1) = Inr ot'"
    unfolding fixSingle_def rbind_eq_Inr by blast
  have "frame ot o1" using o1(1)
    by (auto simp: rbind_eq_Inr split: if_splits dest: memSet_frame memValueSet_frame)
  moreover have "frame o1 ot'" using o1(2) by (auto simp: rbind_eq_Inr index_frame split: if_splits)
  ultimately show ?thesis by (rule frame_trans)
qed

lemma fillSingle_frame:
  assumes "fillSingle t fv fi kd k w p ot = Inr ot'"
  shows "frame ot ot'"
proof -
  from assms obtain o1 where o1: "(if fv \<and> maintainingDP ot then
          rbind (vat (vals ot) k) (\<lambda>val.
          if kd then
            rbind (memValueGet t ot p) (\<lambda>w'. memValueSet t w (ucast val XOR w') ot)
          else if tDL t \<noteq> 0 then
            rbind (vat (keys ot) k) (\<lambda>k.
            rbind (memGet t ot p) (\<lambda>w'.
            let digest = ucast (hash32 t (hd_seed ot) k) AND low_mask (tDL t);
                vd = ucast (push_bit (tDL t) val) OR digest
            in memSet t w ((vd XOR w') OR 1) ot))
          else rbind (memGet t ot p) (\<lambda>w'. memSet t w (ucast val XOR w') ot))
        else Inr ot) = Inr o1" "(if fi then
       rbind (vat (indMem o1) p) (\<lambda>i.
       rbind (vput (indMem o1) w (k XOR i)) (\<lambda>im.
       Inr (o1\<lparr>indMem := im\<rparr>)))
     else Inr o1) = Inr ot'"
    unfolding fillSingle_def rbind_eq_Inr by blast
  have "frame ot o1" using o1(1)
    by (auto simp: rbind_eq_Inr Let_def split: if_splits dest: memSet_frame memValueSet_frame)
  moreover have "frame o1 ot'" using o1(2) by (auto simp: rbind_eq_Inr index_frame split: if_splits)
  ultimately show ?thesis by (rule frame_trans)
qed

lemma node_cells_frame: "frame a b \<Longrightarrow> node_cells b u = node_cells a u"
  by (rule frameD(15))

text \<open>The setting of the walks\<close>
definition graphed :: "'k template \<Rightarrow> 'k othello \<Rightarrow> edges \<Rightarrow> bool" where
  "graphed t ot G \<longleftrightarrow> plain t \<and> sizes t ot \<and> sided ot G \<and> forest G \<and> linked ot G"

lemma graphedD:
  assumes "graphed t ot G"
  shows "plain t" "sizes t ot" "sided ot G" "forest G" "linked ot G" "finite G" "adjacency G {..<nodes ot} (adj_of ot)"
  using assms finite_sided linked_adjacency by (auto simp: graphed_def)

lemma branch_nodes:
  assumes "sided ot G" "v < nodes ot"
  shows "branch G k v \<subseteq> {..<nodes ot}"
proof
  fix z assume "z \<in> branch G k v"
  then have "conn (without k G) v z" by (simp add: branch_def)
  then show "z \<in> {..<nodes ot}"
    by (induction rule: conn_induct) (use assms incident_nodes[OF sided_mono[OF assms(1) without_subset]] in auto)
qed

text \<open>A walk over the component branch that starts behind edge \<open>k\<close> at \<open>v\<close>: its visits.\<close>

definition walk_trace :: "'k othello \<Rightarrow> nat \<Rightarrow> nat \<Rightarrow> visit list" where
  "walk_trace ot k v = the (trace (adj_of ot) (walk_fuel ot) [(k, v)])"

lemma walk_trace_ok:
  assumes g: "graphed t ot G" and v: "v < nodes ot" "leads_to G k v"
  shows "trace (adj_of ot) (walk_fuel ot) [(k, v)] = Some (walk_trace ot k v)" (is ?A)
    "distinct (map node_of (walk_trace ot k v))" (is ?B)
    "node_of ` set (walk_trace ot k v) = branch G k v - {v}" (is ?C)
    "\<And>k' w p. (k', w, p) \<in> set (walk_trace ot k v) \<Longrightarrow> (k', w) \<in> incident G p"
    "\<And>i. i < length (walk_trace ot k v) \<Longrightarrow>
      parent_of (walk_trace ot k v ! i) \<in> insert v (node_of ` set (take i (walk_trace ot k v)))"
    "\<And>x k' y. x \<in> branch G k v \<Longrightarrow> (k', y) \<in> incident G x \<Longrightarrow> k' \<noteq> k \<Longrightarrow> k' \<in> fst ` set (walk_trace ot k v)"
proof -
  note g' = graphedD[OF g]
  have "card (branch G k v) \<le> card {..<nodes ot}"
    by (rule card_mono) (use branch_nodes[OF g'(3) v(1)] in auto)
  then have c: "card (branch G k v) < walk_fuel ot" by (simp add: walk_fuel_def nodes_def)
  have v': "v \<in> {..<nodes ot}" using v by simp
  obtain ts where ts: "trace (adj_of ot) (walk_fuel ot) [(k, v)] = Some ts" "distinct (map node_of ts)"
    "node_of ` set ts = branch G k v - {v}"
    "\<And>k' w p. (k', w, p) \<in> set ts \<Longrightarrow> (k', w) \<in> incident G p"
    "\<And>i. i < length ts \<Longrightarrow> parent_of (ts ! i) \<in> insert v (node_of ` set (take i ts))"
    "\<And>x k' y. x \<in> branch G k v \<Longrightarrow> (k', y) \<in> incident G x \<Longrightarrow> k' \<noteq> k \<Longrightarrow> k' \<in> fst ` set ts"
    using trace_from[OF g'(4,6,7) v' v(2) c] by metis
  then have e: "walk_trace ot k v = ts" by (simp add: walk_trace_def)
  show ?A ?B ?C using ts(1-3) by (simp_all add: e)
  show "(k', w) \<in> incident G p" if "(k', w, p) \<in> set (walk_trace ot k v)" for k' w p using ts(4) that by (simp add: e)
  show "parent_of (walk_trace ot k v ! i) \<in> insert v (node_of ` set (take i (walk_trace ot k v)))"
    if "i < length (walk_trace ot k v)" for i using ts(5) that by (simp add: e)
  show "k' \<in> fst ` set (walk_trace ot k v)" if "x \<in> branch G k v" "(k', y) \<in> incident G x" "k' \<noteq> k" for x k' y
    using ts(6) that by (simp add: e)
qed

lemma walk_is_fold:
  assumes g: "graphed t ot G" and v: "v < nodes ot" "leads_to G k v"
    and cells: "\<And>s u. P s \<Longrightarrow> cells s u = node_cells ot u"
    and act: "\<And>k w p s s'. P s \<Longrightarrow> act k w p s = Inr s' \<Longrightarrow> P s'" and P: "P s"
    and fuel: "fuel = walk_fuel ot"
  shows "walk_tree cells act fuel [(k, v)] s = rfold (visit_act act) (walk_trace ot k v) s"
proof (rule walk_tree_trace[where P = P and D = "{..<nodes ot}" and adj = "adj_of ot"])
  note g' = graphedD[OF g]
  show "cells s u = Inr (adj_of ot u)" if "P s" "u \<in> {..<nodes ot}" for s u
    using cells[OF that(1)] node_cells_ok(1)[OF g'(2,5), of u] that(2) by simp
  show "snd ` set (adj_of ot u) \<subseteq> {..<nodes ot}" if "u \<in> {..<nodes ot}" for u
    using g'(7) that unfolding adjacency_def by auto
  show "trace (adj_of ot) fuel [(k, v)] = Some (walk_trace ot k v)"
    using walk_trace_ok(1)[OF g v] fuel by simp
qed (use act P v in auto)

subsection \<open>Shifting the cells of a set of nodes\<close>

definition shifted :: "'k template \<Rightarrow> bool \<Rightarrow> bool \<Rightarrow> nat set \<Rightarrow> u64 \<Rightarrow> nat \<Rightarrow> 'k othello \<Rightarrow> 'k othello \<Rightarrow> bool" where
  "shifted t fv fi S x ix ot ot' \<longleftrightarrow>
     tables t ot ot' (\<lambda>j. if fv \<and> j \<in> S then x XOR value_cell t ot j else value_cell t ot j)
       (\<lambda>j. if fi \<and> j \<in> S then ix XOR indMem ot ! j else indMem ot ! j)"

lemma shiftedD:
  assumes "shifted t fv fi S x ix ot ot'"
  shows "frame ot ot'" "sizes t ot'"
    "j < nodes ot \<Longrightarrow> value_cell t ot' j = (if fv \<and> j \<in> S then x XOR value_cell t ot j else value_cell t ot j)"
    "j < nodes ot \<Longrightarrow> indMem ot' ! j = (if fi \<and> j \<in> S then ix XOR indMem ot ! j else indMem ot ! j)"
  using assms by (auto simp: shifted_def tables_def)

lemma shifted_refl: "sizes t ot \<Longrightarrow> shifted t fv fi {} x ix ot ot"
  by (simp add: shifted_def tables_def)

lemma shifted_single:
  assumes s: "shifted t fv fi S x ix ot o1" and w: "w < nodes ot" "w \<notin> S"
    and f: "tables t o1 o2 (\<lambda>j. if fv \<and> j = w then x XOR value_cell t o1 j else value_cell t o1 j)
      (\<lambda>j. if fi \<and> j = w then ix XOR indMem o1 ! j else indMem o1 ! j)"
  shows "shifted t fv fi (insert w S) x ix ot o2"
  unfolding shifted_def tables_def
proof (intro conjI allI impI)
  note S = shiftedD[OF s]
  have n: "nodes o1 = nodes ot" using frameD(13)[OF S(1)] .
  show "frame ot o2" using frame_trans[OF S(1)] f by (simp add: tables_def)
  show "sizes t o2" using f by (simp add: tables_def)
  fix j assume j: "j < nodes ot"
  show "value_cell t o2 j = (if fv \<and> j \<in> insert w S then x XOR value_cell t ot j else value_cell t ot j)"
    using f S(3)[OF j] j w(2) n by (auto simp: tables_def)
  show "indMem o2 ! j = (if fi \<and> j \<in> insert w S then ix XOR indMem ot ! j else indMem ot ! j)"
    using f S(4)[OF j] j w(2) n by (auto simp: tables_def)
qed

lemma insert_take: "i < length xs \<Longrightarrow> f ` set (take (Suc i) xs) = insert (f (xs ! i)) (f ` set (take i xs))"
  by (simp add: take_Suc_conv_app_nth)

lemma fresh_visit: "distinct (map f xs) \<Longrightarrow> i < length xs \<Longrightarrow> f (xs ! i) \<notin> f ` set (take i xs)"
proof
  assume d: "distinct (map f xs)" and i: "i < length xs" and m: "f (xs ! i) \<in> f ` set (take i xs)"
  from m obtain j where j: "j < i" "f (xs ! j) = f (xs ! i)" using i by (auto simp: in_set_conv_nth)
  from nth_eq_iff_index_eq[OF d, of j i] j i show False by simp
qed

definition noting :: "bool \<Rightarrow> (nat \<Rightarrow> nat \<Rightarrow> nat \<Rightarrow> 'a \<Rightarrow> 'a res) \<Rightarrow> nat \<Rightarrow> nat \<Rightarrow> nat \<Rightarrow> 'a \<times> nat list \<Rightarrow> ('a \<times> nat list) res" where
  "noting b act k w p = (\<lambda>(s, fl). rbind (act k w p s) (\<lambda>s'. Inr (s', if b then fl @ [w] else fl)))"

lemma rfold_noting:
  "rfold (visit_act (noting b act)) ts (s, fl) =
     rbind (rfold (visit_act act) ts s) (\<lambda>s'. Inr (s', if b then fl @ map node_of ts else fl))"
proof (induction ts arbitrary: s fl)
  case (Cons v ts)
  obtain k w p where v: "v = (k, w, p)" by (cases v)
  show ?case
  proof (cases "act k w p s")
    case (Inr s1)
    then show ?thesis using Cons.IH by (simp add: v noting_def)
  qed (simp add: v noting_def)
qed simp

lemma shift_fold:
  assumes t: "plain t" and s: "sizes t ot" and x: "x AND low_mask (tL t) = x"
    and d: "distinct (map node_of ts)" and n: "node_of ` set ts \<subseteq> {..<nodes ot}"
    and base: "shifted t fv fi S x ix ot o1" "S \<inter> node_of ` set ts = {}"
  shows "\<exists>o2. rfold (visit_act (\<lambda>_ w _. fixSingle t fv fi kd w x ix)) ts o1 = Inr o2 \<and>
     shifted t fv fi (S \<union> node_of ` set ts) x ix ot o2"
proof -
  let ?I = "\<lambda>i o2. shifted t fv fi (S \<union> node_of ` set (take i ts)) x ix ot o2"
  have "\<exists>o2. rfold (visit_act (\<lambda>_ w _. fixSingle t fv fi kd w x ix)) ts o1 = Inr o2 \<and> ?I (length ts) o2"
  proof (rule rfold_inv[where I = ?I])
    show "?I 0 o1" using base(1) by simp
    fix i o2 assume i: "i < length ts" and I: "?I i o2"
    obtain k w p where v: "ts ! i = (k, w, p)" by (cases "ts ! i")
    have wts: "w \<in> node_of ` set ts" using i v nth_mem[OF i] by force
    then have w: "w < nodes ot" using n by blast
    have fr: "w \<notin> S \<union> node_of ` set (take i ts)"
      using fresh_visit[OF d i] v wts base(2) by auto
    note D = shiftedD[OF I]
    from fixSingle_ok[OF t D(2) _ x, of w fv fi kd ix] w frameD(13)[OF D(1)] obtain o3 where o3:
      "fixSingle t fv fi kd w x ix o2 = Inr o3"
      "tables t o2 o3 (\<lambda>j. if fv \<and> j = w then x XOR value_cell t o2 j else value_cell t o2 j)
      (\<lambda>j. if fi \<and> j = w then ix XOR indMem o2 ! j else indMem o2 ! j)" by auto
    have "S \<union> node_of ` set (take (Suc i) ts) = insert w (S \<union> node_of ` set (take i ts))"
      using insert_take[OF i, of node_of] v by auto
    with shifted_single[OF I w fr o3(2)] o3(1) v
    show "\<exists>s'. visit_act (\<lambda>_ w _. fixSingle t fv fi kd w x ix) (ts ! i) o2 = Inr s' \<and> ?I (Suc i) s'"
      by simp
  qed
  then show ?thesis by simp
qed

text \<open>What one call of \<open>fixHalfTreeDFS\<close> shifts by.\<close>

definition fix_by :: "'k template \<Rightarrow> 'k othello \<Rightarrow> nat \<Rightarrow> nat \<Rightarrow> nat \<Rightarrow> u64" where
  "fix_by t ot k root hb = value_cell t ot root XOR (value_bits t (vals ot ! k) XOR value_cell t ot hb)"

definition fix_index_by :: "'k othello \<Rightarrow> nat \<Rightarrow> nat \<Rightarrow> nat \<Rightarrow> nat" where
  "fix_index_by ot k root hb = indMem ot ! root XOR (k XOR indMem ot ! hb)"

lemma fix_orient_plain:
  assumes "plain t" "sizes t ot" "root < nodes ot" "hb < nodes ot"
  shows "fix_orient t fv root hb ot = Inr ((root, hb, False), ot)"
  using assms by (simp add: fix_orient_def memGet_ok)

lemma read_value_plain:
  assumes "plain t" "sizes t ot" "u < nodes ot"
  shows "read_value t fv kd ot u = Inr (if fv then value_cell t ot u else 0)"
  using assms by (simp add: read_value_def memGet_ok)

lemma read_index_plain:
  assumes "sizes t ot" "u < nodes ot"
  shows "read_index fi ot u = Inr (if fi then indMem ot ! u else 0)"
  using assms by (simp add: read_index_def sizes_def)

lemma fix_start:
  assumes t: "plain t" and s: "sizes t ot" and u: "root < nodes ot" "hb < nodes ot" and k: "k < length (keys ot)"
    and x: "x = (if fv then fix_by t ot k root hb else 0)" and ix: "ix = (if fi then fix_index_by ot k root hb else 0)"
  obtains o1 where "fillSingle t fv fi kd k root hb ot = Inr o1" "shifted t fv fi {root} x ix ot o1"
proof -
  obtain o1 where o1: "fillSingle t fv fi kd k root hb ot = Inr o1"
    "tables t ot o1 (\<lambda>j. if fv \<and> j = root then value_bits t (vals ot ! k) XOR value_cell t ot hb else value_cell t ot j)
      (\<lambda>j. if fi \<and> j = root then k XOR indMem ot ! hb else indMem ot ! j)"
    using fillSingle_ok[OF t s u k] by blast
  have "shifted t fv fi {root} x ix ot o1"
    using o1(2) by (auto simp: shifted_def tables_def x ix fix_by_def fix_index_by_def)
  with o1(1) show thesis by (rule that)
qed

lemma linked_frame: "frame ot ot' \<Longrightarrow> linked ot' G = linked ot G"
  by (simp add: linked_def frameD)

lemma sided_frame: "frame ot ot' \<Longrightarrow> sided ot' G = sided ot G"
  by (simp add: sided_def frameD)

lemma joined_frame: "frame ot ot' \<Longrightarrow> joined ot' G R d = joined ot G R d"
  by (simp add: joined_def frameD)

lemma graphed_frame: "graphed t ot G \<Longrightarrow> frame ot ot' \<Longrightarrow> sizes t ot' \<Longrightarrow> graphed t ot' G"
  by (simp add: graphed_def linked_frame sided_frame)

lemma walk_trace_frame: "frame ot ot' \<Longrightarrow> walk_trace ot' k v = walk_trace ot k v"
  by (simp add: walk_trace_def frameD adj_of_def[abs_def])

lemma fixSingle_keeps: "frame a s \<Longrightarrow> fixSingle t fv fi kd w x ix s = Inr s' \<Longrightarrow> frame a s'"
  using frame_trans fixSingle_frame by blast

lemma fix_by_low:
  assumes "plain t" "sizes t ot" "root < nodes ot" "hb < nodes ot"
  shows "fix_by t ot k root hb AND low_mask (tL t) = fix_by t ot k root hb"
proof -
  have "value_bits t v AND low_mask (tL t) = value_bits t v" for v
    by (simp add: value_bits_def and.assoc)
  then show ?thesis by (simp only: fix_by_def xor_low value_cell_low[OF assms(1,2,3)] value_cell_low[OF assms(1,2,4)])
qed

text \<open>
  The two versions of the routine do the same to the tables, and the second appends the
  visited nodes exactly when their cells change.
\<close>

lemma fixHalfTreeDFS_ok:
  assumes g: "graphed t ot G" and k: "k < length (keys ot)" "leads_to G k root"
    and u: "root < ma ot" "hb < nodes ot"
    and x: "x = (if fv then fix_by t ot k root hb else 0)"
    and ix: "ix = (if fi then fix_index_by ot k root hb else 0)"
  obtains ot' where "fixHalfTreeDFS t fv fi kd k root hb ot = Inr (x, ot')"
    "fixHalfTreeDFS_on_demand t fv fi kd k root hb (ot, fl) =
       Inr (x, ot', if x \<noteq> 0 then fl @ root # map node_of (walk_trace ot k root) else fl)"
    "shifted t fv fi (branch G k root) x ix ot ot'"
proof -
  note g' = graphedD[OF g]
  note t = g'(1) and s = g'(2)
  have r: "root < nodes ot" using u by (simp add: nodes_def)
  have nk: "k \<noteq> NOKEY" using k(1) s by (auto simp: sizes_def NOKEY_def)
  obtain o1 where o1: "fillSingle t fv fi kd k root hb ot = Inr o1" "shifted t fv fi {root} x ix ot o1"
    using fix_start[OF t s r u(2) k(1) x ix] by metis
  note S = shiftedD[OF o1(2)]
  have n1: "nodes o1 = nodes ot" "walk_fuel o1 = walk_fuel ot" "root < nodes o1"
    using frameD(13,16)[OF S(1)] r by simp_all
  have g1: "graphed t o1 G" using graphed_frame[OF g S(1,2)] .
  note W = walk_trace_ok[OF g r k(2)] and We = walk_trace_frame[OF S(1), of k root]
  have xl: "x AND low_mask (tL t) = x" using fix_by_low[OF t s r u(2)] x by simp
  have sub: "node_of ` set (walk_trace ot k root) \<subseteq> {..<nodes ot}"
    using W(3) branch_nodes[OF g'(3) r] by blast
  have "{root} \<inter> node_of ` set (walk_trace ot k root) = {}" using W(3) by auto
  from shift_fold[OF t s xl W(2) sub o1(2) this] obtain o2 where o2:
    "rfold (visit_act (\<lambda>_ w _. fixSingle t fv fi kd w x ix)) (walk_trace ot k root) o1 = Inr o2"
    "shifted t fv fi ({root} \<union> node_of ` set (walk_trace ot k root)) x ix ot o2" by blast
  have bu: "{root} \<union> node_of ` set (walk_trace ot k root) = branch G k root"
    using W(3) by (auto simp: branch_def)
  have w1: "walk_tree node_cells (\<lambda>_ w _. fixSingle t fv fi kd w x ix) (walk_fuel o1) [(k, root)] o1 = Inr o2"
    unfolding o2(1)[symmetric] We[symmetric]
    by (rule walk_is_fold[OF g1 n1(3) k(2), where P = "frame o1"])
       (auto intro: fixSingle_keeps node_cells_frame)
  have note_eq: "(\<lambda>_ w _ (ot, fl). rbind (fixSingle t fv fi kd w x ix ot) (\<lambda>ot'. Inr (ot', if x \<noteq> 0 then fl @ [w] else fl)))
      = noting (x \<noteq> 0) (\<lambda>_ w _. fixSingle t fv fi kd w x ix)"
    by (intro ext) (auto simp: noting_def)
  have w2: "walk_tree (\<lambda>(ot, _). node_cells ot) (noting (x \<noteq> 0) (\<lambda>_ w _. fixSingle t fv fi kd w x ix)) (walk_fuel o1) [(k, root)] (o1, fl1)
      = Inr (o2, if x \<noteq> 0 then fl1 @ map node_of (walk_trace ot k root) else fl1)" for fl1
  proof -
    have "walk_tree (\<lambda>(ot, _). node_cells ot) (noting (x \<noteq> 0) (\<lambda>_ w _. fixSingle t fv fi kd w x ix)) (walk_fuel o1) [(k, root)] (o1, fl1)
        = rfold (visit_act (noting (x \<noteq> 0) (\<lambda>_ w _. fixSingle t fv fi kd w x ix))) (walk_trace ot k root) (o1, fl1)"
      unfolding We[symmetric]
      by (rule walk_is_fold[OF g1 n1(3) k(2), where P = "\<lambda>(o2, _). frame o1 o2"])
         (auto simp: noting_def rbind_eq_Inr intro: fixSingle_keeps node_cells_frame)
    then show ?thesis by (simp add: rfold_noting o2(1))
  qed
  have rv: "read_value t fv kd ot root = Inr (if fv then value_cell t ot root else 0)"
      "read_value t fv kd o1 root = Inr (if fv then x XOR value_cell t ot root else 0)"
      "read_index fi ot root = Inr (if fi then indMem ot ! root else 0)"
      "read_index fi o1 root = Inr (if fi then ix XOR indMem ot ! root else 0)"
    using read_value_plain[OF t s r] read_value_plain[OF t S(2) n1(3)] read_index_plain[OF s r]
      read_index_plain[OF S(2) n1(3)] S(3,4)[OF r] by simp_all
  have mg: "memGet t ot root = Inr (value_cell t ot root)" "memGet t o1 root = Inr (value_cell t o1 root)"
    using memGet_ok[OF t s r] memGet_ok[OF t S(2) n1(3)] by simp_all
  have ch: "value_cell t ot root \<noteq> value_cell t o1 root \<longleftrightarrow> x \<noteq> 0"
    using S(3)[OF r] x by (cases fv) (auto simp: xor_self_eq, metis word_xor_cancel(4) xor.left_neutral)
  have xs: "(if fv then value_cell t ot root XOR (x XOR value_cell t ot root) else 0) = x"
       "(if fi then indMem ot ! root XOR (ix XOR indMem ot ! root) else 0) = ix"
    using x ix by simp_all
  show thesis
  proof
    show "fixHalfTreeDFS t fv fi kd k root hb ot = Inr (x, o2)"
      using w1 xs u nk by (simp add: fixHalfTreeDFS_def fix_orient_plain[OF t s r u(2)] rv o1(1) Let_def cong: if_cong)
    show "fixHalfTreeDFS_on_demand t fv fi kd k root hb (ot, fl) =
       Inr (x, o2, if x \<noteq> 0 then fl @ root # map node_of (walk_trace ot k root) else fl)"
      using w2 xs u nk by (simp add: fixHalfTreeDFS_on_demand_def fix_orient_plain[OF t s r u(2)] rv mg o1(1) Let_def ch note_eq cong: if_cong)
    show "shifted t fv fi (branch G k root) x ix ot o2" using o2(2) unfolding bu .
  qed
qed
end
