(* ===== verification/Othello_Invariant.thy ===== *)
theory Othello_Invariant
  imports Othello_Fix
begin

text \<open>
  The invariant of the control plane and what it says of lookups. The stored keys are the
  edges of a bipartite graph (\<open>edges\<close>); \<open>othello_inv\<close> holds when that graph is a forest, the
  linked lists are its adjacency lists, the disjoint set has its components, and for every
  edge the XOR of the two value cells is the key's value and the XOR of the two index cells
  the key's number. \<open>contents\<close> is the table as a map. \<open>fix_restores\<close> is the step all updates
  share.
\<close>

subsection \<open>The graph of the stored keys\<close>

definition edges :: "'k template \<Rightarrow> 'k othello \<Rightarrow> edges" where
  "edges t ot = (\<lambda>i. (i, getIndices t ot (keys ot ! i))) ` {..<keyCnt ot}"

lemma edges_iff: "(k, a, b) \<in> edges t ot \<longleftrightarrow> k < keyCnt ot \<and> getIndices t ot (keys ot ! k) = (a, b)"
  by (auto simp: edges_def)

lemma high_part_less:
  assumes "x < 2 ^ 32" "0 < m" "m < 2 ^ 32"
  shows "multiply_high_u32 x m < m"
proof -
  have "x * m < 2 ^ 32 * m" using assms by simp
  then have "x * m div 2 ^ 32 < m" by (simp add: less_mult_imp_div_less mult.commute)
  moreover have "x * m < 2 ^ 64"
  proof -
    have "x * m < 2 ^ 32 * 2 ^ 32" using assms by (intro mult_strict_mono) auto
    then show ?thesis by simp
  qed
  ultimately show ?thesis using assms(3) by (simp add: multiply_high_u32_def)
qed

lemma getIndices_range:
  assumes "sizes t ot" "getIndices t ot k = (a, b)"
  shows "a < ma ot" "ma ot \<le> b" "b < nodes ot" "a < nodes ot"
proof -
  from assms(1) have m: "0 < ma ot" "0 < mb ot" "ma ot + mb ot < 2 ^ 31" by (simp_all add: sizes_def nodes_def)
  have "multiply_high_u32 (w32 (unat (drop_bit 32 (hash64 t (hab ot) k)))) (mb ot) < mb ot"
    using m by (intro high_part_less) simp_all
  moreover have "multiply_high_u32 (w32 (unat (hash64 t (hab ot) k))) (ma ot) < ma ot"
    using m by (intro high_part_less) simp_all
  ultimately show "a < ma ot" "ma ot \<le> b" "b < nodes ot" "a < nodes ot"
    using assms(2) m by (auto simp: getIndices_def nodes_def Let_def)
qed

lemma edges_keyed: "keyed (edges t ot)"
  by (auto simp: keyed_def edges_iff)

lemma edges_sided: "sizes t ot \<Longrightarrow> sided ot (edges t ot)"
  unfolding sided_def
proof (intro ballI, clarify)
  fix k a b assume s: "sizes t ot" and e: "(k, a, b) \<in> edges t ot"
  then have "getIndices t ot (keys ot ! k) = (a, b)" "k < keyCnt ot" by (simp_all add: edges_iff)
  with getIndices_range[OF s] s show "a < ma ot \<and> ma ot \<le> b \<and> b < nodes ot \<and> k < length (keys ot)"
    by (simp add: sizes_def)
qed

lemma edges_frame: "frame ot ot' \<Longrightarrow> edges t ot' = edges t ot"
  by (simp add: edges_def frameD)

subsection \<open>The invariant\<close>

definition valued :: "'k template \<Rightarrow> 'k othello \<Rightarrow> edges \<Rightarrow> bool" where
  "valued t ot G \<longleftrightarrow> (\<forall>(k, a, b) \<in> G. value_cell t ot a XOR value_cell t ot b = value_bits t (vals ot ! k))"

definition indexed :: "'k othello \<Rightarrow> edges \<Rightarrow> bool" where
  "indexed ot G \<longleftrightarrow> (\<forall>(k, a, b) \<in> G. indMem ot ! a XOR indMem ot ! b = k)"

definition othello_inv :: "'k template \<Rightarrow> 'k othello \<Rightarrow> bool" where
  "othello_inv t ot \<longleftrightarrow> graphed t ot (edges t ot) \<and> (\<exists>R d. joined ot (edges t ot) R d) \<and>
     valued t ot (edges t ot) \<and> indexed ot (edges t ot)"

lemma valuedD: "valued t ot G \<Longrightarrow> (k, a, b) \<in> G \<Longrightarrow> value_cell t ot a XOR value_cell t ot b = value_bits t (vals ot ! k)"
  by (auto simp: valued_def)

lemma indexedD: "indexed ot G \<Longrightarrow> (k, a, b) \<in> G \<Longrightarrow> indMem ot ! a XOR indMem ot ! b = k"
  by (auto simp: indexed_def)

text \<open>One fix repairs the equation of edge \<open>k\<close> and keeps every other one.\<close>

lemma shifted_equation:
  assumes g: "graphed t ot G" and e: "(k, root, hb) \<in> G"
    and s: "shifted t fv fi (branch G k root) x ix ot ot'" and k': "(k', a, b) \<in> G" "k' \<noteq> k"
  shows "value_cell t ot' a XOR value_cell t ot' b = value_cell t ot a XOR value_cell t ot b"
    "indMem ot' ! a XOR indMem ot' ! b = indMem ot ! a XOR indMem ot ! b"
proof -
  have n: "a < nodes ot" "b < nodes ot" using graphedD(3)[OF g] k'(1) by (auto simp: sided_def nodes_def)
  have "(k', a, b) \<in> without k G" using k' by (simp add: without_def)
  then have "conn (without k G) a b" by (rule conn_edge)
  then have iff: "a \<in> branch G k root \<longleftrightarrow> b \<in> branch G k root"
    unfolding branch_def mem_Collect_eq using conn_trans conn_sym by metis
  note D = shiftedD[OF s]
  show "value_cell t ot' a XOR value_cell t ot' b = value_cell t ot a XOR value_cell t ot b"
    "indMem ot' ! a XOR indMem ot' ! b = indMem ot ! a XOR indMem ot ! b"
    using D(3,4)[OF n(1)] D(3,4)[OF n(2)] iff by auto
qed

lemma fixed_equation:
  assumes g: "graphed t ot G" and e: "(k, root, hb) \<in> G"
    and s: "shifted t fv fi (branch G k root) x ix ot ot'"
    and x: "x = (if fv then fix_by t ot k root hb else 0)" and ix: "ix = (if fi then fix_index_by ot k root hb else 0)"
  shows "fv \<Longrightarrow> value_cell t ot' root XOR value_cell t ot' hb = value_bits t (vals ot ! k)"
    "fi \<Longrightarrow> indMem ot' ! root XOR indMem ot' ! hb = k"
    "\<not> fv \<Longrightarrow> value_cell t ot' root XOR value_cell t ot' hb = value_cell t ot root XOR value_cell t ot hb"
    "\<not> fi \<Longrightarrow> indMem ot' ! root XOR indMem ot' ! hb = indMem ot ! root XOR indMem ot ! hb"
proof -
  have n: "root < nodes ot" "hb < nodes ot" using graphedD(3)[OF g] e by (auto simp: sided_def nodes_def)
  have "hb \<notin> branch G k root" by (rule branch_avoids[OF graphedD(4)[OF g]]) (use e in \<open>auto simp: incident_def\<close>)
  then show "fv \<Longrightarrow> value_cell t ot' root XOR value_cell t ot' hb = value_bits t (vals ot ! k)"
    "fi \<Longrightarrow> indMem ot' ! root XOR indMem ot' ! hb = k"
    "\<not> fv \<Longrightarrow> value_cell t ot' root XOR value_cell t ot' hb = value_cell t ot root XOR value_cell t ot hb"
    "\<not> fi \<Longrightarrow> indMem ot' ! root XOR indMem ot' ! hb = indMem ot ! root XOR indMem ot ! hb"
    using shiftedD(3,4)[OF s n(1)] shiftedD(3,4)[OF s n(2)] x ix
    by (auto simp: fix_by_def fix_index_by_def xor.assoc xor.commute xor.left_commute)
qed

lemma fix_valued:
  assumes "graphed t ot G" "(k, root, hb) \<in> G" "shifted t fv fi (branch G k root) x ix ot ot'"
    "x = (if fv then fix_by t ot k root hb else 0)" "ix = (if fi then fix_index_by ot k root hb else 0)"
    and v: "valued t ot (if fv then without k G else G)"
  shows "valued t ot' G"
  unfolding valued_def
proof (intro ballI, clarify)
  fix k' a b assume e: "(k', a, b) \<in> G"
  have vs: "vals ot' = vals ot" using frameD(8)[OF shiftedD(1)[OF assms(3)]] .
  show "value_cell t ot' a XOR value_cell t ot' b = value_bits t (vals ot' ! k')"
  proof (cases "k' = k")
    case True
    with forest_keyed[OF graphedD(4)[OF assms(1)] e] assms(2) have "a = root" "b = hb" by auto
    with True fixed_equation(1,3)[OF assms(1-5)] valuedD[OF v, of k root hb] assms(2) vs show ?thesis by (cases fv) auto
  next
    case False
    then have "(k', a, b) \<in> (if fv then without k G else G)" using e by (simp add: without_def)
    from valuedD[OF v this] shifted_equation(1)[OF assms(1-3) e False] vs show ?thesis by simp
  qed
qed

lemma fix_indexed:
  assumes "graphed t ot G" "(k, root, hb) \<in> G" "shifted t fv fi (branch G k root) x ix ot ot'"
    "x = (if fv then fix_by t ot k root hb else 0)" "ix = (if fi then fix_index_by ot k root hb else 0)"
    and v: "indexed ot (if fi then without k G else G)"
  shows "indexed ot' G"
  unfolding indexed_def
proof (intro ballI, clarify)
  fix k' a b assume e: "(k', a, b) \<in> G"
  show "indMem ot' ! a XOR indMem ot' ! b = k'"
  proof (cases "k' = k")
    case True
    with forest_keyed[OF graphedD(4)[OF assms(1)] e] assms(2) have "a = root" "b = hb" by auto
    with True fixed_equation(2,4)[OF assms(1-5)] indexedD[OF v, of k root hb] assms(2) show ?thesis by (cases fi) auto
  next
    case False
    then have "(k', a, b) \<in> (if fi then without k G else G)" using e by (simp add: without_def)
    from indexedD[OF v this] shifted_equation(2)[OF assms(1-3) e False] show ?thesis by simp
  qed
qed

lemma invD:
  assumes "othello_inv t ot"
  shows "graphed t ot (edges t ot)" "plain t" "sizes t ot" "forest (edges t ot)"
    "valued t ot (edges t ot)" "indexed ot (edges t ot)" "linked ot (edges t ot)"
    "keyCnt ot \<le> length (keys ot)" "length (vals ot) = length (keys ot)" "length (keys ot) < 2 ^ 32"
  using assms by (auto simp: othello_inv_def graphed_def sizes_def)

subsection \<open>Lookups\<close>

text \<open>The table as a map from keys to values.\<close>

definition contents :: "'k othello \<Rightarrow> 'k \<rightharpoonup> u32" where
  "contents ot = map_of (zip (take (keyCnt ot) (keys ot)) (take (keyCnt ot) (vals ot)))"

lemma queryIndex_total:
  assumes "sizes t ot"
  shows "queryIndex t ot k = (let (a, b) = getIndices t ot k in Inr (indMem ot ! a XOR indMem ot ! b))"
proof -
  obtain a b where ab: "getIndices t ot k = (a, b)" by force
  from getIndices_range[OF assms ab] assms ab show ?thesis by (simp add: queryIndex_def sizes_def)
qed

lemma queryIndex_stored:
  assumes "othello_inv t ot" "i < keyCnt ot"
  shows "queryIndex t ot (keys ot ! i) = Inr i"
proof -
  note I = invD[OF assms(1)]
  obtain a b where ab: "getIndices t ot (keys ot ! i) = (a, b)" by force
  then have "(i, a, b) \<in> edges t ot" using assms(2) by (simp add: edges_iff)
  from indexedD[OF I(6) this] queryIndex_total[OF I(3), of "keys ot ! i"] ab show ?thesis by simp
qed

lemma keys_distinct:
  assumes "othello_inv t ot"
  shows "distinct (take (keyCnt ot) (keys ot))"
  unfolding distinct_conv_nth
proof (intro allI impI)
  note I = invD[OF assms]
  fix i j assume "i < length (take (keyCnt ot) (keys ot))" "j < length (take (keyCnt ot) (keys ot))" "i \<noteq> j"
  with queryIndex_stored[OF assms, of i] queryIndex_stored[OF assms, of j] I(8)
  show "take (keyCnt ot) (keys ot) ! i \<noteq> take (keyCnt ot) (keys ot) ! j" by auto
qed

lemma contents_iff:
  assumes "othello_inv t ot"
  shows "contents ot k = Some v \<longleftrightarrow> (\<exists>i < keyCnt ot. keys ot ! i = k \<and> vals ot ! i = v)"
proof -
  note I = invD[OF assms]
  have d: "distinct (map fst (zip (take (keyCnt ot) (keys ot)) (take (keyCnt ot) (vals ot))))"
    using keys_distinct[OF assms] I(8,9) by simp
  have "contents ot k = Some v \<longleftrightarrow> (k, v) \<in> set (zip (take (keyCnt ot) (keys ot)) (take (keyCnt ot) (vals ot)))"
    unfolding contents_def using map_of_eq_Some_iff[OF d] by simp
  also have "\<dots> \<longleftrightarrow> (\<exists>i < keyCnt ot. keys ot ! i = k \<and> vals ot ! i = v)"
    using I(8,9) by (simp add: in_set_zip) (metis nth_take)
  finally show ?thesis .
qed

lemma contents_dom: "othello_inv t ot \<Longrightarrow> k \<in> dom (contents ot) \<longleftrightarrow> (\<exists>i < keyCnt ot. keys ot ! i = k)"
  unfolding dom_def mem_Collect_eq using contents_iff by fastforce

lemma isMember_ok:
  assumes "othello_inv t ot"
  shows "isMember t ot k = Inr (k \<in> dom (contents ot))"
proof -
  note I = invD[OF assms]
  obtain i where i: "queryIndex t ot k = Inr i"
    using queryIndex_total[OF I(3), of k] by (auto split: prod.splits)
  show ?thesis
  proof (cases "k \<in> dom (contents ot)")
    case True
    then obtain j where j: "j < keyCnt ot" "keys ot ! j = k" using contents_dom[OF assms] by auto
    with queryIndex_stored[OF assms j(1)] i have "j = i" by simp
    with j i True I(8) show ?thesis by (simp add: isMember_def)
  next
    case False
    then have "\<not> (i < keyCnt ot \<and> keys ot ! i = k)" using contents_dom[OF assms] by auto
    with i I(8) False show ?thesis by (simp add: isMember_def)
  qed
qed

lemma query_total:
  assumes "plain t" "sizes t ot"
  shows "query t ot k = (let (a, b) = getIndices t ot k in Inr (Some (ucast (value_cell t ot a XOR value_cell t ot b))))"
proof -
  obtain a b where ab: "getIndices t ot k = (a, b)" by force
  note r = getIndices_range[OF assms(2) ab]
  have "(ucast (ucast (ucast x XOR ucast y :: u32) :: u64) :: u32) = ucast (x XOR y)" for x y :: u64
    by (rule bit_word_eqI) (auto simp: bit_simps)
  with assms(1) memGet_ok(1)[OF assms r(4)] memGet_ok(1)[OF assms r(3)] ab show ?thesis
    by (simp add: query_def Let_def)
qed

lemma value_bits_back:
  assumes "plain t"
  shows "(ucast (value_bits t v) :: u32) = v AND mask (tL t)"
  by (rule bit_word_eqI) (auto simp: value_bits_def bit_simps)

lemma query_stored:
  assumes "othello_inv t ot" "contents ot k = Some v"
  shows "query t ot k = Inr (Some (v AND mask (tL t)))"
proof -
  note I = invD[OF assms(1)]
  from assms contents_iff obtain i where i: "i < keyCnt ot" "keys ot ! i = k" "vals ot ! i = v" by metis
  obtain a b where ab: "getIndices t ot k = (a, b)" by force
  with i have "(i, a, b) \<in> edges t ot" by (simp add: edges_iff)
  from valuedD[OF I(5) this] query_total[OF I(2,3), of k] ab i(3) value_bits_back[OF I(2)] show ?thesis by simp
qed

subsection \<open>Updates\<close>

text \<open>
  \<open>noted\<close>: the list of positions an \<open>_on_demand\<close> operation appends names, once each, exactly
  the cells whose values it changed. A copy of \<open>mem\<close> that is told the positions can follow.
\<close>

definition same_plane :: "'k othello \<Rightarrow> 'k othello \<Rightarrow> bool" where
  "same_plane ot ot' \<longleftrightarrow> ma ot' = ma ot \<and> mb ot' = mb ot \<and> hab ot' = hab ot \<and> hd_seed ot' = hd_seed ot"

lemma same_plane_frame: "frame ot ot' \<Longrightarrow> same_plane ot ot'"
  by (simp add: same_plane_def frameD)

lemma same_plane_refl [simp]: "same_plane ot ot"
  by (simp add: same_plane_def)

lemma same_plane_trans: "same_plane a b \<Longrightarrow> same_plane b c \<Longrightarrow> same_plane a c"
  by (simp add: same_plane_def)

definition noted :: "'k template \<Rightarrow> 'k othello \<Rightarrow> 'k othello \<Rightarrow> nat list \<Rightarrow> bool" where
  "noted t ot ot' fl \<longleftrightarrow> same_plane ot ot' \<and> distinct fl \<and> set fl = {j. j < nodes ot \<and> value_cell t ot' j \<noteq> value_cell t ot j}"

lemma noted_walk:
  assumes g: "graphed t ot G" and v: "v < nodes ot" "leads_to G k v"
    and s: "shifted t fv fi (branch G k v) x ix ot ot'" and x: "fv \<or> x = 0"
  shows "noted t ot ot' (if x \<noteq> 0 then v # map node_of (walk_trace ot k v) else [])"
proof (cases "x = 0")
  case True
  with shiftedD(3)[OF s] same_plane_frame[OF shiftedD(1)[OF s]] show ?thesis by (auto simp: noted_def)
next
  case False
  note W = walk_trace_ok[OF g v]
  have "set (v # map node_of (walk_trace ot k v)) = branch G k v" using W(3) by (auto simp: branch_def)
  moreover have "branch G k v = {j. j < nodes ot \<and> value_cell t ot' j \<noteq> value_cell t ot j}"
  proof -
    have "value_cell t ot' j \<noteq> value_cell t ot j \<longleftrightarrow> j \<in> branch G k v" if "j < nodes ot" for j
      using shiftedD(3)[OF s that] x False by simp
    with branch_nodes[OF graphedD(3)[OF g] v(1), of k] show ?thesis by blast
  qed
  moreover have "distinct (v # map node_of (walk_trace ot k v))" using W(2,3) by auto
  ultimately show ?thesis using False same_plane_frame[OF shiftedD(1)[OF s]] by (simp add: noted_def)
qed

lemma leads_edge: "(k, a, b) \<in> G \<Longrightarrow> leads_to G k a" "(k, a, b) \<in> G \<Longrightarrow> leads_to G k b"
  unfolding leads_to_def incident_def by blast+

lemma edges_in:
  assumes "sizes t ot" "(k, a, b) \<in> edges t ot"
  shows "k < length (keys ot)" "a < ma ot" "a < nodes ot" "b < nodes ot" "k < keyCnt ot"
  using getIndices_range[OF assms(1), of "keys ot ! k" a b] assms by (simp_all add: edges_iff sizes_def)

text \<open>The invariant without the disjoint set, which deletion repairs last.\<close>

definition tabled :: "'k template \<Rightarrow> 'k othello \<Rightarrow> bool" where
  "tabled t ot \<longleftrightarrow> graphed t ot (edges t ot) \<and> valued t ot (edges t ot) \<and> indexed ot (edges t ot)"

lemma inv_split: "othello_inv t ot \<longleftrightarrow> tabled t ot \<and> (\<exists>R d. joined ot (edges t ot) R d)"
  by (auto simp: othello_inv_def tabled_def)

text \<open>
  The lemma every update rests on: a fix of edge \<open>k\<close> restores the tables when only the
  equations of \<open>k\<close> were open.
\<close>

lemma fix_restores:
  assumes g: "graphed t ot (edges t ot)" and e: "(k, root, hb) \<in> edges t ot"
    and v: "valued t ot (if fv then without k (edges t ot) else edges t ot)"
    and i: "indexed ot (if fi then without k (edges t ot) else edges t ot)"
  obtains x ot' new where "fixHalfTreeDFS t fv fi kd k root hb ot = Inr (x, ot')"
    "fixHalfTreeDFS_on_demand t fv fi kd k root hb (ot, fl) = Inr (x, ot', fl @ new)"
    "tabled t ot'" "noted t ot ot' new" "frame ot ot'" "edges t ot' = edges t ot" "fv \<or> new = []"
proof -
  note g' = graphedD[OF g] and E = edges_in[OF graphedD(2)[OF g] e]
  let ?x = "if fv then fix_by t ot k root hb else 0" and ?new = "\<lambda>x. if x \<noteq> 0 then root # map node_of (walk_trace ot k root) else []"
  obtain ot' where F: "fixHalfTreeDFS t fv fi kd k root hb ot = Inr (?x, ot')"
    "fixHalfTreeDFS_on_demand t fv fi kd k root hb (ot, fl) =
       Inr (?x, ot', if ?x \<noteq> 0 then fl @ root # map node_of (walk_trace ot k root) else fl)"
    "shifted t fv fi (branch (edges t ot) k root) ?x (if fi then fix_index_by ot k root hb else 0) ot ot'"
    using fixHalfTreeDFS_ok[OF g E(1) leads_edge(1)[OF e] E(2,4) refl refl] by metis
  have fr: "frame ot ot'" using shiftedD(1)[OF F(3)] .
  have ee: "edges t ot' = edges t ot" by (rule edges_frame[OF fr])
  have "graphed t ot' (edges t ot)" using graphed_frame[OF g fr shiftedD(2)[OF F(3)]] .
  with fix_valued[OF g e F(3) refl refl v] fix_indexed[OF g e F(3) refl refl i]
  have inv: "tabled t ot'" unfolding tabled_def ee by blast
  show thesis
  proof (rule that[OF F(1) _ inv _ fr ee])
    show "fixHalfTreeDFS_on_demand t fv fi kd k root hb (ot, fl) = Inr (?x, ot', fl @ ?new ?x)"
      using F(2) by simp
    show "noted t ot ot' (?new ?x)"
      by (rule noted_walk[OF g E(3) leads_edge(1)[OF e] F(3)]) simp
  qed (cases fv, simp_all)
qed

lemma inv_frame:
  assumes "tabled t ot'" "frame ot ot'" "joined ot (edges t ot) R d"
  shows "othello_inv t ot'"
  using assms joined_frame[OF assms(2)] edges_frame[OF assms(2)] unfolding inv_split by metis

end
