(* ===== verification/Othello_Update.thy ===== *)
theory Othello_Update
  imports Othello_Invariant
begin

text \<open>
  \<open>updateValueAt\<close>, \<open>valueFlip\<close> and \<open>insert_on_demand\<close> (with their twins): each keeps the
  invariant, updates \<open>contents\<close> as a map update, and the \<open>_on_demand\<close> versions append exactly
  the positions whose cells changed.
\<close>

text \<open>Frames of \<open>vals\<close>: the graph does not depend on the values.\<close>

lemma vals_only:
  assumes "length vs = length (vals ot)"
  shows "edges t (ot\<lparr>vals := vs\<rparr>) = edges t ot" "sizes t (ot\<lparr>vals := vs\<rparr>) = sizes t ot"
    "linked (ot\<lparr>vals := vs\<rparr>) G = linked ot G" "sided (ot\<lparr>vals := vs\<rparr>) G = sided ot G"
    "joined (ot\<lparr>vals := vs\<rparr>) G R d = joined ot G R d" "indexed (ot\<lparr>vals := vs\<rparr>) G = indexed ot G"
    "value_cell t (ot\<lparr>vals := vs\<rparr>) = value_cell t ot" "nodes (ot\<lparr>vals := vs\<rparr>) = nodes ot"
    "graphed t (ot\<lparr>vals := vs\<rparr>) G = graphed t ot G"
    "getIndices t (ot\<lparr>vals := vs\<rparr>) = getIndices t ot"
  using assms by (auto simp: edges_def getIndices_def[abs_def] sizes_def linked_def sided_def joined_def indexed_def
      value_cell_def[abs_def] nodes_def graphed_def)

lemma noted_vals: "noted t (ot\<lparr>vals := vs\<rparr>) ot' fl = noted t ot ot' fl"
  by (simp add: noted_def nodes_def value_cell_def same_plane_def)

lemma updateValueAt_ok:
  assumes inv: "othello_inv t ot" and i: "i < keyCnt ot"
  obtains x ot' new where "updateValueAt_on_demand t i v (ot, fl) = Inr (x, ot', fl @ new)"
    "updateValueAt t i v ot = Inr (x, ot')" "othello_inv t ot'" "noted t ot ot' new"
    "frame (ot\<lparr>vals := (vals ot)[i := v]\<rparr>) ot'"
proof -
  note I = invD[OF inv]
  let ?o = "ot\<lparr>vals := (vals ot)[i := v]\<rparr>" and ?G = "edges t ot"
  have il: "i < length (keys ot)" using i I(8) by simp
  note V = vals_only[of "(vals ot)[i := v]" ot, OF length_list_update]
  obtain a b where ab: "getIndices t ot (keys ot ! i) = (a, b)" by force
  have e: "(i, a, b) \<in> edges t ?o" using i ab V(1) by (simp add: edges_iff)
  obtain R d where j: "joined ?o (edges t ?o) R d" using inv V(1,5) unfolding othello_inv_def by metis
  have v: "valued t ?o (if True then without i (edges t ?o) else edges t ?o)"
    using I(5) V(1) by (auto simp: valued_def without_def V(7))
  have ix: "indexed ?o (if False then without i (edges t ?o) else edges t ?o)" using I(6) V(1,6) by simp
  have g: "graphed t ?o (edges t ?o)" using I(1) V(1,9) by simp
  from fix_restores[OF g e v ix, of True fl] obtain x ot' new where F:
    "fixHalfTreeDFS t True False True i a b ?o = Inr (x, ot')"
    "fixHalfTreeDFS_on_demand t True False True i a b (?o, fl) = Inr (x, ot', fl @ new)"
    "tabled t ot'" "noted t ?o ot' new" "frame ?o ot'" by metis
  note inv' = inv_frame[OF F(3,5) j]
  show thesis
  proof
    show "updateValueAt_on_demand t i v (ot, fl) = Inr (x, ot', fl @ new)"
      using i il I(2,9) F(2) ab by (simp add: updateValueAt_on_demand_def V(10) Let_def)
    show "updateValueAt t i v ot = Inr (x, ot')"
      using i il I(2,9) F(1) ab by (simp add: updateValueAt_def V(10) Let_def)
  qed (use F inv' in \<open>simp_all add: noted_vals\<close>)
qed

lemma map_of_zip_update:
  "distinct ks \<Longrightarrow> i < length ks \<Longrightarrow> length vs = length ks \<Longrightarrow>
     map_of (zip ks (vs[i := v])) = (map_of (zip ks vs))(ks ! i \<mapsto> v)"
proof (induction ks arbitrary: i vs)
  case (Cons k ks)
  then obtain v0 vs' where vs: "vs = v0 # vs'" by (cases vs) auto
  show ?case
  proof (cases i)
    case (Suc j)
    with Cons.prems have "ks ! j \<noteq> k" by auto
    with Cons Suc vs show ?thesis by (auto simp: fun_eq_iff)
  qed (simp add: vs fun_eq_iff)
qed simp

lemma map_of_zip_snoc:
  "length ks = length vs \<Longrightarrow> k \<notin> set ks \<Longrightarrow> map_of (zip (ks @ [k]) (vs @ [v])) = (map_of (zip ks vs))(k \<mapsto> v)"
  by (induction ks vs rule: list_induct2) (auto simp: fun_eq_iff)

lemma contents_update:
  assumes "othello_inv t ot" "i < keyCnt ot" "frame (ot\<lparr>vals := (vals ot)[i := v]\<rparr>) ot'"
  shows "contents ot' = (contents ot)(keys ot ! i \<mapsto> v)"
proof -
  note I = invD[OF assms(1)]
  have "keyCnt ot' = keyCnt ot" "keys ot' = keys ot" "vals ot' = (vals ot)[i := v]"
    using frameD(6-8)[OF assms(3)] by simp_all
  with map_of_zip_update[OF keys_distinct[OF assms(1)], of i "take (keyCnt ot) (vals ot)" v] I(8,9) assms(2)
  show ?thesis by (simp add: contents_def take_update_swap)
qed

lemma valueFlip_ok:
  assumes inv: "othello_inv t ot" and k: "contents ot k \<noteq> None"
  obtains ot' new where "valueFlip_on_demand t (k, v) (ot, fl) = Inr (ot', fl @ new)"
    "valueFlip t (k, v) ot = Inr ot'" "othello_inv t ot'" "contents ot' = (contents ot)(k \<mapsto> v)"
    "noted t ot ot' new" "keyCnt ot' = keyCnt ot"
proof -
  from k contents_iff[OF inv] obtain i where i: "i < keyCnt ot" "keys ot ! i = k" by auto
  obtain x ot' new where U: "updateValueAt_on_demand t i v (ot, fl) = Inr (x, ot', fl @ new)"
    "updateValueAt t i v ot = Inr (x, ot')" "othello_inv t ot'" "noted t ot ot' new"
    "frame (ot\<lparr>vals := (vals ot)[i := v]\<rparr>) ot'" using updateValueAt_ok[OF inv i(1)] by metis
  have q: "queryIndex t ot k = Inr i" using queryIndex_stored[OF inv i(1)] i(2) by simp
  show thesis
  proof
    show "valueFlip_on_demand t (k, v) (ot, fl) = Inr (ot', fl @ new)" by (simp add: valueFlip_on_demand_def q U(1))
    show "valueFlip t (k, v) ot = Inr ot'" by (simp add: valueFlip_def q U(2))
    show "contents ot' = (contents ot)(k \<mapsto> v)" using contents_update[OF inv i(1) U(5)] i(2) by simp
    show "keyCnt ot' = keyCnt ot" using frameD(6)[OF U(5)] by simp
  qed (use U in auto)
qed

subsection \<open>Insertion\<close>

definition acyclic_with :: "'k template \<Rightarrow> 'k othello \<Rightarrow> 'k \<Rightarrow> bool" where
  "acyclic_with t ot k \<longleftrightarrow> (let (a, b) = getIndices t ot k in \<not> conn (edges t ot) a b)"

definition grow :: "'k \<times> u32 \<Rightarrow> 'k othello \<Rightarrow> 'k othello" where
  "grow = (\<lambda>(k, v) ot. ot\<lparr>keyCnt := Suc (keyCnt ot), keys := (keys ot)[keyCnt ot := k], vals := (vals ot)[keyCnt ot := v]\<rparr>)"

lemma grow_facts:
  assumes s: "sizes t ot" and n: "keyCnt ot < length (keys ot)"
  shows "sizes t (grow (k, v) ot)" "edges t (grow (k, v) ot) = insert (keyCnt ot, getIndices t ot k) (edges t ot)"
    "linked (grow (k, v) ot) G = linked ot G" "sided (grow (k, v) ot) G = sided ot G"
    "joined (grow (k, v) ot) G R d = joined ot G R d" "indexed (grow (k, v) ot) G = indexed ot G"
    "value_cell t (grow (k, v) ot) = value_cell t ot" "nodes (grow (k, v) ot) = nodes ot"
    "getIndices t (grow (k, v) ot) = getIndices t ot"
    "contents (grow (k, v) ot) = map_of (zip (take (keyCnt ot) (keys ot) @ [k]) (take (keyCnt ot) (vals ot) @ [v]))"
proof -
  show "edges t (grow (k, v) ot) = insert (keyCnt ot, getIndices t ot k) (edges t ot)"
    using n by (auto simp: edges_def grow_def getIndices_def lessThan_Suc nth_list_update image_iff)
  show "contents (grow (k, v) ot) = map_of (zip (take (keyCnt ot) (keys ot) @ [k]) (take (keyCnt ot) (vals ot) @ [v]))"
    using n s by (simp add: contents_def grow_def take_Suc_conv_app_nth sizes_def)
qed (use s n in \<open>auto simp: grow_def sizes_def nodes_def linked_def sided_def joined_def indexed_def
     value_cell_def[abs_def] getIndices_def[abs_def]\<close>)

lemma pred_w32: "n < 2 ^ 32 - 1 \<Longrightarrow> w32 (Suc n + (2 ^ 32 - 1)) = n"
  by (simp add: w32_def)

text \<open>The edge and the walk after the key has been written.\<close>

lemma link_new_edge:
  assumes inv: "othello_inv t ot" and n: "keyCnt ot < length (keys ot)"
    and ab: "getIndices t ot k = (a, b)" and ac: "acyclic_with t ot k"
    and o3: "o3 = (grow (k, v) ot)\<lparr>connectivityForest := cf\<rparr>" and j: "joined o3 (edges t ot) R d"
  obtains o4 x ot' new where "addEdge (keyCnt ot) a b o3 = Inr o4" "keyCnt o4 = Suc (keyCnt ot)"
    "fixHalfTreeDFS t True True False (keyCnt ot) a b o4 = Inr (x, ot')"
    "fixHalfTreeDFS_on_demand t True True False (keyCnt ot) a b (o4, fl) = Inr (x, ot', fl @ new)"
    "othello_inv t ot'" "contents ot' = (contents ot)(k \<mapsto> v)" "noted t ot ot' new"
    "keyCnt ot' = Suc (keyCnt ot)" "length (keys ot') = length (keys ot)"
proof -
  note I = invD[OF inv] and Gf = grow_facts[OF invD(3)[OF inv] n, of k v]
  note r = getIndices_range[OF I(3) ab]
  let ?G = "edges t ot" and ?n = "keyCnt ot" and ?H = "insert (keyCnt ot, a, b) (edges t ot)"
  have s3: "sizes t o3" "linked o3 ?G" "edges t o3 = ?H" "length (keys o3) = length (keys ot)" "nodes o3 = nodes ot" "ma o3 = ma ot"
    "\<And>j. value_cell t o3 j = value_cell t ot j" "indMem o3 = indMem ot" "vals o3 = (vals ot)[?n := v]"
    using Gf I(7) joinedD(1)[OF j] ab
    by (simp_all add: o3 sizes_def nodes_def linked_def edges_def getIndices_def value_cell_def grow_def)
  have fresh: "?n \<notin> fst ` ?G" by (auto simp: edges_def)
  obtain h na nb cf' d' where A: "addEdge ?n a b o3 = Inr (o3\<lparr>nextAtA := na, nextAtB := nb, head := h, connectivityForest := cf'\<rparr>)"
    "sizes t (o3\<lparr>nextAtA := na, nextAtB := nb, head := h, connectivityForest := cf'\<rparr>)"
    "linked (o3\<lparr>nextAtA := na, nextAtB := nb, head := h, connectivityForest := cf'\<rparr>) ?H"
    "joined (o3\<lparr>nextAtA := na, nextAtB := nb, head := h, connectivityForest := cf'\<rparr>) ?H (join_rep R a b) d'"
    using addEdge_ok[OF s3(1,2) j _ fresh, of a b] n r s3(4-6) by metis
  define o4 where "o4 = o3\<lparr>nextAtA := na, nextAtB := nb, head := h, connectivityForest := cf'\<rparr>"
  have c4: "keyCnt o4 = Suc ?n" "keys o4 = (keys ot)[?n := k]" "nodes o4 = nodes ot" "ma o4 = ma ot"
     "\<And>j. value_cell t o4 j = value_cell t ot j" "indMem o4 = indMem ot" "vals o4 = (vals ot)[?n := v]"
    using s3 by (simp_all add: o4_def o3 grow_def nodes_def value_cell_def)
  have p4: "same_plane ot o4" by (simp add: same_plane_def o4_def o3 grow_def)
  have E4: "edges t o4 = ?H" using s3(3) by (simp add: o4_def edges_def getIndices_def)
  have f4: "forest ?H" using forest_insert[OF I(4) fresh] ac ab by (simp add: acyclic_with_def)
  have g4: "graphed t o4 (edges t o4)"
    using I(2) A(2,3) f4 edges_sided[OF A(2)] E4 by (simp add: graphed_def o4_def)
  have e: "(?n, a, b) \<in> edges t o4" using E4 by simp
  have wo: "without ?n (edges t o4) = ?G" using fresh E4 by (auto simp: without_def image_iff)
  have j4: "joined o4 (edges t o4) (join_rep R a b) d'" using A(4) unfolding E4 unfolding o4_def .
  have V: "valued t o4 (if True then without ?n (edges t o4) else edges t o4)"
    unfolding if_True wo using I(5) by (auto simp: valued_def c4 edges_iff nth_list_update)
  have X: "indexed o4 (if True then without ?n (edges t o4) else edges t o4)"
    unfolding if_True wo using I(6) by (simp add: indexed_def c4)
  obtain x ot' new where F: "fixHalfTreeDFS t True True False ?n a b o4 = Inr (x, ot')"
    "fixHalfTreeDFS_on_demand t True True False ?n a b (o4, fl) = Inr (x, ot', fl @ new)"
    "tabled t ot'" "noted t o4 ot' new" "frame o4 ot'"
    using fix_restores[OF g4 e V X, of False fl] by metis
  note inv' = inv_frame[OF F(3,5) j4]
  note fr = F(5)
  have cont: "contents ot' = (contents ot)(k \<mapsto> v)"
  proof -
    have "keys ot' = (keys ot)[?n := k]" "vals ot' = (vals ot)[?n := v]" "keyCnt ot' = Suc ?n"
      using frameD(6-8)[OF fr] c4 by simp_all
    then have "contents ot' = contents (grow (k, v) ot)" by (simp add: contents_def grow_def)
    moreover have "k \<notin> dom (contents ot)"
    proof
      assume "k \<in> dom (contents ot)"
      then obtain i where "i < ?n" "keys ot ! i = k" using contents_dom[OF inv] by blast
      then have "(i, a, b) \<in> ?G" using ab by (simp add: edges_iff)
      then show False using ac ab conn_edge by (auto simp: acyclic_with_def)
    qed
    then have "k \<notin> set (take ?n (keys ot))" using contents_dom[OF inv] I(8) by (auto simp: in_set_conv_nth)
    moreover have "length (take ?n (keys ot)) = length (take ?n (vals ot))" using I(8,9) by simp
    ultimately show ?thesis using map_of_zip_snoc Gf(10) by (metis contents_def)
  qed
  show thesis
  proof (rule that[OF A(1)[folded o4_def] c4(1) F(1,2) inv' cont])
    show "noted t ot ot' new" using F(4) p4 by (auto simp: noted_def c4 intro: same_plane_trans)
  qed (use frameD(6,7)[OF fr] c4 in auto)
qed

text \<open>
  \<open>insert_on_demand\<close> returns true and extends the table exactly when the new edge closes no
  cycle; otherwise it reports that a rebuild is needed, with the key already counted.
\<close>

lemma insert_on_demand_ok:
  assumes inv: "othello_inv t ot" and n: "keyCnt ot < length (keys ot)" and k: "k \<notin> dom (contents ot)"
    and ac: "acyclic_with t ot k"
  obtains ot' new where "insert_on_demand t (k, v) (ot, fl) = Inr (True, ot', fl @ new)"
    "othello_inv t ot'" "contents ot' = (contents ot)(k \<mapsto> v)" "noted t ot ot' new"
    "keyCnt ot' = Suc (keyCnt ot)" "length (keys ot') = length (keys ot)"
proof -
  note I = invD[OF inv] and Gf = grow_facts[OF invD(3)[OF inv] n, of k v]
  obtain a b where ab: "getIndices t ot k = (a, b)" by force
  note r = getIndices_range[OF I(3) ab]
  obtain R d where "joined ot (edges t ot) R d" using inv by (auto simp: othello_inv_def)
  then have j: "joined (grow (k, v) ot) (edges t ot) R d" using Gf(5) by simp
  have ab2: "a < nodes (grow (k, v) ot)" "b < nodes (grow (k, v) ot)" using r Gf(8) by simp_all
  obtain cf where C: "isConnectedDFS t a b (grow (k, v) ot) = Inr (conn (edges t ot) a b, (grow (k, v) ot)\<lparr>connectivityForest := cf\<rparr>)"
    "joined ((grow (k, v) ot)\<lparr>connectivityForest := cf\<rparr>) (edges t ot) R d"
    using isConnected_ok[OF I(2) j ab2] by metis
  obtain o4 x ot' new where L: "addEdge (keyCnt ot) a b ((grow (k, v) ot)\<lparr>connectivityForest := cf\<rparr>) = Inr o4"
    "keyCnt o4 = Suc (keyCnt ot)"
    "fixHalfTreeDFS_on_demand t True True False (keyCnt ot) a b (o4, fl) = Inr (x, ot', fl @ new)"
    "othello_inv t ot'" "contents ot' = (contents ot)(k \<mapsto> v)" "noted t ot ot' new"
    "keyCnt ot' = Suc (keyCnt ot)" "length (keys ot') = length (keys ot)"
    using link_new_edge[OF inv n ab ac refl C(2)] by metis
  have w: "w32 (keyCnt ot + 1) = Suc (keyCnt ot)" "w32 (keyCnt o4 + (2 ^ 32 - 1)) = keyCnt ot"
    using n I(10) L(2) pred_w32[of "keyCnt ot"] by simp_all
  have g: "ot\<lparr>keyCnt := Suc (keyCnt ot), keys := (keys ot)[keyCnt ot := k], vals := (vals ot)[keyCnt ot := v]\<rparr> = grow (k, v) ot"
    by (simp add: grow_def)
  have nc: "conn (edges t ot) a b = False" using ac ab by (simp add: acyclic_with_def)
  have "insert_on_demand t (k, v) (ot, fl) = Inr (True, ot', fl @ new)"
    unfolding insert_on_demand_def using n I(9) k L(1,3) C(1) w ab Gf(9)
    by (simp add: isMember_ok[OF inv] g nc Let_def plainD(4)[OF I(2)])
  from that[OF this L(4-8)] show thesis .
qed
end
