(* ===== verification/Othello_Erase.thy ===== *)
theory Othello_Erase
  imports Othello_Update
begin

text \<open>
  Deletion: \<open>erase_links\<close> takes an edge out of the linked lists and gives the last key its
  number, one index fix repairs the moved edge, and two \<open>connectBFS\<close> walks split the class of
  the disjoint set. \<open>erase_ok\<close> is the functional correctness of \<open>erase\<close> and
  \<open>erase_on_demand\<close>.
\<close>

subsection \<open>The graph after a deletion\<close>

lemma incident_without_edge:
  assumes "keyed G" "(k, a, b) \<in> G" "a \<noteq> b"
  shows "incident (without k G) = (incident G)(a := incident G a - {(k, b)}, b := incident G b - {(k, a)})"
proof (rule ext)
  fix u
  have uniq: "(k, x, y) \<in> G \<Longrightarrow> x = a \<and> y = b" for x y using assms(1,2) unfolding keyed_def by blast
  show "incident (without k G) u = ((incident G)(a := incident G a - {(k, b)}, b := incident G b - {(k, a)})) u"
  proof (rule set_eqI)
    fix c :: "nat \<times> nat"
    obtain k' w where c: "c = (k', w)" by force
    have "(k, w) \<in> incident G u \<Longrightarrow> (u = a \<and> w = b) \<or> (u = b \<and> w = a)"
      using uniq by (auto simp: incident_def)
    moreover have "(k, b) \<in> incident G a" "(k, a) \<in> incident G b" using assms(2) by (auto simp: incident_def)
    ultimately show "c \<in> incident (without k G) u \<longleftrightarrow>
        c \<in> ((incident G)(a := incident G a - {(k, b)}, b := incident G b - {(k, a)})) u"
      using assms(3) by (cases "k' = k") (auto simp: c incident_without)
  qed
qed

lemma without_keyed: "keyed G \<Longrightarrow> keyed (without k G)"
  unfolding keyed_def without_def by blast

lemma unlink_both:
  assumes l: "linked ot G" and s: "sided ot G" and f: "forest G" and e: "(k, a, b) \<in> G"
  obtains h1 na1 h2 nb1 where "unlink a k (head ot, nextAtA ot) = Inr (h1, na1)"
    "unlink b k (h1, nextAtB ot) = Inr (h2, nb1)"
    "linked (ot\<lparr>head := h2, nextAtA := na1, nextAtB := nb1\<rparr>) (without k G)"
    "length h2 = length (head ot)" "length na1 = length (nextAtA ot)" "length nb1 = length (nextAtB ot)"
proof -
  have kd: "keyed G" using f by (simp add: forest_def)
  have ab: "a < ma ot" "ma ot \<le> b" "b < nodes ot" "a \<noteq> b" using sidedD[OF s e] by auto
  note W = incident_without_edge[OF kd e ab(4)]
  have lA: "lists_of (head ot) (nextAtA ot) {..<ma ot} (incident G)"
    and lB: "lists_of (head ot) (nextAtB ot) {ma ot..<nodes ot} (incident G)" using l by (auto simp: linked_def)
  have iA: "a \<in> {..<ma ot}" "(k, b) \<in> incident G a" using ab e by (auto simp: incident_def)
  have iB: "b \<in> {ma ot..<nodes ot}" "(k, a) \<in> incident G b" using ab e by (auto simp: incident_def)
  from unlink_ok[OF lA iA] obtain h1 na1 where A: "unlink a k (head ot, nextAtA ot) = Inr (h1, na1)"
    "lists_of h1 na1 {..<ma ot} ((incident G)(a := incident G a - {(k, b)}))" "length h1 = length (head ot)"
    "length na1 = length (nextAtA ot)" "\<And>v. v \<noteq> a \<Longrightarrow> h1 ! v = head ot ! v" by metis
  have "lists_of h1 (nextAtB ot) {ma ot..<nodes ot} (incident G)"
    by (rule lists_of_congs[OF lB]) (use A(3,5) ab in auto)
  from unlink_ok[OF this iB] obtain h2 nb1 where B: "unlink b k (h1, nextAtB ot) = Inr (h2, nb1)"
    "lists_of h2 nb1 {ma ot..<nodes ot} ((incident G)(b := incident G b - {(k, a)}))" "length h2 = length h1"
    "length nb1 = length (nextAtB ot)" "\<And>v. v \<noteq> b \<Longrightarrow> h2 ! v = h1 ! v" by metis
  have "lists_of h2 na1 {..<ma ot} (incident (without k G))"
    by (rule lists_of_congs[OF A(2)]) (use B(3,5) ab W in auto)
  moreover have "lists_of h2 nb1 {ma ot..<nodes ot} (incident (without k G))"
    by (rule lists_of_congs[OF B(2)]) (use ab W in auto)
  ultimately have "linked (ot\<lparr>head := h2, nextAtA := na1, nextAtB := nb1\<rparr>) (without k G)"
    by (simp add: linked_def nodes_def)
  from that[OF A(1) B(1) this] A(3,4) B(3,4) show thesis by simp
qed

lemma relink_both:
  assumes l: "linked ot G" and s: "sided ot G" and f: "forest G" and e: "(n, a, b) \<in> G"
    and k: "k < length (nextAtA ot)" "k < length (nextAtB ot)" "k \<noteq> NOKEY" "k \<notin> fst ` G"
  obtains h1 na1 h2 nb1 where "relink a n k \<lparr>keyId = k, nodeId = b\<rparr> (head ot, nextAtA ot) = Inr (h1, na1)"
    "relink b n k \<lparr>keyId = k, nodeId = a\<rparr> (h1, nextAtB ot) = Inr (h2, nb1)"
    "linked (ot\<lparr>head := h2, nextAtA := na1, nextAtB := nb1\<rparr>) (insert (k, a, b) (without n G))"
    "length h2 = length (head ot)" "length na1 = length (nextAtA ot)" "length nb1 = length (nextAtB ot)"
proof -
  have kd: "keyed G" using f by (simp add: forest_def)
  have ab: "a < ma ot" "ma ot \<le> b" "b < nodes ot" "a \<noteq> b" using sidedD[OF s e] by auto
  have W: "incident (insert (k, a, b) (without n G)) =
      (incident G)(a := insert (k, b) (incident G a - {(n, b)}), b := insert (k, a) (incident G b - {(n, a)}))"
    using ab(4) by (simp add: incident_insert incident_without_edge[OF kd e ab(4)] fun_upd_twist)
  have lA: "lists_of (head ot) (nextAtA ot) {..<ma ot} (incident G)"
    and lB: "lists_of (head ot) (nextAtB ot) {ma ot..<nodes ot} (incident G)" using l by (auto simp: linked_def)
  have fr: "k \<notin> fst ` incident G v" for v using k(4) by (force simp: incident_def)
  have iA: "a \<in> {..<ma ot}" "(n, b) \<in> incident G a" using ab e by (auto simp: incident_def)
  have iB: "b \<in> {ma ot..<nodes ot}" "(n, a) \<in> incident G b" using ab e by (auto simp: incident_def)
  from relink_ok[OF lA iA k(1,3) fr, of b] obtain h1 na1 where A:
    "relink a n k \<lparr>keyId = k, nodeId = b\<rparr> (head ot, nextAtA ot) = Inr (h1, na1)"
    "lists_of h1 na1 {..<ma ot} ((incident G)(a := insert (k, b) (incident G a - {(n, b)})))" "length h1 = length (head ot)"
    "length na1 = length (nextAtA ot)" "\<And>v. v \<noteq> a \<Longrightarrow> h1 ! v = head ot ! v" by metis
  have "lists_of h1 (nextAtB ot) {ma ot..<nodes ot} (incident G)"
    by (rule lists_of_congs[OF lB]) (use A(3,5) ab in auto)
  from relink_ok[OF this iB k(2,3) fr, of a] obtain h2 nb1 where B:
    "relink b n k \<lparr>keyId = k, nodeId = a\<rparr> (h1, nextAtB ot) = Inr (h2, nb1)"
    "lists_of h2 nb1 {ma ot..<nodes ot} ((incident G)(b := insert (k, a) (incident G b - {(n, a)})))" "length h2 = length h1"
    "length nb1 = length (nextAtB ot)" "\<And>v. v \<noteq> b \<Longrightarrow> h2 ! v = h1 ! v" by metis
  have "lists_of h2 na1 {..<ma ot} (incident (insert (k, a, b) (without n G)))"
    by (rule lists_of_congs[OF A(2)]) (use B(3,5) ab W in auto)
  moreover have "lists_of h2 nb1 {ma ot..<nodes ot} (incident (insert (k, a, b) (without n G)))"
    by (rule lists_of_congs[OF B(2)]) (use ab W in auto)
  ultimately have "linked (ot\<lparr>head := h2, nextAtA := na1, nextAtB := nb1\<rparr>) (insert (k, a, b) (without n G))"
    by (simp add: linked_def nodes_def)
  from that[OF A(1) B(1) this] A(3,4) B(3,4) show thesis by simp
qed

text \<open>The edges when key \<open>key\<close> goes and the last key, \<open>n\<close>, takes its number.\<close>

lemma without_insert_same: "k \<notin> fst ` G \<Longrightarrow> without k (insert (k, a, b) G) = G"
  by (force simp: without_def)

definition shrunk :: "edges \<Rightarrow> nat \<Rightarrow> nat \<Rightarrow> nat \<times> nat \<Rightarrow> edges" where
  "shrunk G key n ab = (if key = n then without n G else insert (key, ab) (without n (without key G)))"

lemma shrunk_forest:
  assumes "forest G" "(n, a, b) \<in> G"
  shows "forest (shrunk G key n (a, b))"
proof (cases "key = n")
  case False
  have f: "forest (without key G)" using forest_without[OF assms(1)] .
  have e: "(n, a, b) \<in> without key G" using assms(2) False by (simp add: without_def)
  have "\<not> conn (without n (without key G)) a b" using f e by (auto simp: forest_def)
  moreover have "key \<notin> fst ` without n (without key G)" by (auto simp: without_def)
  ultimately show ?thesis using forest_insert[OF forest_without[OF f]] False by (simp add: shrunk_def)
qed (use assms forest_without in \<open>simp add: shrunk_def\<close>)

lemma shrunk_conn:
  assumes "forest G" "(n, a, b) \<in> G"
  shows "conn (shrunk G key n (a, b)) = conn (without key G)"
proof (cases "key = n")
  case False
  have e: "(n, a, b) \<in> without key G" using assms(2) False by (simp add: without_def)
  let ?H = "without n (without key G)"
  have "links (insert (key, a, b) ?H) = links (insert (n, a, b) ?H)" by (auto simp: links_def)
  then show ?thesis using insert_without[OF forest_without[OF assms(1)] e] False
    by (simp add: shrunk_def conn_def[abs_def])
qed (simp add: shrunk_def)

lemma shrunk_edges:
  assumes n: "keyCnt ot = Suc n" and k: "key < keyCnt ot" and l: "keyCnt ot \<le> length (keys ot)"
    and o': "keyCnt ot' = n" "keys ot' = (keys ot)[key := keys ot ! n]" "ma ot' = ma ot" "mb ot' = mb ot" "hab ot' = hab ot"
  shows "edges t ot' = shrunk (edges t ot) key n (getIndices t ot (keys ot ! n))"
proof -
  have gi: "getIndices t ot' = getIndices t ot" using o' by (auto simp: getIndices_def)
  show ?thesis
  proof (cases "key = n")
    case True
    then show ?thesis using n l o' gi by (auto simp: edges_def shrunk_def without_def less_Suc_eq)
  next
    case False
    have "edges t ot' = (\<lambda>i. (i, getIndices t ot (if i = key then keys ot ! n else keys ot ! i))) ` {..<n}"
      unfolding edges_def o' gi using n l by (intro image_cong) (auto simp: nth_list_update)
    also have "{..<n} = insert key {i. i < n \<and> i \<noteq> key}" using k n False by auto
    also have "(\<lambda>i. (i, getIndices t ot (if i = key then keys ot ! n else keys ot ! i))) ` insert key {i. i < n \<and> i \<noteq> key}
       = insert (key, getIndices t ot (keys ot ! n)) ((\<lambda>i. (i, getIndices t ot (keys ot ! i))) ` {i. i < n \<and> i \<noteq> key})"
      by (auto simp: image_iff)
    also have "(\<lambda>i. (i, getIndices t ot (keys ot ! i))) ` {i. i < n \<and> i \<noteq> key} = without n (without key (edges t ot))"
      using n by (auto simp: edges_def without_def less_Suc_eq image_iff)
    finally show ?thesis using False by (simp add: shrunk_def)
  qed
qed

subsection \<open>Deleting the edge and moving the last key\<close>

definition shrink :: "nat \<Rightarrow> 'k othello \<Rightarrow> OthelloCPCell list \<Rightarrow> OthelloCPCell list \<Rightarrow> OthelloCPCell list \<Rightarrow> 'k othello" where
  "shrink key ot h na nb = (let n = keyCnt ot - 1 in
     ot\<lparr>keyCnt := n, keys := (keys ot)[key := keys ot ! n], vals := (vals ot)[key := vals ot ! n],
        head := h, nextAtA := na, nextAtB := nb\<rparr>)"

lemma shrink_facts:
  "keyCnt (shrink key ot h na nb) = keyCnt ot - 1" "keys (shrink key ot h na nb) = (keys ot)[key := keys ot ! (keyCnt ot - 1)]"
  "vals (shrink key ot h na nb) = (vals ot)[key := vals ot ! (keyCnt ot - 1)]"
  "head (shrink key ot h na nb) = h" "nextAtA (shrink key ot h na nb) = na" "nextAtB (shrink key ot h na nb) = nb"
  "mem (shrink key ot h na nb) = mem ot" "indMem (shrink key ot h na nb) = indMem ot" "ma (shrink key ot h na nb) = ma ot"
  "mb (shrink key ot h na nb) = mb ot" "hab (shrink key ot h na nb) = hab ot" "hd_seed (shrink key ot h na nb) = hd_seed ot" "nodes (shrink key ot h na nb) = nodes ot"
  "connectivityForest (shrink key ot h na nb) = connectivityForest ot" "maintainingDP (shrink key ot h na nb) = maintainingDP ot"
  "value_cell t (shrink key ot h na nb) u = value_cell t ot u"
  "getIndices t (shrink key ot h na nb) = getIndices t ot"
  by (simp_all add: shrink_def Let_def nodes_def value_cell_def getIndices_def[abs_def])

lemma shrink_linked: "linked (shrink key ot h na nb) G = linked (ot\<lparr>head := h, nextAtA := na, nextAtB := nb\<rparr>) G"
  by (simp add: linked_def shrink_facts nodes_def)

lemma dec_w32: "0 < n \<Longrightarrow> n < 2 ^ 32 \<Longrightarrow> w32 (n + (2 ^ 32 - 1)) = n - 1"
  by (simp add: w32_def mod_if)

lemma erase_links_ok:
  assumes inv: "othello_inv t ot" and k: "key < keyCnt ot" and ab: "getIndices t ot (keys ot ! key) = (a, b)"
    and n: "n = keyCnt ot - 1" and hl: "getIndices t ot (keys ot ! n) = (hal, hbl)"
  obtains h na nb where
    "erase_links t key a b ot = Inr (shrink key ot h na nb, if key = n then None else Some (hal, hbl))"
    "edges t (shrink key ot h na nb) = shrunk (edges t ot) key n (hal, hbl)"
    "graphed t (shrink key ot h na nb) (edges t (shrink key ot h na nb))"
proof -
  note I = invD[OF inv] and g = graphedD[OF invD(1)[OF inv]]
  let ?G = "edges t ot"
  have n1: "keyCnt ot = Suc n" using n k by simp
  have e: "(key, a, b) \<in> ?G" "(n, hal, hbl) \<in> ?G" using k ab hl n1 by (simp_all add: edges_iff)
  have len: "length (vals ot) = length (keys ot)" "length (nextAtA ot) = length (keys ot)" "length (nextAtB ot) = length (keys ot)"
    using I(3) by (simp_all add: sizes_def)
  obtain h1 na1 h2 nb1 where U: "unlink a key (head ot, nextAtA ot) = Inr (h1, na1)"
    "unlink b key (h1, nextAtB ot) = Inr (h2, nb1)"
    "linked (ot\<lparr>head := h2, nextAtA := na1, nextAtB := nb1\<rparr>) (without key ?G)"
    "length h2 = length (head ot)" "length na1 = length (nextAtA ot)" "length nb1 = length (nextAtB ot)"
    using unlink_both[OF I(7) g(3) I(4) e(1)] by metis
  let ?o2 = "ot\<lparr>head := h2, nextAtA := na1, nextAtB := nb1\<rparr>"
  obtain h na nb where L: "linked (shrink key ot h na nb) (shrunk ?G key n (hal, hbl))"
    "length h = length (head ot)" "length na = length (keys ot)" "length nb = length (keys ot)"
    "erase_links t key a b ot = Inr (shrink key ot h na nb, if key = n then None else Some (hal, hbl))"
  proof (cases "key = n")
    case True
    show thesis
    proof (rule that)
      show "linked (shrink key ot h2 na1 nb1) (shrunk ?G key n (hal, hbl))"
        using U(3) True by (simp add: shrink_linked shrunk_def)
      have w: "w32 (keyCnt ot + (2 ^ 32 - 1)) = n" using dec_w32[of "keyCnt ot"] n1 I(8,10) by simp
      show "erase_links t key a b ot = Inr (shrink key ot h2 na1 nb1, if key = n then None else Some (hal, hbl))"
        unfolding erase_links_def w Let_def using U(1,2) True n by (simp add: shrink_def)
    qed (use U len in simp_all)
  next
    case False
    have e2: "(n, hal, hbl) \<in> without key ?G" using e(2) False by (simp add: without_def)
    have s2: "sided ?o2 (without key ?G)" using sided_mono[OF g(3) without_subset] by (simp add: sided_def nodes_def)
    have kl: "key < length (nextAtA ?o2)" "key < length (nextAtB ?o2)" "key \<noteq> NOKEY" "key \<notin> fst ` without key ?G"
      using k I(8,10) len U(5,6) by (auto simp: NOKEY_def without_def)
    obtain h3 na2 h4 nb2 where R: "relink hal n key \<lparr>keyId = key, nodeId = hbl\<rparr> (h2, na1) = Inr (h3, na2)"
      "relink hbl n key \<lparr>keyId = key, nodeId = hal\<rparr> (h3, nb1) = Inr (h4, nb2)"
      "linked (?o2\<lparr>head := h4, nextAtA := na2, nextAtB := nb2\<rparr>) (insert (key, hal, hbl) (without n (without key ?G)))"
      "length h4 = length h2" "length na2 = length na1" "length nb2 = length nb1"
      using relink_both[OF U(3) s2 forest_without[OF I(4)] e2 kl] by simp blast
    show thesis
    proof (rule that)
      show "linked (shrink key ot h4 na2 nb2) (shrunk ?G key n (hal, hbl))"
        using R(3) False by (simp add: shrunk_def linked_def shrink_facts nodes_def)
      have w: "w32 (keyCnt ot + (2 ^ 32 - 1)) = n" using dec_w32[of "keyCnt ot"] n1 I(8,10) by simp
      have gi: "getIndices t (ot\<lparr>keyCnt := x, head := h2, nextAtA := na1, nextAtB := nb1, keys := y, vals := z\<rparr>) = getIndices t ot" for x y z
        by (auto simp: getIndices_def)
      show "erase_links t key a b ot = Inr (shrink key ot h4 na2 nb2, if key = n then None else Some (hal, hbl))"
        unfolding erase_links_def w Let_def
        using U(1,2) R(1,2) False n1 k I(8) len(1) hl by (simp add: shrink_def Let_def gi)
    qed (use U R len in simp_all)
  qed
  let ?o = "shrink key ot h na nb"
  have E: "edges t ?o = shrunk ?G key n (hal, hbl)"
    using shrunk_edges[OF n1 k I(8), of ?o t] hl n by (simp add: shrink_facts)
  have sz: "sizes t ?o" using I(3) L(2-4) n1 by (simp add: sizes_def shrink_facts)
  have "graphed t ?o (edges t ?o)"
    unfolding graphed_def E using I(2) sz edges_sided[OF sz] E shrunk_forest[OF I(4) e(2)] L(1) by simp
  with L(5) E show thesis by (rule that)
qed

subsection \<open>Repairing the disjoint set\<close>

text \<open>A walk that only writes the disjoint set.\<close>

lemma graphed_forest:
  "length cf = length (connectivityForest ot) \<Longrightarrow> graphed t (ot\<lparr>connectivityForest := cf\<rparr>) G = graphed t ot G"
  "edges t (ot\<lparr>connectivityForest := cf\<rparr>) = edges t ot" "nodes (ot\<lparr>connectivityForest := cf\<rparr>) = nodes ot"
  "value_cell t (ot\<lparr>connectivityForest := cf\<rparr>) u = value_cell t ot u"
  "node_cells (ot\<lparr>connectivityForest := cf\<rparr>) u = node_cells ot u"
  "length cf = length (connectivityForest ot) \<Longrightarrow> sizes t (ot\<lparr>connectivityForest := cf\<rparr>) = sizes t ot"
  "walk_trace (ot\<lparr>connectivityForest := cf\<rparr>) k v = walk_trace ot k v"
proof -
  let ?o = "ot\<lparr>connectivityForest := cf\<rparr>"
  show nc: "node_cells ?o u = node_cells ot u" for u by (simp add: node_cells_def del: chain.simps)
  show "walk_trace ?o k v = walk_trace ot k v"
    using nc by (simp add: walk_trace_def adj_of_def[abs_def] walk_fuel_def del: trace.simps)
qed (auto simp: graphed_def sizes_def sided_def linked_def nodes_def edges_def getIndices_def value_cell_def)

definition rooted :: "nat set \<Rightarrow> nat \<Rightarrow> int list \<Rightarrow> int list \<Rightarrow> bool" where
  "rooted S r cf cf' \<longleftrightarrow> length cf' = length cf \<and>
     (\<forall>j < length cf. cf' ! j = (if j \<in> S then int r else cf ! j))"

lemma rooted_put: "rooted S r cf cf' \<Longrightarrow> w < length cf \<Longrightarrow> rooted (insert w S) r cf (cf'[w := int r])"
  by (auto simp: rooted_def nth_list_update)

lemma forest_set_ok:
  assumes "w < length (connectivityForest ot)" "w < 2 ^ 31" "r < 2 ^ 31"
  shows "forest_set w r ot = Inr (ot\<lparr>connectivityForest := (connectivityForest ot)[w := int r]\<rparr>)"
  using assms by (simp add: forest_set_def ds_set_def)

lemma root_fold:
  assumes "node_of ` set ts \<subseteq> {..<length (connectivityForest ot)}" "length (connectivityForest ot) \<le> 2 ^ 31" "r < 2 ^ 31"
    "rooted S r (connectivityForest ot) cf"
  shows "\<exists>cf'. rfold (visit_act (\<lambda>_ w _. forest_set w r)) ts (ot\<lparr>connectivityForest := cf\<rparr>) =
      Inr (ot\<lparr>connectivityForest := cf'\<rparr>) \<and> rooted (S \<union> node_of ` set ts) r (connectivityForest ot) cf'"
  using assms
proof (induction ts arbitrary: S cf)
  case Nil
  then show ?case by (intro exI[of _ cf]) simp
next
  case (Cons v ts)
  obtain k w p where v: "v = (k, w, p)" by (cases v)
  have w: "w < length (connectivityForest ot)" using Cons.prems(1) v by auto
  have l: "length cf = length (connectivityForest ot)" using Cons.prems(4) by (simp add: rooted_def)
  have f: "forest_set w r (ot\<lparr>connectivityForest := cf\<rparr>) = Inr (ot\<lparr>connectivityForest := cf[w := int r]\<rparr>)"
  proof -
    have "w < 2 ^ 31" using w Cons.prems(2) by linarith
    then have "s32 w = int w" "s32 r = int r" using Cons.prems(3) by simp_all
    then show ?thesis using w l by (simp add: forest_set_def ds_set_def)
  qed
  have s: "node_of ` set ts \<subseteq> {..<length (connectivityForest ot)}" using Cons.prems(1) by simp
  have u: "S \<union> node_of ` set ((k, w, p) # ts) = insert w S \<union> node_of ` set ts" by auto
  from Cons.IH[OF s Cons.prems(2,3) rooted_put[OF Cons.prems(4) w]] show ?case
    unfolding v u rfold.simps visit_act_simp f rbind_simps .
qed

text \<open>
  The effect of \<open>connectBFS\<close>: the nodes of the component of \<open>root\<close> get \<open>root\<close> as their parent,
  and bit 0 of the cell of \<open>root\<close> is cleared when no edge is left there.
\<close>

definition bit0_cleared :: "'k template \<Rightarrow> edges \<Rightarrow> nat \<Rightarrow> 'k othello \<Rightarrow> 'k othello \<Rightarrow> bool" where
  "bit0_cleared t G root ot ot' \<longleftrightarrow> (\<forall>j < nodes ot. value_cell t ot' j =
     (if j = root \<and> incident G root = {} then value_cell t ot j AND push_bit 1 (- 1) else value_cell t ot j))"

lemma ucast_cell_inj:
  assumes "plain t" "sizes t ot" "sizes t ot'" "u < nodes ot" "u < nodes ot'"
  shows "(ucast (value_cell t ot u) :: u32) = ucast (value_cell t ot' u) \<longleftrightarrow> value_cell t ot u = value_cell t ot' u"
proof -
  have "(ucast (ucast (value_cell t o1 u) :: u32) :: u64) = value_cell t o1 u"
    if "sizes t o1" "u < nodes o1" for o1
  proof (rule bit_word_eqI)
    fix i
    have "bit (value_cell t o1 u) i \<Longrightarrow> i < tL t"
      using value_cell_low[OF assms(1) that] by (metis bit_and_iff bit_low_mask)
    then show "bit (ucast (ucast (value_cell t o1 u) :: u32) :: u64) i \<longleftrightarrow> bit (value_cell t o1 u) i"
      if "i < LENGTH(64)" using plainD(3)[OF assms(1)] that by (auto simp: bit_simps)
  qed
  then show ?thesis using assms(2-5) by metis
qed

lemma connectBFS_ok:
  assumes g: "graphed t ot G" and r: "root < nodes ot"
  obtains ot' cf new where "connectBFS t root ot = Inr ot'"
    "connectBFS_on_demand t root (ot, fl) = Inr (ot', fl @ new)"
    "frame (ot\<lparr>connectivityForest := cf\<rparr>) ot'" "sizes t ot'" "indMem ot' = indMem ot"
    "rooted {j. conn G root j} root (connectivityForest ot) cf"
    "bit0_cleared t G root ot ot'" "noted t ot ot' new"
proof -
  note g' = graphedD[OF g]
  note t = g'(1) and s = g'(2)
  have r31: "nodes ot < 2 ^ 31" "length (connectivityForest ot) = nodes ot" "root < length (head ot)"
    "maintainingDP ot" using s r by (simp_all add: sizes_def)
  let ?cf1 = "(connectivityForest ot)[root := int root]"
  let ?o1 = "ot\<lparr>connectivityForest := ?cf1\<rparr>"
  have f1: "forest_set root root ot = Inr ?o1" using forest_set_ok[of root ot root] r r31 by simp
  have k0: "NOKEY \<notin> fst ` G" using g'(3) s by (force simp: sided_def NOKEY_def sizes_def)
  have lead: "leads_to G NOKEY root" using k0 by (simp add: leads_to_def)
  have br: "branch G NOKEY root = {j. conn G root j}" by (rule branch_absent[OF k0])
  have rt1: "rooted {root} root (connectivityForest ot) ?cf1" using r r31(2) by (auto simp: rooted_def nth_list_update)
  note N = node_cells_ok(4)[OF s g'(5) r]
  show thesis
  proof (cases "incident G root = {}")
    case True
    have comp: "{j. conn G root j} = {root}"
    proof (intro set_eqI iffI)
      fix j assume "j \<in> {j. conn G root j}"
      then have "conn G root j" by simp
      then show "j \<in> {root}" by (induction rule: conn_induct) (use True in auto)
    qed simp
    have s1: "sizes t ?o1" "root < nodes ?o1" using s r by (simp_all add: sizes_def nodes_def)
    obtain ot' where m: "memSet t root (value_cell t ?o1 root AND push_bit 1 (- 1)) ?o1 = Inr ot'" "frame ?o1 ot'"
      "sizes t ot'" "indMem ot' = indMem ?o1"
      "\<And>j. j < nodes ?o1 \<Longrightarrow> value_cell t ot' j =
        (if j = root then (value_cell t ?o1 root AND push_bit 1 (- 1)) AND low_mask (tL t) else value_cell t ?o1 j)"
      using memSet_ok[OF t s1] by metis
    have low: "(value_cell t ?o1 root AND push_bit 1 (- 1)) AND low_mask (tL t) = value_cell t ot root AND push_bit 1 (- 1)"
      using value_cell_low[OF t s r] by (simp add: graphed_forest(4) ac_simps) (metis and.commute and.left_commute)
    have bc: "bit0_cleared t G root ot ot'" unfolding bit0_cleared_def
      using m(5) low True by (simp add: graphed_forest nodes_def)
    have hd: "keyId (head ?o1 ! root) = NOKEY" "root < length (head ?o1)" "maintainingDP ?o1" using N True r31 by simp_all
    have s2: "root < nodes ot'" using frameD(13)[OF m(2)] s1 by simp
    have mg: "memGet t ?o1 root = Inr (value_cell t ot root)" "memGet t ot' root = Inr (value_cell t ot' root)"
      using memGet_ok(1)[OF t s1] memGet_ok(1)[OF t m(3) s2] by (simp_all add: graphed_forest)
    let ?new = "if value_cell t ot root \<noteq> value_cell t ot' root then [root] else []"
    have c1: "connectBFS t root ot = Inr ot'"
      using hd mg m(1) by (simp add: connectBFS_def f1 graphed_forest)
    have c2: "connectBFS_on_demand t root (ot, fl) = Inr (ot', fl @ ?new)"
      using hd mg m(1) ucast_cell_inj[OF t s m(3) r s2] by (simp add: connectBFS_on_demand_def f1 graphed_forest)
    have nt: "noted t ot ot' ?new"
    proof -
      have "value_cell t ot' j = value_cell t ot j" if "j < nodes ot" "j \<noteq> root" for j
        using bc that unfolding bit0_cleared_def by simp
      then have "{j. j < nodes ot \<and> value_cell t ot' j \<noteq> value_cell t ot j} =
          {j. j = root \<and> value_cell t ot root \<noteq> value_cell t ot' root}" using r by (metis (no_types))
      then have "{j. j < nodes ot \<and> value_cell t ot' j \<noteq> value_cell t ot j} = set ?new" by simp
      moreover have "same_plane ot ot'" using same_plane_frame[OF m(2)] by (simp add: same_plane_def)
      ultimately show ?thesis unfolding noted_def by simp
    qed
    show thesis using that[OF c1 c2 m(2,3) _ _ bc nt] m(4) rt1 comp by simp
  next
    case False
    have hd: "keyId (head ?o1 ! root) \<noteq> NOKEY" "root < length (head ?o1)" using N False r31 by simp_all
    have g1: "graphed t ?o1 G" "root < nodes ?o1" "walk_fuel ?o1 = walk_fuel ot"
      using g r by (simp_all add: graphed_forest walk_fuel_def)
    note W = walk_trace_ok[OF g r lead]
    let ?ts = "walk_trace ot NOKEY root"
    have sub: "node_of ` set ?ts \<subseteq> {..<length (connectivityForest ot)}"
      unfolding W(3) r31(2) using branch_nodes[OF g'(3) r, of NOKEY] by blast
    obtain cf where cf: "rfold (visit_act (\<lambda>_ w _. forest_set w root)) ?ts ?o1 = Inr (ot\<lparr>connectivityForest := cf\<rparr>)"
      "rooted ({root} \<union> node_of ` set ?ts) root (connectivityForest ot) cf"
    proof -
      have "length (connectivityForest ot) \<le> 2 ^ 31" "root < 2 ^ 31" using r31 r by linarith+
      from root_fold[OF sub this rt1] show thesis using that by blast
    qed
    have "walk_tree node_cells (\<lambda>_ w _. forest_set w root) (walk_fuel ?o1) [(NOKEY, root)] ?o1 =
       rfold (visit_act (\<lambda>_ w _. forest_set w root)) (walk_trace ?o1 NOKEY root) ?o1"
      by (rule walk_is_fold[OF g1(1,2) lead, where P = "\<lambda>s. \<exists>cf. s = ot\<lparr>connectivityForest := cf\<rparr>"])
        (auto simp: graphed_forest forest_set_def rbind_eq_Inr)
    then have w: "walk_tree node_cells (\<lambda>_ w _. forest_set w root) (walk_fuel ?o1) [(NOKEY, root)] ?o1 = Inr (ot\<lparr>connectivityForest := cf\<rparr>)"
      using cf(1) by (simp add: graphed_forest)
    let ?o = "ot\<lparr>connectivityForest := cf\<rparr>"
    have lc: "length cf = length (connectivityForest ot)" using cf(2) by (simp add: rooted_def)
    have st: "{root} \<union> node_of ` set ?ts = {j. conn G root j}" using W(3) br by auto
    have c1: "connectBFS t root ot = Inr ?o" using hd w by (simp add: connectBFS_def f1)
    have c2: "connectBFS_on_demand t root (ot, fl) = Inr (?o, fl @ [])" using hd w by (simp add: connectBFS_on_demand_def f1)
    have bc: "bit0_cleared t G root ot ?o" using False by (simp add: bit0_cleared_def graphed_forest)
    have nt: "noted t ot ?o []" by (simp add: noted_def graphed_forest same_plane_def)
    have sz: "sizes t ?o" using s lc by (simp add: graphed_forest)
    show thesis using that[OF c1 c2 frame_refl sz _ _ bc nt] cf(2) st by simp
  qed
qed
end
