(* ===== verification/Othello_Delete.thy ===== *)
theory Othello_Delete
  imports Othello_Erase
begin

text \<open>
  The composition of a deletion: the tables stay right while the last key moves
  (\<open>shrink_values\<close>), the two \<open>connectBFS\<close> walks turn the old class into the two new
  components (\<open>joined_split\<close>, \<open>split_walks\<close>), and \<open>erase_ok\<close> is the correctness of \<open>erase\<close>
  and \<open>erase_on_demand\<close>.
\<close>

subsection \<open>The whole deletion\<close>

lemma noted_trans:
  assumes "noted t a b l1" "noted t b c l2" "set l1 \<inter> set l2 = {}" "nodes b = nodes a"
  shows "noted t a c (l1 @ l2)"
proof -
  have 1: "j \<in> set l1 \<longleftrightarrow> value_cell t b j \<noteq> value_cell t a j" "j \<in> set l2 \<longleftrightarrow> value_cell t c j \<noteq> value_cell t b j"
    if "j < nodes a" for j using assms that unfolding noted_def by auto
  have e: "j \<in> set l1 \<union> set l2 \<longleftrightarrow> value_cell t c j \<noteq> value_cell t a j" if j: "j < nodes a" for j
  proof (cases "j \<in> set l1")
    case True
    then have "j \<notin> set l2" using assms(3) by blast
    then show ?thesis using 1[OF j] True by simp
  next
    case False
    then show ?thesis using 1[OF j] by simp
  qed
  have s: "j < nodes a" if "j \<in> set l1 \<union> set l2" for j using assms that unfolding noted_def by auto
  have "set (l1 @ l2) = {j. j < nodes a \<and> value_cell t c j \<noteq> value_cell t a j}"
    unfolding set_append using e s by blast
  moreover have "distinct (l1 @ l2)" using assms unfolding noted_def by simp
  moreover have "same_plane a c" using assms same_plane_trans unfolding noted_def by blast
  ultimately show ?thesis unfolding noted_def by blast
qed

lemma bit0_valued:
  assumes "valued t ot G" "bit0_cleared t G root ot ot'" "sided ot G" "vals ot' = vals ot"
  shows "valued t ot' G"
  unfolding valued_def
proof (intro ballI, clarify)
  fix k a b assume e: "(k, a, b) \<in> G"
  have n: "a < nodes ot" "b < nodes ot" using sidedD[OF assms(3) e] by (auto simp: nodes_def)
  have "(k, b) \<in> incident G a" "(k, a) \<in> incident G b" using e by (auto simp: incident_def)
  then have "incident G a \<noteq> {}" "incident G b \<noteq> {}" by blast+
  with n have "value_cell t ot' a = value_cell t ot a" "value_cell t ot' b = value_cell t ot b"
    using assms(2) unfolding bit0_cleared_def by metis+
  then show "value_cell t ot' a XOR value_cell t ot' b = value_bits t (vals ot' ! k)"
    using valuedD[OF assms(1) e] assms(4) by simp
qed

lemma shrink_values:
  assumes inv: "othello_inv t ot" and k: "key < keyCnt ot" and n: "n = keyCnt ot - 1"
    and hl: "getIndices t ot (keys ot ! n) = (hal, hbl)"
    and E: "edges t (shrink key ot h na nb) = shrunk (edges t ot) key n (hal, hbl)"
  shows "valued t (shrink key ot h na nb) (edges t (shrink key ot h na nb))"
    "indexed (shrink key ot h na nb) (without key (edges t (shrink key ot h na nb)))"
proof -
  note I = invD[OF inv]
  have n1: "keyCnt ot = Suc n" using n k by simp
  have e: "(n, hal, hbl) \<in> edges t ot" using hl n1 by (simp add: edges_iff)
  have kl: "key < length (vals ot)" using k I(8,9) by simp
  have cases: "(k', a, b) \<in> edges t ot \<and> k' \<noteq> n \<and> k' \<noteq> key \<or> (k' = key \<and> key \<noteq> n \<and> a = hal \<and> b = hbl)"
    if "(k', a, b) \<in> shrunk (edges t ot) key n (hal, hbl)" for k' a b
    using that by (auto simp: shrunk_def without_def split: if_splits)
  show "valued t (shrink key ot h na nb) (edges t (shrink key ot h na nb))"
    unfolding valued_def E
  proof (intro ballI, clarify)
    fix k' a b assume "(k', a, b) \<in> shrunk (edges t ot) key n (hal, hbl)"
    from cases[OF this] valuedD[OF I(5) e] valuedD[OF I(5), of k' a b] kl n
    show "value_cell t (shrink key ot h na nb) a XOR value_cell t (shrink key ot h na nb) b =
        value_bits t (vals (shrink key ot h na nb) ! k')"
      by (auto simp: shrink_facts nth_list_update)
  qed
  show "indexed (shrink key ot h na nb) (without key (edges t (shrink key ot h na nb)))"
    unfolding indexed_def E
  proof (intro ballI, clarify)
    fix k' a b assume "(k', a, b) \<in> without key (shrunk (edges t ot) key n (hal, hbl))"
    then have "(k', a, b) \<in> shrunk (edges t ot) key n (hal, hbl)" "k' \<noteq> key" by (simp_all add: without_def)
    from cases[OF this(1)] this(2) indexedD[OF I(6), of k' a b]
    show "indMem (shrink key ot h na nb) ! a XOR indMem (shrink key ot h na nb) ! b = k'"
      by (auto simp: shrink_facts)
  qed
qed

text \<open>After both walks the classes of the disjoint set are the new components.\<close>

lemma joined_split:
  assumes f: "forest G" and e: "(k, a, b) \<in> G" and s: "sided ot G" and j: "joined ot G R d"
    and H: "conn H = conn (without k G)"
    and r1: "rooted {j. conn H a j} a (connectivityForest ot) cf1"
    and r2: "rooted {j. conn H b j} b cf1 cf2"
    and o': "connectivityForest ot' = cf2" "nodes ot' = nodes ot"
  shows "\<exists>R d. joined ot' H R d"
proof -
  note J = joinedD[OF j]
  have n: "a < nodes ot" "b < nodes ot" using sidedD[OF s e] by (auto simp: nodes_def)
  let ?A = "{j. j < nodes ot \<and> conn H a j}" and ?B = "{j. j < nodes ot \<and> conn H b j}"
  have br: "branch G k a = {j. conn H a j}" "branch G k b = {j. conn H b j}" by (auto simp: branch_def H)
  have comp: "{z. conn G a z} = {j. conn H a j} \<union> {j. conn H b j}" "{j. conn H a j} \<inter> {j. conn H b j} = {}"
    using split_component[OF f e] br by auto
  have cls: "?A \<union> ?B = class_of (connectivityForest ot) R a"
  proof -
    have "class_of (connectivityForest ot) R a = {j. j < nodes ot \<and> conn G a j}"
      unfolding class_of_def J(1) using J(4)[OF n(1)] by (metis (no_types, lifting))
    also have "\<dots> = ?A \<union> ?B" using comp(1) by blast
    finally show ?thesis by simp
  qed
  have m': "length cf2 = length (connectivityForest ot)"
    "\<And>j. j < length (connectivityForest ot) \<Longrightarrow> cf2 ! j = (if j \<in> ?A then int a else if j \<in> ?B then int b else connectivityForest ot ! j)"
    using r1 r2 comp(2) J(1) unfolding rooted_def by auto
  let ?R = "\<lambda>j. if j \<in> ?A then a else if j \<in> ?B then b else R j"
  have l: "a < length (connectivityForest ot)" "b < length (connectivityForest ot)" using n J(1) by simp_all
  have m: "?A \<inter> ?B = {}" "a \<in> ?A" "b \<in> ?B" using comp(2) n by auto
  from ds_ok_split[OF J(3) l cls m m'] obtain d' where D: "ds_ok cf2 ?R d'" by blast
  have "?R u = ?R v \<longleftrightarrow> conn H u v" if uv: "u < nodes ot" "v < nodes ot" for u v
  proof -
    have R: "R (R x) = R x" "R x < nodes ot" if "x < nodes ot" for x using ds_okD(1,2)[OF J(3), of x] that J(1) by simp_all
    have out: "R x \<noteq> a \<and> R x \<noteq> b \<and> (conn G x y \<longleftrightarrow> conn H x y)" if x: "x < nodes ot" "x \<notin> ?A \<union> ?B" for x y
    proof -
      have ni: "R x \<noteq> R a" using x cls J(1) by (auto simp: class_of_def)
      have nh: "\<not> conn H x a" "\<not> conn H x b" using x conn_sym by blast+
      have "R b = R a" using J(4)[OF n] conn_edge[OF e] by simp
      then have "R x \<noteq> a \<and> R x \<noteq> b" using ni R[OF x(1)] by metis
      moreover have "conn G x y \<longleftrightarrow> conn H x y"
        using conn_insert[of k a b "without k G" x y] insert_without[OF f e] nh H by simp
      ultimately show ?thesis by blast
    qed
    consider "u \<in> ?A" | "u \<in> ?B" "u \<notin> ?A" | "u \<notin> ?A" "u \<notin> ?B" by blast
    then show ?thesis
    proof cases
      case 1
      then have "conn H u v \<longleftrightarrow> v \<in> ?A" using uv conn_trans conn_sym by blast
      moreover have "?R v = a \<longleftrightarrow> v \<in> ?A" using out[OF uv(2)] m by auto
      ultimately show ?thesis using 1 by auto
    next
      case 2
      then have "conn H u v \<longleftrightarrow> v \<in> ?B" using uv conn_trans conn_sym by blast
      moreover have "?R v = b \<longleftrightarrow> v \<in> ?B" using out[OF uv(2)] m by auto
      ultimately show ?thesis using 2 by auto
    next
      case 3
      have c: "conn G u v \<longleftrightarrow> conn H u v" "R u \<noteq> a" "R u \<noteq> b" using out[OF uv(1), of v] 3 by auto
      have "v \<in> ?A \<or> v \<in> ?B \<Longrightarrow> \<not> conn H u v" using 3 uv conn_trans conn_sym by blast
      then show ?thesis using c J(4)[OF uv] 3 by auto
    qed
  qed
  then have "joined ot' H ?R d'" using D o' m'(1) J(1,2) unfolding joined_def by simp
  then show ?thesis by blast
qed

text \<open>The two walks after a deletion.\<close>

lemma split_walks:
  assumes tb: "tabled t ot" and f: "forest G" and e: "(k, a, b) \<in> G" and s: "sided ot G" and j: "joined ot G R d"
    and H: "conn (edges t ot) = conn (without k G)"
  obtains ot' new where "rbind (connectBFS t a ot) (connectBFS t b) = Inr ot'"
    "rbind (connectBFS_on_demand t a (ot, fl)) (connectBFS_on_demand t b) = Inr (ot', fl @ new)"
    "othello_inv t ot'" "noted t ot ot' new" "keyCnt ot' = keyCnt ot" "keys ot' = keys ot" "vals ot' = vals ot"
proof -
  let ?H = "edges t ot"
  have g: "graphed t ot ?H" using tb by (simp add: tabled_def)
  have n: "a < nodes ot" "b < nodes ot" "a \<noteq> b" using sidedD[OF s e] by (auto simp: nodes_def)
  obtain o1 cf1 l1 where C1: "connectBFS t a ot = Inr o1" "connectBFS_on_demand t a (ot, fl) = Inr (o1, fl @ l1)"
    "frame (ot\<lparr>connectivityForest := cf1\<rparr>) o1" "sizes t o1" "indMem o1 = indMem ot"
    "rooted {j. conn ?H a j} a (connectivityForest ot) cf1" "bit0_cleared t ?H a ot o1" "noted t ot o1 l1"
    using connectBFS_ok[OF g n(1)] by metis
  note F1 = frameD[OF C1(3)]
  have q1: "edges t o1 = ?H" "nodes o1 = nodes ot" "vals o1 = vals ot" "connectivityForest o1 = cf1"
    "keys o1 = keys ot" "keyCnt o1 = keyCnt ot"
    using edges_frame[OF C1(3)] F1 by (simp_all add: graphed_forest)
  have lc1: "length cf1 = length (connectivityForest ot)" using C1(6) by (simp add: rooted_def)
  have g1: "graphed t o1 ?H"
    by (rule graphed_frame[OF _ C1(3,4)]) (use g lc1 in \<open>simp add: graphed_forest\<close>)
  have nb: "b < nodes o1" using n q1(2) by simp
  obtain ot' cf2 l2 where C2: "connectBFS t b o1 = Inr ot'" "connectBFS_on_demand t b (o1, fl @ l1) = Inr (ot', (fl @ l1) @ l2)"
    "frame (o1\<lparr>connectivityForest := cf2\<rparr>) ot'" "sizes t ot'" "indMem ot' = indMem o1"
    "rooted {j. conn ?H b j} b (connectivityForest o1) cf2" "bit0_cleared t ?H b o1 ot'" "noted t o1 ot' l2"
    using connectBFS_ok[OF g1 nb] by metis
  note F2 = frameD[OF C2(3)]
  have q2: "edges t ot' = ?H" "nodes ot' = nodes ot" "vals ot' = vals ot" "connectivityForest ot' = cf2"
    "keys ot' = keys ot" "keyCnt ot' = keyCnt ot"
    using edges_frame[OF C2(3)] F2 q1 by (simp_all add: graphed_forest)
  have lc2: "length cf2 = length (connectivityForest o1)" using C2(6) by (simp add: rooted_def)
  have g2: "graphed t ot' ?H"
    by (rule graphed_frame[OF _ C2(3,4)]) (use g1 lc2 in \<open>simp add: graphed_forest\<close>)
  have v1: "valued t o1 ?H" using bit0_valued[OF _ C1(7) graphedD(3)[OF g] q1(3)] tb by (simp add: tabled_def)
  have v2: "valued t ot' ?H" using bit0_valued[OF v1 C2(7) graphedD(3)[OF g1]] q1(3) q2(3) by simp
  have i2: "indexed ot' ?H" using tb C1(5) C2(5) by (simp add: tabled_def indexed_def)
  have jj: "\<exists>R d. joined ot' ?H R d"
    by (rule joined_split[OF f e s j H C1(6) _ q2(4,2)]) (use C2(6) q1(4) in simp)
  have inv': "othello_inv t ot'" unfolding othello_inv_def q2(1) using g2 v2 i2 jj by blast
  have s1: "set l1 \<subseteq> {a}" using C1(7,8) unfolding noted_def bit0_cleared_def by (auto split: if_splits)
  have s2: "set l2 \<subseteq> {b}" using C2(7,8) unfolding noted_def bit0_cleared_def by (auto split: if_splits)
  have nt: "noted t ot ot' (l1 @ l2)" using noted_trans[OF C1(8) C2(8) _ q1(2)] s1 s2 n(3) by auto
  have r1: "rbind (connectBFS t a ot) (connectBFS t b) = Inr ot'" using C1(1) C2(1) by simp
  have r2: "rbind (connectBFS_on_demand t a (ot, fl)) (connectBFS_on_demand t b) = Inr (ot', fl @ (l1 @ l2))"
    using C1(2) C2(2) by simp
  show thesis using that[OF r1 r2 inv' nt q2(6,5,3)] .
qed

lemma contents_erased:
  assumes inv: "othello_inv t ot" and inv': "othello_inv t ot'" and k: "key < keyCnt ot"
    and o': "keyCnt ot' = keyCnt ot - 1" "keys ot' = (keys ot)[key := keys ot ! (keyCnt ot - 1)]"
      "vals ot' = (vals ot)[key := vals ot ! (keyCnt ot - 1)]"
  shows "contents ot' = (contents ot)(keys ot ! key := None)"
proof (rule ext)
  fix x
  note I = invD[OF inv]
  obtain n where n: "keyCnt ot = Suc n" using k by (cases "keyCnt ot") auto
  have o'': "keyCnt ot' = n" "keys ot' = (keys ot)[key := keys ot ! n]" "vals ot' = (vals ot)[key := vals ot ! n]"
    using o' n by simp_all
  have d: "i = j" if "keys ot ! i = keys ot ! j" "i < keyCnt ot" "j < keyCnt ot" for i j
  proof -
    have "Inr i = (Inr j :: nat res)"
      using queryIndex_stored[OF inv that(2)] queryIndex_stored[OF inv that(3)] unfolding that(1) by (rule trans[OF sym])
    then show ?thesis by simp
  qed
  have l: "key < length (keys ot)" "key < length (vals ot)" using k I(8,9) by simp_all
  have eq: "contents ot' x = Some v \<longleftrightarrow> x \<noteq> keys ot ! key \<and> contents ot x = Some v" for v
  proof
    assume "contents ot' x = Some v"
    then obtain i where i: "i < n" "keys ot' ! i = x" "vals ot' ! i = v" using contents_iff[OF inv'] o''(1) by auto
    let ?i = "if i = key then n else i"
    have upd: "(keys ot)[key := keys ot ! n] ! i = keys ot ! ?i" "(vals ot)[key := vals ot ! n] ! i = vals ot ! ?i"
      by (cases "i = key"; simp add: l)+
    have "?i < keyCnt ot" "?i \<noteq> key" using i(1) n by auto
    moreover have "keys ot ! ?i = x" "vals ot ! ?i = v" using i(2,3) unfolding o''(2,3) upd .
    ultimately have "\<exists>i' < keyCnt ot. keys ot ! i' = x \<and> vals ot ! i' = v \<and> i' \<noteq> key" by blast
    with d k show "x \<noteq> keys ot ! key \<and> contents ot x = Some v" using contents_iff[OF inv] by metis
  next
    assume h: "x \<noteq> keys ot ! key \<and> contents ot x = Some v"
    then obtain i where i: "i < keyCnt ot" "keys ot ! i = x" "vals ot ! i = v" using contents_iff[OF inv] by blast
    let ?i = "if i = n then key else i"
    have ik: "i \<noteq> key" using h i(2) by auto
    have "(keys ot)[key := keys ot ! n] ! ?i = keys ot ! i" "(vals ot)[key := vals ot ! n] ! ?i = vals ot ! i"
      by (cases "i = n"; simp add: l ik ik[symmetric])+
    then have "keys ot' ! ?i = x" "vals ot' ! ?i = v" using i(2,3) unfolding o''(2,3) by simp_all
    moreover have "?i < keyCnt ot'" using i(1) n k ik o''(1) by auto
    ultimately have "\<exists>i' < keyCnt ot'. keys ot' ! i' = x \<and> vals ot' ! i' = v" by blast
    then show "contents ot' x = Some v" using contents_iff[OF inv'] by blast
  qed
  have "contents ot' x = Some v \<longleftrightarrow> ((contents ot)(keys ot ! key := None)) x = Some v" for v
    unfolding eq by simp
  then show "contents ot' x = ((contents ot)(keys ot ! key := None)) x"
    by (metis not_None_eq)
qed

lemma erase_at_ok:
  assumes inv: "othello_inv t ot" and k: "key < keyCnt ot" and ab: "getIndices t ot (keys ot ! key) = (a, b)"
  obtains o1 m o3 ot' new where "erase_links t key a b ot = Inr (o1, m)"
    "(case m of None \<Rightarrow> Inr o1 | Some (hal, hbl) \<Rightarrow> rbind (fixHalfTreeDFS t False True True key hal hbl o1) (\<lambda>(_, o2). Inr o2)) = Inr o3"
    "(case m of None \<Rightarrow> Inr (o1, fl) | Some (hal, hbl) \<Rightarrow>
        rbind (fixHalfTreeDFS_on_demand t False True True key hal hbl (o1, fl)) (\<lambda>(_, o2, fl). Inr (o2, fl))) = Inr (o3, fl)"
    "rbind (connectBFS t a o3) (connectBFS t b) = Inr ot'"
    "rbind (connectBFS_on_demand t a (o3, fl)) (connectBFS_on_demand t b) = Inr (ot', fl @ new)"
    "othello_inv t ot'" "contents ot' = (contents ot)(keys ot ! key := None)" "noted t ot ot' new"
    "keyCnt ot' = keyCnt ot - 1" "length (keys ot') = length (keys ot)"
proof -
  note I = invD[OF inv]
  define n where "n = keyCnt ot - 1"
  obtain hal hbl where hl: "getIndices t ot (keys ot ! n) = (hal, hbl)" by force
  obtain h na nb where L: "erase_links t key a b ot = Inr (shrink key ot h na nb, if key = n then None else Some (hal, hbl))"
    "edges t (shrink key ot h na nb) = shrunk (edges t ot) key n (hal, hbl)"
    "graphed t (shrink key ot h na nb) (edges t (shrink key ot h na nb))"
    using erase_links_ok[OF inv k ab n_def hl] by metis
  let ?o = "shrink key ot h na nb"
  note V = shrink_values[OF inv k n_def hl L(2)]
  have e: "(key, a, b) \<in> edges t ot" "(n, hal, hbl) \<in> edges t ot" using k ab hl n_def by (simp_all add: edges_iff)
  obtain R d where j: "joined ot (edges t ot) R d" using inv by (auto simp: othello_inv_def)
  obtain o3 where F: "(case (if key = n then None else Some (hal, hbl)) of None \<Rightarrow> Inr ?o | Some (hal, hbl) \<Rightarrow>
        rbind (fixHalfTreeDFS t False True True key hal hbl ?o) (\<lambda>(_, o2). Inr o2)) = Inr o3"
    "(case (if key = n then None else Some (hal, hbl)) of None \<Rightarrow> Inr (?o, fl) | Some (hal, hbl) \<Rightarrow>
        rbind (fixHalfTreeDFS_on_demand t False True True key hal hbl (?o, fl)) (\<lambda>(_, o2, fl). Inr (o2, fl))) = Inr (o3, fl)"
    "tabled t o3" "frame ?o o3" "noted t ?o o3 []"
  proof (cases "key = n")
    case True
    have "key \<notin> fst ` edges t ?o" using L(2) True by (auto simp: shrunk_def without_def)
    then have "indexed ?o (edges t ?o)" using V(2) without_absent by metis
    then have "tabled t ?o" using V(1) L(3) by (simp add: tabled_def)
    moreover have "noted t ?o ?o []" by (simp add: noted_def)
    ultimately show thesis using True by (intro that[of ?o]) simp_all
  next
    case False
    have e': "(key, hal, hbl) \<in> edges t ?o" using L(2) False by (simp add: shrunk_def)
    obtain x o3 new where X: "fixHalfTreeDFS t False True True key hal hbl ?o = Inr (x, o3)"
      "fixHalfTreeDFS_on_demand t False True True key hal hbl (?o, fl) = Inr (x, o3, fl @ new)"
      "tabled t o3" "noted t ?o o3 new" "frame ?o o3" "new = []"
      using fix_restores[OF L(3) e', of False True True fl] V by (simp only: if_True if_False simp_thms) metis
    then show thesis using False by (intro that[of o3]) simp_all
  qed
  have E3: "edges t o3 = shrunk (edges t ot) key n (hal, hbl)" using edges_frame[OF F(4)] L(2) by simp
  have H: "conn (edges t o3) = conn (without key (edges t ot))" using shrunk_conn[OF I(4) e(2)] E3 by simp
  have f3: "ma o3 = ma ot" "nodes o3 = nodes ot" "connectivityForest o3 = connectivityForest ot"
    "keys o3 = (keys ot)[key := keys ot ! n]" "vals o3 = (vals ot)[key := vals ot ! n]" "keyCnt o3 = n"
    using frameD[OF F(4)] by (simp_all add: shrink_facts n_def)
  have s3: "sided o3 (edges t ot)" using edges_sided[OF I(3)] f3 by (simp add: sided_def)
  have j3: "joined o3 (edges t ot) R d" using j f3 by (simp add: joined_def)
  obtain ot' new where S: "rbind (connectBFS t a o3) (connectBFS t b) = Inr ot'"
    "rbind (connectBFS_on_demand t a (o3, fl)) (connectBFS_on_demand t b) = Inr (ot', fl @ new)"
    "othello_inv t ot'" "noted t o3 ot' new" "keyCnt ot' = keyCnt o3" "keys ot' = keys o3" "vals ot' = vals o3"
    using split_walks[OF F(3) I(4) e(1) s3 j3 H] by metis
  have nt: "noted t ot ot' new"
  proof -
    have "noted t ?o ot' ([] @ new)" by (rule noted_trans[OF F(5) S(4)]) (use frameD(13)[OF F(4)] in simp_all)
    then show ?thesis by (simp add: noted_def shrink_facts same_plane_def)
  qed
  have c: "contents ot' = (contents ot)(keys ot ! key := None)"
    by (rule contents_erased[OF inv S(3) k]) (use S(5-7) f3 n_def in simp_all)
  show thesis by (rule that[OF L(1) F(1,2) S(1,2,3) c nt]) (use S(5,6) f3 n_def in simp_all)
qed

text \<open>
  \<open>erase\<close> and \<open>erase_on_demand\<close> return for every key, take exactly that key out of the table,
  and the second appends exactly the positions whose cells changed.
\<close>

lemma erase_target_ok:
  assumes inv: "othello_inv t ot"
  shows "contents ot k = None \<Longrightarrow> erase_target t k NOKEY ot = Inr None"
    "i < keyCnt ot \<Longrightarrow> erase_target t (keys ot ! i) NOKEY ot = Inr (Some i)"
proof -
  note I = invD[OF inv]
  show "erase_target t (keys ot ! i) NOKEY ot = Inr (Some i)" if "i < keyCnt ot"
    using queryIndex_stored[OF inv that] that I(8) by (simp add: erase_target_def)
  assume c: "contents ot k = None"
  obtain i where i: "queryIndex t ot k = Inr i"
    using queryIndex_total[OF I(3), of k] by (auto split: prod.splits)
  have "\<not> (i < keyCnt ot \<and> keys ot ! i = k)" using c contents_dom[OF inv, of k] by blast
  with i I(8) show "erase_target t k NOKEY ot = Inr None" by (auto simp: erase_target_def)
qed

lemma erase_ok:
  assumes inv: "othello_inv t ot"
  obtains ot' new where "erase t k NOKEY ot = Inr ot'" "erase_on_demand t k NOKEY (ot, fl) = Inr (ot', fl @ new)"
    "othello_inv t ot'" "contents ot' = (contents ot)(k := None)" "noted t ot ot' new"
    "contents ot k \<noteq> None \<Longrightarrow> keyCnt ot' = keyCnt ot - 1" "length (keys ot') = length (keys ot)"
proof (cases "contents ot k")
  case None
  note T = erase_target_ok(1)[OF inv None]
  have "noted t ot ot []" by (simp add: noted_def)
  moreover have "(contents ot)(k := None) = contents ot" using None by auto
  ultimately show thesis using inv T None by (intro that[of ot "[]"]) (simp_all add: erase_def erase_on_demand_def)
next
  case (Some v)
  then obtain key where key: "key < keyCnt ot" "keys ot ! key = k" using contents_iff[OF inv] by blast
  obtain a b where ab: "getIndices t ot (keys ot ! key) = (a, b)" by force
  note T = erase_target_ok(2)[OF inv key(1)]
  note ds = plainD(5)[OF invD(2)[OF inv]]
  obtain o1 m o3 ot' new where E: "erase_links t key a b ot = Inr (o1, m)"
    "(case m of None \<Rightarrow> Inr o1 | Some (hal, hbl) \<Rightarrow> rbind (fixHalfTreeDFS t False True True key hal hbl o1) (\<lambda>(_, o2). Inr o2)) = Inr o3"
    "(case m of None \<Rightarrow> Inr (o1, fl) | Some (hal, hbl) \<Rightarrow>
        rbind (fixHalfTreeDFS_on_demand t False True True key hal hbl (o1, fl)) (\<lambda>(_, o2, fl). Inr (o2, fl))) = Inr (o3, fl)"
    "rbind (connectBFS t a o3) (connectBFS t b) = Inr ot'"
    "rbind (connectBFS_on_demand t a (o3, fl)) (connectBFS_on_demand t b) = Inr (ot', fl @ new)"
    "othello_inv t ot'" "contents ot' = (contents ot)(keys ot ! key := None)" "noted t ot ot' new"
    "keyCnt ot' = keyCnt ot - 1" "length (keys ot') = length (keys ot)"
    by (rule erase_at_ok[OF inv key(1) ab]) (rule that)
  have e1: "erase t k NOKEY ot = Inr ot'"
    using T ab E(1,2,4) ds by (simp add: erase_def key(2))
  have e2: "erase_on_demand t k NOKEY (ot, fl) = Inr (ot', fl @ new)"
    using T ab E(1,3,5) ds by (simp add: erase_on_demand_def key(2))
  show thesis using that[OF e1 e2 E(6) _ E(8) E(9,10)] E(7) key(2) by simp
qed
end
