(* ===== verification/Othello_Build.thy ===== *)
theory Othello_Build
  imports Othello_Delete
begin

text \<open>
  Building: \<open>resetBuildState\<close> clears the tables, \<open>testHash\<close> adds the edges until one closes a
  cycle and \<open>fillValue\<close> fills every component from its root. \<open>tryBuild_ok\<close>: a try succeeds
  exactly when the keys form a forest under the current seed, and then the invariant holds;
  \<open>build_ok\<close>: the 50 tries either end with the invariant or throw.
\<close>

subsection \<open>Clearing\<close>

text \<open>The value cells as an array of the state, for states that differ from \<open>ot0\<close> in \<open>mem\<close> only.\<close>

definition mem_of :: "'k template \<Rightarrow> 'k othello \<Rightarrow> 'k othello \<Rightarrow> bool" where
  "mem_of t ot0 ot \<longleftrightarrow> plain t \<and> sizes t ot \<and> frame ot0 ot \<and> indMem ot = indMem ot0"

interpretation value_cells: cell_array
  "\<lambda>i ot. memGet t ot i" "memSet t" "value_cell t" "mem_of t ot0" "nodes ot0" "low_mask (tL t)" for t ot0
proof
  fix m i x
  assume m: "mem_of t ot0 m" and i: "i < nodes ot0"
  then have p: "plain t" "sizes t m" "i < nodes m" by (auto simp: mem_of_def frameD)
  show "memGet t m i = Inr (value_cell t m i)" using memGet_ok[OF p] by simp
  obtain m' where "memSet t i x m = Inr m'" "frame m m'" "sizes t m'" "indMem m' = indMem m"
    "\<And>j. j < nodes m \<Longrightarrow> value_cell t m' j = (if j = i then x AND low_mask (tL t) else value_cell t m j)"
    using memSet_ok[OF p] by metis
  moreover have "nodes m = nodes ot0" using m by (simp add: mem_of_def frameD)
  ultimately show "\<exists>m'. memSet t i x m = Inr m' \<and> mem_of t ot0 m' \<and>
      (\<forall>j<nodes ot0. value_cell t m' j = (if j = i then x AND low_mask (tL t) else value_cell t m j))"
    using m frame_trans unfolding mem_of_def by metis
qed

definition none_cell :: OthelloCPCell where
  "none_cell = \<lparr>keyId = NOKEY, nodeId = NOKEY\<rparr>"

lemma w32_nodes: "sizes t ot \<Longrightarrow> w32 (ma ot + mb ot) = nodes ot"
  by (simp add: sizes_def nodes_def)

lemma linked_empty:
  assumes "sizes t ot" "\<And>u. u < nodes ot \<Longrightarrow> head ot ! u = none_cell"
  shows "linked ot {}"
proof -
  have "lists_of (head ot) nxt D (incident {})" if "D \<subseteq> {..<nodes ot}" for nxt D
    unfolding lists_of_def
  proof (intro ballI conjI impI)
    fix u assume "u \<in> D"
    then have u: "u < nodes ot" using that by auto
    then show "u < length (head ot)" using assms(1) by (simp add: sizes_def)
    show "\<exists>cs. is_chain nxt (head ot ! u) cs \<and> distinct (map keyId cs) \<and> cell_pair ` set cs = incident {} u"
      by (rule exI[of _ "[]"]) (simp add: assms(2)[OF u] none_cell_def incident_def)
  qed (simp add: incident_def)
  moreover have "{..<ma ot} \<subseteq> {..<nodes ot}" "{ma ot..<nodes ot} \<subseteq> {..<nodes ot}" by (auto simp: nodes_def)
  ultimately show ?thesis unfolding linked_def by blast
qed

lemma reset_length: "resetBuildState t ot = Inr ot' \<Longrightarrow> \<not> tRandomized t \<Longrightarrow> length (mem ot') = length (mem ot)"
  unfolding resetBuildState_def
  by (auto simp: rbind_eq_Inr memSet_length Let_def split: if_splits dest!: rfold_keeps[where g = "\<lambda>o'. length (mem o')"])

lemma resetBuildState_ok:
  assumes t: "plain t" and s: "sizes t ot"
  obtains o1 where "resetBuildState t ot = Inr o1" "sizes t o1" "linked o1 {}"
    "joined o1 {} (\<lambda>u. u) (\<lambda>_. 0)" "\<And>u. u < nodes o1 \<Longrightarrow> connectivityForest o1 ! u = - 1"
    "ma o1 = ma ot" "mb o1 = mb ot" "hab o1 = hab ot" "keyCnt o1 = keyCnt ot" "keys o1 = keys ot" "vals o1 = vals ot"
    "rand_pos o1 = rand_pos ot"
proof -
  have m0: "mem_of t ot ot" using t s by (simp add: mem_of_def)
  obtain o3 where o3: "rfold (\<lambda>i. memSet t i 0) [0..<nodes ot] ot = Inr o3" "mem_of t ot o3"
    using value_cells.put_all[OF m0, of "nodes ot" "\<lambda>_. 0"] by auto
  have mdp: "maintainingDP o' \<Longrightarrow> (if maintainingDP o' then
         (if tRandomized t then (let (v, o2) = next_rand t o' in memSet t i (ucast v AND VDMASK t) o2)
          else memSet t i 0 o') else Inr o') = memSet t i 0 o'" for i o' using t by simp
  have keep: "maintainingDP o' \<Longrightarrow> memSet t i 0 o' = Inr o'' \<Longrightarrow> maintainingDP o''" for i o' o''
    using frameD(5)[OF memSet_frame] by metis
  have eq: "rfold (\<lambda>i o1. if maintainingDP o1 then
         (if tRandomized t then (let (v, o2) = next_rand t o1 in memSet t i (ucast v AND VDMASK t) o2)
          else memSet t i 0 o1) else Inr o1) xs o' = rfold (\<lambda>i. memSet t i 0) xs o'" if "maintainingDP o'" for xs o'
    using that
  proof (induction xs arbitrary: o')
    case (Cons i xs)
    show ?case
    proof (cases "memSet t i 0 o'")
      case (Inr o'')
      with Cons.IH[OF keep[OF Cons.prems Inr]] mdp[OF Cons.prems] show ?thesis by simp
    qed (use mdp[OF Cons.prems] in simp)
  qed simp
  have md: "maintainingDP ot" using s by (simp add: sizes_def)
  let ?o = "o3\<lparr>head := map (\<lambda>_. none_cell) (head o3), nextAtA := map (\<lambda>_. none_cell) (nextAtA o3),
                nextAtB := map (\<lambda>_. none_cell) (nextAtB o3), connectivityForest := ds_reset (connectivityForest o3)\<rparr>"
  have r: "resetBuildState t ot = Inr ?o"
    unfolding resetBuildState_def w32_nodes[OF s] eq[OF md] o3(1) by (simp add: none_cell_def Let_def)
  have s3: "sizes t o3" "frame ot o3" using o3(2) by (simp_all add: mem_of_def)
  have s': "sizes t ?o" using s3(1) by (simp add: sizes_def nodes_def)
  have l: "linked ?o {}"
  proof (rule linked_empty[OF s'])
    fix u assume "u < nodes ?o"
    then have "u < length (head o3)" using s3(1) by (simp add: sizes_def nodes_def)
    then show "head ?o ! u = none_cell" by simp
  qed
  have c: "connectivityForest ?o ! u = - 1" if "u < nodes ?o" for u
  proof -
    have "u < length (connectivityForest o3)" using that s3(1) by (simp add: sizes_def nodes_def)
    then show ?thesis by (simp add: ds_reset_def)
  qed
  have emp: "conn {} u v \<longleftrightarrow> u = v" for u v by (simp add: conn_def links_def)
  have j: "joined ?o {} (\<lambda>u. u) (\<lambda>_. 0)"
    using s' ds_reset_ok[of "connectivityForest o3"] emp by (simp add: joined_def sizes_def)
  show thesis by (rule that[OF r s' l j c]) (simp_all add: frameD[OF s3(2)])
qed

subsection \<open>Testing the seed\<close>

text \<open>The state of \<open>testHash\<close> before edge \<open>i\<close>: the graph of the first \<open>i\<close> keys, and every node
  the disjoint set has touched has its representative on the A side.\<close>

definition first_edges :: "'k template \<Rightarrow> 'k othello \<Rightarrow> nat \<Rightarrow> edges" where
  "first_edges t ot n = (\<lambda>i. (i, getIndices t ot (keys ot ! i))) ` {..<n}"

definition roots_in_A :: "'k othello \<Rightarrow> edges \<Rightarrow> (nat \<Rightarrow> nat) \<Rightarrow> bool" where
  "roots_in_A ot G R \<longleftrightarrow>
     (\<forall>u < nodes ot. 0 \<le> connectivityForest ot ! u \<longrightarrow> R u < ma ot) \<and>
     (\<forall>(k, a, b) \<in> G. 0 \<le> connectivityForest ot ! R a)"

definition testing :: "'k template \<Rightarrow> 'k othello \<Rightarrow> 'k othello \<Rightarrow> nat \<Rightarrow> bool" where
  "testing t ot0 ot i \<longleftrightarrow> sizes t ot \<and> keys ot = keys ot0 \<and> vals ot = vals ot0 \<and> keyCnt ot = keyCnt ot0 \<and>
     ma ot = ma ot0 \<and> mb ot = mb ot0 \<and> hab ot = hab ot0 \<and> rand_pos ot = rand_pos ot0 \<and>
     (let G = first_edges t ot i in forest G \<and> linked ot G \<and> (\<exists>R d. joined ot G R d \<and> roots_in_A ot G R))"

lemma first_edges_Suc: "first_edges t ot (Suc i) = insert (i, getIndices t ot (keys ot ! i)) (first_edges t ot i)"
  by (auto simp: first_edges_def lessThan_Suc)

lemma first_edges_all: "first_edges t ot (keyCnt ot) = edges t ot"
  by (simp add: first_edges_def edges_def)

lemma first_edges_sub: "i < keyCnt ot \<Longrightarrow> first_edges t ot i \<subseteq> without i (edges t ot)"
  by (auto simp: first_edges_def edges_def without_def)

lemma first_edges_same:
  "keys ot' = keys ot \<Longrightarrow> ma ot' = ma ot \<Longrightarrow> mb ot' = mb ot \<Longrightarrow> hab ot' = hab ot \<Longrightarrow>
     first_edges t ot' i = first_edges t ot i"
  by (simp add: first_edges_def getIndices_def)

lemma roots_in_A_step:
  assumes j: "joined ot G R d" and r: "roots_in_A ot G R" and s: "sided ot G"
    and ab: "a < ma ot" "a < nodes ot" "b < nodes ot"
    and t1: "touch R {R a, R b} (connectivityForest ot) cf1" and t2: "touch R {R a, R b} cf1 cf2" "0 \<le> cf2 ! R a"
    and o': "connectivityForest ot' = cf2" "nodes ot' = nodes ot" "ma ot' = ma ot"
  shows "roots_in_A ot' (insert (k, a, b) G) (join_rep R a b)"
proof -
  note J = joinedD[OF j]
  have l1: "length cf1 = nodes ot" using touchD(1)[OF t1] J(1) by simp
  have ra: "R a < ma ot"
  proof (cases "0 \<le> connectivityForest ot ! a")
    case True then show ?thesis using r ab(2) by (simp add: roots_in_A_def)
  next
    case False then show ?thesis using ds_okD(5)[OF J(3), of a] ab J(1) by simp
  qed
  have m: "join_rep R a b u < ma ot" if u: "u < nodes ot" "0 \<le> cf2 ! u" for u
  proof (cases "R u \<in> {R a, R b}")
    case True then show ?thesis using ra by (auto simp: join_rep_def)
  next
    case False
    then have "cf2 ! u = connectivityForest ot ! u" using touchD(3)[OF t1] touchD(3)[OF t2(1)] u(1) l1 J(1) by simp
    then show ?thesis using u r False by (auto simp: roots_in_A_def join_rep_def)
  qed
  have nn: "0 \<le> cf2 ! u" if "u < nodes ot" "0 \<le> connectivityForest ot ! u" for u
    using touchD(2)[OF t2(1), of u] touchD(2)[OF t1, of u] that l1 J(1) by simp
  have e: "0 \<le> cf2 ! join_rep R a b u" if "(k', u, w) \<in> G" for k' u w
  proof -
    have "u < nodes ot" using sidedD[OF s that] by (simp add: nodes_def)
    then have "R u < nodes ot" using ds_okD(1)[OF J(3)] J(1) by simp
    moreover have "0 \<le> connectivityForest ot ! R u" using r that by (auto simp: roots_in_A_def)
    ultimately show ?thesis using nn t2(2) by (simp add: join_rep_def)
  qed
  show ?thesis unfolding roots_in_A_def o' using m e t2(2) by (auto simp: join_rep_def)
qed

lemma testHash_step:
  assumes t: "plain t" and T: "testing t ot0 ot i" and i: "i < keyCnt ot0" and ab: "getIndices t ot (keys ot ! i) = (a, b)"
  obtains cf where "ds_sameSet (connectivityForest ot) (s32 a) (s32 b) = Inr (conn (first_edges t ot i) a b, cf)"
    "\<not> conn (first_edges t ot i) a b \<Longrightarrow>
       \<exists>ot'. addEdge i a b (ot\<lparr>connectivityForest := cf\<rparr>) = Inr ot' \<and> testing t ot0 ot' (Suc i)"
    "sizes t (ot\<lparr>connectivityForest := cf\<rparr>)"
proof -
  let ?G = "first_edges t ot i"
  from T have s: "sizes t ot" and f: "forest ?G" and l: "linked ot ?G"
    and same: "keys ot = keys ot0" "vals ot = vals ot0" "keyCnt ot = keyCnt ot0" "ma ot = ma ot0" "mb ot = mb ot0"
      "hab ot = hab ot0" "rand_pos ot = rand_pos ot0"
    unfolding testing_def Let_def by blast+
  from T obtain R d where j: "joined ot ?G R d" and r: "roots_in_A ot ?G R" unfolding testing_def Let_def by blast
  note g = getIndices_range[OF s ab]
  obtain cf where C: "ds_sameSet (connectivityForest ot) (s32 a) (s32 b) = Inr (conn ?G a b, cf)"
    "joined (ot\<lparr>connectivityForest := cf\<rparr>) ?G R d" "touch R {R a, R b} (connectivityForest ot) cf"
    using isConnected_ok[OF t j g(4,3)] by metis
  let ?o = "ot\<lparr>connectivityForest := cf\<rparr>"
  have s': "sizes t ?o" using s touchD(1)[OF C(3)] by (simp add: sizes_def nodes_def)
  have ks: "i < length (keys ot)" using i s same(3) by (simp add: sizes_def)
  have fresh: "i \<notin> fst ` ?G" by (auto simp: first_edges_def)
  have sd: "sided ot ?G"
    by (rule sided_mono[OF edges_sided[OF s]]) (use i same(3) in \<open>auto simp: first_edges_def edges_def\<close>)
  have l': "linked ?o ?G" using l by (simp add: linked_def nodes_def)
  have g': "i < length (keys ?o)" "a < ma ?o" "ma ?o \<le> b" "b < nodes ?o" using g ks by (simp_all add: nodes_def)
  have "\<exists>ot'. addEdge i a b ?o = Inr ot' \<and> testing t ot0 ot' (Suc i)" if nc: "\<not> conn ?G a b"
  proof -
    obtain h na nb cf' d' where A: "addEdge i a b ?o = Inr (?o\<lparr>nextAtA := na, nextAtB := nb, head := h, connectivityForest := cf'\<rparr>)"
      "sizes t (?o\<lparr>nextAtA := na, nextAtB := nb, head := h, connectivityForest := cf'\<rparr>)"
      "linked (?o\<lparr>nextAtA := na, nextAtB := nb, head := h, connectivityForest := cf'\<rparr>) (insert (i, a, b) ?G)"
      "joined (?o\<lparr>nextAtA := na, nextAtB := nb, head := h, connectivityForest := cf'\<rparr>) (insert (i, a, b) ?G) (join_rep R a b) d'"
      "touch R {R a, R b} (connectivityForest ?o) cf'" "0 \<le> cf' ! R a"
      by (rule addEdge_ok[OF s' l' C(2) g'(1) fresh g'(2-4)]) (rule that)
    define o' where "o' = ?o\<lparr>nextAtA := na, nextAtB := nb, head := h, connectivityForest := cf'\<rparr>"
    note A' = A(1-4)[folded o'_def]
    have same': "keys o' = keys ot" "vals o' = vals ot" "keyCnt o' = keyCnt ot" "ma o' = ma ot" "mb o' = mb ot"
      "hab o' = hab ot" "rand_pos o' = rand_pos ot" "connectivityForest o' = cf'" "nodes o' = nodes ot"
      by (simp_all add: o'_def nodes_def)
    have F: "first_edges t o' (Suc i) = insert (i, a, b) ?G"
      using ab first_edges_same[of o' ot t] same' by (simp add: first_edges_Suc getIndices_def)
    have cf: "touch R {R a, R b} cf cf'" using A(5) by simp
    have R: "roots_in_A o' (insert (i, a, b) ?G) (join_rep R a b)"
      by (rule roots_in_A_step[OF j r sd g(1) g(4) g(3) C(3) cf A(6) same'(8,9,4)])
    have "testing t ot0 o' (Suc i)"
      unfolding testing_def Let_def F same' same
      using A'(2,3) forest_insert[OF f fresh nc] A'(4) R by (simp only: simp_thms) blast
    then show ?thesis using A'(1) by blast
  qed
  then show thesis using that[OF C(1) _ s'] by blast
qed

lemma testHash_from_ok:
  assumes t: "plain t"
  shows "testing t ot0 ot i \<Longrightarrow> i \<le> keyCnt ot0 \<Longrightarrow>
    \<exists>ot'. testHash_from t [i..<keyCnt ot0] ot = Inr (forest (edges t ot0), ot') \<and>
      (forest (edges t ot0) \<longrightarrow> testing t ot0 ot' (keyCnt ot0)) \<and> sizes t ot' \<and>
      keys ot' = keys ot0 \<and> vals ot' = vals ot0 \<and> keyCnt ot' = keyCnt ot0 \<and> ma ot' = ma ot0 \<and> mb ot' = mb ot0 \<and>
      hab ot' = hab ot0 \<and> rand_pos ot' = rand_pos ot0"
proof (induction "keyCnt ot0 - i" arbitrary: ot i)
  case 0
  then have i: "i = keyCnt ot0" by simp
  have "first_edges t ot i = edges t ot0"
    unfolding i first_edges_all[symmetric] by (rule first_edges_same) (use 0(2) in \<open>simp_all add: testing_def\<close>)
  then have "forest (edges t ot0)" using 0(2) by (simp add: testing_def Let_def)
  then show ?case using 0(2) i by (simp add: testing_def)
next
  case (Suc n)
  then have i: "i < keyCnt ot0" by simp
  from Suc.prems(1) have same: "keys ot = keys ot0" "vals ot = vals ot0" "keyCnt ot = keyCnt ot0" "ma ot = ma ot0" "mb ot = mb ot0"
      "hab ot = hab ot0" "rand_pos ot = rand_pos ot0" "sizes t ot"
    unfolding testing_def by blast+
  obtain a b where ab: "getIndices t ot (keys ot ! i) = (a, b)" by force
  obtain cf where S: "ds_sameSet (connectivityForest ot) (s32 a) (s32 b) = Inr (conn (first_edges t ot i) a b, cf)"
    "\<not> conn (first_edges t ot i) a b \<Longrightarrow>
       \<exists>ot'. addEdge i a b (ot\<lparr>connectivityForest := cf\<rparr>) = Inr ot' \<and> testing t ot0 ot' (Suc i)"
    "sizes t (ot\<lparr>connectivityForest := cf\<rparr>)"
    using testHash_step[OF t Suc.prems(1) i ab] by metis
  have up: "[i..<keyCnt ot0] = i # [Suc i..<keyCnt ot0]" using i by (simp add: upt_conv_Cons)
  have ks: "i < length (keys ot)" using i same by (simp add: sizes_def)
  have E: "edges t ot = edges t ot0" using same by (simp add: edges_def getIndices_def)
  show ?case
  proof (cases "conn (first_edges t ot i) a b")
    case True
    have "(i, a, b) \<in> edges t ot" using ab i same(3) by (simp add: edges_iff)
    moreover have "conn (without i (edges t ot)) a b"
      using conn_mono[OF first_edges_sub True] i same(3) by simp
    ultimately have "\<not> forest (edges t ot0)" unfolding E forest_def by blast
    then show ?thesis unfolding up using S(1,3) True ks ab same by simp
  next
    case False
    from S(2)[OF this] obtain o1 where o1: "addEdge i a b (ot\<lparr>connectivityForest := cf\<rparr>) = Inr o1"
      "testing t ot0 o1 (Suc i)" by blast
    have "n = keyCnt ot0 - Suc i" using Suc(2) by simp
    from Suc.hyps(1)[OF this o1(2)] i show ?thesis unfolding up using S(1) False ks ab o1(1) by simp
  qed
qed
end
