(* ===== verification/Othello_Rebuild.thy ===== *)
theory Othello_Rebuild
  imports Othello_Build
begin

text \<open>
  Filling and the loop of tries. \<open>fillTreeDFS_ok\<close>: from a root in array A every edge of its
  component gets its value and index; \<open>fillValue_ok\<close>: all components are filled, so the
  invariant holds; \<open>tryBuild_ok\<close> and \<open>build_tries_ok\<close>: a try succeeds exactly when the keys
  form a forest under its seed, and \<open>build\<close> ends with the first such seed or throws after
  \<open>MAX_REHASH\<close> of them.
\<close>

subsection \<open>Filling a component\<close>

definition solved :: "'k template \<Rightarrow> 'k othello \<Rightarrow> nat \<Rightarrow> nat \<Rightarrow> nat \<Rightarrow> bool" where
  "solved t ot k u w \<longleftrightarrow> value_cell t ot u XOR value_cell t ot w = value_bits t (vals ot ! k) \<and>
     indMem ot ! u XOR indMem ot ! w = k"

lemma solved_sym: "solved t ot k u w \<longleftrightarrow> solved t ot k w u"
  by (simp add: solved_def xor.commute)

definition kept_off :: "'k template \<Rightarrow> nat set \<Rightarrow> 'k othello \<Rightarrow> 'k othello \<Rightarrow> bool" where
  "kept_off t S ot ot' \<longleftrightarrow> frame ot ot' \<and> sizes t ot' \<and>
     (\<forall>u < nodes ot. u \<notin> S \<longrightarrow> value_cell t ot' u = value_cell t ot u \<and> indMem ot' ! u = indMem ot ! u)"

lemma fill_fold:
  assumes t: "plain t" and s: "sizes t ot" and d: "distinct (map node_of ts)"
    and nn: "node_of ` set ts \<subseteq> {..<nodes ot} - {root}" and r: "root < nodes ot"
    and par: "\<And>i. i < length ts \<Longrightarrow> parent_of (ts ! i) \<in> insert root (node_of ` set (take i ts))"
    and ks: "\<And>k w p. (k, w, p) \<in> set ts \<Longrightarrow> k < length (keys ot)"
  shows "\<exists>ot'. rfold (visit_act (\<lambda>k w p. fillSingle t True True kd k w p)) ts ot = Inr ot' \<and>
     kept_off t (node_of ` set ts) ot ot' \<and> (\<forall>(k, w, p) \<in> set ts. solved t ot' k w p)"
proof -
  let ?I = "\<lambda>i o2. kept_off t (node_of ` set (take i ts)) ot o2 \<and> (\<forall>j < i. case ts ! j of (k, w, p) \<Rightarrow> solved t o2 k w p)"
  have "\<exists>o2. rfold (visit_act (\<lambda>k w p. fillSingle t True True kd k w p)) ts ot = Inr o2 \<and> ?I (length ts) o2"
  proof (rule rfold_inv[where I = ?I])
    show "?I 0 ot" using s by (simp add: kept_off_def)
    fix i o2 assume i: "i < length ts" and I: "?I i o2"
    obtain k w p where v: "ts ! i = (k, w, p)" by (cases "ts ! i")
    have mem: "(k, w, p) \<in> set ts" using v nth_mem[OF i] by simp
    then have wts: "w \<in> node_of ` set ts" by force
    then have w: "w < nodes ot" "w \<noteq> root" using nn by auto
    have p': "p \<in> insert root (node_of ` set (take i ts))" using par[OF i] v by simp
    have "set (take i ts) \<subseteq> set ts" by (rule set_take_subset)
    then have pn: "p < nodes ot" using p' nn r by auto
    have fr: "w \<notin> node_of ` set (take i ts)" using fresh_visit[OF d i] v by simp
    then have pw: "p \<noteq> w" using p' w(2) by auto
    from I have K: "frame ot o2" "sizes t o2" by (simp_all add: kept_off_def)
    note q = frameD(13)[OF K(1)] frameD(7)[OF K(1)] frameD(8)[OF K(1)]
    obtain o3 where o3: "fillSingle t True True kd k w p o2 = Inr o3"
      "tables t o2 o3 (\<lambda>j. if True \<and> j = w then value_bits t (vals o2 ! k) XOR value_cell t o2 p else value_cell t o2 j)
      (\<lambda>j. if True \<and> j = w then k XOR indMem o2 ! p else indMem o2 ! j)"
      using fillSingle_ok[OF t K(2), of w p k True True kd] w(1) pn ks[OF mem] q by auto
    have T: "frame o2 o3" "sizes t o3" and V: "\<And>j. j < nodes ot \<Longrightarrow> value_cell t o3 j =
          (if j = w then value_bits t (vals ot ! k) XOR value_cell t o2 p else value_cell t o2 j)"
        "\<And>j. j < nodes ot \<Longrightarrow> indMem o3 ! j = (if j = w then k XOR indMem o2 ! p else indMem o2 ! j)"
      using o3(2) q by (simp_all add: tables_def)
    have vs: "vals o3 = vals ot" using frameD(8)[OF T(1)] q by simp
    have S: "node_of ` set (take (Suc i) ts) = insert w (node_of ` set (take i ts))"
      using insert_take[OF i, of node_of] v by simp
    have k3: "kept_off t (node_of ` set (take (Suc i) ts)) ot o3"
      unfolding kept_off_def S
    proof (intro conjI allI impI)
      show "frame ot o3" using frame_trans[OF K(1) T(1)] .
      fix u assume "u < nodes ot" "u \<notin> insert w (node_of ` set (take i ts))"
      with V I show "value_cell t o3 u = value_cell t ot u" "indMem o3 ! u = indMem ot ! u"
        by (simp_all add: kept_off_def)
    qed (rule T(2))
    have "case ts ! j of (k, w, p) \<Rightarrow> solved t o3 k w p" if j: "j < Suc i" for j
    proof (cases "j = i")
      case True
      have "solved t o3 k w p" unfolding solved_def vs using V(1,2)[OF w(1)] V(1,2)[OF pn] pw by simp
      then show ?thesis using v True by simp
    next
      case False
      then have ji: "j < i" using j by simp
      obtain k' w' p' where v': "ts ! j = (k', w', p')" by (cases "ts ! j")
      have jl: "j < length ts" using ji i by simp
      have w': "w' \<in> node_of ` set (take i ts)"
      proof -
        have "ts ! j \<in> set (take i ts)" using ji i by (auto simp: in_set_conv_nth)
        then show ?thesis using v' by force
      qed
      have tk: "node_of ` set (take j ts) \<subseteq> node_of ` set (take i ts)"
        using ji by (intro image_mono) (simp add: set_take_subset_set_take)
      have p'': "p' \<in> insert root (node_of ` set (take i ts))" using par[OF jl] v' tk by auto
      have ne: "w' \<noteq> w" "p' \<noteq> w" using w' p'' fr w(2) by auto
      have bn: "w' < nodes ot" "p' < nodes ot" using w' p'' nn r \<open>set (take i ts) \<subseteq> set ts\<close> by auto
      have "solved t o2 k' w' p'" using I ji v' by auto
      then have "solved t o3 k' w' p'" using V(1,2)[OF bn(1)] V(1,2)[OF bn(2)] ne vs q
        by (simp add: solved_def)
      then show ?thesis using v' by simp
    qed
    then show "\<exists>s'. visit_act (\<lambda>k w p. fillSingle t True True kd k w p) (ts ! i) o2 = Inr s' \<and> ?I (Suc i) s'"
      using o3(1) v k3 by simp
  qed
  then obtain o2 where o2: "rfold (visit_act (\<lambda>k w p. fillSingle t True True kd k w p)) ts ot = Inr o2" "?I (length ts) o2"
    by blast
  have "\<forall>(k, w, p) \<in> set ts. solved t o2 k w p"
  proof (intro ballI, clarify)
    fix k w p assume "(k, w, p) \<in> set ts"
    then obtain j where j: "j < length ts" "ts ! j = (k, w, p)" by (auto simp: in_set_conv_nth)
    from conjunct2[OF o2(2), THEN spec, THEN mp, OF j(1)] show "solved t o2 k w p" unfolding j(2) by simp
  qed
  moreover have "kept_off t (node_of ` set ts) ot o2" using o2(2) by simp
  ultimately show ?thesis using o2(1) by blast
qed

lemma fillSingle_keeps: "frame a s \<Longrightarrow> fillSingle t fv fi kd k w p s = Inr s' \<Longrightarrow> frame a s'"
  using frame_trans fillSingle_frame by blast

lemma fillTreeDFS_ok:
  assumes g: "graphed t ot G" and r: "root < ma ot"
  obtains ot' where "fillTreeDFS t True True kd root ot = Inr ot'"
    "kept_off t ({z. conn G root z} - {root}) ot ot'"
    "\<And>k a b. (k, a, b) \<in> G \<Longrightarrow> conn G root a \<Longrightarrow> solved t ot' k a b"
proof -
  note g' = graphedD[OF g]
  have rn: "root < nodes ot" using r by (simp add: nodes_def)
  have k0: "NOKEY \<notin> fst ` G" using g'(2,3) by (force simp: sided_def NOKEY_def sizes_def)
  have lead: "leads_to G NOKEY root" using k0 by (simp add: leads_to_def)
  have br: "branch G NOKEY root = {z. conn G root z}" by (rule branch_absent[OF k0])
  note W = walk_trace_ok[OF g rn lead]
  let ?ts = "walk_trace ot NOKEY root"
  have nn: "node_of ` set ?ts \<subseteq> {..<nodes ot} - {root}"
    unfolding W(3) using branch_nodes[OF g'(3) rn, of NOKEY] by blast
  have ks: "k < length (keys ot)" if "(k, w, p) \<in> set ?ts" for k w p
    using incident_nodes[OF g'(3) W(4)[OF that]] by simp
  obtain ot' where o: "rfold (visit_act (\<lambda>k w p. fillSingle t True True kd k w p)) ?ts ot = Inr ot'"
    "kept_off t (node_of ` set ?ts) ot ot'" "\<forall>(k, w, p) \<in> set ?ts. solved t ot' k w p"
  proof -
    have "\<exists>ot'. rfold (visit_act (\<lambda>k w p. fillSingle t True True kd k w p)) ?ts ot = Inr ot' \<and>
       kept_off t (node_of ` set ?ts) ot ot' \<and> (\<forall>(k, w, p) \<in> set ?ts. solved t ot' k w p)"
      by (rule fill_fold[OF g'(1,2) W(2) nn rn]) (use W(5) ks in auto)
    then show thesis using that by blast
  qed
  have w: "walk_tree node_cells (\<lambda>k w p. fillSingle t True True kd k w p) (walk_fuel ot) [(NOKEY, root)] ot = Inr ot'"
    unfolding o(1)[symmetric]
    by (rule walk_is_fold[OF g rn lead, where P = "frame ot"])
       (auto intro: fillSingle_keeps node_cells_frame)
  show thesis
  proof
    show "fillTreeDFS t True True kd root ot = Inr ot'" using w r by (simp add: fillTreeDFS_def)
    show "kept_off t ({z. conn G root z} - {root}) ot ot'" using o(2) W(3) br by simp
    fix k a b assume e: "(k, a, b) \<in> G" and c: "conn G root a"
    have "(k, b) \<in> incident G a" using e by (auto simp: incident_def)
    moreover have "a \<in> branch G NOKEY root" using c br by simp
    moreover have "k \<noteq> NOKEY" using e k0 by force
    ultimately have "k \<in> fst ` set ?ts" using W(6) by blast
    then obtain w p where wp: "(k, w, p) \<in> set ?ts" by force
    have "(a = p \<and> b = w) \<or> (a = w \<and> b = p)"
      using forest_incident_ends[OF g'(4) W(4)[OF wp]] \<open>(k, b) \<in> incident G a\<close> by blast
    then show "solved t ot' k a b" using o(3) wp solved_sym by fastforce
  qed
qed

subsection \<open>Filling everything\<close>

lemma solved_kept:
  assumes "kept_off t S ot ot'" "u < nodes ot" "w < nodes ot" "u \<notin> S" "w \<notin> S"
  shows "solved t ot' k u w = solved t ot k u w"
proof -
  have "vals ot' = vals ot" using assms(1) frameD(8) by (auto simp: kept_off_def)
  then show ?thesis using assms by (simp add: solved_def kept_off_def)
qed

lemma fillValue_step:
  assumes g: "graphed t ot G" and j: "joined ot G R d" and ra: "roots_in_A ot G R"
    and i: "i < nodes ot" and fr: "frame ot s" and sz: "sizes t s"
    and dn: "\<And>k a b. (k, a, b) \<in> G \<Longrightarrow> R a < i \<Longrightarrow> solved t s k a b"
  obtains s' where "rbind (ds_isRoot (connectivityForest s) (s32 i)) (\<lambda>r.
       if r then rbind (if (tDL t \<noteq> 0 \<or> tRandomized t) \<and> maintainingDP s then
                  (if tRandomized t then (let (v, o2) = next_rand t s in memSet t i (ucast (v OR 1)) o2)
                   else memSet t i 1 s) else Inr s) (fillTreeDFS t True True kd i)
       else Inr s) = Inr s'"
    "frame ot s'" "sizes t s'" "\<And>k a b. (k, a, b) \<in> G \<Longrightarrow> R a < Suc i \<Longrightarrow> solved t s' k a b"
proof -
  note g' = graphedD[OF g] and J = joinedD[OF j] and F = frameD[OF fr]
  have cf: "connectivityForest s = connectivityForest ot" "s32 i = int i" using F i J(2) by simp_all
  have rt: "ds_isRoot (connectivityForest s) (s32 i) = Inr (R i = i \<and> 0 \<le> connectivityForest ot ! i)"
    unfolding cf using ds_isRoot_ok[OF J(3)] i J(1) by simp
  have nab: "a < nodes ot" "b < nodes ot" "R (R a) = R a" "R a < nodes ot" "R b = R a" if "(k, a, b) \<in> G" for k a b
  proof -
    show n: "a < nodes ot" "b < nodes ot" using sidedD[OF g'(3) that] by (auto simp: nodes_def)
    show "R (R a) = R a" "R a < nodes ot" using ds_okD(1,2)[OF J(3), of a] n J(1) by simp_all
    show "R b = R a" using J(4)[OF n] conn_edge[OF that] by simp
  qed
  show thesis
  proof (cases "R i = i \<and> 0 \<le> connectivityForest ot ! i")
    case True
    then have ia: "i < ma s" using ra i F(1) by (auto simp: roots_in_A_def)
    have gs: "graphed t s G" using graphed_frame[OF g fr sz] .
    obtain s' where S: "fillTreeDFS t True True kd i s = Inr s'" "kept_off t ({z. conn G i z} - {i}) s s'"
      "\<And>k a b. (k, a, b) \<in> G \<Longrightarrow> conn G i a \<Longrightarrow> solved t s' k a b"
      using fillTreeDFS_ok[OF gs ia] by metis
    show thesis
    proof
      show "rbind (ds_isRoot (connectivityForest s) (s32 i)) (\<lambda>r.
       if r then rbind (if (tDL t \<noteq> 0 \<or> tRandomized t) \<and> maintainingDP s then
                  (if tRandomized t then (let (v, o2) = next_rand t s in memSet t i (ucast (v OR 1)) o2)
                   else memSet t i 1 s) else Inr s) (fillTreeDFS t True True kd i)
       else Inr s) = Inr s'" using rt True S(1) g'(1) by simp
      show "frame ot s'" using frame_trans[OF fr] S(2) by (simp add: kept_off_def)
      show "sizes t s'" using S(2) by (simp add: kept_off_def)
      fix k a b assume e: "(k, a, b) \<in> G" and ri: "R a < Suc i"
      show "solved t s' k a b"
      proof (cases "R a = i")
        case True': True
        then have "conn G i a" using J(4)[OF i nab(1)[OF e]] True by simp
        then show ?thesis using S(3)[OF e] by simp
      next
        case False
        then have "\<not> conn G i a" "\<not> conn G i b" using J(4)[OF i nab(1)[OF e]] J(4)[OF i nab(2)[OF e]] nab(5)[OF e] True by auto
        then show ?thesis using solved_kept[OF S(2), of a b] nab(1,2)[OF e] F(13) dn[OF e] ri False by simp
      qed
    qed
  next
    case False
    have d2: "solved t s k a b" if "(k, a, b) \<in> G" "R a < Suc i" for k a b
    proof (cases "R a = i")
      case True
      then have "0 \<le> connectivityForest ot ! i" using ra that(1) by (auto simp: roots_in_A_def)
      then show ?thesis using False nab(3)[OF that(1)] True by simp
    qed (use dn[OF that(1)] that(2) in simp)
    show thesis
    proof
      show "rbind (ds_isRoot (connectivityForest s) (s32 i)) (\<lambda>r.
       if r then rbind (if (tDL t \<noteq> 0 \<or> tRandomized t) \<and> maintainingDP s then
                  (if tRandomized t then (let (v, o2) = next_rand t s in memSet t i (ucast (v OR 1)) o2)
                   else memSet t i 1 s) else Inr s) (fillTreeDFS t True True kd i)
       else Inr s) = Inr s" unfolding rt using False by auto
    qed (use fr sz d2 in auto)
  qed
qed

lemma fillValue_ok:
  assumes g: "graphed t ot (edges t ot)" and j: "joined ot (edges t ot) R d" and ra: "roots_in_A ot (edges t ot) R"
  obtains ot' where "fillValue t kd ot = Inr ot'" "othello_inv t ot'" "frame ot ot'"
proof -
  note g' = graphedD[OF g] and J = joinedD[OF j]
  let ?G = "edges t ot"
  let ?I = "\<lambda>i s. frame ot s \<and> sizes t s \<and> (\<forall>k a b. (k, a, b) \<in> ?G \<longrightarrow> R a < i \<longrightarrow> solved t s k a b)"
  have w: "w32 (ma ot + mb ot) = nodes ot" using w32_nodes[OF g'(2)] .
  have "\<exists>s'. fillValue t kd ot = Inr s' \<and> ?I (length [0..<nodes ot]) s'"
    unfolding fillValue_def w
  proof (rule rfold_inv[where I = ?I])
    show "?I 0 ot" using g'(2) by simp
    fix i s assume i: "i < length [0..<nodes ot]" and I: "?I i s"
    then have i': "i < nodes ot" "[0..<nodes ot] ! i = i" by simp_all
    have dn: "\<And>k a b. (k, a, b) \<in> ?G \<Longrightarrow> R a < i \<Longrightarrow> solved t s k a b" using I by blast
    from fillValue_step[OF g j ra i'(1) conjunct1[OF I] conjunct1[OF conjunct2[OF I]] dn, of kd]
    show "\<exists>s'. rbind (ds_isRoot (connectivityForest s) (s32 ([0..<nodes ot] ! i))) (\<lambda>r.
       if r then rbind (if (tDL t \<noteq> 0 \<or> tRandomized t) \<and> maintainingDP s then
                  (if tRandomized t then (let (v, o2) = next_rand t s in memSet t ([0..<nodes ot] ! i) (ucast (v OR 1)) o2)
                   else memSet t ([0..<nodes ot] ! i) 1 s) else Inr s) (fillTreeDFS t True True kd ([0..<nodes ot] ! i))
       else Inr s) = Inr s' \<and> ?I (Suc i) s'"
      unfolding i'(2) by metis
  qed
  then obtain s where s: "fillValue t kd ot = Inr s" "frame ot s" "sizes t s"
    "\<forall>k a b. (k, a, b) \<in> ?G \<longrightarrow> R a < nodes ot \<longrightarrow> solved t s k a b" by auto
  have E: "edges t s = ?G" by (rule edges_frame[OF s(2)])
  have all: "solved t s k a b" if e: "(k, a, b) \<in> ?G" for k a b
  proof -
    have "a < nodes ot" using sidedD[OF g'(3) e] by (simp add: nodes_def)
    then have "R a < nodes ot" using ds_okD(1)[OF J(3), of a] J(1) by simp
    then show ?thesis using s(4) e by blast
  qed
  have "valued t s ?G" "indexed s ?G" unfolding valued_def indexed_def using all by (auto simp: solved_def)
  moreover have "graphed t s ?G" using graphed_frame[OF g s(2,3)] .
  moreover have "joined s ?G R d" using j joined_frame[OF s(2)] by simp
  ultimately have "othello_inv t s" unfolding othello_inv_def E by blast
  with s(1,2) show thesis by (intro that)
qed

subsection \<open>A try, and all tries\<close>

definition same_keys :: "'k othello \<Rightarrow> 'k othello \<Rightarrow> bool" where
  "same_keys ot ot' \<longleftrightarrow> keys ot' = keys ot \<and> vals ot' = vals ot \<and> keyCnt ot' = keyCnt ot \<and> ma ot' = ma ot \<and> mb ot' = mb ot"

lemma same_keys_contents: "same_keys ot ot' \<Longrightarrow> contents ot' = contents ot"
  by (simp add: same_keys_def contents_def)

lemma tryBuild_ok:
  assumes t: "plain t" and s: "sizes t ot"
  obtains ot' where "tryBuild t ot = Inr (forest (edges t ot), ot')" "sizes t ot'" "same_keys ot ot'"
    "hab ot' = hab ot" "rand_pos ot' = rand_pos ot" "forest (edges t ot) \<Longrightarrow> othello_inv t ot'"
proof -
  obtain o1 where R: "resetBuildState t ot = Inr o1" "sizes t o1" "linked o1 {}"
    "joined o1 {} (\<lambda>u. u) (\<lambda>_. 0)" "\<And>u. u < nodes o1 \<Longrightarrow> connectivityForest o1 ! u = - 1"
    "ma o1 = ma ot" "mb o1 = mb ot" "hab o1 = hab ot" "keyCnt o1 = keyCnt ot" "keys o1 = keys ot" "vals o1 = vals ot"
    "rand_pos o1 = rand_pos ot"
    using resetBuildState_ok[OF t s] by metis
  have f0: "first_edges t o1 0 = {}" by (simp add: first_edges_def)
  have r0: "roots_in_A o1 {} (\<lambda>u. u)" using R(5) by (simp add: roots_in_A_def)
  have T0: "testing t ot o1 0" unfolding testing_def Let_def f0 using R(2-4,6-12) r0 by auto
  have E1: "edges t o1 = edges t ot" using R(6-11) by (simp add: edges_def getIndices_def)
  have sk1: "same_keys ot o1" using R(6-11) by (simp add: same_keys_def)
  show thesis
  proof (cases "keyCnt ot = 0")
    case True
    have e: "edges t o1 = {}" using True R(9) by (simp add: edges_def)
    have "graphed t o1 {}" using t R(2,3) by (simp add: graphed_def sided_def)
    then have "othello_inv t o1" unfolding othello_inv_def e using R(4) by (auto simp: valued_def indexed_def)
    moreover have "tryBuild t ot = Inr (forest (edges t ot), o1)"
      using R(1,9) True e E1 by (simp add: tryBuild_def)
    ultimately show thesis using that R sk1 by blast
  next
    case False
    obtain o2 where T: "testHash t o1 = Inr (forest (edges t ot), o2)" "forest (edges t ot) \<Longrightarrow> testing t ot o2 (keyCnt ot)"
      "sizes t o2" "same_keys ot o2" "hab o2 = hab ot" "rand_pos o2 = rand_pos ot"
      using testHash_from_ok[OF t T0] R(9) by (auto simp: testHash_def same_keys_def)
    show thesis
    proof (cases "forest (edges t ot)")
      case nf: False
      have "tryBuild t ot = Inr (forest (edges t ot), o2)" using R(1,9) False T(1) nf by (simp add: tryBuild_def)
      then show thesis using that T(3-6) nf by blast
    next
      case True
      have fe: "first_edges t o2 (keyCnt ot) = edges t o2" using T(4) by (simp add: first_edges_all[symmetric] same_keys_def)
      from T(2)[OF True] obtain R d where L: "forest (edges t o2)" "linked o2 (edges t o2)" "joined o2 (edges t o2) R d"
        "roots_in_A o2 (edges t o2) R" unfolding testing_def Let_def fe by blast
      have "graphed t o2 (edges t o2)" using t T(3) L(1,2) edges_sided[OF T(3)] by (simp add: graphed_def)
      from fillValue_ok[OF this L(3,4)] obtain o3 where o3: "fillValue t False o2 = Inr o3" "othello_inv t o3" "frame o2 o3"
        by metis
      note F = frameD[OF o3(3)]
      have b: "tryBuild t ot = Inr (forest (edges t ot), o3)" using R(1) False T(1) True o3(1) \<open>keyCnt o1 = keyCnt ot\<close>
        by (simp add: tryBuild_def)
      have "sizes t o3" using o3(2) invD(3) by blast
      moreover have "same_keys ot o3" using T(4) F by (simp add: same_keys_def)
      ultimately show thesis using that[OF b] o3(2) T(5,6) F(3,18) by simp
    qed
  qed
qed

text \<open>The \<open>j\<close>-th seed after position \<open>pos\<close> of the random sequence, and the state with it.\<close>

definition seed_at :: "'k template \<Rightarrow> nat \<Rightarrow> u64" where
  "seed_at t pos = push_bit 32 (ucast (rand t pos)) OR ucast (rand t (Suc pos))"

definition acyclic_seed :: "'k template \<Rightarrow> 'k othello \<Rightarrow> nat \<Rightarrow> bool" where
  "acyclic_seed t ot j \<longleftrightarrow> forest (edges t (ot\<lparr>hab := seed_at t (rand_pos ot + 2 * j)\<rparr>))"

lemma new_seed_eq: "new_seed t ot = ot\<lparr>hab := seed_at t (rand_pos ot), rand_pos := rand_pos ot + 2\<rparr>"
  by (simp add: new_seed_def next_rand_def seed_at_def Let_def)

lemma edges_seed: "edges t (ot\<lparr>hab := h, rand_pos := p\<rparr>) = edges t (ot\<lparr>hab := h\<rparr>)"
  by (simp add: edges_def getIndices_def)

lemma build_tries_ok:
  assumes t: "plain t" and s: "sizes t ot"
  shows "(\<exists>j < n. acyclic_seed t ot j) \<Longrightarrow> \<exists>ot'. build_tries t n ot = Inr ot' \<and> othello_inv t ot' \<and> same_keys ot ot'"
    "\<not> (\<exists>j < n. acyclic_seed t ot j) \<Longrightarrow> build_tries t n ot = Inl (Thrown ''exception'')"
proof -
  have "(if \<exists>j < n. acyclic_seed t ot j then \<exists>ot'. build_tries t n ot = Inr ot' \<and> othello_inv t ot' \<and> same_keys ot ot'
     else build_tries t n ot = Inl (Thrown ''exception''))"
    using s
  proof (induction n arbitrary: ot)
    case (Suc n)
    let ?o = "new_seed t ot"
    have so: "sizes t ?o" using Suc.prems by (simp add: new_seed_eq sizes_def nodes_def)
    have e: "edges t ?o = edges t (ot\<lparr>hab := seed_at t (rand_pos ot)\<rparr>)" by (simp add: new_seed_eq edges_seed)
    have a0: "forest (edges t ?o) = acyclic_seed t ot 0" by (simp add: acyclic_seed_def e)
    obtain o1 where T: "tryBuild t ?o = Inr (forest (edges t ?o), o1)" "sizes t o1" "same_keys ?o o1"
      "rand_pos o1 = rand_pos ?o" "forest (edges t ?o) \<Longrightarrow> othello_inv t o1"
      using tryBuild_ok[OF t so] by metis
    have sk: "same_keys ot o1" using T(3) by (simp add: same_keys_def new_seed_eq)
    show ?case
    proof (cases "acyclic_seed t ot 0")
      case True
      then have "build_tries t (Suc n) ot = Inr o1" using T(1) a0 by simp
      then show ?thesis using True T(5) a0 sk by auto
    next
      case False
      have "rand_pos o1 = rand_pos ot + 2" using T(4) by (simp add: new_seed_eq)
      then have sh: "acyclic_seed t o1 j = acyclic_seed t ot (Suc j)" for j
        using sk by (simp add: acyclic_seed_def edges_def getIndices_def same_keys_def)
      have ex: "(\<exists>j < n. acyclic_seed t o1 j) = (\<exists>j < Suc n. acyclic_seed t ot j)"
        unfolding sh using False by (metis Suc_less_eq not0_implies_Suc)
      have b: "build_tries t (Suc n) ot = build_tries t n o1" using T(1) a0 False by simp
      have tr: "same_keys o1 ot' \<Longrightarrow> same_keys ot ot'" for ot' using sk by (simp add: same_keys_def)
      show ?thesis using Suc.IH[OF T(2)] unfolding b ex using tr by (auto split: if_splits)
    qed
  qed simp
  then show "(\<exists>j < n. acyclic_seed t ot j) \<Longrightarrow> \<exists>ot'. build_tries t n ot = Inr ot' \<and> othello_inv t ot' \<and> same_keys ot ot'"
    "\<not> (\<exists>j < n. acyclic_seed t ot j) \<Longrightarrow> build_tries t n ot = Inl (Thrown ''exception'')" by presburger+
qed
end
