(* ===== verification/Othello_Data.thy ===== *)
theory Othello_Data
  imports Othello_Rebuild
begin

text \<open>
  The data plane of Othello (\<open>src/platform/data_plane_othello.h\<close>, class
  \<open>DataPlaneOthello\<close>): the packed cells, the two table sizes and the hash seeds, without
  keys, values or graph. A device holds one; it is filled by \<open>fullSync\<close> or from a decoded
  message and then kept current by \<open>mem_value_flipping\<close>. \<open>synced\<close> relates it to a control
  plane: same sizes, same seeds, same cells.
\<close>

record dplane =
  dmem :: "u64 list"
  dma :: nat
  dmb :: nat
  dhab :: u64
  dhd :: u32

subsection \<open>Indices and cells\<close>

definition fast_map_to_A :: "dplane \<Rightarrow> nat \<Rightarrow> nat" where
  "fast_map_to_A dp x = multiply_high_u32 x (dma dp)"

definition fast_map_to_B :: "dplane \<Rightarrow> nat \<Rightarrow> nat" where
  "fast_map_to_B dp x = multiply_high_u32 x (dmb dp)"

definition dp_getIndices :: "'k template \<Rightarrow> dplane \<Rightarrow> 'k \<Rightarrow> nat \<times> nat" where
  "dp_getIndices t dp k =
     (let hash = hash64 t (dhab dp) k;
          bInd = w32 (fast_map_to_B dp (w32 (unat (drop_bit 32 hash))) + dma dp);
          aInd = fast_map_to_A dp (w32 (unat hash))
      in (aInd, bInd))"

definition dp_memSet :: "'k template \<Rightarrow> nat \<Rightarrow> u64 \<Rightarrow> dplane \<Rightarrow> dplane res" where
  "dp_memSet t index value dp =
     (if VDL t = 0 then Inr dp
      else rbind (packed_set (VDL t) (w32 (index * VDL t)) value (dmem dp)) (\<lambda>m.
           Inr (dp\<lparr>dmem := m\<rparr>)))"

text \<open>\<open>memGet\<close> has no test for \<open>VDL == 0\<close>, unlike the control plane's.\<close>

definition dp_memGet :: "'k template \<Rightarrow> dplane \<Rightarrow> nat \<Rightarrow> u64 res" where
  "dp_memGet t dp index = packed_get (VDL t) (w32 (index * VDL t)) (dmem dp)"

definition dp_memValueSet :: "'k template \<Rightarrow> nat \<Rightarrow> u64 \<Rightarrow> dplane \<Rightarrow> dplane res" where
  "dp_memValueSet t index value dp =
     (if tL t = 0 then Inr dp
      else rbind (packed_set (tL t) (w32 (w32 (index * VDL t) + tDL t)) value (dmem dp)) (\<lambda>m.
           Inr (dp\<lparr>dmem := m\<rparr>)))"

definition dp_memValueGet :: "'k template \<Rightarrow> dplane \<Rightarrow> nat \<Rightarrow> u64 res" where
  "dp_memValueGet t dp index =
     (if tL t = 0 then Inr 0
      else packed_get (tL t) (w32 (w32 (index * VDL t) + tDL t)) (dmem dp))"

subsection \<open>Filling, marking and fixing one node\<close>

definition dp_fillSingle :: "'k template \<Rightarrow> bool \<Rightarrow> u32 \<Rightarrow> nat \<Rightarrow> dplane \<Rightarrow> dplane res" where
  "dp_fillSingle t keepDigest valueToFill nodeToFill dp =
     (if keepDigest then dp_memValueSet t nodeToFill (ucast valueToFill) dp
      else dp_memSet t nodeToFill (ucast valueToFill) dp)"

definition setTaken :: "'k template \<Rightarrow> nat \<Rightarrow> dplane \<Rightarrow> dplane res" where
  "setTaken t nodeIndex dp =
     (if tDL t \<noteq> 0 then rbind (dp_memGet t dp nodeIndex) (\<lambda>x. dp_memSet t nodeIndex (x OR 1) dp)
      else Inr dp)"

definition setEmpty :: "'k template \<Rightarrow> nat \<Rightarrow> dplane \<Rightarrow> dplane res" where
  "setEmpty t nodeIndex dp =
     (if tDL t \<noteq> 0 then rbind (dp_memGet t dp nodeIndex) (\<lambda>x. dp_memSet t nodeIndex (x AND NOT 1) dp)
      else Inr dp)"

definition dp_fixSingle :: "'k template \<Rightarrow> bool \<Rightarrow> nat \<Rightarrow> u64 \<Rightarrow> dplane \<Rightarrow> dplane res" where
  "dp_fixSingle t keepDigest nodeToFix x dp =
     (if keepDigest then
        rbind (dp_memValueGet t dp nodeToFix) (\<lambda>w. dp_memValueSet t nodeToFix (x XOR w) dp)
      else
        rbind (dp_memGet t dp nodeToFix) (\<lambda>w. dp_memSet t nodeToFix (x XOR w) dp))"

definition fixHalfTreeByConnectedComponent :: "'k template \<Rightarrow> nat list \<Rightarrow> u32 \<Rightarrow> dplane \<Rightarrow> dplane res" where
  "fixHalfTreeByConnectedComponent t indices xorTemplate =
     rfold (\<lambda>index. dp_fixSingle t True index (ucast xorTemplate)) indices"

subsection \<open>Lookup\<close>

text \<open>The returned flag and the out parameter \<open>v\<close>, which is set on every path.\<close>

definition dp_query :: "'k template \<Rightarrow> dplane \<Rightarrow> 'k \<Rightarrow> (bool \<times> u32) res" where
  "dp_query t dp k =
     (let (ha, hb) = dp_getIndices t dp k
      in rbind (dp_memGet t dp ha) (\<lambda>aa.
         rbind (dp_memGet t dp hb) (\<lambda>bb.
         let vd = aa XOR bb;
             v = (ucast (drop_bit (tDL t) vd) :: u32)
         in if tDL t = 0 then Inr (True, v)
            else if \<not> bit aa 0 \<or> \<not> bit bb 0 then Inr (False, v)
            else if tDL t = 1 then Inr (True, v)
            else let digest = (ucast (vd AND low_mask (tDL t)) :: u32)
                 in Inr (ucast (digest OR 1) = (((ucast (hash32 t (dhd dp) k) :: u64) AND low_mask (tDL t)) OR 1), v))))"

definition dp_query_throw :: "'k template \<Rightarrow> dplane \<Rightarrow> 'k \<Rightarrow> u32 res" where
  "dp_query_throw t dp k =
     rbind (dp_query t dp k) (\<lambda>(success, result).
     if success then Inr result else Inl (Thrown ''No matched key! ''))"

subsection \<open>Updates from the control plane\<close>

definition mem_value_flipping :: "nat list \<Rightarrow> dplane \<Rightarrow> dplane res" where
  "mem_value_flipping flipped_indexes =
     rfold (\<lambda>index_code dp.
       let bucket_index = index_code div 2 ^ 6; entry_index = index_code mod 64
       in rbind (vat (dmem dp) bucket_index) (\<lambda>x.
          rbind (vput (dmem dp) bucket_index (x XOR push_bit entry_index 1)) (\<lambda>m.
          Inr (dp\<lparr>dmem := m\<rparr>)))) flipped_indexes"

definition dplane_default :: dplane where
  "dplane_default = \<lparr>dmem = [], dma = 0, dmb = 0, dhab = 0xe2211e2211, dhd = 0xe2211\<rparr>"

definition dplane_new :: "u64 list \<Rightarrow> nat \<Rightarrow> nat \<Rightarrow> u64 \<Rightarrow> u32 \<Rightarrow> dplane" where
  "dplane_new m a b h d = \<lparr>dmem = m, dma = a, dmb = b, dhab = h, dhd = d\<rparr>"

text \<open>\<open>fullSync\<close> from a control plane that maintains its data plane.\<close>

definition fullSync :: "'k othello \<Rightarrow> dplane \<Rightarrow> dplane" where
  "fullSync cp dp = dp\<lparr>dma := ma cp, dmb := mb cp, dhab := hab cp, dmem := mem cp, dhd := hd_seed cp\<rparr>"

text \<open>The overload for a control plane that does not: it fills the cells first.\<close>

definition fullSync_prepare :: "'k template \<Rightarrow> 'k othello \<Rightarrow> dplane \<Rightarrow> ('k othello \<times> dplane) res" where
  "fullSync_prepare t cp dp =
     rbind (prepareDP t cp) (\<lambda>cp1.
     Inr (cp1, dp\<lparr>dma := ma cp1, dmb := mb cp1, dhab := hab cp1, dhd := hd_seed cp1, dmem := mem cp1\<rparr>))"

definition dplane_of :: "'k othello \<Rightarrow> dplane" where
  "dplane_of cp = fullSync cp dplane_default"

definition dp_getMemoryCost :: "dplane \<Rightarrow> nat" where
  "dp_getMemoryCost dp = length (dmem dp) * 8"

subsection \<open>Agreement with a control plane\<close>

definition synced :: "'k template \<Rightarrow> 'k othello \<Rightarrow> dplane \<Rightarrow> bool" where
  "synced t ot dp \<longleftrightarrow> dma dp = ma ot \<and> dmb dp = mb ot \<and> dhab dp = hab ot \<and> dhd dp = hd_seed ot \<and>
     nodes ot * tL t \<le> 64 * length (dmem dp) \<and>
     (\<forall>j < nodes ot. cell_val (tL t) (dmem dp) j = value_cell t ot j)"

lemma syncedD:
  assumes "synced t ot dp"
  shows "dma dp = ma ot" "dmb dp = mb ot" "dhab dp = hab ot" "dhd dp = hd_seed ot"
    "nodes ot * tL t \<le> 64 * length (dmem dp)"
    "j < nodes ot \<Longrightarrow> cell_val (tL t) (dmem dp) j = value_cell t ot j"
  using assms by (auto simp: synced_def)

lemma fullSync_synced: "sizes t ot \<Longrightarrow> synced t ot (fullSync ot dp)"
  by (simp add: synced_def fullSync_def sizes_def value_cell_def)

lemma synced_indices: "synced t ot dp \<Longrightarrow> dp_getIndices t dp k = getIndices t ot k"
  by (simp add: dp_getIndices_def getIndices_def fast_map_to_A_def fast_map_to_B_def syncedD)

lemma synced_cells: "plain t \<Longrightarrow> synced t ot dp \<Longrightarrow> cells_valid (tL t) (nodes ot) (dmem dp)"
  by (simp add: cells_valid_def syncedD)

lemma synced_get:
  assumes "plain t" "sizes t ot" "synced t ot dp" "i < nodes ot"
  shows "dp_memGet t dp i = Inr (value_cell t ot i)"
  using packed.get_cell[OF synced_cells[OF assms(1,3)] assms(4)] cell_pos[OF assms(1,2,4)] assms(1)
    syncedD(6)[OF assms(3,4)]
  by (simp add: dp_memGet_def)

text \<open>A device in sync answers every lookup as the control plane does.\<close>

lemma synced_query:
  assumes "plain t" "sizes t ot" "synced t ot dp"
  shows "\<exists>v. dp_query t dp k = Inr (True, v) \<and> query t ot k = Inr (Some v)"
proof -
  obtain a b where ab: "getIndices t ot k = (a, b)" by force
  note r = getIndices_range[OF assms(2) ab]
  from synced_get[OF assms r(4)] synced_get[OF assms r(3)] ab synced_indices[OF assms(3)] assms(1)
    query_total[OF assms(1,2), of k]
  show ?thesis by (simp add: dp_query_def)
qed

text \<open>For one-bit cells, flipping a position changes its cell and no other.\<close>

lemma bit_cell_one: "cells_valid 1 n m \<Longrightarrow> j < n \<Longrightarrow> cell_val 1 m j = of_bool (mbit m j)"
  by (rule bit_word_eqI) (auto simp: bit_cell_val bit_simps)

lemma mbit_flip:
  assumes "i < 64 * length m" "j < 64 * length m"
  shows "mbit (m[i div 64 := m ! (i div 64) XOR push_bit (i mod 64) 1]) j = (mbit m j \<noteq> (j = i))"
proof -
  have i: "i div 64 < length m" using assms(1) by (simp add: less_mult_imp_div_less mult.commute)
  have "j = i \<longleftrightarrow> j div 64 = i div 64 \<and> j mod 64 = i mod 64"
    by (metis div_mult_mod_eq)
  then show ?thesis using i
    by (cases "j div 64 = i div 64") (auto simp: mbit_def nth_list_update bit_simps)
qed

lemma flip_one:
  assumes "i < 64 * length (dmem dp)"
  shows "mem_value_flipping (i # is) dp =
    mem_value_flipping is (dp\<lparr>dmem := (dmem dp)[i div 64 := dmem dp ! (i div 64) XOR push_bit (i mod 64) 1]\<rparr>)"
proof -
  have i: "i div 64 < length (dmem dp)" using assms by (simp add: less_mult_imp_div_less mult.commute)
  then show ?thesis by (simp add: mem_value_flipping_def Let_def)
qed

lemma mem_value_flipping_ok:
  assumes "set fl \<subseteq> {..<64 * length (dmem dp)}" "distinct fl"
  shows "\<exists>m. mem_value_flipping fl dp = Inr (dp\<lparr>dmem := m\<rparr>) \<and> length m = length (dmem dp) \<and>
    (\<forall>j < 64 * length m. mbit m j = (mbit (dmem dp) j \<noteq> (j \<in> set fl)))"
  using assms
proof (induction fl arbitrary: dp)
  case Nil
  show ?case by (rule exI[of _ "dmem dp"]) (simp add: mem_value_flipping_def)
next
  case (Cons i fl)
  define m1 where "m1 = (dmem dp)[i div 64 := dmem dp ! (i div 64) XOR push_bit (i mod 64) 1]"
  have l: "length m1 = length (dmem dp)" by (simp add: m1_def)
  from Cons.prems l have "set fl \<subseteq> {..<64 * length (dmem (dp\<lparr>dmem := m1\<rparr>))}" "distinct fl" by simp_all
  from Cons.IH[OF this] obtain m where m: "mem_value_flipping fl (dp\<lparr>dmem := m1\<rparr>) = Inr (dp\<lparr>dmem := m\<rparr>)"
    "length m = length m1" "\<forall>j < 64 * length m. mbit m j = (mbit m1 j \<noteq> (j \<in> set fl))" by auto
  have "mem_value_flipping (i # fl) dp = Inr (dp\<lparr>dmem := m\<rparr>)"
    using m(1) flip_one[of i dp fl] Cons.prems(1) by (simp add: m1_def)
  moreover have "mbit m j = (mbit (dmem dp) j \<noteq> (j \<in> set (i # fl)))" if "j < 64 * length m" for j
    using m that l mbit_flip[of i "dmem dp" j] Cons.prems by (auto simp: m1_def)
  ultimately show ?case using m(2) l by auto
qed

text \<open>The positions an operation notes bring a synced device to the new state.\<close>

lemma flip_synced:
  assumes "plain t" "tL t = 1" "sizes t ot" "sizes t ot'" "synced t ot dp" "noted t ot ot' fl"
  shows "\<exists>dp'. mem_value_flipping fl dp = Inr dp' \<and> synced t ot' dp' \<and> length (dmem dp') = length (dmem dp)"
proof -
  note S = syncedD[OF assms(5)]
  from assms(6) have pl: "ma ot' = ma ot" "mb ot' = mb ot" "hab ot' = hab ot" "hd_seed ot' = hd_seed ot"
    and fl: "distinct fl" "set fl = {j. j < nodes ot \<and> value_cell t ot' j \<noteq> value_cell t ot j}"
    by (simp_all add: noted_def same_plane_def)
  have n: "nodes ot' = nodes ot" using pl by (simp add: nodes_def)
  have le: "nodes ot \<le> 64 * length (dmem dp)" using S(5) assms(2) by simp
  then have "set fl \<subseteq> {..<64 * length (dmem dp)}" unfolding fl(2) by (intro subsetI) simp
  from mem_value_flipping_ok[OF this fl(1)] obtain m where m:
    "mem_value_flipping fl dp = Inr (dp\<lparr>dmem := m\<rparr>)" "length m = length (dmem dp)"
    "\<forall>j < 64 * length m. mbit m j = (mbit (dmem dp) j \<noteq> (j \<in> set fl))" by blast
  have v: "cells_valid 1 (nodes ot) (dmem dp)" "cells_valid 1 (nodes ot) m"
    "cells_valid 1 (nodes ot) (mem ot)" "cells_valid 1 (nodes ot) (mem ot')"
    using le m(2) sizes_cells[OF assms(1,3)] sizes_cells[OF assms(1,4)] assms(2) n by (simp_all add: cells_valid_def)
  have "cell_val 1 m j = value_cell t ot' j" if j: "j < nodes ot" for j
  proof -
    have V: "value_cell t ot j = of_bool (mbit (mem ot) j)" "value_cell t ot' j = of_bool (mbit (mem ot') j)"
      "cell_val (tL t) (dmem dp) j = of_bool (mbit (dmem dp) j)"
      unfolding value_cell_def assms(2) by (rule bit_cell_one[OF v(3) j] bit_cell_one[OF v(4) j] bit_cell_one[OF v(1) j])+
    from S(6)[OF j] have "mbit (dmem dp) j = mbit (mem ot) j" by (simp only: V of_bool_eq_iff)
    moreover have "j \<in> set fl \<longleftrightarrow> mbit (mem ot') j \<noteq> mbit (mem ot) j"
      using j by (simp only: fl(2) mem_Collect_eq V of_bool_eq_iff simp_thms)
    ultimately have "mbit m j = mbit (mem ot') j" using m(2,3) j le by auto
    then show ?thesis by (simp only: bit_cell_one[OF v(2) j] V(2))
  qed
  with m S assms(2) pl n le show ?thesis by (auto simp: synced_def)
qed

end
