(* ===== verification/Othello_Session.thy ===== *)
theory Othello_Session
  imports Othello_Data
begin

text \<open>
  A control plane and a device that follows it: the refused insertion that asks for a
  rebuild, the rebuild itself, and \<open>session\<close>, the relation of all reachable pairs of a
  control plane and a data plane together with the map of keys to values both should
  represent. One rule per update of the control plane; after each, the device applies the
  positions the update noted, or is synchronised in full after a rebuild.
\<close>

subsection \<open>Refused insertions and rebuilds\<close>

lemma insert_on_demand_cyclic:
  assumes inv: "othello_inv t ot" and n: "keyCnt ot < length (keys ot)" and k: "k \<notin> dom (contents ot)"
    and ac: "\<not> acyclic_with t ot k"
  obtains cf where
    "insert_on_demand t (k, v) (ot, fl) = Inr (False, (grow (k, v) ot)\<lparr>connectivityForest := cf\<rparr>, fl)"
    "length cf = nodes ot"
proof -
  note I = invD[OF inv] and Gf = grow_facts[OF invD(3)[OF inv] n, of k v]
  obtain a b where ab: "getIndices t ot k = (a, b)" by force
  note r = getIndices_range[OF I(3) ab]
  obtain R d where "joined ot (edges t ot) R d" using inv by (auto simp: othello_inv_def)
  then have j: "joined (grow (k, v) ot) (edges t ot) R d" using Gf(5) by simp
  have ab2: "a < nodes (grow (k, v) ot)" "b < nodes (grow (k, v) ot)" using r Gf(8) by simp_all
  obtain cf where C: "isConnectedDFS t a b (grow (k, v) ot) = Inr (conn (edges t ot) a b, (grow (k, v) ot)\<lparr>connectivityForest := cf\<rparr>)"
    "joined ((grow (k, v) ot)\<lparr>connectivityForest := cf\<rparr>) (edges t ot) R d"
    using isConnected_ok[OF I(2) j ab2] by metis
  have w: "w32 (keyCnt ot + 1) = Suc (keyCnt ot)" using n I(10) by simp
  have g: "ot\<lparr>keyCnt := Suc (keyCnt ot), keys := (keys ot)[keyCnt ot := k], vals := (vals ot)[keyCnt ot := v]\<rparr> = grow (k, v) ot"
    by (simp add: grow_def)
  have nc: "conn (edges t ot) a b" using ac ab by (simp add: acyclic_with_def)
  have "insert_on_demand t (k, v) (ot, fl) = Inr (False, (grow (k, v) ot)\<lparr>connectivityForest := cf\<rparr>, fl)"
    unfolding insert_on_demand_def using n I(9) k C(1) w ab Gf(9)
    by (simp add: isMember_ok[OF inv] g nc Let_def plainD(4)[OF I(2)])
  moreover have "length cf = nodes ot" using joinedD(1)[OF C(2)] Gf(8) by (simp add: nodes_def)
  ultimately show thesis using that by blast
qed

text \<open>The table a refused insertion leaves: sound for a rebuild, not for anything else.\<close>

lemma refused_state:
  assumes inv: "othello_inv t ot" and n: "keyCnt ot < length (keys ot)" and k: "k \<notin> dom (contents ot)"
    and ac: "\<not> acyclic_with t ot k" and cf: "length cf = nodes ot"
  shows "sizes t ((grow (k, v) ot)\<lparr>connectivityForest := cf\<rparr>)"
    "\<not> othello_inv t ((grow (k, v) ot)\<lparr>connectivityForest := cf\<rparr>)"
    "contents ((grow (k, v) ot)\<lparr>connectivityForest := cf\<rparr>) = (contents ot)(k \<mapsto> v)"
proof -
  note I = invD[OF inv] and Gf = grow_facts[OF invD(3)[OF inv] n, of k v]
  let ?o = "(grow (k, v) ot)\<lparr>connectivityForest := cf\<rparr>" and ?H = "insert (keyCnt ot, getIndices t ot k) (edges t ot)"
  show "sizes t ?o" using Gf(1,8) cf by (simp add: sizes_def nodes_def)
  have e: "edges t ?o = ?H" using Gf(2) by (simp add: edges_def getIndices_def)
  obtain a b where ab: "getIndices t ot k = (a, b)" by force
  have "without (keyCnt ot) ?H = edges t ot" by (auto simp: without_def edges_def)
  then have "\<not> forest ?H" using ac ab by (auto simp: forest_def acyclic_with_def)
  then show "\<not> othello_inv t ?o" using invD(4)[of t ?o] e by auto
  have "k \<notin> set (take (keyCnt ot) (keys ot))" using k contents_dom[OF inv] I(8) by (auto simp: in_set_conv_nth)
  moreover have "length (take (keyCnt ot) (keys ot)) = length (take (keyCnt ot) (vals ot))" using I(8,9) by simp
  ultimately have "contents (grow (k, v) ot) = (contents ot)(k \<mapsto> v)"
    using map_of_zip_snoc Gf(10) by (metis contents_def)
  then show "contents ?o = (contents ot)(k \<mapsto> v)" by (simp add: contents_def)
qed

lemma build_ok:
  assumes "plain t" "sizes t ot"
  shows "case build t ot of
      Inr ot' \<Rightarrow> (\<exists>j < MAX_REHASH. acyclic_seed t ot j) \<and> othello_inv t ot' \<and> same_keys ot ot'
    | Inl e \<Rightarrow> (\<forall>j < MAX_REHASH. \<not> acyclic_seed t ot j) \<and> e = Thrown ''exception''"
proof (cases "\<exists>j < MAX_REHASH. acyclic_seed t ot j")
  case True
  from build_tries_ok(1)[OF assms True] True show ?thesis by (auto simp: build_def)
next
  case False
  from build_tries_ok(2)[OF assms False] False show ?thesis by (auto simp: build_def)
qed

lemma build_returns:
  assumes "plain t" "sizes t ot" "build t ot = Inr ot'"
  shows "othello_inv t ot'" "contents ot' = contents ot"
  using build_ok[OF assms(1,2)] assms(3) same_keys_contents by auto

text \<open>\<open>checkIntegrity\<close> finds nothing wrong.\<close>

lemma checkIntegrity_true:
  assumes inv: "othello_inv t ot"
  shows "checkIntegrity t ot = Inr True"
proof -
  note I = invD[OF inv]
  let ?f = "\<lambda>i _. rbind (vat (keys ot) i) (\<lambda>k. rbind (query t ot k) (\<lambda>q.
       rbind (guard AssertFailed (q \<noteq> None)) (\<lambda>_. rbind (vat (vals ot) i) (\<lambda>v.
       rbind (guard AssertFailed ((ucast (the q) :: u64) AND low_mask (tL t) = ucast v AND low_mask (tL t))) (\<lambda>_.
       rbind (queryIndex t ot k) (\<lambda>j. rbind (guard AssertFailed (j = i)) (\<lambda>_. Inr True)))))))"
  have low: "(ucast (v AND mask (tL t) :: u32) :: u64) AND low_mask (tL t) = ucast v AND low_mask (tL t)" for v
    using I(2) by (intro bit_word_eqI) (auto simp: bit_simps plainD dest: bit_imp_le_length)
  have step: "?f i s = Inr True" if i: "i < keyCnt ot" for i s
  proof -
    have "contents ot (keys ot ! i) = Some (vals ot ! i)" using contents_iff[OF inv] i by blast
    from query_stored[OF inv this] queryIndex_stored[OF inv i] i I(8,9) low show ?thesis by simp
  qed
  have "\<exists>s'. rfold ?f [0..<keyCnt ot] True = Inr s' \<and> s'"
    using rfold_inv[of "\<lambda>_ s. s" True "[0..<keyCnt ot]" ?f] step by auto
  then obtain s' where R: "rfold ?f [0..<keyCnt ot] True = Inr s'" "s'" by blast
  have "s' = True" using R(2) by simp
  from R(1)[unfolded this] show ?thesis unfolding checkIntegrity_def .
qed

subsection \<open>Sessions\<close>

inductive session :: "'k template \<Rightarrow> 'k othello \<Rightarrow> dplane \<Rightarrow> ('k \<rightharpoonup> u32) \<Rightarrow> bool" for t where
  start: "othello_inv t ot \<Longrightarrow> session t ot (dplane_of ot) (contents ot)"
| flip: "session t ot dp m \<Longrightarrow> m k \<noteq> None \<Longrightarrow> valueFlip_on_demand t (k, v) (ot, []) = Inr (ot', fl) \<Longrightarrow>
     mem_value_flipping fl dp = Inr dp' \<Longrightarrow> session t ot' dp' (m(k \<mapsto> v))"
| insert: "session t ot dp m \<Longrightarrow> m k = None \<Longrightarrow> keyCnt ot < length (keys ot) \<Longrightarrow>
     insert_on_demand t (k, v) (ot, []) = Inr (True, ot', fl) \<Longrightarrow>
     mem_value_flipping fl dp = Inr dp' \<Longrightarrow> session t ot' dp' (m(k \<mapsto> v))"
| insert_rebuild: "session t ot dp m \<Longrightarrow> m k = None \<Longrightarrow> keyCnt ot < length (keys ot) \<Longrightarrow>
     insert_on_demand t (k, v) (ot, []) = Inr (False, ot', fl) \<Longrightarrow>
     build t ot' = Inr ot'' \<Longrightarrow> session t ot'' (fullSync ot'' dp) (m(k \<mapsto> v))"
| erase: "session t ot dp m \<Longrightarrow> erase_on_demand t k NOKEY (ot, []) = Inr (ot', fl) \<Longrightarrow>
     mem_value_flipping fl dp = Inr dp' \<Longrightarrow> session t ot' dp' (m(k := None))"
| rebuild: "session t ot dp m \<Longrightarrow> build t ot = Inr ot' \<Longrightarrow> session t ot' (fullSync ot' dp) m"

lemma insert_on_demand_result:
  assumes inv: "othello_inv t ot" and n: "keyCnt ot < length (keys ot)" and k: "contents ot k = None"
    and ins: "insert_on_demand t (k, v) (ot, fl) = Inr (b, ot', fl')"
  shows "b = acyclic_with t ot k"
    "b \<Longrightarrow> othello_inv t ot' \<and> contents ot' = (contents ot)(k \<mapsto> v) \<and> (\<exists>new. fl' = fl @ new \<and> noted t ot ot' new)"
    "\<not> b \<Longrightarrow> sizes t ot' \<and> contents ot' = (contents ot)(k \<mapsto> v) \<and> fl' = fl"
proof -
  have k': "k \<notin> dom (contents ot)" using k by auto
  show b: "b = acyclic_with t ot k"
  proof (cases "acyclic_with t ot k")
    case True
    obtain o2 new where "insert_on_demand t (k, v) (ot, fl) = Inr (True, o2, fl @ new)"
      using insert_on_demand_ok[OF inv n k' True, of v fl] by metis
    with ins True show ?thesis by simp
  next
    case False
    obtain cf where "insert_on_demand t (k, v) (ot, fl) = Inr (False, (grow (k, v) ot)\<lparr>connectivityForest := cf\<rparr>, fl)"
      using insert_on_demand_cyclic[OF inv n k' False, of v fl] by metis
    with ins False show ?thesis by simp
  qed
  show "othello_inv t ot' \<and> contents ot' = (contents ot)(k \<mapsto> v) \<and> (\<exists>new. fl' = fl @ new \<and> noted t ot ot' new)" if T: b
  proof -
    obtain o2 new where "insert_on_demand t (k, v) (ot, fl) = Inr (True, o2, fl @ new)" "othello_inv t o2"
      "contents o2 = (contents ot)(k \<mapsto> v)" "noted t ot o2 new"
      using insert_on_demand_ok[OF inv n k' T[unfolded b], of v fl] by metis
    with ins show ?thesis by auto
  qed
  show "sizes t ot' \<and> contents ot' = (contents ot)(k \<mapsto> v) \<and> fl' = fl" if T: "\<not> b"
  proof -
    obtain cf where I: "insert_on_demand t (k, v) (ot, fl) = Inr (False, (grow (k, v) ot)\<lparr>connectivityForest := cf\<rparr>, fl)"
      "length cf = nodes ot"
      using insert_on_demand_cyclic[OF inv n k' T[unfolded b], of v fl] by metis
    with ins refused_state(1,3)[OF inv n k' T[unfolded b] I(2), of v] show ?thesis by auto
  qed
qed

lemma flipped_again:
  assumes "tL t = 1" "othello_inv t ot" "synced t ot dp" "othello_inv t ot'" "noted t ot ot' fl"
    "mem_value_flipping fl dp = Inr dp'"
  shows "synced t ot' dp'"
  using flip_synced[OF invD(2)[OF assms(2)] assms(1) invD(3)[OF assms(2)] invD(3)[OF assms(4)] assms(3,5)] assms(6)
  by auto

lemma session_ok:
  assumes "tL t = 1" "session t ot dp m"
  shows "othello_inv t ot \<and> contents ot = m \<and> synced t ot dp"
  using assms(2)
proof (induction rule: session.induct)
  case (start ot)
  then show ?case using fullSync_synced[OF invD(3)[OF start]] by (simp add: dplane_of_def)
next
  case (flip ot dp m k v ot' fl dp')
  then have h: "othello_inv t ot" "contents ot k \<noteq> None" "contents ot = m" by auto
  obtain o2 new where "valueFlip_on_demand t (k, v) (ot, []) = Inr (o2, [] @ new)" "othello_inv t o2"
    "contents o2 = (contents ot)(k \<mapsto> v)" "noted t ot o2 new"
    using valueFlip_ok[OF h(1,2), of v "[]"] by metis
  with flip(3) have n: "othello_inv t ot'" "contents ot' = m(k \<mapsto> v)" "noted t ot ot' fl" using h(3) by simp_all
  from flip(5) flipped_again[OF assms(1) h(1) _ n(1,3) flip(4)] n show ?case by blast
next
  case (insert ot dp m k v ot' fl dp')
  then have h: "othello_inv t ot" "contents ot k = None" "contents ot = m" by auto
  from insert_on_demand_result(2)[OF h(1) insert(3) h(2) insert(4)] h(3)
  have "othello_inv t ot'" "contents ot' = m(k \<mapsto> v)" "noted t ot ot' fl" by auto
  with insert(6) flipped_again[OF assms(1) h(1) _ _ _ insert(5)] show ?case by blast
next
  case (insert_rebuild ot dp m k v ot' fl ot'')
  then have h: "othello_inv t ot" "contents ot k = None" "contents ot = m" by auto
  from insert_on_demand_result(3)[OF h(1) insert_rebuild(3) h(2) insert_rebuild(4)] h(3)
  have r: "sizes t ot'" "contents ot' = m(k \<mapsto> v)" by auto
  note B = build_returns[OF invD(2)[OF h(1)] r(1) insert_rebuild(5)]
  with r fullSync_synced[OF invD(3)[OF B(1)]] show ?case by simp
next
  case (erase ot dp m k ot' fl dp')
  then have h: "othello_inv t ot" "contents ot = m" by auto
  obtain o2 new where "erase_on_demand t k NOKEY (ot, []) = Inr (o2, [] @ new)" "othello_inv t o2"
    "contents o2 = (contents ot)(k := None)" "noted t ot o2 new"
    using erase_ok[OF h(1), of k "[]"] by metis
  with erase(2) have n: "othello_inv t ot'" "contents ot' = m(k := None)" "noted t ot ot' fl" using h(2) by simp_all
  from erase(4) flipped_again[OF assms(1) h(1) _ n(1,3) erase(3)] n show ?case by blast
next
  case (rebuild ot dp m ot')
  then have h: "othello_inv t ot" "contents ot = m" by auto
  note B = build_returns[OF invD(2,3)[OF h(1)] rebuild(2)]
  with h fullSync_synced[OF invD(3)[OF B(1)]] show ?case by simp
qed

lemma session_answers:
  assumes "tL t = 1" "session t ot dp m" "m k = Some v"
  shows "dp_query t dp k = Inr (True, v AND 1)" "query t ot k = Inr (Some (v AND 1))"
proof -
  from session_ok[OF assms(1,2)] have h: "othello_inv t ot" "contents ot k = Some v" "synced t ot dp"
    using assms(3) by auto
  have "mask (tL t) = (1 :: u32)" using assms(1) by simp
  with query_stored[OF h(1,2)] show q: "query t ot k = Inr (Some (v AND 1))" by simp
  with synced_query[OF invD(2,3)[OF h(1)] h(3), of k] show "dp_query t dp k = Inr (True, v AND 1)" by auto
qed

text \<open>A step of the device never reads out of bounds.\<close>

lemma session_flips:
  assumes "tL t = 1" "session t ot dp m" "othello_inv t ot'" "noted t ot ot' fl"
  shows "\<exists>dp'. mem_value_flipping fl dp = Inr dp'"
proof -
  from session_ok[OF assms(1,2)] have h: "othello_inv t ot" "synced t ot dp" by auto
  from flip_synced[OF invD(2)[OF h(1)] assms(1) invD(3)[OF h(1)] invD(3)[OF assms(3)] h(2) assms(4)]
  show ?thesis by blast
qed

end
