(* ===== verification/Othello_Theorems.thy ===== *)
theory Othello_Theorems
  imports Othello_Session
begin

text \<open>
  The properties of Othello, each with a witness on one small table: two cells of one bit on
  each side, room for four keys, natural numbers as keys. Keys 0 to 2 make a forest; key 4
  has the two nodes of key 0.
\<close>

definition demo :: "nat template" where
  "demo = \<lparr>tL = 1, tDL = 0, tMaintainDP = True, tMaintainDisjointSet = True, tRandomized = False,
     hash64 = (\<lambda>_ k. word_of_nat (k mod 2 * 2 ^ 31 + k div 2 mod 2 * 2 ^ 63)), hash32 = (\<lambda>_ _. 0),
     rand = word_of_nat\<rparr>"

definition demo0 :: "nat \<Rightarrow> nat othello" where
  "demo0 n = \<lparr>mem = [0], ma = 2, mb = 2, hab = 0, hd_seed = 0, maintainingDP = True, keyCnt = 0,
     minimalKeyCapacity = 0, keys = replicate n 0, vals = replicate n 0, indMem = [0, 0, 0, 0],
     head = replicate 4 zero_cell, nextAtA = replicate n zero_cell, nextAtB = replicate n zero_cell,
     connectivityForest = [0, 0, 0, 0], rand_pos = 0\<rparr>"

definition demo_empty :: "nat \<Rightarrow> nat othello" where
  "demo_empty n = (case tryBuild demo (demo0 n) of Inr (_, ot) \<Rightarrow> ot | Inl _ \<Rightarrow> demo0 n)"

definition demo1 :: "nat othello" where
  "demo1 = demo_empty 4"

definition demo2 :: "nat othello" where
  "demo2 = (case insert_on_demand demo (0, 1) (demo1, []) of Inr (_, ot, _) \<Rightarrow> ot | Inl _ \<Rightarrow> demo1)"

lemma demo_plain: "plain demo" "tL demo = 1"
  by (simp_all add: plain_def demo_def)

lemma demo0_sizes: "n < 2 ^ 32 \<Longrightarrow> sizes demo (demo0 n)"
  by (simp add: sizes_def nodes_def demo0_def demo_def)

lemma demo_empty_inv:
  assumes "n < 2 ^ 32"
  shows "othello_inv demo (demo_empty n)" "keyCnt (demo_empty n) = 0" "length (keys (demo_empty n)) = n"
    "ma (demo_empty n) = 2" "mb (demo_empty n) = 2"
proof -
  have e: "edges demo (demo0 n) = {}" by (simp add: edges_def demo0_def)
  obtain ot' where "tryBuild demo (demo0 n) = Inr (True, ot')" "same_keys (demo0 n) ot'" "othello_inv demo ot'"
    using tryBuild_ok[OF demo_plain(1) demo0_sizes[OF assms]] unfolding e using forest_empty by metis
  then show "othello_inv demo (demo_empty n)" "keyCnt (demo_empty n) = 0" "length (keys (demo_empty n)) = n"
    "ma (demo_empty n) = 2" "mb (demo_empty n) = 2"
    by (simp_all add: demo_empty_def same_keys_def) (simp_all add: demo0_def)
qed

lemma demo1_inv: "othello_inv demo demo1" "keyCnt demo1 = 0" "length (keys demo1) = 4" "ma demo1 = 2" "mb demo1 = 2"
  by (simp_all add: demo1_def demo_empty_inv)

lemma demo1_empty: "contents demo1 = Map.empty"
  by (simp add: contents_def demo1_inv)

lemma demo_getIndices: "ma ot = 2 \<Longrightarrow> mb ot = 2 \<Longrightarrow> getIndices demo ot k = (k mod 2, 2 + k div 2 mod 2)"
proof -
  assume m: "ma ot = 2" "mb ot = 2"
  have "k mod 2 = 0 \<or> k mod 2 = 1" "k div 2 mod 2 = 0 \<or> k div 2 mod 2 = 1" by auto
  with m show ?thesis
    by (elim disjE) (simp_all add: getIndices_def demo_def multiply_high_u32_def w32_def take_bit_eq_mod drop_bit_eq_div)
qed

lemma demo1_acyclic: "acyclic_with demo demo1 k"
proof -
  have e: "edges demo demo1 = {}" by (simp add: edges_def demo1_inv)
  have l: "links {} = {}" by (auto simp: links_def)
  have "conn {} a b \<longleftrightarrow> a = b" for a b by (simp add: conn_def l)
  then show ?thesis by (simp add: acyclic_with_def e demo_getIndices demo1_inv)
qed

lemma demo2_inv: "othello_inv demo demo2" "contents demo2 = [0 \<mapsto> 1]" "keyCnt demo2 = 1" "length (keys demo2) = 4"
  "ma demo2 = 2" "mb demo2 = 2" "insert_on_demand demo (0, 1) (demo1, []) = Inr (True, demo2, snd (snd (projr (insert_on_demand demo (0, 1) (demo1, [])))))"
proof -
  have n: "keyCnt demo1 < length (keys demo1)" "0 \<notin> dom (contents demo1)" by (simp_all add: demo1_inv demo1_empty)
  obtain ot' new where "insert_on_demand demo (0, 1) (demo1, []) = Inr (True, ot', [] @ new)" "othello_inv demo ot'"
    "contents ot' = (contents demo1)(0 \<mapsto> 1)" "noted demo demo1 ot' new" "keyCnt ot' = Suc (keyCnt demo1)"
    "length (keys ot') = length (keys demo1)"
    using insert_on_demand_ok[OF demo1_inv(1) n demo1_acyclic] by metis
  then show "othello_inv demo demo2" "contents demo2 = [0 \<mapsto> 1]" "keyCnt demo2 = 1" "length (keys demo2) = 4"
    "ma demo2 = 2" "mb demo2 = 2" "insert_on_demand demo (0, 1) (demo1, []) = Inr (True, demo2, snd (snd (projr (insert_on_demand demo (0, 1) (demo1, [])))))"
    by (simp_all add: demo2_def demo1_inv demo1_empty noted_def same_plane_def)
qed

lemma demo2_cyclic: "\<not> acyclic_with demo demo2 4"
proof -
  obtain i where "i < keyCnt demo2" "keys demo2 ! i = 0"
    using contents_dom[OF demo2_inv(1), of 0] by (auto simp: demo2_inv)
  then have "(i, getIndices demo demo2 4) \<in> edges demo demo2"
    by (auto simp: edges_def demo_getIndices demo2_inv image_iff)
  then show ?thesis by (auto simp: acyclic_with_def demo_getIndices demo2_inv intro: conn_edge)
qed
subsection \<open>Lookups\<close>

text \<open>
  C32: under the invariant the table refines a finite map: \<open>isMember\<close> decides membership for
  every key, \<open>query\<close> returns for every key (no access out of bounds) and answers a stored key
  with its value cut to \<open>L\<close> bits, and the \<open>i\<close>-th stored key has index \<open>i\<close>.
\<close>

theorem othello_lookup:
  assumes "othello_inv t ot"
  shows "isMember t ot k = Inr (k \<in> dom (contents ot)) \<and> (\<exists>v. query t ot k = Inr (Some v)) \<and>
    (\<forall>v. contents ot k = Some v \<longrightarrow> query t ot k = Inr (Some (v AND mask (tL t)))) \<and>
    (\<forall>i < keyCnt ot. queryIndex t ot (keys ot ! i) = Inr i)"
  using isMember_ok[OF assms] query_total[OF invD(2,3)[OF assms], of k] query_stored[OF assms]
    queryIndex_stored[OF assms] by (auto split: prod.splits)

lemma othello_lookup_witness:
  "isMember demo demo2 0 = Inr True \<and> query demo demo2 0 = Inr (Some 1)"
  using othello_lookup[OF demo2_inv(1), of 0] by (auto simp: demo2_inv demo_plain)

text \<open>
  \<open>checkIntegrity\<close>, the self-check of the control plane (three assertions per key), returns
  true in every table that satisfies the invariant.
\<close>

theorem othello_integrity:
  assumes "othello_inv t ot"
  shows "checkIntegrity t ot = Inr True"
  by (rule checkIntegrity_true[OF assms])

lemma othello_integrity_witness: "checkIntegrity demo demo2 = Inr True"
  by (rule othello_integrity[OF demo2_inv(1)])

subsection \<open>Updates\<close>

text \<open>
  C24: \<open>valueFlip\<close> of a stored key and its twin that notes positions return the same table; it
  keeps the invariant, maps the key to the new value and no other key, and the twin appends
  exactly the positions whose cells changed, each once.
\<close>

theorem othello_valueFlip:
  assumes "othello_inv t ot" "k \<in> dom (contents ot)"
  shows "\<exists>ot' new. valueFlip t (k, v) ot = Inr ot' \<and> valueFlip_on_demand t (k, v) (ot, fl) = Inr (ot', fl @ new) \<and>
    othello_inv t ot' \<and> contents ot' = (contents ot)(k \<mapsto> v) \<and> noted t ot ot' new"
proof -
  from assms(2) have "contents ot k \<noteq> None" by auto
  from valueFlip_ok[OF assms(1) this, of v fl] show ?thesis by metis
qed

lemma othello_valueFlip_witness:
  "\<exists>ot' new. valueFlip demo (0, 0) demo2 = Inr ot' \<and> valueFlip_on_demand demo (0, 0) (demo2, []) = Inr (ot', new) \<and>
    othello_inv demo ot' \<and> contents ot' = [0 \<mapsto> 0] \<and> noted demo demo2 ot' new"
  using othello_valueFlip[OF demo2_inv(1), of 0 0 "[]"] by (simp add: demo2_inv)

text \<open>
  C38: \<open>valueFlip\<close> does not check that its key is stored: on an absent key it either throws or
  overwrites the value of some other, stored key.
\<close>

theorem othello_valueFlip_absent:
  assumes "othello_inv t ot" "k \<notin> dom (contents ot)"
  shows "valueFlip t (k, v) ot = Inl (Thrown ''exception'') \<or>
    (\<exists>k' ot'. k' \<noteq> k \<and> k' \<in> dom (contents ot) \<and> valueFlip t (k, v) ot = Inr ot' \<and> contents ot' = (contents ot)(k' \<mapsto> v))"
proof -
  obtain i where i: "queryIndex t ot k = Inr i"
    using queryIndex_total[OF invD(3)[OF assms(1)], of k] by (auto split: prod.splits)
  show ?thesis
  proof (cases "i < keyCnt ot")
    case False
    then show ?thesis by (simp add: valueFlip_def i updateValueAt_def)
  next
    case True
    have d: "keys ot ! i \<in> dom (contents ot)" using contents_dom[OF assms(1)] True by blast
    then have ne: "keys ot ! i \<noteq> k" using assms(2) by blast
    obtain x ot' where U: "updateValueAt t i v ot = Inr (x, ot')"
      "frame (ot\<lparr>vals := (vals ot)[i := v]\<rparr>) ot'" using updateValueAt_ok[OF assms(1) True] by metis
    have "valueFlip t (k, v) ot = Inr ot'" by (simp add: valueFlip_def i U(1))
    with ne d contents_update[OF assms(1) True U(2)] show ?thesis by blast
  qed
qed

lemma othello_valueFlip_absent_witness:
  "valueFlip demo (4, 0) demo2 = Inl (Thrown ''exception'') \<or>
    (\<exists>k' ot'. k' \<noteq> 4 \<and> k' \<in> dom (contents demo2) \<and> valueFlip demo (4, 0) demo2 = Inr ot' \<and> contents ot' = (contents demo2)(k' \<mapsto> 0))"
  by (rule othello_valueFlip_absent[OF demo2_inv(1)]) (simp add: demo2_inv)

text \<open>
  C22: \<open>insert_on_demand\<close> of a new key, with room left, always returns: true exactly when the
  key's two nodes lie in different components; then the invariant holds again, the table has
  the key with its value, and the noted positions are exactly the changed cells. Otherwise it
  returns false and notes nothing, but the key is already counted, so the invariant is broken
  until a rebuild.
\<close>

theorem othello_insert:
  assumes "othello_inv t ot" "keyCnt ot < length (keys ot)" "k \<notin> dom (contents ot)"
  shows "\<exists>ot' new. insert_on_demand t (k, v) (ot, fl) = Inr (acyclic_with t ot k, ot', fl @ new) \<and>
    contents ot' = (contents ot)(k \<mapsto> v) \<and> keyCnt ot' = Suc (keyCnt ot) \<and> sizes t ot' \<and>
    (if acyclic_with t ot k then othello_inv t ot' \<and> noted t ot ot' new else \<not> othello_inv t ot' \<and> new = [])"
proof (cases "acyclic_with t ot k")
  case True
  from insert_on_demand_ok[OF assms True, of v fl] invD(3) True show ?thesis by metis
next
  case False
  obtain cf where R: "insert_on_demand t (k, v) (ot, fl) = Inr (False, (grow (k, v) ot)\<lparr>connectivityForest := cf\<rparr>, fl)"
    "length cf = nodes ot" using insert_on_demand_cyclic[OF assms False, of v fl] by metis
  let ?o = "(grow (k, v) ot)\<lparr>connectivityForest := cf\<rparr>"
  have "keyCnt ?o = Suc (keyCnt ot)" by (simp add: grow_def)
  with R(1) refused_state[OF assms False R(2), of v] False show ?thesis by (intro exI[of _ ?o] exI[of _ "[]"]) simp
qed

lemma othello_insert_witness:
  "\<exists>ot' new. insert_on_demand demo (4, 1) (demo2, []) = Inr (False, ot', [] @ new) \<and>
    contents ot' = [0 \<mapsto> 1, 4 \<mapsto> 1] \<and> keyCnt ot' = 2 \<and> sizes demo ot' \<and> \<not> othello_inv demo ot' \<and> new = []"
proof -
  have "keyCnt demo2 < length (keys demo2)" "4 \<notin> dom (contents demo2)" by (simp_all add: demo2_inv)
  from othello_insert[OF demo2_inv(1) this, of 1 "[]"] demo2_cyclic show ?thesis
    by (simp add: demo2_inv numeral_2_eq_2)
qed

text \<open>
  C39: \<open>insert_on_demand\<close> checks no capacity: in a full key vector a new key is written past the
  end of \<open>keys\<close>.
\<close>

theorem othello_insert_full:
  assumes "othello_inv t ot" "keyCnt ot = length (keys ot)" "k \<notin> dom (contents ot)"
  shows "insert_on_demand t (k, v) (ot, fl) = Inl OutOfBounds"
  using assms(2,3) by (simp add: insert_on_demand_def isMember_ok[OF assms(1)] vput_out)

lemma othello_insert_full_witness: "insert_on_demand demo (3, 1) (demo_empty 0, []) = Inl OutOfBounds"
  by (rule othello_insert_full[OF demo_empty_inv(1)]) (simp_all add: demo_empty_inv contents_def)

subsection \<open>Deletion and rebuild\<close>

text \<open>
  C23: \<open>erase\<close> returns for every key, stored or not, and so does its twin with the same table:
  the key is gone, every other key keeps its value, the invariant holds, and the twin appends
  exactly the positions whose cells changed.
\<close>

theorem othello_erase:
  assumes "othello_inv t ot"
  shows "\<exists>ot' new. erase t k NOKEY ot = Inr ot' \<and> erase_on_demand t k NOKEY (ot, fl) = Inr (ot', fl @ new) \<and>
    othello_inv t ot' \<and> contents ot' = (contents ot)(k := None) \<and> noted t ot ot' new"
  using erase_ok[OF assms, of k fl] by metis

lemma othello_erase_witness:
  "\<exists>ot' new. erase demo 0 NOKEY demo2 = Inr ot' \<and> erase_on_demand demo 0 NOKEY (demo2, [7]) = Inr (ot', [7] @ new) \<and>
    othello_inv demo ot' \<and> contents ot' = Map.empty \<and> noted demo demo2 ot' new"
  using othello_erase[OF demo2_inv(1), of 0 "[7]"] by (simp add: demo2_inv)

text \<open>
  C25: \<open>build\<close> terminates on every well-sized table, also one whose graph has cycles: it returns
  exactly when one of the next 50 seeds makes the key graph acyclic, then the invariant holds
  and keys, values and sizes are unchanged; otherwise it throws.
\<close>

theorem othello_build:
  assumes "plain t" "sizes t ot"
  shows "case build t ot of
      Inr ot' \<Rightarrow> (\<exists>j < MAX_REHASH. acyclic_seed t ot j) \<and> othello_inv t ot' \<and> same_keys ot ot'
    | Inl e \<Rightarrow> (\<forall>j < MAX_REHASH. \<not> acyclic_seed t ot j) \<and> e = Thrown ''exception''"
  by (rule build_ok[OF assms])

lemma othello_build_witness:
  "case build demo demo2 of
      Inr ot' \<Rightarrow> (\<exists>j < MAX_REHASH. acyclic_seed demo demo2 j) \<and> othello_inv demo ot' \<and> same_keys demo2 ot'
    | Inl e \<Rightarrow> (\<forall>j < MAX_REHASH. \<not> acyclic_seed demo demo2 j) \<and> e = Thrown ''exception''"
  by (rule othello_build[OF demo_plain(1) invD(3)[OF demo2_inv(1)]])

subsection \<open>The device\<close>

text \<open>
  C33: a device in sync (same sizes, seeds and cells) answers every lookup as the control plane
  does, and applying the noted positions of an update to its one-bit cells keeps it in sync
  with the updated control plane, without an access out of bounds.
\<close>

theorem device_follows:
  assumes "tL t = 1" "othello_inv t ot" "othello_inv t ot'" "synced t ot dp" "noted t ot ot' fl"
  shows "\<exists>dp'. mem_value_flipping fl dp = Inr dp' \<and> synced t ot' dp' \<and>
    (\<forall>k. \<exists>v. dp_query t dp' k = Inr (True, v) \<and> query t ot' k = Inr (Some v))"
proof -
  note I = invD[OF assms(2)] and I' = invD[OF assms(3)]
  obtain dp' where "mem_value_flipping fl dp = Inr dp'" "synced t ot' dp'"
    using flip_synced[OF I(2) assms(1) I(3) I'(3) assms(4,5)] by blast
  with synced_query[OF I'(2,3), of dp'] show ?thesis by blast
qed

text \<open>A flip of the stored key: the positions it notes, applied to the device.\<close>

lemma demo_flip:
  obtains ot new dp where "valueFlip_on_demand demo (0, 0) (demo2, []) = Inr (ot, new)" "othello_inv demo ot" "contents ot = [0 \<mapsto> 0]"
    "noted demo demo2 ot new" "mem_value_flipping new (dplane_of demo2) = Inr dp" "synced demo demo2 (dplane_of demo2)"
proof -
  obtain ot new where F: "valueFlip_on_demand demo (0, 0) (demo2, []) = Inr (ot, [] @ new)" "othello_inv demo ot"
    "contents ot = (contents demo2)(0 \<mapsto> 0)" "noted demo demo2 ot new"
    by (rule valueFlip_ok[OF demo2_inv(1), of 0 0 "[]"]) (auto simp: demo2_inv(2))
  have S: "synced demo demo2 (dplane_of demo2)" by (simp add: dplane_of_def fullSync_synced[OF invD(3)[OF demo2_inv(1)]])
  obtain dp where "mem_value_flipping new (dplane_of demo2) = Inr dp"
    using flip_synced[OF demo_plain invD(3)[OF demo2_inv(1)] invD(3)[OF F(2)] S F(4)] by blast
  with F S show thesis by (intro that) (simp_all add: demo2_inv(2))
qed

lemma device_follows_witness:
  "\<exists>ot new dp. valueFlip_on_demand demo (0, 0) (demo2, []) = Inr (ot, new) \<and> mem_value_flipping new (dplane_of demo2) = Inr dp \<and>
     synced demo ot dp \<and> dp_query demo (dplane_of demo2) 0 = Inr (True, 1) \<and> dp_query demo dp 0 = Inr (True, 0)"
proof -
  obtain ot new dp where F: "valueFlip_on_demand demo (0, 0) (demo2, []) = Inr (ot, new)" "othello_inv demo ot" "contents ot = [0 \<mapsto> 0]"
    "noted demo demo2 ot new" "mem_value_flipping new (dplane_of demo2) = Inr dp" "synced demo demo2 (dplane_of demo2)" by (rule demo_flip)
  from device_follows[OF demo_plain(2) demo2_inv(1) F(2,6,4)] F(5)
  have D: "synced demo ot dp" "\<exists>v. dp_query demo dp 0 = Inr (True, v) \<and> query demo ot 0 = Inr (Some v)" by auto
  have "query demo ot 0 = Inr (Some 0)" "query demo demo2 0 = Inr (Some 1)"
    using query_stored[OF F(2), of 0] query_stored[OF demo2_inv(1), of 0] by (simp_all add: F(3) demo2_inv(2) demo_plain)
  then have "dp_query demo dp 0 = Inr (True, 0)" "dp_query demo (dplane_of demo2) 0 = Inr (True, 1)"
    using D(2) synced_query[OF demo_plain(1) invD(3)[OF demo2_inv(1)] F(6), of 0] by auto
  with F(1,5) D(1) show ?thesis by blast
qed

text \<open>
  C2: in every reachable session of value flips, accepted and refused insertions (with their
  rebuild), deletions and rebuilds, starting from a full synchronisation, the control plane
  holds exactly the map of all updates so far and the device answers every stored key with
  its one-bit value.
\<close>

theorem session_correct:
  assumes "tL t = 1" "session t ot dp m"
  shows "othello_inv t ot \<and> contents ot = m \<and>
    (\<forall>k v. m k = Some v \<longrightarrow> dp_query t dp k = Inr (True, v AND 1) \<and> query t ot k = Inr (Some (v AND 1)))"
  using session_ok[OF assms] session_answers[OF assms] by blast

lemma session_correct_witness:
  "\<exists>ot dp. session demo ot dp [0 \<mapsto> 0] \<and> ot \<noteq> demo2 \<and> dp_query demo dp 0 = Inr (True, 0)"
proof -
  obtain ot new dp where F: "valueFlip_on_demand demo (0, 0) (demo2, []) = Inr (ot, new)" "othello_inv demo ot" "contents ot = [0 \<mapsto> 0]"
    "mem_value_flipping new (dplane_of demo2) = Inr dp" by (rule demo_flip)
  have "session demo demo2 (dplane_of demo2) [0 \<mapsto> 1]" using session.start[OF demo2_inv(1)] by (simp add: demo2_inv)
  from session.flip[OF this _ F(1,4)] have s: "session demo ot dp [0 \<mapsto> 0]" by simp
  have "contents ot 0 \<noteq> contents demo2 0" by (simp add: F(3) demo2_inv(2))
  then have "ot \<noteq> demo2" by blast
  moreover have "dp_query demo dp 0 = Inr (True, 0)" using session_correct[OF demo_plain(2) s] by simp
  ultimately show ?thesis using s by blast
qed

end
