(* ===== verification/Hash_Util.thy ===== *)
theory Hash_Util
  imports Prelude
begin

text \<open>
  The integer hash functions of \<open>src/utils/hashutil.h\<close> and the bit tricks of
  \<open>src/utils/helpers.cpp\<close> the vacuum filter uses. C \<open>int\<close> arguments are 32-bit words.
\<close>

subsection \<open>Hash functions\<close>

definition BOBHASH_MIX :: "u32 \<times> u32 \<times> u32 \<Rightarrow> u32 \<times> u32 \<times> u32" where
  "BOBHASH_MIX = (\<lambda>(a, b, c).
     let a = (a - b - c) XOR drop_bit 13 c; b = (b - c - a) XOR push_bit 8 a;  c = (c - a - b) XOR drop_bit 13 b;
         a = (a - b - c) XOR drop_bit 12 c; b = (b - c - a) XOR push_bit 16 a; c = (c - a - b) XOR drop_bit 5 b;
         a = (a - b - c) XOR drop_bit 3 c;  b = (b - c - a) XOR push_bit 10 a; c = (c - a - b) XOR drop_bit 15 b
     in (a, b, c))"

definition le32 :: "u8 \<Rightarrow> u8 \<Rightarrow> u8 \<Rightarrow> u8 \<Rightarrow> u32" where
  "le32 p q r s = ucast p + push_bit 8 (ucast q) + push_bit 16 (ucast r) + push_bit 24 (ucast s)"

text \<open>The loop over blocks of 12 bytes; it leaves the rest of the key.\<close>

fun bob_blocks :: "u8 list \<Rightarrow> u32 \<times> u32 \<times> u32 \<Rightarrow> (u32 \<times> u32 \<times> u32) \<times> u8 list" where
  "bob_blocks (k0 # k1 # k2 # k3 # k4 # k5 # k6 # k7 # k8 # k9 # k10 # k11 # ks) (a, b, c) =
     bob_blocks ks (BOBHASH_MIX (a + le32 k0 k1 k2 k3, b + le32 k4 k5 k6 k7, c + le32 k8 k9 k10 k11))"
| "bob_blocks ks abc = (abc, ks)"

text \<open>The \<open>switch\<close> with fall-through over the last 11 bytes.\<close>

definition bob_tail :: "u8 list \<Rightarrow> u32 \<times> u32 \<times> u32 \<Rightarrow> u32 \<times> u32 \<times> u32" where
  "bob_tail w = (\<lambda>(a, b, c).
     let n = length w;
         at = (\<lambda>i s. if i < n then push_bit s (ucast (w ! i)) else 0);
         c = c + at 10 24 + at 9 16 + at 8 8;
         b = b + at 7 24 + at 6 16 + at 5 8 + at 4 0;
         a = a + at 3 24 + at 2 16 + at 1 8 + at 0 0
     in (a, b, c))"

definition BobHash32 :: "u8 list \<Rightarrow> u32" where
  "BobHash32 key =
     (let g = 0x9e3779b9;
          ((a, b, c), w) = bob_blocks key (g, g, 0);
          (_, _, r) = BOBHASH_MIX (bob_tail w (a, b, c + word_of_nat (length key)))
      in r AND 0x7fffffff)"

definition MurmurHash32 :: "u32 \<Rightarrow> u32" where
  "MurmurHash32 h =
     (let h = h XOR drop_bit 16 h; h = h * 0x85ebca6b;
          h = h XOR drop_bit 13 h; h = h * 0xc2b2ae35
      in h XOR drop_bit 16 h)"

definition MurmurHash64 :: "u64 \<Rightarrow> u64" where
  "MurmurHash64 h =
     (let h = h XOR drop_bit 33 h; h = h * 0xff51afd7ed558ccd;
          h = h XOR drop_bit 33 h; h = h * 0xc4ceb9fe1a85ec53
      in h XOR drop_bit 33 h)"

subsection \<open>Bit tricks\<close>

text \<open>\<open>unsigned long\<close> has 64 bits on the platforms the build targets.\<close>

definition lower_power_of_two :: "u64 \<Rightarrow> u64" where
  "lower_power_of_two x =
     (let x = x OR drop_bit 1 x; x = x OR drop_bit 2 x; x = x OR drop_bit 4 x;
          x = x OR drop_bit 8 x; x = x OR drop_bit 16 x
      in x - drop_bit 1 x)"

definition MultiplyDeBruijnBitPosition :: "nat list" where
  "MultiplyDeBruijnBitPosition =
     [0, 9, 1, 10, 13, 21, 2, 29, 11, 14, 16, 18, 22, 25, 3, 30,
      8, 12, 20, 28, 15, 17, 24, 7, 19, 27, 23, 6, 26, 5, 4, 31]"

definition find_highest_bit :: "u32 \<Rightarrow> nat" where
  "find_highest_bit v =
     (let v = v OR signed_drop_bit 1 v; v = v OR signed_drop_bit 2 v; v = v OR signed_drop_bit 4 v;
          v = v OR signed_drop_bit 8 v; v = v OR signed_drop_bit 16 v
      in MultiplyDeBruijnBitPosition ! unat (drop_bit 27 (v * 0x07C4ACDD)))"

text \<open>\<open>for (; ret * 2 < x;) ret <<= 1\<close>, for \<open>x\<close> below \<open>2 ^ 31\<close> (more overflows \<open>int\<close>).\<close>

function double_below :: "nat \<Rightarrow> nat \<Rightarrow> nat" where
  "double_below x ret = (if 0 < ret \<and> ret * 2 < x then double_below x (2 * ret) else ret)"
  by pat_completeness auto
termination by (relation "measure (\<lambda>(x, ret). x - ret)") auto

declare double_below.simps [simp del]

definition upperpower2 :: "nat \<Rightarrow> nat" where
  "upperpower2 x = double_below x 1"

subsection \<open>The hash functions are injective\<close>

lemma xorshift_inj:
  fixes x y :: "'a::len word"
  assumes n: "0 < n" and e: "x XOR drop_bit n x = y XOR drop_bit n y"
  shows "x = y"
proof (rule bit_word_eqI)
  have E: "(bit x i \<noteq> bit x (i + n)) = (bit y i \<noteq> bit y (i + n))" if "i < LENGTH('a)" for i
    using arg_cong[OF e, of "\<lambda>z. bit z i"] that by (simp add: bit_simps add.commute)
  have "bit x i = bit y i" if "i < LENGTH('a)" for i
    using that
  proof (induction "LENGTH('a) - i" arbitrary: i rule: less_induct)
    case less
    show ?case
    proof (cases "i + n < LENGTH('a)")
      case True
      with less n have "bit x (i + n) = bit y (i + n)" by auto
      with E[OF less.prems] show ?thesis by auto
    next
      case False
      then have "\<not> bit x (i + n)" "\<not> bit y (i + n)" by (auto dest: bit_imp_le_length)
      with E[OF less.prems] show ?thesis by auto
    qed
  qed
  then show "i < LENGTH('a) \<Longrightarrow> bit x i = bit y i" for i by blast
qed

lemma mult_inj:
  fixes c d :: "'a::len word"
  assumes "d * c = 1" "x * c = y * c"
  shows "x = y"
proof -
  have "d * (x * c) = d * (y * c)" using assms(2) by simp
  then have "x * (d * c) = y * (d * c)" by (simp only: mult.left_commute)
  then show ?thesis using assms(1) by simp
qed

text \<open>Every step of the two mixers is injective: the products are by odd constants.\<close>

lemma MurmurHash32_inj: "inj MurmurHash32"
proof (rule injI)
  fix x y assume e: "MurmurHash32 x = MurmurHash32 y"
  have c: "(0xa5cb9243 :: u32) * 0x85ebca6b = 1" "(0x7ed1b41d :: u32) * 0xc2b2ae35 = 1" by simp_all
  let ?a = "\<lambda>h :: u32. (h XOR drop_bit 16 h) * 0x85ebca6b" and ?b = "\<lambda>h :: u32. (h XOR drop_bit 13 h) * 0xc2b2ae35"
  have "?b (?a x) = ?b (?a y)" using e unfolding MurmurHash32_def Let_def by (rule xorshift_inj[rotated]) simp
  from mult_inj[OF c(2) this] have "?a x = ?a y" by (rule xorshift_inj[rotated]) simp
  from mult_inj[OF c(1) this] show "x = y" by (rule xorshift_inj[rotated]) simp
qed

lemma MurmurHash64_inj: "inj MurmurHash64"
proof (rule injI)
  fix x y assume e: "MurmurHash64 x = MurmurHash64 y"
  have c: "(0x4f74430c22a54005 :: u64) * 0xff51afd7ed558ccd = 1" "(0x9cb4b2f8129337db :: u64) * 0xc4ceb9fe1a85ec53 = 1" by simp_all
  let ?a = "\<lambda>h :: u64. (h XOR drop_bit 33 h) * 0xff51afd7ed558ccd" and ?b = "\<lambda>h :: u64. (h XOR drop_bit 33 h) * 0xc4ceb9fe1a85ec53"
  have "?b (?a x) = ?b (?a y)" using e unfolding MurmurHash64_def Let_def by (rule xorshift_inj[rotated]) simp
  from mult_inj[OF c(2) this] have "?a x = ?a y" by (rule xorshift_inj[rotated]) simp
  from mult_inj[OF c(1) this] show "x = y" by (rule xorshift_inj[rotated]) simp
qed

subsection \<open>Smearing the highest bit\<close>

definition smeared :: "nat \<Rightarrow> 'a::len word \<Rightarrow> 'a word \<Rightarrow> bool" where
  "smeared k v s \<longleftrightarrow> (\<forall>i. bit s i \<longleftrightarrow> (\<exists>j < k. bit v (i + j)))"

lemma smeared_start: "smeared 1 v v"
  by (simp add: smeared_def)

lemma smeared_step:
  assumes "smeared k v s"
  shows "smeared (2 * k) v (s OR drop_bit k s)"
  unfolding smeared_def
proof
  fix i
  have "bit (s OR drop_bit k s) i \<longleftrightarrow> (\<exists>j < k. bit v (i + j)) \<or> (\<exists>j < k. bit v (k + i + j))"
    using assms unfolding smeared_def by (simp add: bit_simps)
  also have "\<dots> \<longleftrightarrow> (\<exists>j < 2 * k. bit v (i + j))"
  proof
    assume "\<exists>j < 2 * k. bit v (i + j)"
    then obtain j where "j < 2 * k" "bit v (i + j)" by blast
    then show "(\<exists>j < k. bit v (i + j)) \<or> (\<exists>j < k. bit v (k + i + j))"
    proof (cases "j < k")
      case False
      then have "j - k < k" "k + i + (j - k) = i + j" using \<open>j < 2 * k\<close> by auto
      then show ?thesis using \<open>bit v (i + j)\<close> by metis
    qed blast
  next
    assume "(\<exists>j < k. bit v (i + j)) \<or> (\<exists>j < k. bit v (k + i + j))"
    then show "\<exists>j < 2 * k. bit v (i + j)"
    proof
      assume "\<exists>j < k. bit v (i + j)"
      then obtain j where "j < k" "bit v (i + j)" by blast
      then show ?thesis by (intro exI[of _ j]) simp
    next
      assume "\<exists>j < k. bit v (k + i + j)"
      then obtain j where "j < k" "bit v (k + i + j)" by blast
      then show ?thesis by (intro exI[of _ "k + j"]) (simp add: ac_simps)
    qed
  qed
  finally show "bit (s OR drop_bit k s) i \<longleftrightarrow> (\<exists>j < 2 * k. bit v (i + j))" .
qed

lemma smeared_all:
  assumes "smeared k v s" "LENGTH('a) \<le> k" "bit v h" "\<And>i. bit v i \<Longrightarrow> i \<le> h"
  shows "s = (mask (Suc h) :: 'a::len word)"
proof (rule bit_word_eqI)
  fix i assume i: "i < LENGTH('a)"
  have h: "h < LENGTH('a)" using assms(3) by (rule bit_imp_le_length)
  have "(\<exists>j < k. bit v (i + j)) \<longleftrightarrow> i \<le> h"
  proof
    assume "\<exists>j < k. bit v (i + j)"
    then show "i \<le> h" using assms(4) by force
  next
    assume "i \<le> h"
    then show "\<exists>j < k. bit v (i + j)" using assms(2,3) h by (intro exI[of _ "h - i"]) auto
  qed
  then show "bit s i = bit (mask (Suc h) :: 'a word) i" using assms(1) i by (auto simp: smeared_def bit_simps)
qed

lemma signed_drop_bit_pos:
  "\<not> bit v (LENGTH('a) - 1) \<Longrightarrow> signed_drop_bit k (v :: 'a::len word) = drop_bit k v"
  by (rule bit_word_eqI) (auto simp: bit_simps dest: bit_imp_le_length)

lemma debruijn: "h < 31 \<Longrightarrow>
    MultiplyDeBruijnBitPosition ! unat (drop_bit 27 (mask (Suc h) * (0x07C4ACDD :: u32))) = h"
proof -
  have "list_all (\<lambda>h. MultiplyDeBruijnBitPosition ! unat (drop_bit 27 (mask (Suc h) * (0x07C4ACDD :: u32))) = h) [0..<31]"
    by code_simp
  then show "h < 31 \<Longrightarrow> MultiplyDeBruijnBitPosition ! unat (drop_bit 27 (mask (Suc h) * (0x07C4ACDD :: u32))) = h"
    by (simp add: list_all_iff)
qed

lemma find_highest_bit_ok:
  assumes "bit v h" "\<And>i. bit v i \<Longrightarrow> i \<le> h" "h < 31"
  shows "find_highest_bit v = h"
proof -
  let ?s1 = "v OR drop_bit 1 v" let ?s2 = "?s1 OR drop_bit 2 ?s1" let ?s3 = "?s2 OR drop_bit 4 ?s2"
  let ?s4 = "?s3 OR drop_bit 8 ?s3" let ?s5 = "?s4 OR drop_bit 16 ?s4"
  have S: "smeared 2 v ?s1" "smeared 4 v ?s2" "smeared 8 v ?s3" "smeared 16 v ?s4" "smeared 32 v ?s5"
    using smeared_step[OF smeared_start, of v] smeared_step[of 2 v ?s1] smeared_step[of 4 v ?s2]
      smeared_step[of 8 v ?s3] smeared_step[of 16 v ?s4] by simp_all
  have n: "\<not> bit s 31" if "smeared k v s" for k s
    using that assms(2,3) unfolding smeared_def by (metis le_add1 linorder_not_less order_trans)
  have d: "signed_drop_bit j s = drop_bit j s" if "smeared k v s" for k s j
    using n[OF that] by (intro signed_drop_bit_pos) simp
  have "?s5 = mask (Suc h)" by (rule smeared_all[OF S(5) _ assms(1,2)]) simp
  then show ?thesis unfolding find_highest_bit_def Let_def
    d[OF smeared_start] d[OF S(1)] d[OF S(2)] d[OF S(3)] d[OF S(4)] using debruijn[OF assms(3)] by simp
qed

lemma double_below_ok:
  "0 < ret \<Longrightarrow> ret < x \<Longrightarrow> \<exists>k. double_below x ret = ret * 2 ^ k \<and> double_below x ret < x \<and> x \<le> 2 * double_below x ret"
proof (induction x ret rule: double_below.induct)
  case (1 x ret)
  show ?case
  proof (cases "ret * 2 < x")
    case True
    from 1(1) 1(2) True obtain k where "double_below x (2 * ret) = 2 * ret * 2 ^ k" "double_below x (2 * ret) < x"
      "x \<le> 2 * double_below x (2 * ret)" by auto
    with True 1(2) show ?thesis
      by (intro exI[of _ "Suc k"]) (simp add: double_below.simps[of x ret])
  next
    case False
    with 1(3) show ?thesis by (intro exI[of _ 0]) (simp add: double_below.simps[of x ret])
  qed
qed

lemma top_bit:
  fixes v :: "'a::len word"
  assumes "2 ^ h \<le> unat v" "unat v < 2 ^ (h + 1)"
  shows "bit v h" "bit v i \<Longrightarrow> i \<le> h"
proof -
  have "unat v div 2 ^ h = 1" using assms by (intro div_nat_eqI) simp_all
  then have "bit (unat v) h" by (simp add: bit_iff_odd)
  then show "bit v h" by (simp add: bit_unsigned_iff)
  show "i \<le> h" if "bit v i"
  proof (rule ccontr)
    assume "\<not> i \<le> h"
    then have "(2::nat) ^ (h + 1) \<le> 2 ^ i" by (intro power_increasing) simp_all
    then have "unat v div 2 ^ i = 0" using assms(2) by simp
    then have "\<not> bit (unat v) i" by (simp add: bit_iff_odd)
    then show False using that by (simp add: bit_unsigned_iff)
  qed
qed

lemma find_highest_bit_unat:
  assumes "2 ^ h \<le> unat v" "unat v < 2 ^ (h + 1)" "h < 31"
  shows "find_highest_bit v = h"
  by (rule find_highest_bit_ok[OF top_bit(1,2)[OF assms(1,2)] assms(3)])

text \<open>
  Both MurmurHash finalisers permute their range: no two keys share a hash, so
  collisions of the filter come from the reduction to a bucket and a fingerprint only.
\<close>

theorem murmur_bijective: "bij MurmurHash32 \<and> bij MurmurHash64"
  using MurmurHash32_inj MurmurHash64_inj by (simp add: bij_betw_def finite_UNIV_inj_surj)

text \<open>
  C40: the De Bruijn lookup \<open>find_highest_bit\<close> is the binary logarithm of every positive \<open>int\<close>.
\<close>

theorem find_highest_bit_correct:
  assumes "0 < unat v" "unat v < 2 ^ 31"
  shows "2 ^ find_highest_bit v \<le> unat v \<and> unat v < 2 ^ (find_highest_bit v + 1)"
proof -
  obtain h where h: "2 ^ h \<le> unat v" "unat v < 2 ^ (h + 1)" using ex_power_ivl1[of 2 "unat v"] assms(1) by auto
  have "(2::nat) ^ h < 2 ^ 31" using h(1) assms(2) by (rule le_less_trans)
  then have "h < 31" by (rule power_less_imp_less_exp[rotated]) simp
  from find_highest_bit_unat[OF h this] h show ?thesis by simp
qed

lemma find_highest_bit_correct_witness: "2 ^ find_highest_bit 1000 \<le> (1000 :: nat) \<and> 1000 < (2 :: nat) ^ (find_highest_bit 1000 + 1)"
  using find_highest_bit_correct[of 1000] by simp

end
