(* ===== verification/Vacuum_Filter.thy ===== *)
theory Vacuum_Filter
  imports Hash_Util "HOL-Library.Signed_Division"
begin

text \<open>
  The vacuum filter of \<open>src/platform/cuckoo.h\<close> (\<open>SemiSortCuckooFilter\<close> and \<open>VacuumFilter\<close>
  with \<open>fp_t = uint64_t\<close>): a cuckoo filter with four fingerprints per bucket. A bucket is
  sorted; the high four bits of its fingerprints are replaced by the number of their
  sorted quadruple (12 bits instead of 16), the low bits are stored as they are, and the
  buckets are packed into \<open>T\<close>. C integers are \<open>int\<close>; \<open>T\<close> is the array of 32-bit words
  the code allocates, read and written in pairs as 64-bit words (little endian).
  \<open>default_random_engine\<close> is \<open>minstd_rand0\<close>, as in libstdc++.
\<close>

record vfilter =
  vn :: int
  vm :: int
  memory_consumption :: nat
  max_2_power :: int
  big_seg :: int
  len4 :: "int list"
  isSmall :: bool
  fp_len :: int
  eng :: nat
  T :: "u32 list"
  encode_table :: "u32 list"
  decode_table :: "u32 list"
  filled_cell :: int
  full_bucket :: int
  max_kick_steps :: int

text \<open>Conversions: to \<open>uint64_t\<close> as a natural number, to \<open>int\<close>.\<close>

definition to_u64 :: "int \<Rightarrow> nat" where
  "to_u64 x = nat (x mod 2 ^ 64)"

definition to_int :: "int \<Rightarrow> int" where
  "to_int x = sint (word_of_int x :: u32)"

text \<open>\<open>e()\<close>\<close>

definition minstd_rand0 :: "nat \<Rightarrow> nat" where
  "minstd_rand0 x = 16807 * x mod 2147483647"

subsection \<open>Positions and fingerprints\<close>

definition position_hash :: "vfilter \<Rightarrow> u64 \<Rightarrow> int res" where
  "position_hash f ele =
     rbind (guard Undefined (vn f \<noteq> 0)) (\<lambda>_.
     Inr ((sint ele smod vn f + vn f) smod vn f))"

definition fingerprint :: "vfilter \<Rightarrow> u64 \<Rightarrow> u64 res" where
  "fingerprint f ele =
     (if fp_len f = 0 then Inl Exit
      else rbind (guard Undefined (0 < fp_len f \<and> fp_len f < 64)) (\<lambda>_.
           Inr (MurmurHash64 (ele XOR 0x192837319273) mod (push_bit (nat (fp_len f)) 1 - 1) + 1)))"

definition alternate_small :: "vfilter \<Rightarrow> int \<Rightarrow> u64 \<Rightarrow> int" where
  "alternate_small f pos0 fp =
     (let n = vn f;
          fp_hash = sint (MurmurHash32 (ucast fp));
          delta = fp_hash AND (max_2_power f - 1);
          bias = delta;
          pos = pos0 + bias;
          pos = (if n \<le> pos then pos - n else pos);
          segment_length = sint (push_bit (find_highest_bit (word_of_int (pos XOR n))) 1 :: u32);
          t = delta AND (segment_length - 1);
          t = (if t = 0 then 1 else t);
          ret = pos XOR t;
          ret = ret - bias
      in if ret < 0 then ret + n else ret)"

definition alternate :: "vfilter \<Rightarrow> int \<Rightarrow> u64 \<Rightarrow> int res" where
  "alternate f pos fp =
     (if isSmall f then Inr (alternate_small f pos fp)
      else rbind (vat (len4 f) (unat (fp AND 3))) (\<lambda>seg.
           let fp_hash = (ucast (fp * 0x5bd1e995) :: u32)
           in Inr (sint (word_of_int pos XOR (fp_hash AND word_of_int seg)))))"

definition position_pair :: "vfilter \<Rightarrow> u64 \<Rightarrow> (int \<times> int) res" where
  "position_pair f ele0 =
     (let ele = MurmurHash64 (ele0 XOR 0x12891927)
      in rbind (fingerprint f ele) (\<lambda>fp.
         rbind (position_hash f ele) (\<lambda>p. let pos1 = to_int p in
         rbind (alternate f pos1 fp) (\<lambda>pos2. Inr (pos1, pos2)))))"

subsection \<open>The encoding tables\<close>

text \<open>The four nested loops, in order: the quadruples \<open>15 \<ge> i \<ge> j \<ge> k \<ge> l\<close> as 16 bits.\<close>

definition quads :: "nat list" where
  "quads = concat (map (\<lambda>i. concat (map (\<lambda>j. concat (map (\<lambda>k. map (\<lambda>l.
       push_bit 12 i + push_bit 8 j + push_bit 4 k + l)
     [0..<if k = 0 then 1 else k + 1]) [0..<if j = 0 then 1 else j + 1])) [0..<if i = 0 then 1 else i + 1])) [0..<16])"

definition fill_tables :: "vfilter \<Rightarrow> vfilter res" where
  "fill_tables f =
     (if vm f = 4 then
        rfold (\<lambda>(index, plain_bit) f.
          rbind (vput (encode_table f) plain_bit (word_of_nat index)) (\<lambda>e.
          rbind (vput (decode_table f) index (word_of_nat plain_bit)) (\<lambda>d.
          Inr (f\<lparr>encode_table := e, decode_table := d\<rparr>)))) (enumerate 0 quads) f
      else Inr f)"

subsection \<open>Buckets\<close>

definition t64_get :: "u32 list \<Rightarrow> nat \<Rightarrow> u64 res" where
  "t64_get arr i =
     rbind (vat arr (2 * i)) (\<lambda>lo. rbind (vat arr (2 * i + 1)) (\<lambda>hi.
     Inr (ucast lo OR push_bit 32 (ucast hi))))"

definition t64_put :: "u32 list \<Rightarrow> nat \<Rightarrow> u64 \<Rightarrow> u32 list res" where
  "t64_put arr i x =
     rbind (vput arr (2 * i) (ucast x)) (\<lambda>arr1. vput arr1 (2 * i + 1) (ucast (drop_bit 32 x)))"

text \<open>The bits \<open>start .. start + width - 1\<close> of \<open>arr\<close>, as \<open>get_bucket\<close> reads them.\<close>

definition read_bits :: "u32 list \<Rightarrow> nat \<Rightarrow> nat \<Rightarrow> u64 res" where
  "read_bits arr start_bit_pos end_bit_pos =
     (let unit_pos = (start_bit_pos - start_bit_pos mod 64) div 64;
          reading_lower_bound = start_bit_pos mod 64;
          reading_upper_bound = end_bit_pos mod 64
      in if start_bit_pos - start_bit_pos mod 64 = end_bit_pos - end_bit_pos mod 64 then
           rbind (t64_get arr unit_pos) (\<lambda>u.
           Inr (drop_bit reading_lower_bound (u AND drop_bit (63 - reading_upper_bound) (- 1))))
         else
           rbind (t64_get arr unit_pos) (\<lambda>u1.
           rbind (t64_get arr (unit_pos + 1)) (\<lambda>u2.
           rbind (guard Undefined (reading_upper_bound + 1 < 64)) (\<lambda>_.
           let t1 = drop_bit reading_lower_bound u1;
               t2 = push_bit (64 - reading_lower_bound) (u2 AND (push_bit (reading_upper_bound + 1) 1 - 1))
           in Inr (t1 + t2)))))"

definition write_bits :: "u32 list \<Rightarrow> nat \<Rightarrow> nat \<Rightarrow> u64 \<Rightarrow> u32 list res" where
  "write_bits arr start_bit_pos end_bit_pos all_encode =
     (let unit_pos = (start_bit_pos - start_bit_pos mod 64) div 64;
          wl = start_bit_pos mod 64;
          wu = end_bit_pos mod 64
      in if start_bit_pos - start_bit_pos mod 64 = end_bit_pos - end_bit_pos mod 64 then
           rbind (t64_get arr unit_pos) (\<lambda>u.
           rbind (guard Undefined (wu - wl + 1 < 64)) (\<lambda>_.
           t64_put arr unit_pos
             ((u AND ((push_bit wl 1 - 1) + ((- 1) - drop_bit (63 - wu) (- 1))))
              + push_bit wl (all_encode AND (push_bit (wu - wl + 1) 1 - 1)))))
         else
           rbind (t64_get arr unit_pos) (\<lambda>u1.
           rbind (t64_get arr (unit_pos + 1)) (\<lambda>u2.
           rbind (guard Undefined (wu + 1 < 64)) (\<lambda>_.
           let lower_part = all_encode AND (push_bit (64 - wl) 1 - 1);
               higher_part = drop_bit (64 - wl) all_encode
           in rbind (t64_put arr unit_pos ((u1 AND (push_bit wl 1 - 1)) + push_bit wl lower_part)) (\<lambda>arr1.
              t64_put arr1 (unit_pos + 1) (push_bit (wu + 1) (drop_bit (wu + 1) u2) + higher_part))))))"

text \<open>
  \<open>store\<close> is the array filled by \<open>get_bucket\<close>: four fingerprints and their number; its three
  unused elements are left out. The shifts by \<open>fp_len - 4\<close> and \<open>4 * (fp_len - 4)\<close> are defined
  for \<open>fp_len\<close> from 4 to 19.
\<close>

definition low_bits :: "nat \<Rightarrow> u64" where
  "low_bits w = push_bit w 1 - 1"

definition bucket_range :: "vfilter \<Rightarrow> int \<Rightarrow> nat \<times> nat" where
  "bucket_range f pos =
     (let bucket_length = nat ((fp_len f - 1) * 4);
          start_bit_pos = to_u64 pos * bucket_length mod 2 ^ 64
      in (start_bit_pos, (start_bit_pos + bucket_length - 1) mod 2 ^ 64))"

definition get_bucket :: "vfilter \<Rightarrow> int \<Rightarrow> u64 list res" where
  "get_bucket f pos =
     rbind (guard Undefined (4 \<le> fp_len f \<and> fp_len f \<le> 19)) (\<lambda>_.
     let w = nat (fp_len f - 4); (start_bit_pos, end_bit_pos) = bucket_range f pos
     in rbind (read_bits (T f) start_bit_pos end_bit_pos) (\<lambda>result.
        rbind (vat (decode_table f) (unat (drop_bit (4 * w) result))) (\<lambda>d.
        let decode_result = (ucast d :: u64);
            slot = (\<lambda>k. (drop_bit (k * w) result AND low_bits w) + push_bit w (drop_bit (4 * k) decode_result AND 15));
            s0 = slot 3; s1 = slot 2; s2 = slot 1; s3 = slot 0
        in Inr [s0, s1, s2, s3, of_bool (s0 \<noteq> 0) + of_bool (s1 \<noteq> 0) + of_bool (s2 \<noteq> 0) + of_bool (s3 \<noteq> 0)])))"

definition sort_pair :: "nat \<Rightarrow> nat \<Rightarrow> u64 list \<Rightarrow> u64 list" where
  "sort_pair i j s = (if s ! i < s ! j then s[i := s ! j, j := s ! i] else s)"

definition sort_store :: "u64 list \<Rightarrow> u64 list" where
  "sort_store s = sort_pair 1 2 (sort_pair 2 3 (sort_pair 0 1 (sort_pair 1 3 (sort_pair 0 2 s))))"

definition set_bucket :: "int \<Rightarrow> u64 list \<Rightarrow> vfilter \<Rightarrow> vfilter res" where
  "set_bucket pos store0 f =
     rbind (guard Undefined (4 \<le> fp_len f \<and> fp_len f \<le> 19)) (\<lambda>_.
     let store = sort_store store0;
         w = nat (fp_len f - 4);
         low_bit = (store ! 3 AND low_bits w) + push_bit w (store ! 2 AND low_bits w)
           + push_bit (2 * w) (store ! 1 AND low_bits w) + push_bit (3 * w) (store ! 0 AND low_bits w);
         high_bit = (drop_bit w (store ! 3) AND 15) + push_bit 4 (drop_bit w (store ! 2) AND 15)
           + push_bit 8 (drop_bit w (store ! 1) AND 15) + push_bit 12 (drop_bit w (store ! 0) AND 15)
     in rbind (vat (encode_table f) (unat high_bit)) (\<lambda>h.
        let all_encode = push_bit (4 * w) (ucast h) + low_bit;
            (start_bit_pos, end_bit_pos) = bucket_range f pos
        in rbind (write_bits (T f) start_bit_pos end_bit_pos all_encode) (\<lambda>T1.
           Inr (f\<lparr>T := T1\<rparr>))))"

definition insert_to_bucket :: "vfilter \<Rightarrow> u64 list \<Rightarrow> u64 \<Rightarrow> (nat \<times> u64 list) res" where
  "insert_to_bucket f store fp =
     rbind (vat store (nat (vm f))) (\<lambda>c.
     if c = word_of_int (vm f) then Inr (1 + 4, store)
     else rbind (vput store 3 fp) (\<lambda>s. Inr (0, s)))"

definition lookup_in_bucket :: "vfilter \<Rightarrow> int \<Rightarrow> u64 \<Rightarrow> nat res" where
  "lookup_in_bucket f pos fp =
     rbind (get_bucket f pos) (\<lambda>store.
     rbind (rfold (\<lambda>i (found, isFull).
              if found then Inr (found, isFull)
              else rbind (vat store i) (\<lambda>t.
                   if t = fp then Inr (True, isFull) else Inr (False, isFull \<and> t \<noteq> 0)))
            [0..<nat (vm f)] (False, True)) (\<lambda>(found, isFull).
     Inr (if found then 1 else if isFull then 2 else 3)))"

fun del_from :: "u64 list \<Rightarrow> int \<Rightarrow> u64 \<Rightarrow> nat list \<Rightarrow> vfilter \<Rightarrow> (nat \<times> vfilter) res" where
  "del_from store pos fp [] f = Inr (0, f)"
| "del_from store pos fp (i # is) f =
     rbind (vat store i) (\<lambda>t.
     if t = fp then
       rbind (vput store i 0) (\<lambda>s.
       rbind (set_bucket pos s (f\<lparr>filled_cell := filled_cell f - 1\<rparr>)) (\<lambda>f1. Inr (1, f1)))
     else del_from store pos fp is f)"

definition del_in_bucket :: "int \<Rightarrow> u64 \<Rightarrow> vfilter \<Rightarrow> (nat \<times> vfilter) res" where
  "del_in_bucket pos fp f =
     rbind (get_bucket f pos) (\<lambda>store. del_from store pos fp [0..<nat (vm f)] f)"

subsection \<open>Lookup, insertion, deletion\<close>

definition vf_lookup :: "vfilter \<Rightarrow> u64 \<Rightarrow> bool res" where
  "vf_lookup f ele0 =
     (let ele = MurmurHash64 (ele0 XOR 0x12891927)
      in rbind (fingerprint f ele) (\<lambda>fp.
         rbind (position_hash f ele) (\<lambda>p. let pos1 = to_int p in
         rbind (lookup_in_bucket f pos1 fp) (\<lambda>ok1.
         if ok1 = 1 then Inr True
         else rbind (alternate f pos1 fp) (\<lambda>pos2.
              rbind (alternate f pos2 fp) (\<lambda>back.
              rbind (guard AssertFailed (pos1 = back)) (\<lambda>_.
              rbind (lookup_in_bucket f pos2 fp) (\<lambda>ok2. Inr (ok2 = 1)))))))))"

definition vf_del :: "u64 \<Rightarrow> vfilter \<Rightarrow> (bool \<times> vfilter) res" where
  "vf_del ele0 f =
     (let ele = MurmurHash64 (ele0 XOR 0x12891927)
      in rbind (fingerprint f ele) (\<lambda>fp.
         rbind (position_hash f ele) (\<lambda>p. let pos1 = to_int p in
         rbind (del_in_bucket pos1 fp f) (\<lambda>(ok1, f1).
         if ok1 = 1 then Inr (True, f1)
         else rbind (alternate f1 pos1 fp) (\<lambda>pos2.
              rbind (del_in_bucket pos2 fp f1) (\<lambda>(ok2, f2). Inr (ok2 = 1, f2)))))))"

text \<open>
  One step of the kick loop looks for a fingerprint of the full bucket \<open>alt\<close> whose other
  bucket has room: \<open>Some (j, nex, store2)\<close> is the first.
\<close>

fun find_room :: "vfilter \<Rightarrow> int \<Rightarrow> u64 list \<Rightarrow> nat list \<Rightarrow> (nat \<times> int \<times> u64 list) option res" where
  "find_room f alt store1 [] = Inr None"
| "find_room f alt store1 (j # js) =
     rbind (vat store1 j) (\<lambda>x.
     rbind (alternate f alt x) (\<lambda>nex.
     rbind (get_bucket f nex) (\<lambda>store2.
     rbind (vat store2 (nat (vm f))) (\<lambda>c.
     if c < word_of_int (vm f) then Inr (Some (j, nex, store2)) else find_room f alt store1 js))))"

fun kick :: "nat \<Rightarrow> int \<Rightarrow> u64 \<Rightarrow> vfilter \<Rightarrow> (nat \<times> vfilter) res" where
  "kick 0 alt tmp_fp f = Inr (1, f)"
| "kick (Suc steps) alt tmp_fp f =
     rbind (get_bucket f alt) (\<lambda>store1.
     rbind (vat store1 (nat (vm f))) (\<lambda>c.
     if c = word_of_int (vm f) then
       rbind (find_room f alt store1 [0..<nat (vm f)]) (\<lambda>room.
       case room of
         Some (j, nex, store2) \<Rightarrow>
           rbind (vat store1 j) (\<lambda>x.
           rbind (vput store2 (nat (vm f - 1)) x) (\<lambda>s2.
           rbind (vput store1 j tmp_fp) (\<lambda>s1.
           rbind (set_bucket nex s2 (f\<lparr>filled_cell := filled_cell f + 1\<rparr>)) (\<lambda>f1.
           rbind (set_bucket alt s1 f1) (\<lambda>f2. Inr (0, f2))))))
       | None \<Rightarrow>
           (let e1 = minstd_rand0 (eng f); rk = e1 mod nat (vm f)
            in rbind (vat store1 rk) (\<lambda>fp.
               rbind (vput store1 rk tmp_fp) (\<lambda>s1.
               rbind (set_bucket alt s1 (f\<lparr>eng := e1\<rparr>)) (\<lambda>f1.
               rbind (alternate f1 alt fp) (\<lambda>alt1.
               kick steps alt1 fp f1))))))
     else
       rbind (vput store1 (nat (vm f - 1)) tmp_fp) (\<lambda>s1.
       rbind (set_bucket alt s1 (f\<lparr>filled_cell := filled_cell f + 1\<rparr>)) (\<lambda>f1. Inr (0, f1)))))"

text \<open>\<open>insert\<close> returns 0 on success and 1 when the kicks are exhausted.\<close>

definition vf_insert :: "u64 \<Rightarrow> vfilter \<Rightarrow> (nat \<times> vfilter) res" where
  "vf_insert ele0 f =
     (let ele = MurmurHash64 (ele0 XOR 0x12891927)
      in rbind (fingerprint f ele) (\<lambda>fp.
         rbind (position_hash f ele) (\<lambda>p. let cur1 = to_int p in
         rbind (alternate f cur1 fp) (\<lambda>cur2.
         rbind (get_bucket f cur1) (\<lambda>store1.
         rbind (get_bucket f cur2) (\<lambda>store2.
         rbind (vat store1 (nat (vm f))) (\<lambda>c1.
         rbind (vat store2 (nat (vm f))) (\<lambda>c2.
         let (cur, store) = (if c1 \<le> c2 then (cur1, store1) else (cur2, store2))
         in rbind (insert_to_bucket f store fp) (\<lambda>(r, s).
            if r = 0 then
              rbind (set_bucket cur s (f\<lparr>filled_cell := filled_cell f + 1\<rparr>)) (\<lambda>f1. Inr (0, f1))
            else
              rbind (guard Undefined (vm f \<noteq> 0)) (\<lambda>_.
              let e1 = minstd_rand0 (eng f); e2 = minstd_rand0 e1;
                  rk = e1 mod nat (vm f);
                  (cur, cur_store) = (if odd e2 then (cur1, store1) else (cur2, store2))
              in rbind (vat cur_store rk) (\<lambda>tmp_fp.
                 rbind (vput cur_store rk fp) (\<lambda>s1.
                 rbind (set_bucket cur s1 (f\<lparr>eng := e2\<rparr>)) (\<lambda>f1.
                 rbind (alternate f1 cur tmp_fp) (\<lambda>alt.
                 kick (nat (max_kick_steps f1)) alt tmp_fp f1))))))))))))))"

subsection \<open>Initialisation and copies\<close>

text \<open>
  \<open>fits M i alt_range\<close> stands for the floating-point test in \<open>proper_alt_range\<close> (the maximum
  load of balls in bins, computed with \<open>log\<close> and \<open>sqrt\<close>). The range doubles from 8; 31 rounds
  pass every \<open>int\<close>.
\<close>

fun alt_range_loop :: "(int \<Rightarrow> nat \<Rightarrow> int \<Rightarrow> bool) \<Rightarrow> nat \<Rightarrow> int \<Rightarrow> nat \<Rightarrow> int \<Rightarrow> int res" where
  "alt_range_loop fits 0 M i alt_range = Inl Diverges"
| "alt_range_loop fits (Suc fuel) M i alt_range =
     (if alt_range < M then
        (if fits M i alt_range then Inr alt_range
         else alt_range_loop fits fuel M i (2 * alt_range))
      else Inr (- 1))"

definition proper_alt_range :: "(int \<Rightarrow> nat \<Rightarrow> int \<Rightarrow> bool) \<Rightarrow> int \<Rightarrow> nat \<Rightarrow> int res" where
  "proper_alt_range fits M i = alt_range_loop fits 31 M i 8"

definition roundup :: "int \<Rightarrow> int \<Rightarrow> int" where
  "roundup a b = (a + (b - 1)) - (a + (b - 1)) smod b"

text \<open>The segment lengths of a large filter, and the number of buckets rounded up for them.\<close>

definition large_segments :: "(int \<Rightarrow> nat \<Rightarrow> int \<Rightarrow> bool) \<Rightarrow> int \<Rightarrow> vfilter \<Rightarrow> (int \<times> vfilter) res" where
  "large_segments fits n0 f =
     rbind (proper_alt_range fits n0 0) (\<lambda>r0.
     let seg = max 0 r0
     in rbind (guard Undefined (seg \<noteq> 0)) (\<lambda>_.
        let n = roundup n0 seg
        in rbind (proper_alt_range fits n 1) (\<lambda>r1.
           rbind (proper_alt_range fits n 2) (\<lambda>r2.
           rbind (proper_alt_range fits n 3) (\<lambda>r3.
           Inr (n, f\<lparr>big_seg := seg - 1,
                     len4 := [max (seg - 1) 1024, r1 - 1, r2 - 1, max (r3 - 1) 31]\<rparr>))))))"

definition vf_init :: "(int \<Rightarrow> nat \<Rightarrow> int \<Rightarrow> bool) \<Rightarrow> int \<Rightarrow> int \<Rightarrow> int \<Rightarrow> int \<Rightarrow> vfilter \<Rightarrow> vfilter res" where
  "vf_init fits n0 m step fp_length f0 =
     (let n1 = n0 + (n0 AND 1);
          small = (n1 < 1315800);
          f1 = f0\<lparr>fp_len := fp_length, isSmall := small\<rparr>
      in rbind (if small then Inr (n1, f1) else large_segments fits n1 f1) (\<lambda>(n, f2).
         let how_many_bit = to_u64 (n * m * (fp_length - 1));
             x = (how_many_bit + 64) mod 2 ^ 64 + 7;
             mc = (x - x mod 8) div 8 + 8
         in fill_tables (f2\<lparr>vn := n, vm := m, max_kick_steps := step, filled_cell := 0, full_bucket := 0,
              memory_consumption := mc, max_2_power := int (double_below (nat n) 1),
              T := replicate (mc div 4) 0, eng := 1\<rparr>)))"

definition init_with_params :: "nat \<Rightarrow> nat \<Rightarrow> int \<Rightarrow> int \<Rightarrow> int \<Rightarrow> int \<Rightarrow> int \<Rightarrow> int \<Rightarrow> bool \<Rightarrow> int list
    \<Rightarrow> int \<Rightarrow> u32 list \<Rightarrow> vfilter \<Rightarrow> vfilter res" where
  "init_with_params mc e n m filled kicks m2p bseg small lens fpl T0 f0 =
     (let f1 = f0\<lparr>eng := e, memory_consumption := mc, vn := n, vm := m, filled_cell := filled,
          max_kick_steps := kicks, max_2_power := m2p, big_seg := bseg, isSmall := small, len4 := lens,
          fp_len := fpl\<rparr>
      in rbind (rfold (\<lambda>i T. rbind (vat T0 i) (vput T i)) [0..<length T0] (replicate (mc div 4) 0)) (\<lambda>T1.
         fill_tables (f1\<lparr>T := T1\<rparr>)))"

text \<open>\<open>operator =\<close>: everything but \<open>full_bucket\<close>, with a fresh copy of \<open>T\<close>.\<close>

definition vf_assign :: "vfilter \<Rightarrow> vfilter \<Rightarrow> vfilter res" where
  "vf_assign f obj =
     (let mc = memory_consumption obj
      in rbind (rfold (\<lambda>i t. rbind (vat (T obj) i) (vput t i)) [0..<mc div 4] (replicate (mc div 4) 0)) (\<lambda>T1.
         Inr (obj\<lparr>full_bucket := full_bucket f, T := T1\<rparr>)))"

definition vf_clear :: "vfilter \<Rightarrow> vfilter" where
  "vf_clear f = f\<lparr>filled_cell := 0, T := map (\<lambda>_. 0) (T f)\<rparr>"

end
