(* ===== verification/Vacuum_Bits.thy ===== *)
theory Vacuum_Bits
  imports Vacuum_Filter
begin

text \<open>
  The array of the vacuum filter as a vector of bits: \<open>read_bits\<close> and \<open>write_bits\<close>, the two
  unaligned accesses of \<open>get_bucket\<close> and \<open>set_bucket\<close>, read and write exactly the bits of
  their range, also when it crosses a 64-bit unit.
\<close>

subsection \<open>The array as a vector of bits\<close>

definition tbit :: "u32 list \<Rightarrow> nat \<Rightarrow> bool" where
  "tbit arr p = bit (arr ! (p div 32)) (p mod 32)"

lemma split_unit:
  assumes "x < (32 :: nat)"
  shows "(64 * i + x) div 32 = 2 * i" "(64 * i + x) mod 32 = x"
    "(64 * i + (32 + x)) div 32 = 2 * i + 1" "(64 * i + (32 + x)) mod 32 = x"
proof -
  have e: "64 * i + x = x + 32 * (2 * i)" "64 * i + (32 + x) = x + 32 * (2 * i + 1)" by simp_all
  show "(64 * i + x) div 32 = 2 * i" "(64 * i + x) mod 32 = x"
    unfolding e div_mult_self2[of 32, simplified] mod_mult_self2 using assms by simp_all
  show "(64 * i + (32 + x)) div 32 = 2 * i + 1" "(64 * i + (32 + x)) mod 32 = x"
    unfolding e div_mult_self2[of 32, simplified] mod_mult_self2 using assms by simp_all
qed

lemma unit_of_word:
  fixes p :: nat
  shows "p div 32 = 2 * i \<Longrightarrow> p mod 64 = p mod 32 \<and> p div 64 = i"
    "p div 32 = 2 * i + 1 \<Longrightarrow> p mod 64 = 32 + p mod 32 \<and> p div 64 = i"
proof -
  have "p mod (32 * 2) = 32 * (p div 32 mod 2) + p mod 32" "p div (32 * 2) = p div 32 div 2"
    by (rule mod_mult2_eq, rule div_mult2_eq)
  then show "p div 32 = 2 * i \<Longrightarrow> p mod 64 = p mod 32 \<and> p div 64 = i"
    "p div 32 = 2 * i + 1 \<Longrightarrow> p mod 64 = 32 + p mod 32 \<and> p div 64 = i" by simp_all
qed

lemma t64_get_ok:
  assumes "2 * i + 1 < length arr"
  obtains u where "t64_get arr i = Inr u" "\<And>x. bit u x \<longleftrightarrow> x < 64 \<and> tbit arr (64 * i + x)"
proof
  let ?u = "ucast (arr ! (2 * i)) OR push_bit 32 (ucast (arr ! (2 * i + 1))) :: u64"
  show "t64_get arr i = Inr ?u" using assms by (simp add: t64_get_def)
  show "bit ?u x \<longleftrightarrow> x < 64 \<and> tbit arr (64 * i + x)" for x
  proof (cases "x < 32")
    case True
    then show ?thesis by (simp add: tbit_def bit_simps split_unit)
  next
    case False
    then obtain y where y: "x = 32 + y" by (metis le_add_diff_inverse linorder_not_less)
    have "bit (arr ! (2 * i + 1)) y \<longleftrightarrow> x < 64 \<and> tbit arr (64 * i + x)"
    proof (cases "y < 32")
      case True
      then show ?thesis unfolding y tbit_def by (simp add: split_unit)
    qed (auto simp: y dest: bit_imp_le_length)
    then show ?thesis using y by (auto simp: bit_simps dest: bit_imp_le_length)
  qed
qed

lemma t64_put_ok:
  assumes "2 * i + 1 < length arr"
  obtains arr' where "t64_put arr i v = Inr arr'" "length arr' = length arr"
    "\<And>p. tbit arr' p \<longleftrightarrow> (if p div 64 = i then bit v (p mod 64) else tbit arr p)"
proof
  let ?a = "arr[2 * i := ucast v, 2 * i + 1 := ucast (drop_bit 32 v)]"
  show "t64_put arr i v = Inr ?a" using assms by (simp add: t64_put_def)
  show "length ?a = length arr" by simp
  show "tbit ?a p \<longleftrightarrow> (if p div 64 = i then bit v (p mod 64) else tbit arr p)" for p
  proof -
    have d: "p div 64 = p div 32 div 2" by (simp add: div_mult2_eq[symmetric])
    consider "p div 32 = 2 * i" | "p div 32 = 2 * i + 1" | "p div 64 \<noteq> i" "p div 32 \<noteq> 2 * i" "p div 32 \<noteq> 2 * i + 1"
      unfolding d by fastforce
    then show ?thesis
    proof cases
      case 1
      then have m: "p mod 64 = p mod 32" "p div 64 = i" using unit_of_word(1)[of p i] by auto
      have "?a ! (p div 32) = ucast v" using assms by (simp add: 1)
      then have "tbit ?a p = bit (ucast v :: u32) (p mod 32)" by (simp only: tbit_def)
      also have "\<dots> = bit v (p mod 32)" by (simp add: bit_simps)
      finally show ?thesis by (simp only: m if_True refl)
    next
      case 2
      then have m: "p mod 64 = 32 + p mod 32" "p div 64 = i" using unit_of_word(2)[of p i] by auto
      have "?a ! (p div 32) = ucast (drop_bit 32 v)" using assms by (simp add: 2)
      then have "tbit ?a p = bit (ucast (drop_bit 32 v) :: u32) (p mod 32)" by (simp only: tbit_def)
      also have "\<dots> = bit v (32 + p mod 32)" by (simp add: bit_simps)
      finally show ?thesis by (simp only: m if_True refl)
    next
      case 3
      then show ?thesis by (simp add: tbit_def)
    qed
  qed
qed

lemma mask_push: "push_bit n 1 - 1 = (mask n :: 'a::len word)"
  by (simp add: mask_eq_exp_minus_1 push_bit_eq_mult)

lemma mask_drop: "k < 64 \<Longrightarrow> drop_bit (63 - k) (- 1 :: u64) = mask (k + 1)"
  by (rule bit_word_eqI) (auto simp: bit_simps)

lemma not_minus: "- 1 - x = NOT (x :: 'a::len word)"
  by (simp add: not_eq_complement)

lemma add_disjoint: "(\<And>n. \<not> (bit x n \<and> bit y n)) \<Longrightarrow> x + y = (x OR y :: 'a::len word)"
  by (rule disjunctive_add_eq_or) (simp add: bit_eq_iff bit_simps)

lemma unit_pos: "((s :: nat) - s mod 64) div 64 = s div 64"
  by (simp add: minus_mod_eq_mult_div)

lemma same_unit: "(s :: nat) - s mod 64 = e - e mod 64 \<longleftrightarrow> s div 64 = e div 64"
  by (simp add: minus_mod_eq_mult_div)

lemma split_pos:
  fixes s w :: nat
  assumes "0 < w" "w \<le> 64"
  obtains i wl where "s = 64 * i + wl" "wl < 64" "s div 64 = i" "s mod 64 = wl"
    "(s + w - 1) div 64 = i \<and> (s + w - 1) mod 64 = wl + w - 1 \<and> wl + w \<le> 64
     \<or> (s + w - 1) div 64 = i + 1 \<and> (s + w - 1) mod 64 = wl + w - 65 \<and> 64 < wl + w"
proof
  have arith1: "x + w - 1 = (a + w - 1) + 64 * j" if "x = 64 * j + a" for x a j using that assms by linarith
  have arith2: "x + w - 1 = (a + w - 65) + 64 * (j + 1)" if "x = 64 * j + a" "\<not> a + w \<le> 64" for x a j
    using that assms by simp
  let ?wl = "s mod 64" and ?i = "s div 64"
  show s: "s = 64 * ?i + ?wl" by simp
  show "?wl < 64" by simp
  show "s div 64 = ?i" "s mod 64 = ?wl" by (rule refl)+
  show "(s + w - 1) div 64 = ?i \<and> (s + w - 1) mod 64 = ?wl + w - 1 \<and> ?wl + w \<le> 64
     \<or> (s + w - 1) div 64 = ?i + 1 \<and> (s + w - 1) mod 64 = ?wl + w - 65 \<and> 64 < ?wl + w"
  proof (cases "?wl + w \<le> 64")
    case True
    then have e: "s + w - 1 = (?wl + w - 1) + 64 * ?i" "?wl + w - 1 < 64" using arith1[OF s] assms by simp_all
    have "(s + w - 1) div 64 = ?i" "(s + w - 1) mod 64 = ?wl + w - 1"
      unfolding e(1) div_mult_self2[of 64, simplified] mod_mult_self2 using e(2) by simp_all
    with True show ?thesis by simp
  next
    case False
    then have e: "s + w - 1 = (?wl + w - 65) + 64 * (?i + 1)" "?wl + w - 65 < 64"
      using arith2[OF s False] assms \<open>?wl < 64\<close> by simp_all
    have "(s + w - 1) div 64 = ?i + 1" "(s + w - 1) mod 64 = ?wl + w - 65"
      unfolding e(1) div_mult_self2[of 64, simplified] mod_mult_self2 using e(2) by simp_all
    with False show ?thesis by simp
  qed
qed

lemma read_bits_ok:
  assumes w: "0 < w" "w \<le> 64" and len: "2 * ((s + w - 1) div 64) + 1 < length arr"
  shows "\<exists>r. read_bits arr s (s + w - 1) = Inr r \<and> (\<forall>b. bit r b \<longleftrightarrow> b < w \<and> tbit arr (s + b))"
proof -
  obtain i wl where P: "s = 64 * i + wl" "wl < 64" "s div 64 = i" "s mod 64 = wl"
    "(s + w - 1) div 64 = i \<and> (s + w - 1) mod 64 = wl + w - 1 \<and> wl + w \<le> 64
     \<or> (s + w - 1) div 64 = i + 1 \<and> (s + w - 1) mod 64 = wl + w - 65 \<and> 64 < wl + w"
    using split_pos[OF w, of s] by metis
  from P(5) show ?thesis
  proof
    assume E: "(s + w - 1) div 64 = i \<and> (s + w - 1) mod 64 = wl + w - 1 \<and> wl + w \<le> 64"
    then have l: "2 * i + 1 < length arr" using len by simp
    obtain u where u: "t64_get arr i = Inr u" "\<And>x. bit u x \<longleftrightarrow> x < 64 \<and> tbit arr (64 * i + x)"
      using t64_get_ok[OF l] by metis
    let ?r = "drop_bit wl (u AND mask (wl + w - 1 + 1))"
    have "read_bits arr s (s + w - 1) = Inr ?r"
      using E w unfolding read_bits_def same_unit unit_pos Let_def
      by (simp add: P(3,4) u(1) mask_drop del: drop_bit_and)
    moreover have "bit ?r b \<longleftrightarrow> b < w \<and> tbit arr (s + b)" for b
      using E w by (auto simp: bit_simps u(2) P(1) ac_simps)
    ultimately show ?thesis by blast
  next
    assume E: "(s + w - 1) div 64 = i + 1 \<and> (s + w - 1) mod 64 = wl + w - 65 \<and> 64 < wl + w"
    then have l: "2 * i + 1 < length arr" "2 * (i + 1) + 1 < length arr" using len by simp_all
    obtain u1 where u1: "t64_get arr i = Inr u1" "\<And>x. bit u1 x \<longleftrightarrow> x < 64 \<and> tbit arr (64 * i + x)"
      using t64_get_ok[OF l(1)] by metis
    obtain u2 where u2: "t64_get arr (i + 1) = Inr u2" "\<And>x. bit u2 x \<longleftrightarrow> x < 64 \<and> tbit arr (64 * (i + 1) + x)"
      using t64_get_ok[OF l(2)] by metis
    let ?t1 = "drop_bit wl u1" and ?t2 = "push_bit (64 - wl) (u2 AND mask (wl + w - 65 + 1))"
    have o: "?t1 + ?t2 = ?t1 OR ?t2"
      by (rule add_disjoint) (auto simp: bit_simps u1(2))
    have g: "guard Undefined (wl + w - 65 < 63) = Inr ()" using P(2) w by simp
    have "read_bits arr s (s + w - 1) = Inr (?t1 OR ?t2)"
      unfolding o[symmetric] using E unfolding read_bits_def same_unit unit_pos Let_def mask_push
      by (simp add: P(3,4) u1(1) u2(1)[simplified] g[simplified])
    moreover have "bit (?t1 OR ?t2) b \<longleftrightarrow> b < w \<and> tbit arr (s + b)" for b
    proof (cases "wl + b < 64")
      case True
      then have "\<not> 64 - wl \<le> b" "b < w" using E by simp_all
      moreover have "s + b = 64 * i + (wl + b)" using P(1) by simp
      ultimately show ?thesis using True by (simp add: bit_simps u1(2) add.assoc)
    next
      case False
      define x where "x = b - (64 - wl)"
      have x: "b - (64 - wl) = x" "64 - wl \<le> b" "64 * (i + 1) + x = s + b" using False P(1,2) by (simp_all add: x_def)
      have "x < Suc (wl + w - 65) \<longleftrightarrow> b < w" using x P(2) E by auto
      moreover have "bit ?t1 b \<longleftrightarrow> False" using False by (simp add: bit_simps u1(2))
      moreover have "bit ?t2 b \<longleftrightarrow> b < 64 \<and> (x < 64 \<and> tbit arr (s + b)) \<and> x < Suc (wl + w - 65)"
        unfolding bit_push_bit_iff bit_and_iff bit_mask_iff x(1) u2(2) x(3) using x(2) by auto
      ultimately show ?thesis unfolding bit_or_iff using w x(1) by auto
    qed
    ultimately show ?thesis by blast
  qed
qed

lemma pos_split: "(p :: nat) = 64 * (p div 64) + p mod 64"
  by simp

lemma write_bits_ok:
  assumes w: "0 < w" "w < 64" and len: "2 * ((s + w - 1) div 64) + 1 < length arr"
    and enc: "\<And>b. bit enc b \<Longrightarrow> b < w"
  shows "\<exists>arr'. write_bits arr s (s + w - 1) enc = Inr arr' \<and> length arr' = length arr \<and>
     (\<forall>p. tbit arr' p \<longleftrightarrow> (if s \<le> p \<and> p < s + w then bit enc (p - s) else tbit arr p))"
proof -
  obtain i wl where P: "s = 64 * i + wl" "wl < 64" "s div 64 = i" "s mod 64 = wl"
    "(s + w - 1) div 64 = i \<and> (s + w - 1) mod 64 = wl + w - 1 \<and> wl + w \<le> 64
     \<or> (s + w - 1) div 64 = i + 1 \<and> (s + w - 1) mod 64 = wl + w - 65 \<and> 64 < wl + w"
    using split_pos[OF w(1) less_imp_le[OF w(2)], of s] by metis
  from P(5) show ?thesis
  proof
    assume E: "(s + w - 1) div 64 = i \<and> (s + w - 1) mod 64 = wl + w - 1 \<and> wl + w \<le> 64"
    then have l: "2 * i + 1 < length arr" using len by simp
    obtain u where u: "t64_get arr i = Inr u" "\<And>x. bit u x \<longleftrightarrow> x < 64 \<and> tbit arr (64 * i + x)"
      using t64_get_ok[OF l] by metis
    let ?keep = "u AND (mask wl OR NOT (mask (wl + w)))" and ?new = "push_bit wl (enc AND mask w)"
    have bk: "bit ?keep x \<longleftrightarrow> x < 64 \<and> tbit arr (64 * i + x) \<and> (x < wl \<or> wl + w \<le> x)" for x
      by (auto simp: bit_simps u(2))
    have bn: "bit ?new x \<longleftrightarrow> x < 64 \<and> wl \<le> x \<and> bit enc (x - wl)" for x
      using enc by (auto simp: bit_simps)
    have k: "(mask wl :: u64) + (- 1 - drop_bit (63 - (wl + w - 1)) (- 1)) = mask wl OR NOT (mask (wl + w))"
    proof -
      have "drop_bit (63 - (wl + w - 1)) (- 1 :: u64) = mask (wl + w)"
        using mask_drop[of "wl + w - 1"] E w(1) by simp
      then show ?thesis unfolding not_minus by (simp add: add_disjoint bit_simps)
    qed
    have o: "?keep + ?new = ?keep OR ?new"
      by (rule add_disjoint) (use bk bn enc in \<open>fastforce\<close>)
    obtain arr' where a: "t64_put arr i (?keep OR ?new) = Inr arr'" "length arr' = length arr"
      "\<And>p. tbit arr' p \<longleftrightarrow> (if p div 64 = i then bit (?keep OR ?new) (p mod 64) else tbit arr p)"
      using t64_put_ok[OF l] by metis
    have g: "wl + w - 1 - wl + 1 = w" using w(1) by simp
    have "write_bits arr s (s + w - 1) enc = Inr arr'"
      using E unfolding write_bits_def same_unit unit_pos Let_def mask_push
      by (simp only: P(3,4) u(1) rbind_simps g w(2) guard_simps k o a(1) if_True simp_thms)
    moreover have "tbit arr' p \<longleftrightarrow> (if s \<le> p \<and> p < s + w then bit enc (p - s) else tbit arr p)" for p
    proof (cases "p div 64 = i")
      case True
      then have p: "p = 64 * i + p mod 64" using pos_split[of p] by simp
      define x where "x = p mod 64"
      then have "x < 64" "p = 64 * i + x" using p by simp_all
      then show ?thesis unfolding a(3) bit_or_iff bk bn x_def[symmetric] using True P(1) enc[of "x - wl"]
        by auto
    next
      case False
      have "\<not> (s \<le> p \<and> p < s + w)"
      proof
        assume "s \<le> p \<and> p < s + w"
        then have "s \<le> p" "p \<le> s + w - 1" by linarith+
        then have "i \<le> p div 64" "p div 64 \<le> i" using P(3) E div_le_mono[of s p 64] div_le_mono[of p "s + w - 1" 64] by simp_all
        then show False using False by simp
      qed
      then show ?thesis unfolding a(3) using False by auto
    qed
    ultimately show ?thesis using a(2) by blast
  next
    assume E: "(s + w - 1) div 64 = i + 1 \<and> (s + w - 1) mod 64 = wl + w - 65 \<and> 64 < wl + w"
    then have l: "2 * i + 1 < length arr" "2 * (i + 1) + 1 < length arr" using len by simp_all
    obtain u1 where u1: "t64_get arr i = Inr u1" "\<And>x. bit u1 x \<longleftrightarrow> x < 64 \<and> tbit arr (64 * i + x)"
      using t64_get_ok[OF l(1)] by metis
    obtain u2 where u2: "t64_get arr (i + 1) = Inr u2" "\<And>x. bit u2 x \<longleftrightarrow> x < 64 \<and> tbit arr (64 * (i + 1) + x)"
      using t64_get_ok[OF l(2)] by metis
    let ?k1 = "u1 AND mask wl" and ?n1 = "push_bit wl (enc AND mask (64 - wl))"
      and ?k2 = "push_bit (wl + w - 64) (drop_bit (wl + w - 64) u2)" and ?n2 = "drop_bit (64 - wl) enc"
    have b1: "bit (?k1 OR ?n1) x \<longleftrightarrow> x < 64 \<and> (if x < wl then tbit arr (64 * i + x) else bit enc (x - wl))" for x
      by (auto simp: bit_simps u1(2))
    have en: "bit enc (64 - wl + x) \<Longrightarrow> x < wl + w - 64" for x using enc[of "64 - wl + x"] P(2) by simp
    have b2: "bit (?k2 OR ?n2) x \<longleftrightarrow> x < 64 \<and> (if x < wl + w - 64 then bit enc (64 - wl + x) else tbit arr (64 * (i + 1) + x))" for x
      using en[of x] P(2) w(2) by (auto simp: bit_simps u2(2))
    have o1: "?k1 + ?n1 = ?k1 OR ?n1" by (rule add_disjoint) (auto simp: bit_simps)
    have o2: "?k2 + ?n2 = ?k2 OR ?n2" by (rule add_disjoint) (use en in \<open>force simp: bit_simps\<close>)
    obtain arr1 where a1: "t64_put arr i (?k1 OR ?n1) = Inr arr1" "length arr1 = length arr"
      "\<And>p. tbit arr1 p \<longleftrightarrow> (if p div 64 = i then bit (?k1 OR ?n1) (p mod 64) else tbit arr p)"
      using t64_put_ok[OF l(1)] by metis
    obtain arr' where a: "t64_put arr1 (i + 1) (?k2 OR ?n2) = Inr arr'" "length arr' = length arr1"
      "\<And>p. tbit arr' p \<longleftrightarrow> (if p div 64 = i + 1 then bit (?k2 OR ?n2) (p mod 64) else tbit arr1 p)"
      using t64_put_ok[of "i + 1" arr1] l(2) a1(2) by metis
    have g1: "wl + w - 65 + 1 = wl + w - 64" "wl + w - 64 < 64" using E P(2) w(2) by linarith+
    then have g: "wl + w - 65 + 1 = wl + w - 64" "(wl + w - 64 < 64) = True" "(i = i + 1) = False" by simp_all
    have "write_bits arr s (s + w - 1) enc = Inr arr'"
      using E unfolding write_bits_def same_unit unit_pos Let_def mask_push
      by (simp only: P(3,4) u1(1) u2(1) rbind_simps g guard_simps o1 o2 a1(1) a(1) if_False)
    moreover have "tbit arr' p \<longleftrightarrow> (if s \<le> p \<and> p < s + w then bit enc (p - s) else tbit arr p)" for p
    proof -
      define x where "x = p mod 64"
      have x: "x < 64" "p = 64 * (p div 64) + x" unfolding x_def by simp_all
      consider "p div 64 = i" | "p div 64 = i + 1" | "p div 64 < i" | "i + 1 < p div 64" by linarith
      then show ?thesis
      proof cases
        case 1
        then have p: "p = 64 * i + x" using x(2) by simp
        have "s \<le> p \<and> p < s + w \<longleftrightarrow> \<not> x < wl" using p P(1) E x(1) by auto
        moreover have "p - s = x - wl" using p P(1) by simp
        ultimately show ?thesis unfolding a(3) a1(3) x_def[symmetric] b1 using 1 x(1) p by simp
      next
        case 2
        then have p: "p = 64 * (i + 1) + x" using x(2) by simp
        have "s \<le> p \<and> p < s + w \<longleftrightarrow> x < wl + w - 64" using p P(1,2) E by auto
        moreover have "p - s = 64 - wl + x" using p P(1,2) by simp
        ultimately show ?thesis unfolding a(3) x_def[symmetric] b2 using 2 x(1) p by simp
      next
        case 3
        then have "p < s" using P(3) by (metis div_le_mono linorder_not_less)
        then show ?thesis using 3 a(3) a1(3) by simp
      next
        case 4
        then have "s + w - 1 < p" using E by (metis div_le_mono linorder_not_less)
        then show ?thesis unfolding a(3) a1(3) using 4 by auto
      qed
    qed
    ultimately show ?thesis using a(2) a1(2) by auto
  qed
qed

end
