(* ===== verification/Vacuum_Buckets.thy ===== *)
theory Vacuum_Buckets
  imports Vacuum_Bits "HOL-Library.Multiset"
begin

text \<open>
  Buckets of the vacuum filter: the encoding tables are inverse to each other on the sorted
  quadruples, \<open>sort_store\<close> sorts, and \<open>set_bucket\<close> followed by \<open>get_bucket\<close> returns the
  sorted bucket and leaves every other bucket as it is.
\<close>

subsection \<open>The encoding tables\<close>

lemma quads_eq: "quads = concat (map (\<lambda>i. concat (map (\<lambda>j. concat (map (\<lambda>k. map (\<lambda>l.
       i * 4096 + j * 256 + k * 16 + l) [0..<Suc k]) [0..<Suc j])) [0..<Suc i])) [0..<16])"
proof -
  have "(if k = 0 then 1 else k + 1) = Suc k" for k :: nat by simp
  then show ?thesis by (simp add: quads_def push_bit_eq_mult)
qed

lemma quads_iff: "q \<in> set quads \<longleftrightarrow> (\<exists>i j k l. i < 16 \<and> j \<le> i \<and> k \<le> j \<and> l \<le> k \<and> q = i * 4096 + j * 256 + k * 16 + l)"
proof -
  have "q \<in> set (concat (map (\<lambda>i. concat (map (\<lambda>j. concat (map (\<lambda>k. map (\<lambda>l.
       i * 4096 + j * 256 + k * 16 + l) [0..<Suc k]) [0..<Suc j])) [0..<Suc i])) [0..<n])) \<longleftrightarrow>
     (\<exists>i j k l. i < n \<and> j \<le> i \<and> k \<le> j \<and> l \<le> k \<and> q = i * 4096 + j * 256 + k * 16 + l)" for n
  proof -
    have c: "q \<in> set (concat (map f xs)) \<longleftrightarrow> (\<exists>x. x \<in> set xs \<and> q \<in> set (f x))"
      "q \<in> set (map g xs) \<longleftrightarrow> (\<exists>x. x \<in> set xs \<and> q = g x)" for f :: "nat \<Rightarrow> nat list" and g xs by auto
    show ?thesis
      unfolding c by (simp only: set_upt atLeastLessThan_iff less_Suc_eq_le zero_le simp_thms ex_simps conj_assoc)
  qed
  then show ?thesis unfolding quads_eq .
qed

lemma quads_less: "q \<in> set quads \<Longrightarrow> q < 65536"
  by (auto simp: quads_iff)

lemma sum_list_lin: "sum_list (map Suc [0..<n]) = n * (n + 1) div 2"
  by (induction n) simp_all

lemma quads_length: "length quads = 3876"
proof -
  have "length quads = sum_list (map (\<lambda>i. sum_list (map (\<lambda>j. sum_list (map Suc [0..<Suc j])) [0..<Suc i])) [0..<16])"
    by (simp add: quads_eq length_concat comp_def map_map del: upt_Suc)
  also have "\<dots> = sum_list (map (\<lambda>i. sum_list (map (\<lambda>j. Suc j * (Suc j + 1) div 2) [0..<Suc i])) [0..<16])"
    by (simp only: sum_list_lin)
  also have "\<dots> = 3876" by code_simp
  finally show ?thesis .
qed

text \<open>Both tables, as \<open>init\<close> fills them.\<close>

definition tables_ok :: "vfilter \<Rightarrow> bool" where
  "tables_ok f \<longleftrightarrow> length (encode_table f) = 65536 \<and> length (decode_table f) = 65536 \<and>
     (\<forall>i < length quads. unat (decode_table f ! i) = quads ! i) \<and>
     (\<forall>q \<in> set quads. \<exists>j < length quads. unat (encode_table f ! q) = j \<and> quads ! j = q)"

lemma unat_word32: "n < 65536 \<Longrightarrow> unat (word_of_nat n :: u32) = n"
  by (simp add: unat_of_nat take_bit_eq_mod)

lemma fill_tables_ok:
  assumes "vm f = 4" "length (encode_table f) = 65536" "length (decode_table f) = 65536"
  shows "\<exists>e d. fill_tables f = Inr (f\<lparr>encode_table := e, decode_table := d\<rparr>) \<and> tables_ok (f\<lparr>encode_table := e, decode_table := d\<rparr>)"
proof -
  let ?g = "\<lambda>(index, plain_bit) f. rbind (vput (encode_table f) plain_bit (word_of_nat index)) (\<lambda>e.
          rbind (vput (decode_table f) index (word_of_nat plain_bit)) (\<lambda>d.
          Inr (f\<lparr>encode_table := e, decode_table := d\<rparr>)))"
  let ?I = "\<lambda>n f'. \<exists>e d. f' = f\<lparr>encode_table := e, decode_table := d\<rparr> \<and> length e = 65536 \<and> length d = 65536 \<and>
     (\<forall>i < n. unat (d ! i) = quads ! i) \<and> (\<forall>i < n. \<exists>j < n. unat (e ! (quads ! i)) = j \<and> quads ! j = quads ! i)"
  have "\<exists>f'. rfold ?g (enumerate 0 quads) f = Inr f' \<and> ?I (length (enumerate 0 quads)) f'"
  proof (rule rfold_inv)
    show "?I 0 f" using assms by (intro exI[of _ "encode_table f"] exI[of _ "decode_table f"]) simp
    fix n f' assume n: "n < length (enumerate 0 quads)" and I: "?I n f'"
    then obtain e d where f': "f' = f\<lparr>encode_table := e, decode_table := d\<rparr>" "length e = 65536" "length d = 65536"
      "\<forall>i < n. unat (d ! i) = quads ! i" "\<forall>i < n. \<exists>j < n. unat (e ! (quads ! i)) = j \<and> quads ! j = quads ! i" by blast
    from n have n': "n < length quads" "n < 65536" by (simp_all add: quads_length)
    then have q: "quads ! n < 65536" using quads_less by simp
    define e' where "e' = e[quads ! n := word_of_nat n]"
    define d' where "d' = d[n := word_of_nat (quads ! n)]"
    have "?g (enumerate 0 quads ! n) f' = Inr (f\<lparr>encode_table := e', decode_table := d'\<rparr>)"
      using n' q f'(1-3) by (simp add: nth_enumerate_eq e'_def d'_def)
    moreover have "\<forall>i < Suc n. unat (d' ! i) = quads ! i"
      using f'(3,4) n' q by (auto simp: d'_def less_Suc_eq nth_list_update unat_word32)
    moreover have "\<exists>j < Suc n. unat (e' ! (quads ! i)) = j \<and> quads ! j = quads ! i" if i: "i < Suc n" for i
    proof (cases "quads ! i = quads ! n")
      case True
      then show ?thesis using f'(2) q n' by (intro exI[of _ n]) (simp add: e'_def unat_word32)
    next
      case False
      then have "i < n" using i by (cases "i = n") auto
      then obtain j where "j < n" "unat (e ! (quads ! i)) = j" "quads ! j = quads ! i" using f'(5) by blast
      then show ?thesis using False by (intro exI[of _ j]) (simp add: e'_def)
    qed
    moreover have "length e' = 65536" "length d' = 65536" using f'(2,3) by (simp_all add: e'_def d'_def)
    ultimately show "\<exists>s'. ?g (enumerate 0 quads ! n) f' = Inr s' \<and> ?I (Suc n) s'" by blast
  qed
  then obtain e d where R: "rfold ?g (enumerate 0 quads) f = Inr (f\<lparr>encode_table := e, decode_table := d\<rparr>)"
    "length e = 65536" "length d = 65536" "\<forall>i < length quads. unat (d ! i) = quads ! i"
    "\<forall>i < length quads. \<exists>j < length quads. unat (e ! (quads ! i)) = j \<and> quads ! j = quads ! i" by auto
  have "tables_ok (f\<lparr>encode_table := e, decode_table := d\<rparr>)"
    using R(2-5) by (auto simp: tables_ok_def in_set_conv_nth)
  with R(1) assms(1) show ?thesis by (auto simp: fill_tables_def)
qed


lemma sorted_blocks:
  assumes "\<And>i. i < n \<Longrightarrow> sorted_wrt (<) (f i) \<and> (\<forall>x \<in> set (f i). base + c * i \<le> x \<and> x < base + c * Suc i)"
  shows "sorted_wrt (<) (concat (map f [0..<n])) \<and> (\<forall>x \<in> set (concat (map f [0..<n])). base \<le> x \<and> x < base + c * (n :: nat))"
  using assms
proof (induction n)
  case (Suc n)
  then have IH: "sorted_wrt (<) (concat (map f [0..<n]))" "\<And>x. x \<in> set (concat (map f [0..<n])) \<Longrightarrow> base \<le> x \<and> x < base + c * n"
    by auto
  from Suc.prems[of n] have n: "sorted_wrt (<) (f n)" "\<And>x. x \<in> set (f n) \<Longrightarrow> base + c * n \<le> x \<and> x < base + c * Suc n" by auto
  have e: "concat (map f [0..<Suc n]) = concat (map f [0..<n]) @ f n" by simp
  show ?case unfolding e sorted_wrt_append set_append using IH n by fastforce
qed simp

lemma quads_sorted: "sorted_wrt (<) quads"
proof -
  let ?l = "\<lambda>i j k. map (\<lambda>l. i * 4096 + j * 256 + k * 16 + l) [0..<Suc k]"
  let ?k = "\<lambda>i j. concat (map (?l i j) [0..<Suc j])"
  let ?j = "\<lambda>i. concat (map (?k i) [0..<Suc i])"
  have l: "sorted_wrt (<) (?l i j k)" "x \<in> set (?l i j k) \<Longrightarrow> k < 16 \<Longrightarrow> i * 4096 + j * 256 + 16 * k \<le> x \<and> x < i * 4096 + j * 256 + 16 * Suc k"
    for i j k x by (simp add: sorted_wrt_map del: upt_Suc) auto
  have k: "sorted_wrt (<) (?k i j)" "x \<in> set (?k i j) \<Longrightarrow> i * 4096 + 256 * j \<le> x \<and> x < i * 4096 + 256 * Suc j"
    if "j < 16" for i j x
    using sorted_blocks[of "Suc j" "?l i j" "i * 4096 + j * 256" 16] l[of i j] that by fastforce+
  have j: "sorted_wrt (<) (?j i)" "x \<in> set (?j i) \<Longrightarrow> 0 + 4096 * i \<le> x \<and> x < 0 + 4096 * Suc i"
    if "i < 16" for i x
    using sorted_blocks[of "Suc i" "?k i" "i * 4096" 256] k[of _ i] that by fastforce+
  show ?thesis unfolding quads_eq using sorted_blocks[of 16 ?j 0 4096] j by blast
qed

lemma quads_inj: "i < length quads \<Longrightarrow> j < length quads \<Longrightarrow> quads ! i = quads ! j \<Longrightarrow> i = j"
  using quads_sorted by (metis distinct_conv_nth strict_sorted_iff)

subsection \<open>Sorting a bucket\<close>

lemma sort_pair_0_2: "sort_pair 0 2 (a # b # c # d # r) = max a c # b # min a c # d # r"
  by (auto simp: sort_pair_def max_def min_def numeral_2_eq_2)

lemma sort_pair_1_3: "sort_pair 1 3 (a # b # c # d # r) = a # max b d # c # min b d # r"
  by (auto simp: sort_pair_def max_def min_def numeral_3_eq_3)

lemma sort_pair_0_1: "sort_pair 0 1 (a # b # c # d # r) = max a b # min a b # c # d # r"
  by (auto simp: sort_pair_def max_def min_def)

lemma sort_pair_2_3: "sort_pair 2 3 (a # b # c # d # r) = a # b # max c d # min c d # r"
  by (auto simp: sort_pair_def max_def min_def numeral_3_eq_3 numeral_2_eq_2)

lemma sort_pair_1_2: "sort_pair 1 2 (a # b # c # d # r) = a # max b c # min b c # d # r"
  by (auto simp: sort_pair_def max_def min_def numeral_2_eq_2)

definition desc4 :: "u64 list \<Rightarrow> bool" where
  "desc4 s \<longleftrightarrow> length s = 4 \<and> s ! 1 \<le> s ! 0 \<and> s ! 2 \<le> s ! 1 \<and> s ! 3 \<le> s ! 2"

lemma mset_max_min: "add_mset (max a b) (add_mset (min a b) M) = add_mset a (add_mset (b :: 'a :: linorder) M)"
  by (auto simp: max_def min_def add_mset_commute)

lemma sort_store_ok:
  obtains s where "sort_store (a # b # c # d # r) = s @ r" "desc4 s" "mset s = {# a, b, c, d #}"
proof
  let ?A = "max a c" and ?C = "min a c" and ?B = "max b d" and ?D = "min b d"
  let ?s = "[max ?A ?B, max (min ?A ?B) (max ?C ?D), min (min ?A ?B) (max ?C ?D), min ?C ?D]"
  show "sort_store (a # b # c # d # r) = ?s @ r"
    by (simp add: sort_store_def sort_pair_0_2 sort_pair_1_3 sort_pair_0_1 sort_pair_2_3 sort_pair_1_2 del: One_nat_def)
  have "?C \<le> ?A" "?D \<le> ?B" by (simp_all add: min.coboundedI1)
  then show "desc4 ?s"
    unfolding desc4_def by (auto simp: le_max_iff_disj min_le_iff_disj)
  have "mset ?s = add_mset (max ?A ?B) (add_mset (max (min ?A ?B) (max ?C ?D)) (add_mset (min (min ?A ?B) (max ?C ?D)) {# min ?C ?D #}))"
    by simp
  also have "\<dots> = add_mset (max a c) (add_mset (max b d) (add_mset (min a c) {# min b d #}))"
    unfolding mset_max_min ..
  also have "\<dots> = add_mset (max a c) (add_mset (min a c) (add_mset (max b d) (add_mset (min b d) {#})))"
    by (simp only: add_mset_commute)
  also have "\<dots> = add_mset a (add_mset c (add_mset b (add_mset d {#})))"
    unfolding mset_max_min ..
  also have "\<dots> = {# a, b, c, d #}" by (simp add: add_mset_commute)
  finally show "mset ?s = {# a, b, c, d #}" .
qed


subsection \<open>Packing a bucket\<close>

definition low_part :: "nat \<Rightarrow> u64 list \<Rightarrow> u64" where
  "low_part w s = (s ! 3 AND low_bits w) + push_bit w (s ! 2 AND low_bits w)
     + push_bit (2 * w) (s ! 1 AND low_bits w) + push_bit (3 * w) (s ! 0 AND low_bits w)"

definition high_part :: "nat \<Rightarrow> u64 list \<Rightarrow> u64" where
  "high_part w s = (drop_bit w (s ! 3) AND 15) + push_bit 4 (drop_bit w (s ! 2) AND 15)
     + push_bit 8 (drop_bit w (s ! 1) AND 15) + push_bit 12 (drop_bit w (s ! 0) AND 15)"

lemma low_bits_mask: "low_bits w = mask w"
  unfolding low_bits_def by (rule mask_push)

lemma mask_4: "(15 :: u64) = mask 4"
  by (simp add: mask_eq_exp_minus_1)

text \<open>Four fields of \<open>w\<close> bits, added: each keeps its bits.\<close>

lemma four_fields:
  fixes x0 x1 x2 x3 :: "u64"
  assumes w: "4 * w < 64"
  defines "s \<equiv> (x0 AND mask w) + push_bit w (x1 AND mask w) + push_bit (2 * w) (x2 AND mask w) + push_bit (3 * w) (x3 AND mask w)"
  shows "k < 4 \<Longrightarrow> b < w \<Longrightarrow> bit s (k * w + b) \<longleftrightarrow> bit ([x0, x1, x2, x3] ! k) b"
    and "bit s n \<Longrightarrow> n < 4 * w"
proof -
  have f: "bit (push_bit (i * w) (x AND mask w)) n \<longleftrightarrow> i * w \<le> n \<and> n < i * w + w \<and> bit x (n - i * w)" if "i < 4" for i n and x :: u64
  proof -
    have "i * w + w \<le> 4 * w" using that by (simp add: add.commute flip: mult_Suc)
    then have "n < i * w + w \<Longrightarrow> n < 64" using w by linarith
    then show ?thesis by (auto simp: bit_simps)
  qed
  have f0: "bit (x AND mask w) n \<longleftrightarrow> n < w \<and> bit x n" for n and x :: u64 using f[of 0 x n] by simp
  have f1: "bit (push_bit w (x AND mask w)) n \<longleftrightarrow> w \<le> n \<and> n < w + w \<and> bit x (n - w)" for n and x :: u64
    using f[of 1 x n] by simp
  have f2: "bit (push_bit (2 * w) (x AND mask w)) n \<longleftrightarrow> 2 * w \<le> n \<and> n < 2 * w + w \<and> bit x (n - 2 * w)" for n and x :: u64
    by (rule f) simp
  have f3: "bit (push_bit (3 * w) (x AND mask w)) n \<longleftrightarrow> 3 * w \<le> n \<and> n < 3 * w + w \<and> bit x (n - 3 * w)" for n and x :: u64
    by (rule f) simp
  have "(x0 AND mask w) + push_bit w (x1 AND mask w) = ((x0 AND mask w) OR push_bit w (x1 AND mask w))"
    by (rule add_disjoint) (simp only: f0 f1, linarith)
  then have "s = ((x0 AND mask w) OR push_bit w (x1 AND mask w)) + push_bit (2 * w) (x2 AND mask w) + push_bit (3 * w) (x3 AND mask w)"
    by (simp add: s_def)
  moreover have "((x0 AND mask w) OR push_bit w (x1 AND mask w)) + push_bit (2 * w) (x2 AND mask w)
      = ((x0 AND mask w) OR push_bit w (x1 AND mask w) OR push_bit (2 * w) (x2 AND mask w))"
    unfolding or.assoc[symmetric] by (rule add_disjoint) (unfold bit_or_iff f0 f1 f2, linarith)
  moreover have "((x0 AND mask w) OR push_bit w (x1 AND mask w) OR push_bit (2 * w) (x2 AND mask w)) + push_bit (3 * w) (x3 AND mask w)
      = ((x0 AND mask w) OR push_bit w (x1 AND mask w) OR push_bit (2 * w) (x2 AND mask w) OR push_bit (3 * w) (x3 AND mask w))"
    unfolding or.assoc[symmetric] by (rule add_disjoint) (unfold bit_or_iff f0 f1 f2 f3, linarith)
  ultimately have e: "s = ((x0 AND mask w) OR push_bit w (x1 AND mask w) OR push_bit (2 * w) (x2 AND mask w) OR push_bit (3 * w) (x3 AND mask w))"
    by simp
  show "bit s (k * w + b) \<longleftrightarrow> bit ([x0, x1, x2, x3] ! k) b" if kb: "k < 4" "b < w"
  proof -
    consider "k = 0" | "k = 1" | "k = 2" | "k = 3" using kb by linarith
    then show ?thesis using kb(2) unfolding e bit_or_iff f0 f1 f2 f3 by cases simp_all
  qed
  show "n < 4 * w" if "bit s n"
    using that unfolding e bit_or_iff f0 f1 f2 f3 by linarith
qed

subsection \<open>A bucket in memory\<close>

lemma desc4E:
  assumes "desc4 s"
  obtains a b c d where "s = [a, b, c, d]" "b \<le> a" "c \<le> b" "d \<le> c"
proof -
  have "length s = 4" using assms by (simp add: desc4_def)
  then obtain a b c d where "s = [a, b, c, d]" by (auto simp: numeral_eq_Suc length_Suc_conv)
  with assms that show ?thesis by (auto simp: desc4_def numeral_2_eq_2 numeral_3_eq_3)
qed

lemma low_part_bits:
  assumes "4 * w < 64"
  shows "k < 4 \<Longrightarrow> b < w \<Longrightarrow> bit (low_part w [s0, s1, s2, s3]) (k * w + b) \<longleftrightarrow> bit ([s3, s2, s1, s0] ! k) b"
    and "bit (low_part w [s0, s1, s2, s3]) n \<Longrightarrow> n < 4 * w"
  using four_fields(1)[OF assms, where k = k and b = b and ?x0.0 = s3 and ?x1.0 = s2 and ?x2.0 = s1 and ?x3.0 = s0]
    four_fields(2)[OF assms, where n = n and ?x0.0 = s3 and ?x1.0 = s2 and ?x2.0 = s1 and ?x3.0 = s0]
  unfolding low_part_def low_bits_mask by simp_all

lemma high_part_bits:
  "k < 4 \<Longrightarrow> b < 4 \<Longrightarrow> bit (high_part w [s0, s1, s2, s3]) (4 * k + b) \<longleftrightarrow> bit ([s3, s2, s1, s0] ! k) (w + b)"
  "bit (high_part w [s0, s1, s2, s3]) n \<Longrightarrow> n < 16"
proof -
  have m: "high_part w [s0, s1, s2, s3] = (drop_bit w s3 AND mask 4) + push_bit 4 (drop_bit w s2 AND mask 4)
      + push_bit (2 * 4) (drop_bit w s1 AND mask 4) + push_bit (3 * 4) (drop_bit w s0 AND mask 4)"
    by (simp add: high_part_def mask_4 del: push_bit_and)
  have w: "4 * 4 < (64 :: nat)" by simp
  note F = four_fields[OF w, where ?x0.0 = "drop_bit w s3" and ?x1.0 = "drop_bit w s2" and ?x2.0 = "drop_bit w s1" and ?x3.0 = "drop_bit w s0"]
  show "bit (high_part w [s0, s1, s2, s3]) (4 * k + b) \<longleftrightarrow> bit ([s3, s2, s1, s0] ! k) (w + b)" if kb: "k < 4" "b < 4"
  proof -
    consider "k = 0" | "k = 1" | "k = 2" | "k = 3" using kb by linarith
    then show ?thesis using F(1)[OF kb] unfolding m mult.commute[of 4 k]
      by cases (simp_all add: bit_drop_bit_eq)
  qed
  show "n < 16" if "bit (high_part w [s0, s1, s2, s3]) n" using F(2)[of n] that unfolding m by simp
qed

lemma div_less_16: "unat x < 2 ^ (w + 4) \<Longrightarrow> unat (x :: u64) div 2 ^ w < 16"
  unfolding power_add by (rule less_mult_imp_div_less) (simp add: mult.commute)

lemma nibble: "unat x < 2 ^ (w + 4) \<Longrightarrow> drop_bit w x AND 15 = word_of_nat (unat (x :: u64) div 2 ^ w)"
proof -
  assume "unat x < 2 ^ (w + 4)"
  have u: "unat (drop_bit w x) = unat x div 2 ^ w"
    by (simp only: unat_drop_bit_eq) (rule drop_bit_eq_div)
  have "take_bit 4 (unat (drop_bit w x)) = unat (drop_bit w x)"
    unfolding u take_bit_nat_eq_self_iff using div_less_16[OF \<open>unat x < 2 ^ (w + 4)\<close>] by simp
  then have "take_bit 4 (drop_bit w x) = drop_bit w x"
    by (metis unsigned_take_bit_eq word_unat_eq_iff)
  moreover have "drop_bit w x AND 15 = take_bit 4 (drop_bit w x)" by (simp add: take_bit_eq_mask mask_4)
  moreover have "drop_bit w x = word_of_nat (unat x div 2 ^ w)"
    unfolding u[symmetric] by simp
  ultimately show ?thesis by simp
qed

lemma unat_word64: "n < 2 ^ 64 \<Longrightarrow> unat (word_of_nat n :: u64) = n"
  by (simp add: unat_of_nat take_bit_eq_mod)

lemma high_part_quad:
  assumes "desc4 s" "\<forall>x \<in> set s. unat x < 2 ^ (w + 4)"
  shows "unat (high_part w s) \<in> set quads"
proof -
  obtain a b c d where s: "s = [a, b, c, d]" "b \<le> a" "c \<le> b" "d \<le> c" using desc4E[OF assms(1)] .
  let ?q = "\<lambda>x. unat (x :: u64) div 2 ^ w"
  have x: "unat x < 2 ^ (w + 4)" if "x \<in> {a, b, c, d}" for x using that assms(2) s(1) by auto
  have l: "?q a < 16" "?q b \<le> ?q a" "?q c \<le> ?q b" "?q d \<le> ?q c"
    using div_less_16[OF x[of a]] s(2-4) by (auto simp: word_le_nat_alt intro: div_le_mono)
  have "high_part w s = word_of_nat (?q d) + word_of_nat (16 * ?q c) + word_of_nat (256 * ?q b) + word_of_nat (4096 * ?q a)"
    by (simp add: high_part_def s(1) nibble x push_bit_eq_mult)
  also have "\<dots> = word_of_nat (?q a * 4096 + ?q b * 256 + ?q c * 16 + ?q d)"
    by (simp add: algebra_simps)
  finally have h: "high_part w s = word_of_nat (?q a * 4096 + ?q b * 256 + ?q c * 16 + ?q d)" .
  have "unat (high_part w s) = ?q a * 4096 + ?q b * 256 + ?q c * 16 + ?q d"
    unfolding h by (rule unat_word64) (use l in simp)
  then show ?thesis unfolding quads_iff using l by blast
qed

definition fpw :: "vfilter \<Rightarrow> nat" where
  "fpw f = nat (fp_len f - 4)"

definition bucket_width :: "vfilter \<Rightarrow> nat" where
  "bucket_width f = 4 * fpw f + 12"

definition vf_geom :: "vfilter \<Rightarrow> bool" where
  "vf_geom f \<longleftrightarrow> 4 \<le> fp_len f \<and> fp_len f \<le> 16 \<and> vm f = 4 \<and> 0 < vn f \<and> vn f < 2 ^ 31 \<and> tables_ok f \<and>
     nat (vn f) * bucket_width f + 64 \<le> 32 * length (T f) \<and> length (T f) = memory_consumption f div 4"

definition bucket_code :: "nat \<Rightarrow> nat \<Rightarrow> u64 list \<Rightarrow> u64" where
  "bucket_code w j s = push_bit (4 * w) (word_of_nat j) + low_part w s"

definition fits_fp :: "vfilter \<Rightarrow> u64 \<Rightarrow> bool" where
  "fits_fp f x \<longleftrightarrow> unat x < 2 ^ (fpw f + 4)"

definition bucket_holds :: "vfilter \<Rightarrow> int \<Rightarrow> u64 list \<Rightarrow> bool" where
  "bucket_holds f p s \<longleftrightarrow> desc4 s \<and> (\<forall>x \<in> set s. fits_fp f x) \<and>
     (\<exists>j < length quads. quads ! j = unat (high_part (fpw f) s) \<and>
        (\<forall>b < bucket_width f. tbit (T f) (nat p * bucket_width f + b) \<longleftrightarrow> bit (bucket_code (fpw f) j s) b))"

lemma vf_geomD:
  assumes "vf_geom f"
  shows "4 \<le> fp_len f" "fp_len f \<le> 16" "vm f = 4" "0 < vn f" "vn f < 2147483648" "tables_ok f"
    "nat (vn f) * bucket_width f + 64 \<le> 32 * length (T f)" "fpw f \<le> 12" "0 < bucket_width f" "bucket_width f < 64" "4 * fpw f < 64"
    "nat ((fp_len f - 1) * 4) = bucket_width f" "length (T f) = memory_consumption f div 4"
  using assms by (auto simp: vf_geom_def fpw_def bucket_width_def)

lemma bucket_end:
  assumes g: "vf_geom f" and p: "0 \<le> p" "p < vn f"
  shows "nat p * bucket_width f + bucket_width f \<le> nat (vn f) * bucket_width f" "nat (vn f) * bucket_width f < 2 ^ 63"
proof -
  have "nat p + 1 \<le> nat (vn f)" using p by simp
  then have "(nat p + 1) * bucket_width f \<le> nat (vn f) * bucket_width f" by (rule mult_right_mono) simp
  then show "nat p * bucket_width f + bucket_width f \<le> nat (vn f) * bucket_width f" by simp
  have "nat (vn f) * bucket_width f \<le> 2 ^ 31 * 64"
    using vf_geomD(5,10)[OF g] by (intro mult_mono) simp_all
  then show "nat (vn f) * bucket_width f < 2 ^ 63" by simp
qed

lemma bucket_range_ok:
  assumes g: "vf_geom f" and p: "0 \<le> p" "p < vn f"
  shows "bucket_range f p = (nat p * bucket_width f, nat p * bucket_width f + bucket_width f - 1)"
proof -
  have "to_u64 p = nat p" using p vf_geomD(5)[OF g] by (simp add: to_u64_def)
  with bucket_end[OF assms] vf_geomD(9)[OF g] show ?thesis
    unfolding bucket_range_def vf_geomD(12)[OF g] Let_def by (simp del: One_nat_def)
qed

lemma bucket_words:
  assumes g: "vf_geom f" and p: "0 \<le> p" "p < vn f"
  shows "2 * ((nat p * bucket_width f + bucket_width f - 1) div 64) + 1 < length (T f)"
proof -
  let ?e = "nat p * bucket_width f + bucket_width f - 1"
  have "64 * (?e div 64) \<le> ?e" by simp
  moreover have "?e + 64 < 32 * length (T f)"
    using bucket_end(1)[OF assms] vf_geomD(7,9)[OF g] by linarith
  ultimately show ?thesis by linarith
qed

lemma quad_index_less: "j < length quads \<Longrightarrow> j < 4096"
  by (simp add: quads_length)

lemma bit_le_unat: "bit x b \<Longrightarrow> 2 ^ b \<le> unat (x :: 'a::len word)"
proof -
  assume "bit x b"
  then have "bit (unat x) b" by (simp add: bit_unsigned_iff)
  then have "unat x div 2 ^ b \<noteq> 0" unfolding bit_iff_odd by (metis even_zero)
  then show ?thesis by (metis div_less linorder_not_less)
qed

lemma bit_less_exp: "bit x b \<Longrightarrow> unat (x :: 'a::len word) < 2 ^ k \<Longrightarrow> b < k"
  using bit_le_unat[of x b] by (metis le_less_trans one_less_numeral_iff power_less_imp_less_exp semiring_norm(76))

lemma small_bits: "j < 4096 \<Longrightarrow> bit (word_of_nat j :: u64) b \<Longrightarrow> b < 12"
  using bit_less_exp[of "word_of_nat j :: u64" b 12] unat_word64[of j] by simp

lemma unat_ucast64: "unat (ucast (x :: u32) :: u64) = unat x"
proof -
  have "unat x < 2 ^ 64" using unsigned_less[where 'a = nat and w = x] by simp
  then show ?thesis by (simp add: unsigned_ucast_eq take_bit_nat_eq_self_iff)
qed

lemma bucket_code_bits:
  assumes "4 * w < 52" "desc4 s" "j < length quads"
  shows "bit (bucket_code w j s) b \<longleftrightarrow> (if b < 4 * w then bit (low_part w s) b else b < 64 \<and> bit (word_of_nat j :: u64) (b - 4 * w))"
    and "bit (bucket_code w j s) b \<Longrightarrow> b < 4 * w + 12"
proof -
  obtain a b' c d where s: "s = [a, b', c, d]" using desc4E[OF assms(2)] .
  have w: "4 * w < 64" using assms(1) by simp
  have l: "bit (low_part w s) n \<Longrightarrow> n < 4 * w" for n unfolding s using low_part_bits(2)[OF w] .
  have "bucket_code w j s = push_bit (4 * w) (word_of_nat j) OR low_part w s"
    unfolding bucket_code_def by (rule add_disjoint) (metis l bit_push_bit_iff linorder_not_less)
  then show e: "bit (bucket_code w j s) b \<longleftrightarrow> (if b < 4 * w then bit (low_part w s) b else b < 64 \<and> bit (word_of_nat j :: u64) (b - 4 * w))"
    using l[of b] by (auto simp: bit_or_iff bit_push_bit_iff)
  show "b < 4 * w + 12" if "bit (bucket_code w j s) b"
    using that small_bits[OF quad_index_less[OF assms(3)], of "b - 4 * w"] unfolding e by (auto split: if_splits)
qed

subsection \<open>Reading a bucket\<close>

lemma slot_eq:
  fixes x :: u64
  assumes "unat x < 2 ^ (w + 4)" "w \<le> 12"
  shows "(x AND low_bits w) + push_bit w (drop_bit w x AND 15) = x"
proof -
  have b: "bit x b \<Longrightarrow> b < w + 4" for b using bit_less_exp[OF _ assms(1)] .
  have "(x AND mask w) + push_bit w (drop_bit w x AND mask 4) = (x AND mask w) OR push_bit w (drop_bit w x AND mask 4)"
    by (rule add_disjoint) (auto simp: bit_simps)
  also have "\<dots> = x"
  proof (rule bit_word_eqI)
    show "bit ((x AND mask w) OR push_bit w (drop_bit w x AND mask 4)) n \<longleftrightarrow> bit x n" if "n < LENGTH(64)" for n
      using b[of n] that by (auto simp: bit_simps less_diff_conv2)
  qed
  finally show ?thesis unfolding low_bits_mask mask_4 .
qed

definition occupied :: "u64 list \<Rightarrow> nat" where
  "occupied s = length (filter (\<lambda>x. x \<noteq> 0) s)"

lemma get_bucket_ok:
  assumes g: "vf_geom f" and p: "0 \<le> p" "p < vn f" and h: "bucket_holds f p s"
  shows "get_bucket f p = Inr (s @ [word_of_nat (occupied s)])"
proof -
  let ?w = "fpw f"
  from h obtain j where j: "desc4 s" "\<forall>x \<in> set s. unat x < 2 ^ (?w + 4)" "j < length quads"
    "quads ! j = unat (high_part ?w s)"
    "\<forall>b < bucket_width f. tbit (T f) (nat p * bucket_width f + b) \<longleftrightarrow> bit (bucket_code ?w j s) b"
    by (auto simp: bucket_holds_def fits_fp_def)
  obtain a b c d where s: "s = [a, b, c, d]" using desc4E[OF j(1)] .
  note W = vf_geomD(9,10)[OF g]
  obtain r where r: "read_bits (T f) (nat p * bucket_width f) (nat p * bucket_width f + bucket_width f - 1) = Inr r"
    "\<And>n. bit r n \<longleftrightarrow> n < bucket_width f \<and> tbit (T f) (nat p * bucket_width f + n)"
    using read_bits_ok[OF W(1) less_imp_le[OF W(2)] bucket_words[OF g p]] by blast
  have w: "4 * ?w < 52" "4 * ?w < 64" "?w \<le> 12" using vf_geomD(8)[OF g] by simp_all
  have rb: "bit r n \<longleftrightarrow> bit (bucket_code ?w j s) n" for n
    using r(2)[of n] j(5) bucket_code_bits(2)[OF w(1) j(1,3), of n] by (auto simp: bucket_width_def)
  have lo: "m < 4 * ?w \<Longrightarrow> bit r m \<longleftrightarrow> bit (low_part ?w [a, b, c, d]) m" for m
    unfolding rb bucket_code_bits(1)[OF w(1) j(1,3)] by (simp add: s)
  have hi: "drop_bit (4 * ?w) r = word_of_nat j"
  proof (rule bit_word_eqI)
    fix n
    have "bit (word_of_nat j :: u64) n \<Longrightarrow> 4 * ?w + n < 64"
      using small_bits[OF quad_index_less[OF j(3)], of n] w(1) by simp
    then show "bit (drop_bit (4 * ?w) r) n \<longleftrightarrow> bit (word_of_nat j :: u64) n"
      by (auto simp: bit_drop_bit_eq rb bucket_code_bits(1)[OF w(1) j(1,3)])
  qed
  have j64: "j < 65536" using quad_index_less[OF j(3)] by simp
  then have hj: "unat (drop_bit (4 * ?w) r) = j" unfolding hi by (intro unat_word64) simp
  note tab = vf_geomD(6)[OF g, unfolded tables_ok_def]
  have d: "unat (decode_table f ! j) = unat (high_part ?w s)" using tab j(3,4) by simp
  define dw where "dw = (ucast (decode_table f ! j) :: u64)"
  have "unat dw = unat (high_part ?w s)"
    unfolding dw_def d[symmetric] by (rule unat_ucast64)
  then have dw: "dw = high_part ?w s" by (rule iffD2[OF word_unat_eq_iff])
  have slot: "(drop_bit (k * ?w) r AND low_bits ?w) + push_bit ?w (drop_bit (4 * k) dw AND 15) = [d, c, b, a] ! k" if k: "k < 4" for k
  proof -
    let ?x = "[d, c, b, a] ! k"
    have "drop_bit (k * ?w) r AND low_bits ?w = ?x AND low_bits ?w"
      unfolding low_bits_mask
    proof (rule bit_word_eqI)
      fix n
      have "n < ?w \<Longrightarrow> k * ?w + n < 4 * ?w" using k by (metis Suc_leI add.commute mult_Suc mult_le_mono1 nat_add_left_cancel_less order_less_le_trans)
      then show "bit (drop_bit (k * ?w) r AND mask ?w) n \<longleftrightarrow> bit (?x AND mask ?w) n"
        using low_part_bits(1)[OF w(2) k, of n a b c d]
        by (auto simp: bit_and_iff bit_drop_bit_eq lo bit_mask_iff)
    qed
    moreover have "drop_bit (4 * k) dw AND 15 = drop_bit ?w ?x AND 15"
      unfolding mask_4 dw s
      by (rule bit_word_eqI) (use high_part_bits(1)[OF k, of _ ?w a b c d] in \<open>auto simp: bit_and_iff bit_drop_bit_eq bit_mask_iff\<close>)
    moreover have "?x \<in> set s" using k by (auto simp: s nth_Cons' )
    ultimately show ?thesis using slot_eq[of ?x ?w] j(2) w(3) by simp
  qed
  have occ: "of_bool (a \<noteq> 0) + of_bool (b \<noteq> 0) + of_bool (c \<noteq> 0) + of_bool (d \<noteq> 0) = (word_of_nat (occupied s) :: u64)"
    by (auto simp: s occupied_def)
  have sl: "(drop_bit (3 * ?w) r AND low_bits ?w) + push_bit ?w (drop_bit (4 * 3) dw AND 15) = a"
    "(drop_bit (2 * ?w) r AND low_bits ?w) + push_bit ?w (drop_bit (4 * 2) dw AND 15) = b"
    "(drop_bit (1 * ?w) r AND low_bits ?w) + push_bit ?w (drop_bit (4 * 1) dw AND 15) = c"
    "(drop_bit (0 * ?w) r AND low_bits ?w) + push_bit ?w (drop_bit (4 * 0) dw AND 15) = d"
    using slot[of 3] slot[of 2] slot[of 1] slot[of 0] by (simp_all add: numeral_2_eq_2 numeral_3_eq_3)
  have v: "vat (decode_table f) (unat (drop_bit (4 * ?w) r)) = Inr (decode_table f ! j)"
    unfolding hj using tab j64 by simp
  show ?thesis
    unfolding get_bucket_def bucket_range_ok[OF g p] Let_def
    using vf_geomD(1,2)[OF g] by (simp only: fpw_def[symmetric] r(1) rbind_simps case_prod_conv v dw_def[symmetric] sl occ guard_simps s append.simps simp_thms)
      simp
qed

subsection \<open>Writing a bucket\<close>

lemma vf_geom_T [simp]:
  "fpw (f\<lparr>T := t\<rparr>) = fpw f" "bucket_width (f\<lparr>T := t\<rparr>) = bucket_width f" "fits_fp (f\<lparr>T := t\<rparr>) = fits_fp f"
  "tables_ok (f\<lparr>T := t\<rparr>) = tables_ok f"
  by (simp_all add: fpw_def bucket_width_def fits_fp_def tables_ok_def fun_eq_iff)

lemma bucket_disjoint:
  fixes p q w :: nat
  assumes "p \<noteq> q" "b < w"
  shows "\<not> (p * w \<le> q * w + b \<and> q * w + b < p * w + w)"
proof
  assume h: "p * w \<le> q * w + b \<and> q * w + b < p * w + w"
  show False
  proof (cases "p < q")
    case True
    then have "(p + 1) * w \<le> q * w" by (intro mult_right_mono) simp_all
    with h show False by simp
  next
    case False
    then have "(q + 1) * w \<le> p * w" using assms by (intro mult_right_mono) simp_all
    with h assms(2) show False by simp
  qed
qed

lemma set_bucket_ok:
  assumes g: "vf_geom f" and p: "0 \<le> p" "p < vn f" and x: "\<forall>x \<in> {a, b, c, d}. fits_fp f x"
  shows "\<exists>t s. set_bucket p (a # b # c # d # r) f = Inr (f\<lparr>T := t\<rparr>) \<and> vf_geom (f\<lparr>T := t\<rparr>) \<and>
     bucket_holds (f\<lparr>T := t\<rparr>) p s \<and> mset s = {# a, b, c, d #} \<and>
     (\<forall>q s'. 0 \<le> q \<longrightarrow> q \<noteq> p \<longrightarrow> bucket_holds f q s' \<longrightarrow> bucket_holds (f\<lparr>T := t\<rparr>) q s')"
proof -
  let ?w = "fpw f"
  obtain s where s: "sort_store (a # b # c # d # r) = s @ r" "desc4 s" "mset s = {# a, b, c, d #}"
    using sort_store_ok by metis
  have set: "set s = {a, b, c, d}" using arg_cong[OF s(3), of set_mset] by simp
  then have fs: "\<forall>x \<in> set s. unat x < 2 ^ (?w + 4)" using x by (simp add: fits_fp_def)
  have len: "length s = 4" using s(2) by (simp add: desc4_def)
  define i where "i = unat (encode_table f ! unat (high_part ?w s))"
  note tab = vf_geomD(6)[OF g, unfolded tables_ok_def]
  have q: "unat (high_part ?w s) \<in> set quads" by (rule high_part_quad[OF s(2) fs])
  then have i: "i < length quads" "quads ! i = unat (high_part ?w s)" using tab by (auto simp: i_def)
  define code where "code = bucket_code ?w i s"
  note W = vf_geomD(9,10)[OF g]
  have w: "4 * ?w < 52" using vf_geomD(8)[OF g] by simp
  have cb: "bit code n \<Longrightarrow> n < bucket_width f" for n
    using bucket_code_bits(2)[OF w s(2) i(1), of n] by (simp add: code_def bucket_width_def)
  obtain t where t: "write_bits (T f) (nat p * bucket_width f) (nat p * bucket_width f + bucket_width f - 1) code = Inr t"
    "length t = length (T f)"
    "\<And>k. tbit t k \<longleftrightarrow> (if nat p * bucket_width f \<le> k \<and> k < nat p * bucket_width f + bucket_width f then bit code (k - nat p * bucket_width f) else tbit (T f) k)"
    using write_bits_ok[OF W bucket_words[OF g p], of code] cb by auto
  have v: "vat (encode_table f) (unat (high_part ?w s)) = Inr (encode_table f ! unat (high_part ?w s))"
    using tab quads_less[OF q] by simp
  have "ucast (encode_table f ! unat (high_part ?w s)) = (word_of_nat i :: u64)"
    unfolding i_def by simp
  then have c: "push_bit (4 * ?w) (ucast (encode_table f ! unat (high_part ?w s))) + low_part ?w s = code"
    by (simp add: code_def bucket_code_def)
  have nth: "(s @ r) ! 0 = s ! 0" "(s @ r) ! 1 = s ! 1" "(s @ r) ! 2 = s ! 2" "(s @ r) ! 3 = s ! 3"
    using len by (simp_all add: nth_append)
  then have parts: "low_part ?w (s @ r) = low_part ?w s" "high_part ?w (s @ r) = high_part ?w s"
    unfolding low_part_def high_part_def by (simp_all only:)
  have "set_bucket p (a # b # c # d # r) f = Inr (f\<lparr>T := t\<rparr>)"
    unfolding set_bucket_def bucket_range_ok[OF g p] Let_def s(1)
      low_part_def[symmetric] high_part_def[symmetric] fpw_def[symmetric]
    using vf_geomD(1,2)[OF g] by (simp add: parts v c t(1) del: One_nat_def)
  moreover have "vf_geom (f\<lparr>T := t\<rparr>)" using g t(2) by (simp add: vf_geom_def)
  moreover have "bucket_holds (f\<lparr>T := t\<rparr>) p s"
    using s(2) fs i t(3) by (auto simp: bucket_holds_def fits_fp_def code_def)
  moreover have "bucket_holds (f\<lparr>T := t\<rparr>) q s'" if q: "0 \<le> q" "q \<noteq> p" "bucket_holds f q s'" for q s'
  proof -
    have "nat p \<noteq> nat q" using q p by simp
    then have "tbit t (nat q * bucket_width f + k) = tbit (T f) (nat q * bucket_width f + k)" if "k < bucket_width f" for k
      unfolding t(3) using bucket_disjoint[of "nat p" "nat q" k "bucket_width f"] that by auto
    then show ?thesis using q(3) by (auto simp: bucket_holds_def)
  qed
  ultimately show ?thesis using s(3) by blast
qed

end
