(* ===== verification/Vacuum_Alternate.thy ===== *)
theory Vacuum_Alternate
  imports Vacuum_Buckets
begin

text \<open>
  The alternate bucket of a fingerprint in a small filter (\<open>AltHash\<close> with \<open>isSmall\<close>): it lies
  in range, differs from the first and leads back to it, for every even number of buckets.
\<close>

lemma and_ones: "0 \<le> (x :: int) AND (2 ^ k - 1)" "x AND (2 ^ k - 1) < 2 ^ k"
  by (simp_all flip: mask_eq_exp_minus_1 take_bit_eq_mask)

lemma and_or_one: "0 \<le> (u :: int) \<Longrightarrow> u < b \<Longrightarrow> 1 < b \<Longrightarrow> 0 < (if u = 0 then 1 else u) \<and> (if u = 0 then 1 else u) < b"
  by auto

lemma div_pow_Suc: "(x :: int) div 2 ^ h = 2 * (x div 2 ^ Suc h) + of_bool (bit x h)"
proof -
  have "x div 2 ^ Suc h = x div 2 ^ h div 2" unfolding power_Suc2 by (rule zdiv_zmult2_eq) simp
  moreover have "bit x h = odd (x div 2 ^ h)" by (simp add: bit_iff_odd)
  ultimately show ?thesis by (simp add: odd_two_times_div_two_succ)
qed

lemma drop_div: "drop_bit k (x :: int) = x div 2 ^ k"
  by (rule drop_bit_eq_div)

lemma xor_div: "(a XOR b) div 2 ^ k = (a div 2 ^ k) XOR (b div 2 ^ k :: int)"
  using drop_bit_xor[of k a b] unfolding drop_div .

lemma xor_zero_int: "a XOR b = 0 \<longleftrightarrow> a = (b :: int)"
  by (simp add: bit_eq_iff bit_xor_iff)

lemma xor_zero_self: "x XOR y = x \<longleftrightarrow> y = (0 :: int)"
  by (auto simp: bit_eq_iff bit_xor_iff)

lemma xor_less_iff:
  fixes a b :: int
  assumes "2 ^ h \<le> a XOR b" "a XOR b < 2 ^ (h + 1)"
  shows "a < b \<longleftrightarrow> bit b h"
proof -
  define v where "v = a XOR b"
  have v: "2 ^ h \<le> v" "v < 2 ^ (h + 1)" using assms by (simp_all add: v_def)
  have "0 \<le> v" using v(1) by (rule order_trans[rotated]) simp
  with v(2) have "(a XOR b) div 2 ^ (h + 1) = 0" unfolding v_def by (intro div_pos_pos_trivial)
  then have q: "a div 2 ^ Suc h = b div 2 ^ Suc h" unfolding xor_div xor_zero_int by simp
  have "(a XOR b) div 2 ^ h = 1" unfolding v_def[symmetric] using v by (intro int_div_pos_eq[where r = "v - 2 ^ h"]) simp_all
  then have "bit (a XOR b) h" by (simp add: bit_iff_odd)
  then have x: "bit a h \<noteq> bit b h" by (simp add: bit_xor_iff)
  have m: "a div 2 ^ h < b div 2 ^ h \<Longrightarrow> a < b" "b div 2 ^ h < a div 2 ^ h \<Longrightarrow> b < a"
    using zdiv_mono1[of b a "2 ^ h"] zdiv_mono1[of a b "2 ^ h"] by (force simp: linorder_not_le[symmetric])+
  show ?thesis
  proof (cases "bit b h")
    case True
    then have "a div 2 ^ h < b div 2 ^ h" unfolding div_pow_Suc[of a h] div_pow_Suc[of b h] q using x by simp
    with True m(1) show ?thesis by simp
  next
    case False
    then have "b div 2 ^ h < a div 2 ^ h" unfolding div_pow_Suc[of a h] div_pow_Suc[of b h] q using x by simp
    with False m(2) show ?thesis by simp
  qed
qed

lemma xor_below:
  fixes v t :: int
  assumes "2 ^ h \<le> v" "v < 2 ^ (h + 1)" "0 \<le> t" "t < 2 ^ h"
  shows "2 ^ h \<le> v XOR t" "v XOR t < 2 ^ (h + 1)"
proof -
  have "t div 2 ^ h = 0" using assms(3,4) by simp
  moreover have "v div 2 ^ h = 1" using assms(1,2) by (intro int_div_pos_eq[where r = "v - 2 ^ h"]) simp_all
  ultimately have "(v XOR t) div 2 ^ h = 1" unfolding xor_div by simp
  then have "v XOR t = 2 ^ h + (v XOR t) mod 2 ^ h" using mult_div_mod_eq[of "2 ^ h" "v XOR t"] by simp
  moreover have "0 \<le> (v XOR t) mod 2 ^ h" "(v XOR t) mod 2 ^ h < 2 ^ h" by simp_all
  moreover have "(2 :: int) ^ (h + 1) = 2 ^ h + 2 ^ h" by simp
  ultimately show "2 ^ h \<le> v XOR t" "v XOR t < 2 ^ (h + 1)" by linarith+
qed

definition small_ok :: "vfilter \<Rightarrow> bool" where
  "small_ok f \<longleftrightarrow> isSmall f \<and> even (vn f) \<and> 2 \<le> vn f \<and> vn f < 1315800 \<and> (\<exists>k. max_2_power f = 2 ^ k \<and> max_2_power f \<le> vn f)"

text \<open>The middle part of \<open>AltHash\<close>: flip low bits below the highest bit where \<open>pos\<close> and \<open>n\<close> differ.\<close>

definition seg_flip :: "int \<Rightarrow> int \<Rightarrow> int \<Rightarrow> int" where
  "seg_flip n delta pos =
     (let segment_length = sint (push_bit (find_highest_bit (word_of_int (pos XOR n))) 1 :: u32);
          t = delta AND (segment_length - 1)
      in pos XOR (if t = 0 then 1 else t))"

lemma seg_flip_ok:
  assumes n: "even n" "n < 2 ^ 30" and p: "0 \<le> pos" "pos < n"
  shows "0 \<le> seg_flip n d pos" "seg_flip n d pos < n" "seg_flip n d (seg_flip n d pos) = pos" "seg_flip n d pos \<noteq> pos"
proof -
  let ?v = "pos XOR n"
  have small: "0 \<le> x XOR n \<and> x XOR n < 2 ^ 30 \<and> x XOR n \<noteq> 0" if "0 \<le> x" "x < n" for x
    using that n(2) XOR_upper[of x 30 n] by (simp add: xor_zero_int)
  have v: "0 \<le> ?v" "?v < 2 ^ 30" "?v \<noteq> 0" using small[OF p] by simp_all
  have "1 \<le> nat ?v" using v by linarith
  then obtain h where h: "2 ^ h \<le> nat ?v" "nat ?v < 2 ^ (h + 1)" using ex_power_ivl1[of 2 "nat ?v"] by auto
  then have hv: "2 ^ h \<le> ?v" "?v < 2 ^ (h + 1)" using v by (simp_all add: le_nat_iff nat_less_iff)
  have "(2::int) ^ h < 2 ^ 30" using hv v by (meson le_less_trans)
  then have h30: "h < 30" by (rule power_less_imp_less_exp[rotated]) simp
  have fh: "find_highest_bit (word_of_int x) = h" if "2 ^ h \<le> x" "x < 2 ^ (h + 1)" for x
  proof -
    have "(2::int) ^ (h + 1) \<le> 2 ^ 32" using h30 by (intro power_increasing) simp_all
    then have "x < 2 ^ 32" using that(2) by linarith
    moreover have "0 \<le> x" using that(1) by (rule order_trans[rotated]) simp
    ultimately have "take_bit 32 x = x" by (rule take_bit_int_eq_self[rotated])
    then have "unat (word_of_int x :: u32) = nat x" by (simp add: unsigned_of_int)
    with that h30 show ?thesis by (intro find_highest_bit_unat) (simp_all add: le_nat_iff nat_less_iff)
  qed
  have seg: "sint (push_bit h 1 :: u32) = 2 ^ h"
  proof -
    have "push_bit h 1 = (word_of_int (2 ^ h) :: u32)" by (simp add: push_bit_eq_mult)
    moreover have "(2::int) ^ h < 2 ^ 31" using h30 by (intro power_strict_increasing) simp_all
    moreover have "- (2 ^ 31) \<le> (2::int) ^ h" by (rule order_trans[of _ 0]) simp_all
    ultimately show ?thesis by (simp only: sint_sbintrunc') (simp add: signed_take_bit_int_eq_self_iff)
  qed
  have h0: "h \<noteq> 0"
  proof
    assume "h = 0"
    then have "?v = 1" using hv by simp
    then have "pos = n XOR 1" by (metis xor.assoc xor.commute xor.left_neutral xor_self_eq)
    then have "pos = n + 1" using n(1) by (simp add: xor_one_eq)
    with p show False by simp
  qed
  define t where "t = (if d AND (2 ^ h - 1) = 0 then 1 else d AND (2 ^ h - 1))"
  have "(1::int) < 2 ^ h" using h0 by (intro one_less_power) simp_all
  then have t: "0 < t" "t < 2 ^ h"
    using and_or_one[OF and_ones[of d h], folded t_def] by blast+
  have sf: "seg_flip n d x = x XOR t" if "2 ^ h \<le> x XOR n" "x XOR n < 2 ^ (h + 1)" for x
    unfolding seg_flip_def fh[OF that] seg Let_def t_def ..
  let ?q = "pos XOR t"
  have e: "?q XOR n = ?v XOR t" by (simp only: xor.assoc xor.commute xor.left_commute)
  have q: "2 ^ h \<le> ?q XOR n" "?q XOR n < 2 ^ (h + 1)" unfolding e using xor_below[OF hv] t by simp_all
  have "bit ?q h \<longleftrightarrow> bit pos h"
  proof -
    have "t div 2 ^ h = 0" using t by simp
    then have "\<not> bit t h" by (simp add: bit_iff_odd)
    then show ?thesis by (simp add: bit_xor_iff)
  qed
  have "bit n h" using xor_less_iff[OF hv] p by simp
  then have "?q < n" using xor_less_iff[OF q] by simp
  moreover have "0 \<le> ?q" using p t by simp
  moreover have "?q XOR t = pos" by (simp add: xor.assoc)
  moreover have "?q \<noteq> pos" using t by (simp add: xor_zero_self)
  ultimately show "0 \<le> seg_flip n d pos" "seg_flip n d pos < n" "seg_flip n d (seg_flip n d pos) = pos" "seg_flip n d pos \<noteq> pos"
    unfolding sf[OF hv] sf[OF q] by simp_all
qed

lemma alternate_small_ok:
  fixes x :: u64
  assumes f: "small_ok f" and p: "0 \<le> p" "p < vn f"
  defines "q \<equiv> alternate_small f p x"
  shows "0 \<le> q \<and> q < vn f \<and> q \<noteq> p \<and> alternate_small f q x = p"
proof -
  let ?n = "vn f"
  define d where "d = sint (MurmurHash32 (ucast x)) AND (max_2_power f - 1)"
  obtain k where k: "max_2_power f = 2 ^ k" "2 ^ k \<le> ?n" using f by (auto simp: small_ok_def)
  have d: "0 \<le> d" "d < ?n" using and_ones[of "sint (MurmurHash32 (ucast x))" k] k by (auto simp: d_def)
  have n: "even ?n" "?n < 2 ^ 30" using f by (simp_all add: small_ok_def)
  define fwd where "fwd = (\<lambda>y. if ?n \<le> y + d then y + d - ?n else y + d)"
  define bwd where "bwd = (\<lambda>y. if y - d < 0 then y - d + ?n else y - d)"
  have alt: "alternate_small f y x = bwd (seg_flip ?n d (fwd y))" for y
    unfolding alternate_small_def seg_flip_def fwd_def bwd_def d_def[symmetric] Let_def ..
  have fw: "0 \<le> fwd y \<and> fwd y < ?n \<and> bwd (fwd y) = y" "0 \<le> bwd y \<and> bwd y < ?n \<and> fwd (bwd y) = y" if "0 \<le> y" "y < ?n" for y
    using that d by (auto simp: fwd_def bwd_def)
  note s = seg_flip_ok[OF n, of "fwd p" d] fw(1)[OF p]
  then have s': "0 \<le> seg_flip ?n d (fwd p)" "seg_flip ?n d (fwd p) < ?n" "seg_flip ?n d (seg_flip ?n d (fwd p)) = fwd p"
    "seg_flip ?n d (fwd p) \<noteq> fwd p" by auto
  note b = fw(2)[OF s'(1,2)]
  have "q \<noteq> p" using b s'(4) fw(1)[OF p] unfolding q_def alt by metis
  with b show ?thesis unfolding q_def alt using s'(3) s(5) by auto
qed

end
