(* ===== verification/Vacuum_Cells.thy ===== *)
theory Vacuum_Cells
  imports Vacuum_Alternate
begin

text \<open>
  The abstract state of the vacuum filter: the multiset of the tags (fingerprint and bucket
  pair) it stores. \<open>vf_wf\<close> is its invariant; every write replaces one element of a bucket
  and exchanges one tag (\<open>replace_ok\<close>).
\<close>

subsection \<open>The filter as a multiset of tags\<close>

definition vf_wf :: "vfilter \<Rightarrow> bool" where
  "vf_wf f \<longleftrightarrow> vf_geom f \<and> small_ok f \<and> (\<forall>p. 0 \<le> p \<and> p < vn f \<longrightarrow> (\<exists>s. bucket_holds f p s))"

definition bucket_of :: "vfilter \<Rightarrow> int \<Rightarrow> u64 list" where
  "bucket_of f p = take 4 (projr (get_bucket f p))"

text \<open>
  A tag is what the filter remembers of a key: its fingerprint and its two buckets.
\<close>

type_synonym tag = "u64 \<times> int \<times> int"

definition tag_of :: "vfilter \<Rightarrow> int \<Rightarrow> u64 \<Rightarrow> tag" where
  "tag_of f p x = (let q = alternate_small f p x in (x, min p q, max p q))"

definition bucket_tags :: "vfilter \<Rightarrow> int \<Rightarrow> u64 multiset \<Rightarrow> tag multiset" where
  "bucket_tags f p M = image_mset (tag_of f p) (filter_mset (\<lambda>x. x \<noteq> 0) M)"

definition cells :: "vfilter \<Rightarrow> tag multiset" where
  "cells f = (\<Sum>p \<in> {0..<vn f}. bucket_tags f p (mset (bucket_of f p)))"

text \<open>What an operation may change.\<close>

definition follows :: "vfilter \<Rightarrow> vfilter \<Rightarrow> bool" where
  "follows f f' \<longleftrightarrow> (\<exists>t c e. f' = f\<lparr>T := t, filled_cell := c, eng := e\<rparr>)"

lemma followsI: "f' = f\<lparr>T := t, filled_cell := c, eng := e\<rparr> \<Longrightarrow> follows f f'"
  by (auto simp: follows_def)

lemma follows_refl [simp]: "follows f f"
  by (rule followsI[where t = "T f" and c = "filled_cell f" and e = "eng f"]) simp

lemma follows_updates [simp]: "follows f (f\<lparr>T := t\<rparr>)" "follows f (f\<lparr>filled_cell := c\<rparr>)" "follows f (f\<lparr>eng := e\<rparr>)"
  by (rule followsI[where t = t and c = "filled_cell f" and e = "eng f"], simp)
    (rule followsI[where t = "T f" and c = c and e = "eng f"], simp, rule followsI[where t = "T f" and c = "filled_cell f" and e = e], simp)

lemma follows_fields:
  assumes "follows f f'"
  shows "vn f' = vn f" "vm f' = vm f" "fp_len f' = fp_len f" "isSmall f' = isSmall f" "max_2_power f' = max_2_power f"
    "max_kick_steps f' = max_kick_steps f" "memory_consumption f' = memory_consumption f"
    "encode_table f' = encode_table f" "decode_table f' = decode_table f" "len4 f' = len4 f" "full_bucket f' = full_bucket f"
  using assms by (auto simp: follows_def)

lemma follows_trans: "follows f g \<Longrightarrow> follows g h \<Longrightarrow> follows f h"
  unfolding follows_def by (elim exE) (intro exI, simp)

lemma bucket_of_ok:
  assumes "vf_wf f" "0 \<le> p" "p < vn f"
  shows "get_bucket f p = Inr (bucket_of f p @ [word_of_nat (occupied (bucket_of f p))])" "bucket_holds f p (bucket_of f p)"
proof -
  obtain s where s: "bucket_holds f p s" using assms by (auto simp: vf_wf_def)
  then have g: "get_bucket f p = Inr (s @ [word_of_nat (occupied s)])"
    using get_bucket_ok assms by (auto simp: vf_wf_def)
  moreover have "length s = 4" using s by (simp add: bucket_holds_def desc4_def)
  ultimately have "bucket_of f p = s" by (simp add: bucket_of_def)
  with g s show "get_bucket f p = Inr (bucket_of f p @ [word_of_nat (occupied (bucket_of f p))])" "bucket_holds f p (bucket_of f p)"
    by simp_all
qed

lemma bucket_of_unique:
  assumes "vf_geom f" "bucket_holds f p s" "0 \<le> p" "p < vn f"
  shows "bucket_of f p = s"
  using get_bucket_ok[OF assms(1,3,4,2)] assms(2) by (simp add: bucket_of_def bucket_holds_def desc4_def)

lemma small_ok_T [simp]: "small_ok (f\<lparr>T := t\<rparr>) = small_ok f"
  by (simp add: small_ok_def)

lemma tag_of_T [simp]: "tag_of (f\<lparr>T := t\<rparr>) = tag_of f" "bucket_tags (f\<lparr>T := t\<rparr>) = bucket_tags f"
proof -
  show "tag_of (f\<lparr>T := t\<rparr>) = tag_of f" by (simp add: tag_of_def alternate_small_def fun_eq_iff)
  then show "bucket_tags (f\<lparr>T := t\<rparr>) = bucket_tags f" by (intro ext) (simp add: bucket_tags_def)
qed

lemma set_bucket_cells:
  assumes wf: "vf_wf f" and p: "0 \<le> p" "p < vn f" and x: "\<forall>x \<in> {a, b, c, d}. fits_fp f x"
  shows "\<exists>f'. set_bucket p (a # b # c # d # r) f = Inr f' \<and> vf_wf f' \<and> follows f f' \<and> filled_cell f' = filled_cell f \<and> eng f' = eng f \<and>
     (\<forall>q. 0 \<le> q \<and> q < vn f \<and> q \<noteq> p \<longrightarrow> bucket_of f' q = bucket_of f q) \<and>
     cells f' + bucket_tags f p (mset (bucket_of f p)) = cells f + bucket_tags f p {# a, b, c, d #}"
proof -
  from wf have g: "vf_geom f" by (simp add: vf_wf_def)
  from set_bucket_ok[OF g p x, of r] obtain t s where t: "set_bucket p (a # b # c # d # r) f = Inr (f\<lparr>T := t\<rparr>)"
    "vf_geom (f\<lparr>T := t\<rparr>)" "bucket_holds (f\<lparr>T := t\<rparr>) p s" "mset s = {# a, b, c, d #}"
    "\<And>q s'. 0 \<le> q \<Longrightarrow> q \<noteq> p \<Longrightarrow> bucket_holds f q s' \<Longrightarrow> bucket_holds (f\<lparr>T := t\<rparr>) q s'" by metis
  let ?f = "f\<lparr>T := t\<rparr>"
  have h: "\<exists>s. bucket_holds ?f q s" if "0 \<le> q" "q < vn f" for q
    using t(3) t(5)[OF that(1)] bucket_of_ok(2)[OF wf that] by (cases "q = p") blast+
  then have wf': "vf_wf ?f" using t(2) wf by (simp add: vf_wf_def)
  have bp: "bucket_of ?f p = s" using bucket_of_unique[OF t(2,3)] p by simp
  have bq: "bucket_of ?f q = bucket_of f q" if "q \<in> {0..<vn f} - {p}" for q
    using bucket_of_unique[OF t(2) t(5)[OF _ _ bucket_of_ok(2)[OF wf]], of q] that by auto
  have pi: "p \<in> {0..<vn f}" using p by simp
  let ?S = "\<lambda>h. \<Sum>q \<in> {0..<vn f} - {p}. bucket_tags f q (mset (bucket_of h q))"
  have "cells ?f = bucket_tags f p (mset s) + ?S ?f"
    unfolding cells_def using sum.remove[OF _ pi, of "\<lambda>q. bucket_tags f q (mset (bucket_of ?f q))"] by (simp add: bp)
  moreover have "?S ?f = ?S f" by (rule sum.cong) (simp_all add: bq)
  moreover have "cells f = bucket_tags f p (mset (bucket_of f p)) + ?S f"
    unfolding cells_def using sum.remove[OF _ pi, of "\<lambda>q. bucket_tags f q (mset (bucket_of f q))"] by simp
  ultimately have "cells ?f + bucket_tags f p (mset (bucket_of f p)) = cells f + bucket_tags f p {# a, b, c, d #}"
    by (simp add: t(4) ac_simps)
  with t(1) wf' bq show ?thesis by (intro exI[of _ ?f]) simp
qed

lemma same_memory:
  assumes "follows f f'" "T f' = T f"
  shows "vf_geom f' = vf_geom f" "small_ok f' = small_ok f" "bucket_holds f' = bucket_holds f" "vf_wf f' = vf_wf f"
    "get_bucket f' = get_bucket f" "tag_of f' = tag_of f" "bucket_of f' = bucket_of f" "cells f' = cells f"
    "fits_fp f' = fits_fp f" "alternate_small f' = alternate_small f"
proof -
  obtain c e where f': "f' = f\<lparr>filled_cell := c, eng := e\<rparr>" using assms by (auto simp: follows_def)
  show g: "vf_geom f' = vf_geom f" by (simp add: f' vf_geom_def bucket_width_def fpw_def tables_ok_def)
  show s: "small_ok f' = small_ok f" by (simp add: f' small_ok_def)
  show F: "fits_fp f' = fits_fp f" by (intro ext) (simp add: f' fits_fp_def fpw_def)
  show h: "bucket_holds f' = bucket_holds f"
    by (intro ext) (simp add: f' bucket_holds_def F[unfolded f'] fpw_def bucket_width_def)
  show "vf_wf f' = vf_wf f" unfolding vf_wf_def g s h by (simp add: f')
  show b: "get_bucket f' = get_bucket f" by (intro ext) (simp add: f' get_bucket_def bucket_range_def)
  show a: "alternate_small f' = alternate_small f" by (intro ext) (simp add: f' alternate_small_def)
  show t: "tag_of f' = tag_of f" by (intro ext) (simp add: tag_of_def a)
  show B: "bucket_of f' = bucket_of f" by (intro ext) (simp add: bucket_of_def b)
  show "cells f' = cells f" unfolding cells_def bucket_tags_def B t by (simp add: f')
qed

lemma T_updates: "T (f\<lparr>filled_cell := c\<rparr>) = T f" "T (f\<lparr>eng := e\<rparr>) = T f"
  by simp_all

lemmas frame_filled [simp] = same_memory[OF follows_updates(2) T_updates(1)]
lemmas frame_eng [simp] = same_memory[OF follows_updates(3) T_updates(2)]

lemma follows_tag: "follows f f' \<Longrightarrow> tag_of f' = tag_of f" "follows f f' \<Longrightarrow> alternate_small f' = alternate_small f"
  "follows f f' \<Longrightarrow> fits_fp f' = fits_fp f" "follows f f' \<Longrightarrow> fingerprint f' = fingerprint f"
  "follows f f' \<Longrightarrow> position_hash f' = position_hash f"
  by (auto simp: follows_def fun_eq_iff tag_of_def alternate_small_def fits_fp_def fpw_def fingerprint_def position_hash_def)

lemma bucket_elems:
  assumes wf: "vf_wf f" and p: "0 \<le> p" "p < vn f"
  obtains a b c d where "bucket_of f p = [a, b, c, d]" "b \<le> a" "c \<le> b" "d \<le> c" "\<forall>x \<in> {a, b, c, d}. fits_fp f x"
proof -
  from bucket_of_ok(2)[OF assms] have "desc4 (bucket_of f p)" "\<forall>x \<in> set (bucket_of f p). fits_fp f x"
    by (simp_all add: bucket_holds_def)
  with desc4E[OF this(1)] show ?thesis using that by (metis list.set(1,2))
qed

definition opt_tag :: "vfilter \<Rightarrow> int \<Rightarrow> u64 \<Rightarrow> tag multiset" where
  "opt_tag f p x = (if x = 0 then {#} else {# tag_of f p x #})"

lemma bucket_tags_add: "bucket_tags f p (add_mset x M) = opt_tag f p x + bucket_tags f p M"
  by (simp add: bucket_tags_def opt_tag_def)

text \<open>The only write of the filter: one element of a bucket is replaced.\<close>

lemma replace_ok:
  assumes wf: "vf_wf f" and p: "0 \<le> p" "p < vn f" and j: "j < 4" and y: "fits_fp f y"
  shows "\<exists>f'. set_bucket p ((bucket_of f p)[j := y] @ r) f = Inr f' \<and> vf_wf f' \<and> follows f f' \<and> filled_cell f' = filled_cell f \<and> eng f' = eng f \<and>
     (\<forall>q. 0 \<le> q \<and> q < vn f \<and> q \<noteq> p \<longrightarrow> bucket_of f' q = bucket_of f q) \<and>
     cells f' + opt_tag f p (bucket_of f p ! j) = cells f + opt_tag f p y"
proof -
  obtain a b c d where B: "bucket_of f p = [a, b, c, d]" "\<forall>x \<in> {a, b, c, d}. fits_fp f x"
    using bucket_elems[OF wf p] by metis
  consider "j = 0" | "j = 1" | "j = 2" | "j = 3" using j by linarith
  then show ?thesis
  proof cases
    case 1
    from B(2) y have "\<forall>x \<in> {y, b, c, d}. fits_fp f x" by simp
    from set_bucket_cells[OF wf p this, of r] show ?thesis by (auto simp: 1 B(1) bucket_tags_add)
  next
    case 2
    from B(2) y have "\<forall>x \<in> {a, y, c, d}. fits_fp f x" by simp
    from set_bucket_cells[OF wf p this, of r] show ?thesis by (auto simp: 2 B(1) bucket_tags_add)
  next
    case 3
    from B(2) y have "\<forall>x \<in> {a, b, y, d}. fits_fp f x" by simp
    from set_bucket_cells[OF wf p this, of r] show ?thesis by (auto simp: 3 B(1) bucket_tags_add)
  next
    case 4
    from B(2) y have "\<forall>x \<in> {a, b, c, y}. fits_fp f x" by simp
    from set_bucket_cells[OF wf p this, of r] show ?thesis by (auto simp: 4 B(1) bucket_tags_add)
  qed
qed

subsection \<open>Lookup\<close>

lemma occ_cmp:
  assumes "m \<le> 4" "n \<le> 4"
  shows "((word_of_nat m :: u64) = word_of_int 4) = (m = 4)" "((word_of_nat m :: u64) < word_of_int 4) = (m < 4)"
    "((word_of_nat m :: u64) \<le> word_of_nat n) = (m \<le> n)"
proof -
  have "unat (word_of_nat m :: u64) = m" "unat (word_of_nat n :: u64) = n" using assms by (simp_all add: unat_word64)
  moreover have "unat (word_of_int 4 :: u64) = 4" by simp
  ultimately show "((word_of_nat m :: u64) = word_of_int 4) = (m = 4)" "((word_of_nat m :: u64) < word_of_int 4) = (m < 4)"
    "((word_of_nat m :: u64) \<le> word_of_nat n) = (m \<le> n)"
    by (simp_all only: word_unat_eq_iff word_less_nat_alt word_le_nat_alt)
qed

lemma occupied_le: "occupied s \<le> length s"
  by (simp add: occupied_def)

lemma bucket_full:
  assumes "vf_wf f" "0 \<le> p" "p < vn f"
  shows "length (bucket_of f p) = 4" "occupied (bucket_of f p) \<le> 4" "occupied (bucket_of f p) < 4 \<Longrightarrow> bucket_of f p ! 3 = 0"
    "occupied (bucket_of f p) = 4 \<Longrightarrow> j < 4 \<Longrightarrow> bucket_of f p ! j \<noteq> 0" "j < 4 \<Longrightarrow> fits_fp f (bucket_of f p ! j)"
proof -
  obtain a b c d where B: "bucket_of f p = [a, b, c, d]" "b \<le> a" "c \<le> b" "d \<le> c" "\<forall>x \<in> {a, b, c, d}. fits_fp f x"
    using bucket_elems[OF assms] by metis
  have nz: "u \<noteq> 0" if "v \<le> u" "v \<noteq> 0" for u v :: u64 using that by auto
  show "length (bucket_of f p) = 4" by (simp add: B(1))
  with occupied_le[of "bucket_of f p"] show "occupied (bucket_of f p) \<le> 4" by simp
  show "bucket_of f p ! 3 = 0" if "occupied (bucket_of f p) < 4"
  proof (rule ccontr)
    assume "bucket_of f p ! 3 \<noteq> 0"
    then have "d \<noteq> 0" by (simp add: B(1) numeral_3_eq_3)
    then have "c \<noteq> 0" "b \<noteq> 0" "a \<noteq> 0" using nz B(2-4) by blast+
    then show False using that \<open>d \<noteq> 0\<close> by (simp add: B(1) occupied_def)
  qed
  show "bucket_of f p ! j \<noteq> 0" if "occupied (bucket_of f p) = 4" "j < 4"
    using that by (auto simp: B(1) occupied_def nth_Cons' split: if_splits)
  show "fits_fp f (bucket_of f p ! j)" if "j < 4"
    using that B(5) by (auto simp: B(1) nth_Cons')
qed

lemma tag_sym:
  assumes "small_ok f" "0 \<le> p" "p < vn f"
  shows "tag_of f (alternate_small f p x) x = tag_of f p x"
proof -
  have "alternate_small f (alternate_small f p x) x = p" using alternate_small_ok[OF assms, of x] by simp
  then show ?thesis unfolding tag_of_def Let_def by (simp add: min_def max_def)
qed

lemma tag_eq:
  assumes "small_ok f" "0 \<le> p" "p < vn f" "0 \<le> q" "q < vn f"
  shows "tag_of f p x = tag_of f q y \<longleftrightarrow> x = y \<and> (p = q \<or> p = alternate_small f q y)"
proof -
  note alternate_small_ok[OF assms(1,2,3), of x] alternate_small_ok[OF assms(1,4,5), of y]
  then show ?thesis unfolding tag_of_def Let_def by (auto simp: min_def max_def split: if_splits)
qed

lemma cells_iff:
  "t \<in># cells f \<longleftrightarrow> (\<exists>p x. 0 \<le> p \<and> p < vn f \<and> x \<in> set (bucket_of f p) \<and> x \<noteq> 0 \<and> t = tag_of f p x)"
proof -
  have "t \<in># cells f \<longleftrightarrow> (\<exists>p \<in> {0..<vn f}. t \<in># bucket_tags f p (mset (bucket_of f p)))"
    unfolding cells_def by (subst set_mset_sum) auto
  then show ?thesis by (auto simp: bucket_tags_def)
qed

lemma cells_tag:
  assumes wf: "vf_wf f" and p: "0 \<le> p" "p < vn f" and x: "x \<noteq> 0"
  shows "tag_of f p x \<in># cells f \<longleftrightarrow> x \<in> set (bucket_of f p) \<or> x \<in> set (bucket_of f (alternate_small f p x))"
proof -
  have s: "small_ok f" using wf by (simp add: vf_wf_def)
  have q: "0 \<le> alternate_small f p x" "alternate_small f p x < vn f" using alternate_small_ok[OF s p] by auto
  show ?thesis
  proof
    assume "tag_of f p x \<in># cells f"
    then obtain r y where r: "0 \<le> r" "r < vn f" "y \<in> set (bucket_of f r)" "tag_of f r y = tag_of f p x"
      unfolding cells_iff by metis
    then show "x \<in> set (bucket_of f p) \<or> x \<in> set (bucket_of f (alternate_small f p x))"
      using tag_eq[OF s r(1,2) p] by auto
  next
    assume "x \<in> set (bucket_of f p) \<or> x \<in> set (bucket_of f (alternate_small f p x))"
    then show "tag_of f p x \<in># cells f"
      unfolding cells_iff using p q x tag_sym[OF s p, of x] by metis
  qed
qed

definition mixed :: "u64 \<Rightarrow> u64" where
  "mixed k = MurmurHash64 (k XOR 0x12891927)"

lemma fingerprint_ok:
  assumes "vf_geom f"
  shows "\<exists>fp. fingerprint f e = Inr fp \<and> fp \<noteq> 0 \<and> fits_fp f fp"
proof -
  let ?h = "MurmurHash64 (e XOR 0x192837319273)" and ?k = "fpw f + 4"
  let ?m = "push_bit ?k 1 - 1 :: u64"
  note g = vf_geomD[OF assms]
  have k: "nat (fp_len f) = ?k" using g by (simp add: fpw_def)
  have F: "fingerprint f e = Inr (?h mod ?m + 1)"
    using g unfolding fingerprint_def k by simp
  have "(2::nat) ^ ?k \<le> 2 ^ 16" "(2::nat) ^ 1 \<le> 2 ^ ?k" using g(8) by (intro power_increasing; simp)+
  then have k16: "2 ^ ?k \<le> (65536 :: nat)" "2 \<le> (2 :: nat) ^ ?k" by simp_all
  have m: "unat ?m = 2 ^ ?k - 1"
  proof -
    have "?m = word_of_nat (2 ^ ?k - 1)" by (simp add: push_bit_eq_mult)
    moreover have "(2 :: nat) ^ ?k - 1 < 2 ^ 64" using k16(1) by simp
    ultimately show ?thesis by (simp only: unat_word64)
  qed
  have "unat (?h mod ?m) < 2 ^ ?k - 1"
    unfolding unat_mod m using k16(2) by (intro mod_less_divisor) simp
  then have u: "unat (?h mod ?m + 1) = unat (?h mod ?m) + 1" "unat (?h mod ?m) + 1 < 2 ^ ?k"
    using k16 by (auto simp: unat_word_ariths take_bit_nat_eq_self_iff)
  then have "?h mod ?m + 1 \<noteq> 0" by (metis add_is_0 one_neq_zero unat_0)
  with F u show ?thesis by (auto simp: fits_fp_def)
qed

lemma position_hash_ok:
  assumes "vf_geom f"
  shows "\<exists>p. position_hash f e = Inr p \<and> 0 \<le> p \<and> p < vn f \<and> to_int p = p"
proof -
  note n = vf_geomD(4,5)[OF assms]
  let ?a = "sint e smod vn f + vn f"
  let ?p = "?a smod vn f"
  have "- vn f < sint e smod vn f" using smod_int_compares(3)[of "sint e" "vn f"] smod_int_compares(2)[of "sint e" "vn f"] n
    by (cases "0 \<le> sint e") auto
  then have p: "0 \<le> ?p" "?p < vn f" using smod_int_compares(1,2)[of ?a "vn f"] n by simp_all
  then have "to_int ?p = ?p" using n unfolding to_int_def sint_sbintrunc'
    by (simp add: signed_take_bit_int_eq_self_iff)
  with p n show ?thesis by (auto simp: position_hash_def)
qed

end
