(* ===== verification/Vacuum_Operations.thy ===== *)
theory Vacuum_Operations
  imports Vacuum_Cells
begin

text \<open>
  Every operation of the vacuum filter as an operation on its multiset of tags: lookup is
  membership, deletion removes one copy, insertion adds one or, when the kicks are
  exhausted, loses one; initialisation, copying and clearing.
\<close>

text \<open>The tag of a key.\<close>

definition vf_tag :: "vfilter \<Rightarrow> u64 \<Rightarrow> tag" where
  "vf_tag f k = tag_of f (projr (position_hash f (mixed k))) (projr (fingerprint f (mixed k)))"

lemma follows_vf_tag: "follows f f' \<Longrightarrow> vf_tag f' = vf_tag f"
  by (simp add: vf_tag_def follows_tag fun_eq_iff)

lemma probe:
  assumes "vf_wf f"
  obtains fp p where "fingerprint f (mixed k) = Inr fp" "fp \<noteq> 0" "fits_fp f fp" "position_hash f (mixed k) = Inr p"
    "0 \<le> p" "p < vn f" "to_int p = p" "vf_tag f k = tag_of f p fp"
proof -
  have g: "vf_geom f" using assms by (simp add: vf_wf_def)
  from fingerprint_ok[OF g] position_hash_ok[OF g] show ?thesis using that by (auto simp: vf_tag_def)
qed

lemma alternate_eq: "small_ok f \<Longrightarrow> alternate f p x = Inr (alternate_small f p x)"
  by (simp add: alternate_def small_ok_def)

lemma nat_vm: "vf_wf f \<Longrightarrow> nat (vm f) = 4"
  by (simp add: vf_wf_def vf_geom_def)

lemma upt_4: "[0..<4] = [0, 1, 2, 3]"
  by (simp add: upt_rec)

lemma lookup_in_bucket_ok:
  assumes wf: "vf_wf f" and p: "0 \<le> p" "p < vn f"
  shows "\<exists>r. lookup_in_bucket f p x = Inr r \<and> (r = 1 \<longleftrightarrow> x \<in> set (bucket_of f p))"
proof -
  obtain a b c d where B: "bucket_of f p = [a, b, c, d]" using bucket_elems[OF assms] by metis
  show ?thesis
    unfolding lookup_in_bucket_def bucket_of_ok(1)[OF assms] nat_vm[OF wf] upt_4 B
    by (auto simp: numeral_2_eq_2 numeral_3_eq_3)
qed

lemma vf_lookup_ok:
  assumes wf: "vf_wf f"
  shows "vf_lookup f k = Inr (vf_tag f k \<in># cells f)"
proof -
  obtain fp p where P: "fingerprint f (mixed k) = Inr fp" "fp \<noteq> 0" "position_hash f (mixed k) = Inr p"
    "0 \<le> p" "p < vn f" "to_int p = p" "vf_tag f k = tag_of f p fp"
    using probe[OF wf, of k] by metis
  have s: "small_ok f" using wf by (simp add: vf_wf_def)
  let ?q = "alternate_small f p fp"
  note q = alternate_small_ok[OF s P(4,5), of fp]
  obtain r1 where r1: "lookup_in_bucket f p fp = Inr r1" "r1 = 1 \<longleftrightarrow> fp \<in> set (bucket_of f p)"
    using lookup_in_bucket_ok[OF wf P(4,5)] by metis
  obtain r2 where r2: "lookup_in_bucket f ?q fp = Inr r2" "r2 = 1 \<longleftrightarrow> fp \<in> set (bucket_of f ?q)"
    using lookup_in_bucket_ok[OF wf, of ?q] q by metis
  show ?thesis
    unfolding vf_lookup_def mixed_def[symmetric] Let_def P(7) cells_tag[OF wf P(4,5,2)]
    using r1(2) r2 q by (auto simp: P r1(1) alternate_eq[OF s])
qed

lemma position_pair_ok:
  assumes wf: "vf_wf f"
  shows "\<exists>p q. position_pair f k = Inr (p, q) \<and> 0 \<le> p \<and> p < vn f \<and> 0 \<le> q \<and> q < vn f \<and> p \<noteq> q \<and>
     snd (vf_tag f k) = (min p q, max p q)"
proof -
  obtain fp p where P: "fingerprint f (mixed k) = Inr fp" "fp \<noteq> 0" "position_hash f (mixed k) = Inr p"
    "0 \<le> p" "p < vn f" "to_int p = p" "vf_tag f k = tag_of f p fp"
    using probe[OF wf, of k] by metis
  have s: "small_ok f" using wf by (simp add: vf_wf_def)
  show ?thesis
    unfolding position_pair_def mixed_def[symmetric] Let_def
    using alternate_small_ok[OF s P(4,5), of fp] P by (auto simp: alternate_eq[OF s] tag_of_def Let_def)
qed

subsection \<open>Deletion\<close>

lemma del_from_ok:
  assumes wf: "vf_wf f" and p: "0 \<le> p" "p < vn f" and x: "x \<noteq> 0" and js: "\<forall>j \<in> set js. j < 4"
  shows "\<exists>r f'. del_from (bucket_of f p @ [c]) p x js f = Inr (r, f') \<and> vf_wf f' \<and> follows f f' \<and>
     (if \<exists>j \<in> set js. bucket_of f p ! j = x
      then r = 1 \<and> cells f = cells f' + {# tag_of f p x #} \<and> filled_cell f' = filled_cell f - 1
      else r = 0 \<and> f' = f)"
  using js
proof (induction js)
  case Nil
  then show ?case using wf by auto
next
  case (Cons j js)
  have len: "length (bucket_of f p) = 4" using bucket_full(1)[OF wf p] .
  have v: "vat (bucket_of f p @ [c]) j = Inr (bucket_of f p ! j)" using Cons.prems len by (simp add: nth_append)
  show ?case
  proof (cases "bucket_of f p ! j = x")
    case True
    have u: "vput (bucket_of f p @ [c]) j 0 = Inr ((bucket_of f p)[j := 0] @ [c])"
      using Cons.prems len by (simp add: list_update_append)
    have z: "fits_fp f 0" by (simp add: fits_fp_def)
    let ?f = "f\<lparr>filled_cell := filled_cell f - 1\<rparr>"
    from replace_ok[of ?f p j 0 "[c]"] wf p Cons.prems z
    obtain f' where f': "set_bucket p ((bucket_of f p)[j := 0] @ [c]) ?f = Inr f'" "vf_wf f'" "follows ?f f'"
      "filled_cell f' = filled_cell f - 1" "cells f' + opt_tag ?f p x = cells f + opt_tag ?f p 0"
      using True by auto
    have "follows f f'" using follows_trans[OF follows_updates(2) f'(3)] .
    moreover have "cells f = cells f' + {# tag_of f p x #}" using f'(5) x by (simp add: opt_tag_def)
    ultimately show ?thesis using True f'(1,2,4) by (auto simp: v u)
  next
    case False
    with Cons show ?thesis by (simp add: v)
  qed
qed

lemma del_in_bucket_ok:
  assumes wf: "vf_wf f" and p: "0 \<le> p" "p < vn f" and x: "x \<noteq> 0"
  shows "\<exists>r f'. del_in_bucket p x f = Inr (r, f') \<and> vf_wf f' \<and> follows f f' \<and>
     (if x \<in> set (bucket_of f p)
      then r = 1 \<and> cells f = cells f' + {# tag_of f p x #} \<and> filled_cell f' = filled_cell f - 1
      else r = 0 \<and> f' = f)"
proof -
  have "(\<exists>j \<in> set [0..<4]. bucket_of f p ! j = x) \<longleftrightarrow> x \<in> set (bucket_of f p)"
    using bucket_full(1)[OF wf p] by (auto simp: in_set_conv_nth)
  with del_from_ok[OF assms, of "[0..<4]" "word_of_nat (occupied (bucket_of f p))"]
  show ?thesis unfolding del_in_bucket_def bucket_of_ok(1)[OF wf p] nat_vm[OF wf] by simp
qed

lemma vf_del_ok:
  assumes wf: "vf_wf f"
  shows "\<exists>f'. vf_del k f = Inr (vf_tag f k \<in># cells f, f') \<and> vf_wf f' \<and> follows f f' \<and>
     cells f' = cells f - {# vf_tag f k #} \<and>
     filled_cell f' = (if vf_tag f k \<in># cells f then filled_cell f - 1 else filled_cell f)"
proof -
  obtain fp p where P: "fingerprint f (mixed k) = Inr fp" "fp \<noteq> 0" "position_hash f (mixed k) = Inr p"
    "0 \<le> p" "p < vn f" "to_int p = p" "vf_tag f k = tag_of f p fp"
    using probe[OF wf, of k] by metis
  have s: "small_ok f" using wf by (simp add: vf_wf_def)
  let ?q = "alternate_small f p fp"
  have q: "0 \<le> ?q" "?q < vn f" using alternate_small_ok[OF s P(4,5), of fp] by simp_all
  obtain r1 f1 where D1: "del_in_bucket p fp f = Inr (r1, f1)" "vf_wf f1" "follows f f1"
    "if fp \<in> set (bucket_of f p) then r1 = 1 \<and> cells f = cells f1 + {# tag_of f p fp #} \<and> filled_cell f1 = filled_cell f - 1
     else r1 = 0 \<and> f1 = f"
    using del_in_bucket_ok[OF wf P(4,5,2)] by metis
  obtain r2 f2 where D2: "del_in_bucket ?q fp f = Inr (r2, f2)" "vf_wf f2" "follows f f2"
    "if fp \<in> set (bucket_of f ?q) then r2 = 1 \<and> cells f = cells f2 + {# tag_of f ?q fp #} \<and> filled_cell f2 = filled_cell f - 1
     else r2 = 0 \<and> f2 = f"
    using del_in_bucket_ok[OF wf q P(2)] by metis
  note M = cells_tag[OF wf P(4,5,2)]
  have D: "vf_del k f = (if r1 = 1 then Inr (True, f1) else rbind (alternate f1 p fp) (\<lambda>pos2.
              rbind (del_in_bucket pos2 fp f1) (\<lambda>(ok2, f2). Inr (ok2 = 1, f2))))"
    unfolding vf_del_def mixed_def[symmetric] Let_def by (simp add: P D1(1))
  show ?thesis
  proof (cases "fp \<in> set (bucket_of f p)")
    case True
    then have "vf_tag f k \<in># cells f" unfolding P(7) M by simp
    with True D1 show ?thesis unfolding D P(7) by (intro exI[of _ f1]) simp
  next
    case False
    then have f1: "r1 = 0" "f1 = f" using D1(4) by simp_all
    show ?thesis
    proof (cases "fp \<in> set (bucket_of f ?q)")
      case True
      then have "vf_tag f k \<in># cells f" unfolding P(7) M by simp
      with True D2 f1 show ?thesis unfolding D P(7) by (intro exI[of _ f2]) (simp add: alternate_eq[OF s] tag_sym[OF s P(4,5)])
    next
      case F2: False
      with False have n: "vf_tag f k \<notin># cells f" unfolding P(7) M by simp
      with F2 D2 f1 show ?thesis unfolding D by (intro exI[of _ f2]) (simp add: alternate_eq[OF s] diff_single_trivial)
    qed
  qed
qed

subsection \<open>Insertion\<close>

lemma find_room_ok:
  assumes wf: "vf_wf f" and p: "0 \<le> p" "p < vn f" and js: "\<forall>j \<in> set js. j < 4"
  shows "\<exists>room. find_room f p (bucket_of f p @ [c]) js = Inr room \<and>
     (case room of None \<Rightarrow> True
      | Some (j, nex, store2) \<Rightarrow> j < 4 \<and> nex = alternate_small f p (bucket_of f p ! j) \<and>
          store2 = bucket_of f nex @ [word_of_nat (occupied (bucket_of f nex))] \<and> occupied (bucket_of f nex) < 4)"
  using js
proof (induction js)
  case (Cons j js)
  have s: "small_ok f" using wf by (simp add: vf_wf_def)
  let ?x = "bucket_of f p ! j"
  let ?nex = "alternate_small f p ?x"
  have v: "vat (bucket_of f p @ [c]) j = Inr ?x" using Cons.prems bucket_full(1)[OF wf p] by (simp add: nth_append)
  have n: "0 \<le> ?nex" "?nex < vn f" using alternate_small_ok[OF s p] by simp_all
  have c: "vat (bucket_of f ?nex @ [word_of_nat (occupied (bucket_of f ?nex))]) (nat (vm f)) = Inr (word_of_nat (occupied (bucket_of f ?nex)))"
    using bucket_full(1)[OF wf n] by (simp add: nat_vm[OF wf] nth_append)
  have m: "vm f = 4" using wf by (simp add: vf_wf_def vf_geom_def)
  note o = occ_cmp(2)[OF bucket_full(2)[OF wf n], of 0, folded m, simplified]
  show ?case
  proof (cases "occupied (bucket_of f ?nex) < 4")
    case True
    then show ?thesis using Cons.prems by (simp add: v alternate_eq[OF s] bucket_of_ok(1)[OF wf n] c o)
  next
    case False
    with Cons show ?thesis by (simp add: v alternate_eq[OF s] bucket_of_ok(1)[OF wf n] c o)
  qed
qed simp

definition inserted :: "vfilter \<Rightarrow> tag \<Rightarrow> nat \<times> vfilter \<Rightarrow> bool" where
  "inserted f t = (\<lambda>(r, f'). vf_wf f' \<and> follows f f' \<and>
     (r = 0 \<and> cells f' = cells f + {# t #} \<and> filled_cell f' = filled_cell f + 1
      \<or> r = 1 \<and> filled_cell f' = filled_cell f \<and> (\<exists>x. cells f' + {# x #} = cells f + {# t #})))"

lemma kick_ok:
  assumes "vf_wf f" "0 \<le> p" "p < vn f" "x \<noteq> 0" "fits_fp f x"
  shows "\<exists>res. kick steps p x f = Inr res \<and> inserted f (tag_of f p x) res"
  using assms
proof (induction steps arbitrary: p x f)
  case 0
  then have "inserted f (tag_of f p x) (1, f)" unfolding inserted_def by (simp only: case_prod_conv follows_refl) blast
  then show ?case by simp
next
  case (Suc steps)
  note wf = Suc.prems(1) and p = Suc.prems(2,3) and x = Suc.prems(4,5)
  let ?B = "bucket_of f p"
  define c where "c = (word_of_nat (occupied ?B) :: u64)"
  have gb: "get_bucket f p = Inr (?B @ [c])" unfolding c_def by (rule bucket_of_ok(1)[OF wf p])
  have s: "small_ok f" using wf by (simp add: vf_wf_def)
  have m: "vm f = 4" using wf by (simp add: vf_wf_def vf_geom_def)
  note len = bucket_full(1)[OF wf p] and full = bucket_full(2-5)[OF wf p]
  have v: "vat (?B @ [c]) 4 = Inr c" using len by (simp add: nth_append)
  have o: "(c = word_of_int (vm f)) = (occupied ?B = 4)" unfolding m c_def using occ_cmp(1)[OF full(1), of 0] by simp
  have at: "vat (?B @ [c]) j = Inr (?B ! j)" "vput (?B @ [c]) j y = Inr (?B[j := y] @ [c])" if "j < 4" for j y
    using that len by (simp_all add: nth_append list_update_append)
  show ?case
  proof (cases "occupied ?B = 4")
    case False
    then have z: "?B ! 3 = 0" using full(1,2) by simp
    have vm3: "nat (vm f - 1) = 3" by (simp add: m)
    let ?f = "f\<lparr>filled_cell := filled_cell f + 1\<rparr>"
    from replace_ok[of ?f p 3 x "[c]"] wf p x(2)
    obtain f' where f': "set_bucket p (?B[3 := x] @ [c]) ?f = Inr f'" "vf_wf f'" "follows ?f f'"
      "filled_cell f' = filled_cell f + 1" "cells f' = cells f + {# tag_of f p x #}"
      using z x(1) by (auto simp: opt_tag_def)
    have "kick (Suc steps) p x f = Inr (0, f')"
      using False f'(1) by (simp add: gb v o vm3 nat_vm[OF wf] at del: One_nat_def)
    with f' follows_trans[OF follows_updates(2) f'(3)] show ?thesis by (auto simp: inserted_def)
  next
    case True
    have nz: "?B ! j \<noteq> 0" if "j < 4" for j using full(3)[OF True that] .
    from find_room_ok[OF wf p, of "[0..<4]" c] obtain room where
      R: "find_room f p (?B @ [c]) [0..<4] = Inr room" "case room of None \<Rightarrow> True
      | Some (j, nex, store2) \<Rightarrow> j < 4 \<and> nex = alternate_small f p (?B ! j) \<and>
          store2 = bucket_of f nex @ [word_of_nat (occupied (bucket_of f nex))] \<and> occupied (bucket_of f nex) < 4" by auto
    show ?thesis
    proof (cases room)
      case (Some r)
      obtain j nex store2 where r: "r = (j, nex, store2)" by (cases r)
      with R(2) Some have J: "j < 4" "nex = alternate_small f p (?B ! j)"
        "store2 = bucket_of f nex @ [word_of_nat (occupied (bucket_of f nex))]" "occupied (bucket_of f nex) < 4" by auto
      let ?y = "?B ! j" and ?c2 = "word_of_nat (occupied (bucket_of f nex)) :: u64"
      have n: "0 \<le> nex" "nex < vn f" "nex \<noteq> p" using alternate_small_ok[OF s p, of ?y] J(2) by simp_all
      have z: "bucket_of f nex ! 3 = 0" using bucket_full(3)[OF wf n(1,2) J(4)] .
      have vm3: "nat (vm f - 1) = 3" by (simp add: m)
      have u2: "vput store2 3 ?y = Inr ((bucket_of f nex)[3 := ?y] @ [?c2])"
        using bucket_full(1)[OF wf n(1,2)] by (simp add: J(3) list_update_append)
      have ty: "tag_of f nex ?y = tag_of f p ?y" using tag_sym[OF s p] J(2) by simp
      let ?f = "f\<lparr>filled_cell := filled_cell f + 1\<rparr>"
      from replace_ok[of ?f nex 3 ?y "[?c2]"] wf n full(4)[OF J(1)]
      obtain f1 where f1: "set_bucket nex ((bucket_of f nex)[3 := ?y] @ [?c2]) ?f = Inr f1" "vf_wf f1" "follows ?f f1"
        "filled_cell f1 = filled_cell f + 1" "\<forall>q. 0 \<le> q \<and> q < vn f \<and> q \<noteq> nex \<longrightarrow> bucket_of f1 q = bucket_of f q"
        "cells f1 = cells f + {# tag_of f p ?y #}"
        using z nz[OF J(1)] ty by (auto simp: opt_tag_def)
      note F1 = follows_trans[OF follows_updates(2) f1(3)]
      have b1: "bucket_of f1 p = ?B" using f1(5) p n(3) by simp
      from replace_ok[of f1 p j x "[c]"] f1(2) p J(1) x(2)
      obtain f2 where f2: "set_bucket p (?B[j := x] @ [c]) f1 = Inr f2" "vf_wf f2" "follows f1 f2"
        "filled_cell f2 = filled_cell f1" "cells f2 + {# tag_of f p ?y #} = cells f1 + {# tag_of f p x #}"
        using nz[OF J(1)] x(1) b1 by (auto simp: follows_fields[OF F1] follows_tag[OF F1] opt_tag_def)
      have "kick (Suc steps) p x f = Inr (0, f2)"
        using True R(1) Some by (simp add: gb v o nat_vm[OF wf] r at J(1) u2 vm3 f1(1) f2(1) del: One_nat_def)
      moreover have "cells f2 = cells f + {# tag_of f p x #}" using f2(5) f1(6) by simp
      ultimately show ?thesis using f2(2,4) f1(4) follows_trans[OF F1 f2(3)] by (auto simp: inserted_def)
    next
      case None
      define e1 where "e1 = minstd_rand0 (eng f)"
      define rk where "rk = e1 mod 4"
      have rk: "rk < 4" by (simp add: rk_def)
      let ?y = "?B ! rk"
      from replace_ok[of "f\<lparr>eng := e1\<rparr>" p rk x "[c]"] wf p rk x(2)
      obtain f1 where f1: "set_bucket p (?B[rk := x] @ [c]) (f\<lparr>eng := e1\<rparr>) = Inr f1" "vf_wf f1" "follows (f\<lparr>eng := e1\<rparr>) f1"
        "filled_cell f1 = filled_cell f" "cells f1 + {# tag_of f p ?y #} = cells f + {# tag_of f p x #}"
        using nz[OF rk] x(1) by (auto simp: opt_tag_def)
      note F1 = follows_trans[OF follows_updates(3) f1(3)]
      have s1: "small_ok f1" using f1(2) by (simp add: vf_wf_def)
      let ?q = "alternate_small f p ?y"
      have q: "0 \<le> ?q" "?q < vn f1" using alternate_small_ok[OF s p, of ?y] by (simp_all add: follows_fields[OF F1])
      have ty: "tag_of f1 ?q ?y = tag_of f p ?y" using tag_sym[OF s p] by (simp add: follows_tag[OF F1])
      have "fits_fp f1 ?y" using full(4)[OF rk] by (simp add: follows_tag[OF F1])
      from Suc.IH[OF f1(2) q nz[OF rk] this] obtain res where
        res: "kick steps ?q ?y f1 = Inr res" "inserted f1 (tag_of f p ?y) res" unfolding ty by metis
      have "kick (Suc steps) p x f = Inr res"
        using True R(1) None
        by (simp add: gb v o nat_vm[OF wf] Let_def e1_def[symmetric] rk_def[symmetric] at rk f1(1)
            alternate_eq[OF s1] follows_tag[OF F1] res(1))
      moreover have "inserted f (tag_of f p x) res"
      proof -
        obtain r f' where r: "res = (r, f')" by (cases res)
        from res(2) have i: "vf_wf f'" "follows f1 f'" "r = 0 \<and> cells f' = cells f1 + {# tag_of f p ?y #} \<and> filled_cell f' = filled_cell f1 + 1
           \<or> r = 1 \<and> filled_cell f' = filled_cell f1 \<and> (\<exists>x. cells f' + {# x #} = cells f1 + {# tag_of f p ?y #})"
          by (auto simp: r inserted_def)
        with f1(4,5) follows_trans[OF F1 i(2)] show ?thesis by (auto simp: r inserted_def)
      qed
      ultimately show ?thesis by blast
    qed
  qed
qed

lemma two_full_buckets:
  assumes "0 \<le> p" "p < vn f" "0 \<le> q" "q < vn f" "p \<noteq> q" "occupied (bucket_of f p) = 4" "occupied (bucket_of f q) = 4"
  shows "8 \<le> size (cells f)"
proof -
  let ?t = "\<lambda>p. bucket_tags f p (mset (bucket_of f p))"
  have s: "size (?t p) = occupied (bucket_of f p)" for p by (simp add: bucket_tags_def occupied_def flip: mset_filter)
  have "sum ?t {p, q} \<subseteq># sum ?t ({0..<vn f} - {p, q}) + sum ?t {p, q}" by simp
  also have "\<dots> = cells f" unfolding cells_def
    by (rule sum.subset_diff[symmetric]) (use assms in auto)
  finally have "size (sum ?t {p, q}) \<le> size (cells f)" by (rule size_mset_mono)
  then show ?thesis using assms(5-7) by (simp add: s)
qed

text \<open>The kicks start only when both buckets of the key are full.\<close>

definition both_full :: "vfilter \<Rightarrow> tag \<Rightarrow> bool" where
  "both_full f = (\<lambda>(_, p, q). occupied (bucket_of f p) = 4 \<and> occupied (bucket_of f q) = 4)"

lemma both_full_tag: "both_full f (tag_of f p x) \<longleftrightarrow> occupied (bucket_of f p) = 4 \<and> occupied (bucket_of f (alternate_small f p x)) = 4"
  by (auto simp: both_full_def tag_of_def Let_def min_def max_def)

lemma vf_insert_full:
  assumes wf: "vf_wf f"
  shows "\<exists>res. vf_insert k f = Inr res \<and> inserted f (vf_tag f k) res \<and> (fst res = 0 \<or> both_full f (vf_tag f k) \<and> 8 \<le> size (cells f))"
proof -
  obtain x p where P: "fingerprint f (mixed k) = Inr x" "x \<noteq> 0" "fits_fp f x" "position_hash f (mixed k) = Inr p"
    "0 \<le> p" "p < vn f" "to_int p = p" "vf_tag f k = tag_of f p x"
    using probe[OF wf, of k] by metis
  have s: "small_ok f" using wf by (simp add: vf_wf_def)
  have m: "vm f = 4" using wf by (simp add: vf_wf_def vf_geom_def)
  let ?q = "alternate_small f p x"
  have q: "0 \<le> ?q" "?q < vn f" "p \<noteq> ?q" using alternate_small_ok[OF s P(5,6), of x] by auto
  have tq: "tag_of f ?q x = tag_of f p x" by (rule tag_sym[OF s P(5,6)])
  define st where "st = (\<lambda>p. bucket_of f p @ [word_of_nat (occupied (bucket_of f p)) :: u64])"
  have G: "get_bucket f r = Inr (st r)" if "0 \<le> r" "r < vn f" for r
    using bucket_of_ok(1)[OF wf that] by (simp add: st_def)
  have V: "vat (st r) (nat (vm f)) = Inr (word_of_nat (occupied (bucket_of f r)))" if "0 \<le> r" "r < vn f" for r
    using bucket_full(1)[OF wf that] by (simp add: st_def nat_vm[OF wf] nth_append)
  have at: "vat (st r) j = Inr (bucket_of f r ! j)" "vput (st r) j y = Inr ((bucket_of f r)[j := y] @ [word_of_nat (occupied (bucket_of f r))])"
    if "0 \<le> r" "r < vn f" "j < 4" for r j y
    using that bucket_full(1)[OF wf that(1,2)] by (simp_all add: st_def nth_append list_update_append)
  define cur where "cur = (if (word_of_nat (occupied (bucket_of f p)) :: u64) \<le> word_of_nat (occupied (bucket_of f ?q)) then p else ?q)"
  have cur: "0 \<le> cur" "cur < vn f" "tag_of f cur x = tag_of f p x" using P(5,6) q tq by (auto simp: cur_def)
  have o: "((word_of_nat (occupied (bucket_of f cur)) :: u64) = word_of_int (vm f)) = (occupied (bucket_of f cur) = 4)"
    unfolding m using occ_cmp(1)[OF bucket_full(2)[OF wf cur(1,2)], of 0] by simp
  define e1 where "e1 = minstd_rand0 (eng f)"
  define e2 where "e2 = minstd_rand0 e1"
  define rk where "rk = e1 mod 4"
  define c2 where "c2 = (if odd e2 then p else ?q)"
  have c2: "0 \<le> c2" "c2 < vn f" "tag_of f c2 x = tag_of f p x" using P(5,6) q tq by (auto simp: c2_def)
  have rk: "rk < 4" by (simp add: rk_def)
  have E: "vf_insert k f = rbind (insert_to_bucket f (st cur) x) (\<lambda>(r, s).
            if r = 0 then
              rbind (set_bucket cur s (f\<lparr>filled_cell := filled_cell f + 1\<rparr>)) (\<lambda>f1. Inr (0, f1))
            else
              rbind (vat (st c2) rk) (\<lambda>tmp_fp.
              rbind (vput (st c2) rk x) (\<lambda>s1.
              rbind (set_bucket c2 s1 (f\<lparr>eng := e2\<rparr>)) (\<lambda>f1.
              rbind (alternate f1 c2 tmp_fp) (\<lambda>alt.
              kick (nat (max_kick_steps f1)) alt tmp_fp f1)))))"
  proof -
    have sc: "(if (word_of_nat (occupied (bucket_of f p)) :: u64) \<le> word_of_nat (occupied (bucket_of f ?q)) then (p, st p) else (?q, st ?q)) = (cur, st cur)"
      by (simp add: cur_def)
    have s2: "(if odd e2 then (p, st p) else (?q, st ?q)) = (c2, st c2)" by (simp add: c2_def)
    have g: "guard Undefined (vm f \<noteq> 0) = Inr ()" by (simp add: m)
    show ?thesis
      unfolding vf_insert_def mixed_def[symmetric] Let_def e1_def[symmetric] e2_def[symmetric] P(1,4) rbind_simps P(7)
        alternate_eq[OF s] G[OF P(5,6)] G[OF q(1,2)] V[OF P(5,6), unfolded nat_vm[OF wf]] V[OF q(1,2), unfolded nat_vm[OF wf]] sc s2 case_prod_conv nat_vm[OF wf] rk_def[symmetric] g
      ..
  qed
  show ?thesis
  proof (cases "occupied (bucket_of f cur) = 4")
    case False
    then have "occupied (bucket_of f cur) < 4" using bucket_full(2)[OF wf cur(1,2)] by simp
    then have z: "bucket_of f cur ! 3 = 0" using bucket_full(3)[OF wf cur(1,2)] by simp
    let ?s = "(bucket_of f cur)[3 := x] @ [word_of_nat (occupied (bucket_of f cur))]"
    have I: "insert_to_bucket f (st cur) x = Inr (0, ?s)"
      using False at(2)[OF cur(1,2), of 3] by (simp add: insert_to_bucket_def V[OF cur(1,2)] o)
    from replace_ok[of "f\<lparr>filled_cell := filled_cell f + 1\<rparr>" cur 3 x "[word_of_nat (occupied (bucket_of f cur))]"] wf cur P(3)
    obtain f' where f': "set_bucket cur ?s (f\<lparr>filled_cell := filled_cell f + 1\<rparr>) = Inr f'" "vf_wf f'"
      "follows (f\<lparr>filled_cell := filled_cell f + 1\<rparr>) f'"
      "filled_cell f' = filled_cell f + 1" "cells f' = cells f + {# tag_of f p x #}"
      using z P(2) by (auto simp: opt_tag_def)
    have "vf_insert k f = Inr (0, f')" unfolding E I by (simp add: f'(1))
    with f' follows_trans[OF follows_updates(2) f'(3)] show ?thesis by (auto simp: inserted_def P(8))
  next
    case True
    have I: "insert_to_bucket f (st cur) x = Inr (5, st cur)"
      unfolding insert_to_bucket_def V[OF cur(1,2)] rbind_simps o using True by simp
    let ?y = "bucket_of f c2 ! rk"
    let ?s = "(bucket_of f c2)[rk := x] @ [word_of_nat (occupied (bucket_of f c2))]"
    have both: "occupied (bucket_of f p) = 4" "occupied (bucket_of f ?q) = 4"
      using True occ_cmp(3)[OF bucket_full(2)[OF wf P(5,6)] bucket_full(2)[OF wf q(1,2)]]
        bucket_full(2)[OF wf P(5,6)] bucket_full(2)[OF wf q(1,2)] by (auto simp: cur_def split: if_splits)
    then have "occupied (bucket_of f c2) = 4" by (simp add: c2_def)
    then have nz: "?y \<noteq> 0" using bucket_full(4)[OF wf c2(1,2) _ rk] by simp
    have eight: "8 \<le> size (cells f)" by (rule two_full_buckets[OF P(5,6) q both])
    from replace_ok[of "f\<lparr>eng := e2\<rparr>" c2 rk x "[word_of_nat (occupied (bucket_of f c2))]"] wf c2 rk P(3)
    obtain f1 where f1: "set_bucket c2 ?s (f\<lparr>eng := e2\<rparr>) = Inr f1" "vf_wf f1" "follows (f\<lparr>eng := e2\<rparr>) f1"
      "filled_cell f1 = filled_cell f" "cells f1 + {# tag_of f c2 ?y #} = cells f + {# tag_of f p x #}"
      using nz P(2) by (auto simp: opt_tag_def)
    note F1 = follows_trans[OF follows_updates(3) f1(3)]
    have s1: "small_ok f1" using f1(2) by (simp add: vf_wf_def)
    let ?r = "alternate_small f c2 ?y"
    have r: "0 \<le> ?r" "?r < vn f1" using alternate_small_ok[OF s c2(1,2), of ?y] by (simp_all add: follows_fields[OF F1])
    have ty: "tag_of f1 ?r ?y = tag_of f c2 ?y" using tag_sym[OF s c2(1,2)] by (simp add: follows_tag[OF F1])
    have "fits_fp f1 ?y" using bucket_full(5)[OF wf c2(1,2) rk] by (simp add: follows_tag[OF F1])
    from kick_ok[OF f1(2) r nz this, of "nat (max_kick_steps f1)"] obtain res where
      res: "kick (nat (max_kick_steps f1)) ?r ?y f1 = Inr res" "inserted f1 (tag_of f c2 ?y) res" unfolding ty by metis
    have "vf_insert k f = Inr res"
      unfolding E I by (simp add: at[OF c2(1,2) rk] f1(1) alternate_eq[OF s1] follows_tag[OF F1] res(1))
    moreover have "inserted f (vf_tag f k) res"
    proof -
      obtain r f' where r: "res = (r, f')" by (cases res)
      from res(2) have i: "vf_wf f'" "follows f1 f'" "r = 0 \<and> cells f' = cells f1 + {# tag_of f c2 ?y #} \<and> filled_cell f' = filled_cell f1 + 1
         \<or> r = 1 \<and> filled_cell f' = filled_cell f1 \<and> (\<exists>x. cells f' + {# x #} = cells f1 + {# tag_of f c2 ?y #})"
        by (auto simp: r inserted_def)
      with f1(4,5) follows_trans[OF F1 i(2)] show ?thesis by (auto simp: r inserted_def P(8))
    qed
    moreover have "both_full f (vf_tag f k)" unfolding P(8) both_full_tag using both by simp
    ultimately show ?thesis using eight by blast
  qed
qed

lemma vf_insert_ok:
  "vf_wf f \<Longrightarrow> \<exists>res. vf_insert k f = Inr res \<and> inserted f (vf_tag f k) res \<and> (fst res = 0 \<or> 8 \<le> size (cells f))"
  using vf_insert_full by blast

text \<open>The state of the engine stays in its range.\<close>

lemma minstd_bound: "minstd_rand0 x < 2 ^ 31"
proof -
  have "minstd_rand0 x < 2147483647" unfolding minstd_rand0_def by simp
  then show ?thesis by simp
qed

lemma set_bucket_eng: "set_bucket p st f = Inr f' \<Longrightarrow> eng f' = eng f"
  by (cases "bucket_range f p") (auto simp: set_bucket_def Let_def rbind_eq_Inr)

lemma kick_eng: "kick n p x f = Inr (r, f') \<Longrightarrow> eng f < 2 ^ 31 \<Longrightarrow> eng f' < 2 ^ 31"
proof (induction n arbitrary: p x f)
  case (Suc n)
  show ?case using Suc.prems minstd_bound[of "eng f"]
    by (auto simp: rbind_eq_Inr Let_def dest!: set_bucket_eng Suc.IH split: if_splits option.splits)
qed simp

lemma vf_insert_eng: "vf_insert k f = Inr (r, f') \<Longrightarrow> eng f < 2 ^ 31 \<Longrightarrow> eng f' < 2 ^ 31"
  using minstd_bound[of "minstd_rand0 (eng f)"]
  by (auto simp: vf_insert_def rbind_eq_Inr Let_def dest!: set_bucket_eng kick_eng split: if_splits prod.splits)

subsection \<open>Initialisation, copies, clearing\<close>

text \<open>Only the fields that place fingerprints matter; the tables need only be filled.\<close>

lemma same_image:
  assumes wf: "vf_wf f" and tab: "tables_ok f'"
    and eq: "vn f' = vn f" "vm f' = vm f" "fp_len f' = fp_len f" "isSmall f' = isSmall f" "max_2_power f' = max_2_power f"
      "T f' = T f" "memory_consumption f' = memory_consumption f"
  shows "vf_wf f'" "cells f' = cells f" "vf_tag f' = vf_tag f"
proof -
  have F: "fits_fp f' = fits_fp f" "fpw f' = fpw f" "bucket_width f' = bucket_width f"
    by (simp_all add: fun_eq_iff fits_fp_def fpw_def bucket_width_def eq)
  have g: "vf_geom f'" using wf tab by (simp add: vf_wf_def vf_geom_def F eq)
  have h: "bucket_holds f' = bucket_holds f" by (simp add: fun_eq_iff bucket_holds_def F eq)
  show wf': "vf_wf f'" using wf by (simp add: vf_wf_def g h eq small_ok_def)
  have a: "alternate_small f' = alternate_small f" by (simp add: fun_eq_iff alternate_small_def eq)
  then have t: "tag_of f' = tag_of f" by (simp add: fun_eq_iff tag_of_def)
  have b: "bucket_of f' p = bucket_of f p" if "p \<in> {0..<vn f}" for p
    using bucket_of_unique[OF g, of p "bucket_of f p"] bucket_of_ok(2)[OF wf, of p] that by (simp add: h eq)
  show "cells f' = cells f"
    unfolding cells_def eq by (rule sum.cong) (simp_all add: b bucket_tags_def t)
  show "vf_tag f' = vf_tag f"
    unfolding vf_tag_def fun_eq_iff t by (simp add: position_hash_def fingerprint_def eq)
qed

lemma tables_ok_cong: "encode_table f' = encode_table f \<Longrightarrow> decode_table f' = decode_table f \<Longrightarrow> tables_ok f' = tables_ok f"
  by (simp add: tables_ok_def)

lemma quads_first: "quads ! 0 = 0"
proof -
  have "0 \<in> set quads" by (simp add: quads_iff)
  then obtain i where i: "i < length quads" "quads ! i = 0" by (auto simp: in_set_conv_nth)
  show ?thesis
  proof (cases i)
    case 0
    then show ?thesis using i by simp
  next
    case (Suc j)
    then have "quads ! 0 < quads ! i" using sorted_wrt_nth_less[OF quads_sorted, of 0 i] i(1) by simp
    with i show ?thesis by simp
  qed
qed

lemma empty_filter:
  assumes g: "vf_geom f" and s: "small_ok f" and z: "T f = replicate n 0"
  shows "vf_wf f" "cells f = {#}"
proof -
  let ?s = "[0, 0, 0, 0] :: u64 list"
  have h: "bucket_holds f p ?s" if p: "0 \<le> p" "p < vn f" for p
  proof -
    have "high_part (fpw f) ?s = 0" "low_part (fpw f) ?s = 0" by (simp_all add: high_part_def low_part_def numeral_2_eq_2 numeral_3_eq_3)
    moreover have "\<not> tbit (T f) (nat p * bucket_width f + b)" if "b < bucket_width f" for b
    proof -
      let ?k = "nat p * bucket_width f + b"
      have "?k < 32 * length (T f)" using bucket_end(1)[OF g p] vf_geomD(7)[OF g] that by linarith
      then have "?k div 32 < length (T f)" by (simp add: less_mult_imp_div_less mult.commute)
      then show ?thesis unfolding tbit_def z by simp
    qed
    ultimately show ?thesis unfolding bucket_holds_def
      using quads_first by (auto simp: desc4_def fits_fp_def bucket_code_def quads_length numeral_2_eq_2 numeral_3_eq_3 intro!: exI[of _ 0])
  qed
  then show "vf_wf f" using g s by (auto simp: vf_wf_def)
  have "bucket_of f p = ?s" if "0 \<le> p" "p < vn f" for p
    using bucket_of_unique[OF g h] that by simp
  then show "cells f = {#}" unfolding cells_def by (intro sum.neutral) (simp add: bucket_tags_def)
qed

lemma vf_clear_ok:
  assumes "vf_wf f"
  shows "vf_wf (vf_clear f)" "cells (vf_clear f) = {#}"
proof -
  have z: "map (\<lambda>_. 0) (T f) = replicate (length (T f)) 0" by (simp add: map_replicate_const)
  have "vf_geom (vf_clear f)" "small_ok (vf_clear f)"
    using assms by (simp_all add: vf_wf_def vf_clear_def vf_geom_def bucket_width_def fpw_def small_ok_def tables_ok_def)
  then show "vf_wf (vf_clear f)" "cells (vf_clear f) = {#}"
    using empty_filter[of "vf_clear f" "length (T f)"] by (simp_all add: vf_clear_def z)
qed

lemma copy_loop:
  "n \<le> length src \<Longrightarrow> n \<le> length dst \<Longrightarrow> rfold (\<lambda>i t. rbind (vat src i) (vput t i)) [0..<n] dst = Inr (take n src @ drop n dst)"
proof (induction n)
  case (Suc n)
  then have "rfold (\<lambda>i t. rbind (vat src i) (vput t i)) [0..<n] dst = Inr (take n src @ drop n dst)" by simp
  moreover have "(take n src @ drop n dst)[n := src ! n] = take (Suc n) src @ drop (Suc n) dst"
    using Suc.prems by (simp add: list_update_append take_Suc_conv_app_nth Cons_nth_drop_Suc[symmetric])
  ultimately show ?case using Suc.prems by (simp add: rfold_append)
qed simp

lemma vf_assign_ok:
  assumes "vf_wf obj"
  shows "vf_assign f obj = Inr (obj\<lparr>full_bucket := full_bucket f\<rparr>)"
proof -
  have "length (T obj) = memory_consumption obj div 4" using assms by (simp add: vf_wf_def vf_geom_def)
  then show ?thesis using copy_loop[of "memory_consumption obj div 4" "T obj" "replicate (memory_consumption obj div 4) 0"]
    by (simp add: vf_assign_def)
qed

lemma full_bucket_irrelevant:
  assumes "vf_wf f"
  shows "vf_wf (f\<lparr>full_bucket := b\<rparr>)" "cells (f\<lparr>full_bucket := b\<rparr>) = cells f" "vf_tag (f\<lparr>full_bucket := b\<rparr>) = vf_tag f"
proof -
  have "tables_ok (f\<lparr>full_bucket := b\<rparr>)" using assms by (simp add: vf_wf_def vf_geom_def tables_ok_def)
  from same_image[OF assms this] show "vf_wf (f\<lparr>full_bucket := b\<rparr>)" "cells (f\<lparr>full_bucket := b\<rparr>) = cells f" "vf_tag (f\<lparr>full_bucket := b\<rparr>) = vf_tag f"
    by simp_all
qed

definition init_ok :: "int \<Rightarrow> int \<Rightarrow> bool" where
  "init_ok n0 fp_length \<longleftrightarrow> 0 < n0 \<and> n0 < 1315798 \<and> 4 \<le> fp_length \<and> fp_length \<le> 16"

definition tables_sized :: "vfilter \<Rightarrow> bool" where
  "tables_sized f \<longleftrightarrow> length (encode_table f) = 65536 \<and> length (decode_table f) = 65536"

lemma tables_ok_sized: "tables_ok f \<Longrightarrow> tables_sized f"
  by (simp add: tables_ok_def tables_sized_def)

lemma vf_init_ok:
  assumes i: "init_ok n0 fp" and t: "tables_sized f0"
  shows "\<exists>f. vf_init fits n0 4 step fp f0 = Inr f \<and> vf_wf f \<and> cells f = {#} \<and> filled_cell f = 0 \<and>
     max_kick_steps f = step \<and> fp_len f = fp \<and> vn f = n0 + n0 mod 2 \<and>
     memory_consumption f = (nat (vn f * 4 * (fp - 1)) + 71) div 8 + 8 \<and> eng f = 1 \<and> len4 f = len4 f0 \<and> big_seg f = big_seg f0"
proof -
  define n where "n = n0 + (n0 AND 1)"
  have n: "n = n0 + n0 mod 2" by (simp add: n_def and_one_eq)
  have ev: "even n" unfolding n by presburger
  have r: "2 \<le> n" "n < 1315800" using i ev unfolding n init_ok_def by presburger+
  have fp: "4 \<le> fp" "fp \<le> 16" using i by (simp_all add: init_ok_def)
  obtain k where k: "double_below (nat n) 1 = 2 ^ k" "double_below (nat n) 1 < nat n"
    using double_below_ok[of 1 "nat n"] r by auto
  define h where "h = nat (n * 4 * (fp - 1))"
  have hn: "h = nat n * (4 * nat (fp - 4) + 12)"
  proof -
    have "int (4 * nat (fp - 4) + 12) = 4 * (fp - 1)" using fp by simp
    then have "int (nat n * (4 * nat (fp - 4) + 12)) = n * (4 * (fp - 1))" using r unfolding of_nat_mult by simp
    then have "int (nat n * (4 * nat (fp - 4) + 12)) = n * 4 * (fp - 1)" by (simp only: mult.assoc)
    then show ?thesis unfolding h_def by linarith
  qed
  have "h \<le> 1315800 * 60" unfolding hn using r fp by (intro mult_mono) simp_all
  then have hb: "h < 2 ^ 32" by simp
  have u: "to_u64 (n * 4 * (fp - 1)) = h"
  proof -
    have "0 \<le> n * 4 * (fp - 1)" using r fp by simp
    then have "n * 4 * (fp - 1) = int h" by (simp add: h_def)
    then show ?thesis using hb by (simp add: to_u64_def)
  qed
  define mc where "mc = (h + 71 - (h + 71) mod 8) div 8 + 8"
  have mc: "h + 64 \<le> 32 * (mc div 4)"
  proof -
    have "mc = (h + 71) div 8 + 8" by (simp add: mc_def minus_mod_eq_mult_div)
    moreover have "h + 71 < 8 * ((h + 71) div 8) + 8" by simp
    moreover have "mc < 4 * (mc div 4) + 4" by simp
    ultimately show ?thesis by linarith
  qed
  let ?f = "f0\<lparr>fp_len := fp, isSmall := True, vn := n, vm := 4, max_kick_steps := step, filled_cell := 0, full_bucket := 0,
              memory_consumption := mc, max_2_power := int (double_below (nat n) 1),
              T := replicate (mc div 4) 0, eng := 1\<rparr>"
  have E: "vf_init fits n0 4 step fp f0 = fill_tables ?f"
    using r(2) hb by (simp add: vf_init_def n_def[symmetric] Let_def u mc_def add.commute[of 71])
  have "length (encode_table ?f) = 65536" "length (decode_table ?f) = 65536" "vm ?f = 4" using t by (simp_all add: tables_sized_def)
  from fill_tables_ok[OF this(3,1,2)] obtain e d where
    ed: "fill_tables ?f = Inr (?f\<lparr>encode_table := e, decode_table := d\<rparr>)" "tables_ok (?f\<lparr>encode_table := e, decode_table := d\<rparr>)"
    by blast
  let ?g = "?f\<lparr>encode_table := e, decode_table := d\<rparr>"
  have "vf_geom ?g" using ed(2) fp r mc by (simp add: vf_geom_def bucket_width_def fpw_def hn)
  moreover have "small_ok ?g" using ev r k by (auto simp: small_ok_def intro!: exI[of _ k])
  ultimately have "vf_wf ?g" "cells ?g = {#}" using empty_filter[of ?g "mc div 4"] by simp_all
  moreover have "mc = (nat (n * 4 * (fp - 1)) + 71) div 8 + 8" by (simp add: mc_def h_def minus_mod_eq_mult_div)
  ultimately show ?thesis using E ed(1) by (intro exI[of _ ?g]) (simp add: n[symmetric])
qed

end
