(* ===== verification/Membership.thy ===== *)
theory Membership
  imports Prelude "HOL-Library.Multiset"
begin

text \<open>
  The contract of an approximate membership filter: it stores one tag per inserted key, a
  lookup is membership of the key's tag, and two keys are confused only when their tags
  are equal. Stated for clients that keep a filter over a multiset of keys.
\<close>

locale membership_filter =
  fixes ok :: "'f \<Rightarrow> bool"
    and tags :: "'f \<Rightarrow> 't multiset"
    and tag :: "'f \<Rightarrow> 'k \<Rightarrow> 't"
    and insert :: "'k \<Rightarrow> 'f \<Rightarrow> (nat \<times> 'f) res"
    and del :: "'k \<Rightarrow> 'f \<Rightarrow> (bool \<times> 'f) res"
    and lookup :: "'f \<Rightarrow> 'k \<Rightarrow> bool res"
  assumes lookup_law: "ok f \<Longrightarrow> lookup f k = Inr (tag f k \<in># tags f)"
    and insert_law: "ok f \<Longrightarrow> \<exists>r f'. insert k f = Inr (r, f') \<and> ok f' \<and> tag f' = tag f \<and>
      (r = 0 \<and> tags f' = tags f + {# tag f k #} \<or> r = 1)"
    and del_law: "ok f \<Longrightarrow> \<exists>f'. del k f = Inr (tag f k \<in># tags f, f') \<and> ok f' \<and> tag f' = tag f \<and>
      tags f' = tags f - {# tag f k #}"
begin

lemma no_false_negative:
  assumes "ok f" "tags f = image_mset (tag f) K" "k \<in># K"
  shows "lookup f k = Inr True"
  using assms by (simp add: lookup_law)

lemma insert_stores:
  assumes "ok f" "tags f = image_mset (tag f) K" "insert k f = Inr (0, f')"
  shows "ok f'" "tag f' = tag f" "tags f' = image_mset (tag f') (K + {# k #})"
proof -
  from insert_law[OF assms(1), of k] assms(3) have "ok f' \<and> tag f' = tag f \<and> tags f' = tags f + {# tag f k #}" by auto
  then show "ok f'" "tag f' = tag f" "tags f' = image_mset (tag f') (K + {# k #})" using assms(2) by simp_all
qed

lemma del_removes:
  assumes "ok f" "tags f = image_mset (tag f) K" "k \<in># K"
  obtains f' where "del k f = Inr (True, f')" "ok f'" "tag f' = tag f" "tags f' = image_mset (tag f') (K - {# k #})"
proof -
  from del_law[OF assms(1), of k] obtain f' where f': "del k f = Inr (tag f k \<in># tags f, f')" "ok f'" "tag f' = tag f"
    "tags f' = tags f - {# tag f k #}" by blast
  have "tag f k \<in># tags f" using assms(2,3) by simp
  moreover have "image_mset (tag f) K - {# tag f k #} = image_mset (tag f) (K - {# k #})"
    using image_mset_Diff[of "{# k #}" K "tag f"] assms(3) by simp
  ultimately show ?thesis using f' assms(2) by (intro that[of f']) simp_all
qed

text \<open>Only keys with the tag of the changed key can change their answer.\<close>

lemma insert_answers:
  assumes "ok f" "insert k f = Inr (0, f')"
  shows "lookup f' x = Inr (tag f x = tag f k \<or> lookup f x = Inr True)"
proof -
  from insert_law[OF assms(1), of k] assms(2) have i: "ok f' \<and> tag f' = tag f \<and> tags f' = tags f + {# tag f k #}" by auto
  then show ?thesis using assms(1) by (auto simp: lookup_law)
qed

lemma del_answers:
  assumes "ok f" "del k f = Inr (b, f')" "tag f x \<noteq> tag f k"
  shows "lookup f' x = lookup f x"
proof -
  from del_law[OF assms(1), of k] assms(2) have "ok f' \<and> tag f' = tag f \<and> tags f' = tags f - {# tag f k #}" by auto
  then show ?thesis using assms(1,3) by (simp add: lookup_law in_diff_count not_in_iff)
qed

end

end
