(* ===== verification/Vacuum_Theorems.thy ===== *)
theory Vacuum_Theorems
  imports Vacuum_Operations Membership
begin

text \<open>
  The vacuum filter meets the contract of a membership filter; its properties.
\<close>

interpretation vf: membership_filter vf_wf cells vf_tag vf_insert vf_del vf_lookup
proof unfold_locales
  show "vf_lookup f k = Inr (vf_tag f k \<in># cells f)" if "vf_wf f" for f k
    using that by (rule vf_lookup_ok)
  show "\<exists>r f'. vf_insert k f = Inr (r, f') \<and> vf_wf f' \<and> vf_tag f' = vf_tag f \<and>
      (r = 0 \<and> cells f' = cells f + {# vf_tag f k #} \<or> r = 1)" if "vf_wf f" for f k
    using vf_insert_ok[OF that, of k] follows_vf_tag by (fastforce simp: inserted_def)
  show "\<exists>f'. vf_del k f = Inr (vf_tag f k \<in># cells f, f') \<and> vf_wf f' \<and> vf_tag f' = vf_tag f \<and>
      cells f' = cells f - {# vf_tag f k #}" if "vf_wf f" for f k
    using vf_del_ok[OF that, of k] follows_vf_tag by blast
qed

text \<open>A concrete filter: 100 buckets, 12-bit fingerprints, 400 kicks.\<close>

definition blank_filter :: vfilter where
  "blank_filter = \<lparr>vn = 0, vm = 0, memory_consumption = 0, max_2_power = 0, big_seg = 0, len4 = [0, 0, 0, 0],
     isSmall = False, fp_len = 0, eng = 1, T = [], encode_table = replicate 65536 0, decode_table = replicate 65536 0,
     filled_cell = 0, full_bucket = 0, max_kick_steps = 0\<rparr>"

definition demo_filter :: vfilter where
  "demo_filter = projr (vf_init (\<lambda>_ _ _. True) 100 4 400 12 blank_filter)"

lemma blank_sized: "length (encode_table blank_filter) = 65536 \<and> length (decode_table blank_filter) = 65536"
  by (simp add: blank_filter_def)

lemma demo_filter_ok: "vf_wf demo_filter" "cells demo_filter = {#}" "filled_cell demo_filter = 0" "vn demo_filter = 100"
  "max_kick_steps demo_filter = 400" "memory_consumption demo_filter = 566" "eng demo_filter = 1" "len4 demo_filter = [0, 0, 0, 0]" "big_seg demo_filter = 0"
proof -
  have "init_ok 100 12" "tables_sized blank_filter" using blank_sized by (simp_all add: init_ok_def tables_sized_def)
  from vf_init_ok[OF this, of "\<lambda>_ _ _. True" 400]
  show "vf_wf demo_filter" "cells demo_filter = {#}" "filled_cell demo_filter = 0" "vn demo_filter = 100"
    "max_kick_steps demo_filter = 400" "memory_consumption demo_filter = 566" "eng demo_filter = 1" "len4 demo_filter = [0, 0, 0, 0]" "big_seg demo_filter = 0"
    by (auto simp: demo_filter_def blank_filter_def)
qed

subsection \<open>Properties\<close>

text \<open>
  \<open>init\<close> of a small filter (up to 1315797 buckets, fingerprints of 4 to 16 bits) returns a
  well-formed filter that stores nothing, with an even number of buckets, from any previous state.
\<close>

theorem filter_init:
  assumes "0 < n" "n < 1315798" "4 \<le> fp" "fp \<le> 16" "length (encode_table f0) = 65536" "length (decode_table f0) = 65536"
  shows "\<exists>f. vf_init fits n 4 steps fp f0 = Inr f \<and> vf_wf f \<and> cells f = {#} \<and> filled_cell f = 0 \<and>
     max_kick_steps f = steps \<and> fp_len f = fp \<and> vn f = n + n mod 2"
proof -
  have "init_ok n fp" "tables_sized f0" by (simp_all add: assms init_ok_def tables_sized_def)
  from vf_init_ok[OF this, of fits steps] show ?thesis by blast
qed

lemma filter_init_witness:
  "\<exists>f. vf_init (\<lambda>_ _ _. True) 100 4 400 12 blank_filter = Inr f \<and> vf_wf f \<and> cells f = {#} \<and> vn f = 100"
  using filter_init[of 100 12 blank_filter "\<lambda>_ _ _. True" 400] blank_sized by auto

text \<open>
  C31: the alternate bucket of every bucket and fingerprint of a small filter is another bucket
  in range, and its own alternate is the first one; so a kicked fingerprint stays findable and
  the assertion of \<open>lookup\<close> never fails.
\<close>

theorem alternate_involution:
  assumes "small_ok f" "0 \<le> p" "p < vn f"
  shows "\<exists>q. alternate f p x = Inr q \<and> 0 \<le> q \<and> q < vn f \<and> q \<noteq> p \<and> alternate f q x = Inr p"
  using alternate_small_ok[OF assms, of x] by (simp add: alternate_eq[OF assms(1)])

lemma alternate_involution_witness:
  "\<exists>q. alternate demo_filter 17 123 = Inr q \<and> q \<noteq> 17 \<and> alternate demo_filter q 123 = Inr 17"
proof -
  have s: "small_ok demo_filter" using demo_filter_ok(1) by (simp add: vf_wf_def)
  have "vn demo_filter = 100" using vf_init_ok[of 100 12 blank_filter "\<lambda>_ _ _. True" 400] blank_sized
    by (auto simp: demo_filter_def init_ok_def tables_sized_def)
  then show ?thesis using alternate_involution[OF s, of 17 123] by auto
qed

text \<open>
  C30: packing: \<open>set_bucket\<close> of four fingerprints returns, and \<open>get_bucket\<close> then returns the
  same four in descending order with their number; every other bucket reads as before.
\<close>

theorem bucket_roundtrip:
  assumes "vf_wf f" "0 \<le> p" "p < vn f" "\<forall>x \<in> {a, b, c, d}. unat x < 2 ^ nat (fp_len f)"
  shows "\<exists>f' s. set_bucket p [a, b, c, d] f = Inr f' \<and> vf_wf f' \<and> mset s = {# a, b, c, d #} \<and> sorted (rev s) \<and>
     get_bucket f' p = Inr (s @ [word_of_nat (length (filter (\<lambda>x. x \<noteq> 0) s))]) \<and>
     (\<forall>q. 0 \<le> q \<and> q < vn f \<and> q \<noteq> p \<longrightarrow> get_bucket f' q = get_bucket f q)"
proof -
  have g: "vf_geom f" using assms(1) by (simp add: vf_wf_def)
  have "nat (fp_len f) = fpw f + 4" using vf_geomD(1)[OF g] by (simp add: fpw_def)
  then have x: "\<forall>x \<in> {a, b, c, d}. fits_fp f x" using assms(4) by (simp add: fits_fp_def)
  from set_bucket_ok[OF g assms(2,3) x, of "[]"] obtain t s where t: "set_bucket p [a, b, c, d] f = Inr (f\<lparr>T := t\<rparr>)"
    "vf_geom (f\<lparr>T := t\<rparr>)" "bucket_holds (f\<lparr>T := t\<rparr>) p s" "mset s = {# a, b, c, d #}"
    "\<And>q s'. 0 \<le> q \<Longrightarrow> q \<noteq> p \<Longrightarrow> bucket_holds f q s' \<Longrightarrow> bucket_holds (f\<lparr>T := t\<rparr>) q s'" by metis
  from set_bucket_cells[OF assms(1-3) x, of "[]"] t(1) have wf: "vf_wf (f\<lparr>T := t\<rparr>)" by auto
  have "desc4 s" using t(3) by (simp add: bucket_holds_def)
  then have "sorted (rev s)" by (rule desc4E) auto
  moreover have "get_bucket (f\<lparr>T := t\<rparr>) p = Inr (s @ [word_of_nat (occupied s)])"
    using get_bucket_ok[OF t(2) _ _ t(3)] assms(2,3) by simp
  moreover have "get_bucket (f\<lparr>T := t\<rparr>) q = get_bucket f q" if q: "0 \<le> q" "q < vn f" "q \<noteq> p" for q
  proof -
    note h = bucket_of_ok(2)[OF assms(1) q(1,2)]
    show ?thesis using get_bucket_ok[OF t(2) q(1) _ t(5)[OF q(1,3) h]] get_bucket_ok[OF g q(1,2) h] q(2) by simp
  qed
  ultimately show ?thesis using t(1,4) wf by (auto simp: occupied_def)
qed

lemma bucket_roundtrip_witness:
  "\<exists>f' s. set_bucket 0 [3, 900, 0, 3] demo_filter = Inr f' \<and> mset s = {# 3, 900, 0, 3 #} \<and> sorted (rev s) \<and>
     get_bucket f' 0 = Inr (s @ [3])"
proof -
  have n: "vn demo_filter = 100" "fp_len demo_filter = 12"
    using vf_init_ok[of 100 12 blank_filter "\<lambda>_ _ _. True" 400] blank_sized
    by (auto simp: demo_filter_def init_ok_def tables_sized_def)
  from bucket_roundtrip[OF demo_filter_ok(1), of 0 3 900 0 3] n obtain f' s where
    fs: "set_bucket 0 [3, 900, 0, 3] demo_filter = Inr f'" "mset s = {# 3, 900, 0, 3 #}" "sorted (rev s)"
    "get_bucket f' 0 = Inr (s @ [word_of_nat (length (filter (\<lambda>x. x \<noteq> 0) s))])" by auto
  have "length (filter (\<lambda>x. x \<noteq> 0) s) = size (filter_mset (\<lambda>x. x \<noteq> 0) (mset s))" by (simp flip: mset_filter)
  then have "length (filter (\<lambda>x. x \<noteq> 0) s) = 3" unfolding fs(2) by simp
  with fs show ?thesis by auto
qed

text \<open>
  C29: a lookup returns for every key and answers whether the key's tag is stored.
\<close>

theorem filter_lookup:
  assumes "vf_wf f"
  shows "vf_lookup f k = Inr (vf_tag f k \<in># cells f)"
  using assms by (rule vf.lookup_law)

lemma filter_lookup_witness: "vf_lookup demo_filter 7 = Inr False"
  using filter_lookup[OF demo_filter_ok(1), of 7] demo_filter_ok(2) by simp

text \<open>
  C27: an insertion returns for every key and keeps the filter well-formed. Status 0 means that
  exactly the key's tag was added and counted; otherwise (status 1, kicks exhausted) the
  key's tag replaced some stored tag, so that one key is no longer found; then both buckets of
  the key held four fingerprints before (\<open>both_full\<close>).
\<close>

theorem filter_insert:
  assumes "vf_wf f"
  shows "\<exists>r f'. vf_insert k f = Inr (r, f') \<and> vf_wf f' \<and> vf_tag f' = vf_tag f \<and>
     (r = 0 \<and> cells f' = cells f + {# vf_tag f k #} \<and> filled_cell f' = filled_cell f + 1
      \<or> r = 1 \<and> filled_cell f' = filled_cell f \<and> both_full f (vf_tag f k) \<and> 8 \<le> size (cells f) \<and>
          (\<exists>x. cells f' + {# x #} = cells f + {# vf_tag f k #}))"
proof -
  from vf_insert_full[OF assms, of k] obtain r f' where i: "vf_insert k f = Inr (r, f')" "inserted f (vf_tag f k) (r, f')"
    "r = 0 \<or> both_full f (vf_tag f k) \<and> 8 \<le> size (cells f)" by auto
  then have "vf_tag f' = vf_tag f" by (intro follows_vf_tag) (simp add: inserted_def)
  with i show ?thesis unfolding inserted_def case_prod_conv by (metis zero_neq_one)
qed

lemma demo_insert:
  obtains f' where "vf_insert k demo_filter = Inr (0, f')" "vf_wf f'" "cells f' = image_mset (vf_tag f') {# k #}"
proof -
  from vf_insert_ok[OF demo_filter_ok(1), of k] obtain r f' where f': "vf_insert k demo_filter = Inr (r, f')"
    "inserted demo_filter (vf_tag demo_filter k) (r, f')" "r = 0" by (auto simp: demo_filter_ok(2))
  then show ?thesis using that[of f'] follows_vf_tag[of demo_filter f'] by (simp add: inserted_def demo_filter_ok(2))
qed

lemma filter_insert_witness:
  "\<exists>f'. vf_insert 7 demo_filter = Inr (0, f') \<and> vf_wf f' \<and> cells f' = {# vf_tag demo_filter 7 #} \<and> filled_cell f' = 1"
  using filter_insert[OF demo_filter_ok(1), of 7] by (auto simp: demo_filter_ok)

text \<open>
  C28: a deletion returns for every key, answers whether its tag was stored and removes one copy.
\<close>

theorem filter_del:
  assumes "vf_wf f"
  shows "\<exists>f'. vf_del k f = Inr (vf_tag f k \<in># cells f, f') \<and> vf_wf f' \<and> vf_tag f' = vf_tag f \<and>
     cells f' = cells f - {# vf_tag f k #} \<and>
     filled_cell f' = (if vf_tag f k \<in># cells f then filled_cell f - 1 else filled_cell f)"
  using vf_del_ok[OF assms, of k] follows_vf_tag by blast

lemma filter_del_witness: "\<exists>f'. vf_del 7 demo_filter = Inr (False, f') \<and> vf_wf f' \<and> cells f' = {#}"
  using filter_del[OF demo_filter_ok(1), of 7] demo_filter_ok(2) by auto

text \<open>
  C26: no false negatives. As long as the filter stores the tags of a multiset of keys, each of
  them is found; a successful insertion adds its key to the multiset and the deletion of one
  of the keys removes just that key, whatever collides with it.
\<close>

theorem filter_no_false_negative:
  assumes "vf_wf f" "cells f = image_mset (vf_tag f) K"
  shows "(\<forall>k. k \<in># K \<longrightarrow> vf_lookup f k = Inr True) \<and>
    (\<forall>k f'. vf_insert k f = Inr (0, f') \<longrightarrow> vf_wf f' \<and> cells f' = image_mset (vf_tag f') (K + {# k #})) \<and>
    (\<forall>k. k \<in># K \<longrightarrow> (\<exists>f'. vf_del k f = Inr (True, f') \<and> vf_wf f' \<and> cells f' = image_mset (vf_tag f') (K - {# k #})))"
proof (intro conjI allI impI)
  show "vf_lookup f k = Inr True" if "k \<in># K" for k by (rule vf.no_false_negative[OF assms that])
  show "vf_wf f'" "cells f' = image_mset (vf_tag f') (K + {# k #})" if "vf_insert k f = Inr (0, f')" for k f'
    using vf.insert_stores[OF assms that] by simp_all
  show "\<exists>f'. vf_del k f = Inr (True, f') \<and> vf_wf f' \<and> cells f' = image_mset (vf_tag f') (K - {# k #})" if "k \<in># K" for k
    using vf.del_removes[OF assms that] by metis
qed

lemma filter_no_false_negative_witness:
  "\<exists>f f'. vf_insert 7 demo_filter = Inr (0, f) \<and> vf_lookup f 7 = Inr True \<and>
     vf_del 7 f = Inr (True, f') \<and> vf_lookup f' 7 = Inr False"
proof -
  obtain f where f: "vf_insert 7 demo_filter = Inr (0, f)" "vf_wf f" "cells f = image_mset (vf_tag f) {# 7 #}"
    using demo_insert by metis
  from filter_no_false_negative[OF f(2,3)] obtain f' where f': "vf_lookup f 7 = Inr True" "vf_del 7 f = Inr (True, f')"
    "vf_wf f'" "cells f' = {#}" by auto
  with f(1) vf_lookup_ok[OF f'(3), of 7] show ?thesis by auto
qed

end
