(* ===== verification/Tracker.thy ===== *)
theory Tracker
  imports Othello_Control Vacuum_Filter
begin

text \<open>
  The server-side classifier (\<open>src/platform/DASS_Tracker.h\<close>) for 64-bit keys: a vacuum filter
  over the positive keys, an Othello over the positive keys and the negative keys the filter
  wrongly accepts (false positives), and two tables that list, for every bucket of the
  filter, the true-negative and the false-positive keys that map to it, so that an update of
  the filter can find the keys whose status it changes.
\<close>

text \<open>
  What the code takes from elsewhere: the Othello template with its hash functions, the
  floating-point test of \<open>proper_alt_range\<close>, the value
  \<open>int((log2(1 / (0.618 * ratio / 0.95)) + 2) / 0.95)\<close> as a function of the two key counts,
  and the iteration order of an \<open>unordered_set\<close>.
\<close>

record env =
  tmpl :: "u64 template"
  fits :: "int \<Rightarrow> nat \<Rightarrow> int \<Rightarrow> bool"
  log_len :: "nat \<times> nat \<Rightarrow> int"
  iter :: "u64 list \<Rightarrow> u64 list"

record tracker =
  othello :: "u64 othello"
  vf :: vfilter
  PK :: "u64 list"
  NK :: "u64 list"
  n_positive_keys :: nat
  n_negative_keys :: nat
  key_ratio :: "nat \<times> nat"
  TNK_table :: "u64 list list"
  FPK_table :: "u64 list list"
  trk_fp_len :: int
  load_factor :: float32
  o_ratio :: float32

text \<open>The value that asks the device for a full update.\<close>

definition REBUILD :: nat where
  "REBUILD = 0xffffffff"

subsection \<open>Sets and tables\<close>

definition set_insert :: "u64 \<Rightarrow> u64 list \<Rightarrow> u64 list" where
  "set_insert k ks = (if k \<in> set ks then ks else ks @ [k])"

definition set_erase :: "u64 \<Rightarrow> u64 list \<Rightarrow> u64 list" where
  "set_erase k ks = filter (\<lambda>x. x \<noteq> k) ks"

text \<open>Element \<open>pos\<close> of an array of vectors, for a C \<open>int\<close> index.\<close>

definition row :: "u64 list list \<Rightarrow> int \<Rightarrow> u64 list res" where
  "row tab pos = (if pos < 0 then Inl OutOfBounds else vat tab (nat pos))"

definition put_row :: "int \<Rightarrow> u64 list \<Rightarrow> u64 list list \<Rightarrow> u64 list list res" where
  "put_row pos r tab = (if pos < 0 then Inl OutOfBounds else vput tab (nat pos) r)"

definition push_row :: "int \<Rightarrow> u64 \<Rightarrow> u64 list list \<Rightarrow> u64 list list res" where
  "push_row pos k tab = rbind (row tab pos) (\<lambda>r. put_row pos (r @ [k]) tab)"

definition push_TNK :: "int \<Rightarrow> u64 \<Rightarrow> tracker \<Rightarrow> tracker res" where
  "push_TNK pos k s = rbind (push_row pos k (TNK_table s)) (\<lambda>t. Inr (s\<lparr>TNK_table := t\<rparr>))"

definition push_FPK :: "int \<Rightarrow> u64 \<Rightarrow> tracker \<Rightarrow> tracker res" where
  "push_FPK pos k s = rbind (push_row pos k (FPK_table s)) (\<lambda>t. Inr (s\<lparr>FPK_table := t\<rparr>))"

definition put_TNK :: "int \<Rightarrow> u64 list \<Rightarrow> tracker \<Rightarrow> tracker res" where
  "put_TNK pos r s = rbind (put_row pos r (TNK_table s)) (\<lambda>t. Inr (s\<lparr>TNK_table := t\<rparr>))"

definition put_FPK :: "int \<Rightarrow> u64 list \<Rightarrow> tracker \<Rightarrow> tracker res" where
  "put_FPK pos r s = rbind (put_row pos r (FPK_table s)) (\<lambda>t. Inr (s\<lparr>FPK_table := t\<rparr>))"

text \<open>\<open>v.erase(remove(v.begin(), v.end(), k), v.end())\<close> on one row.\<close>

definition remove_TNK :: "int \<Rightarrow> u64 \<Rightarrow> tracker \<Rightarrow> tracker res" where
  "remove_TNK pos k s = rbind (row (TNK_table s) pos) (\<lambda>r. put_TNK pos (filter (\<lambda>x. x \<noteq> k) r) s)"

definition remove_FPK :: "int \<Rightarrow> u64 \<Rightarrow> tracker \<Rightarrow> tracker res" where
  "remove_FPK pos k s = rbind (row (FPK_table s) pos) (\<lambda>r. put_FPK pos (filter (\<lambda>x. x \<noteq> k) r) s)"

subsection \<open>Construction\<close>

definition optimal_fp_len :: "env \<Rightarrow> tracker \<Rightarrow> int" where
  "optimal_fp_len e s =
     (let fp_length = log_len e (key_ratio s) + 1 in if fp_length < 4 then 4 else fp_length)"

text \<open>\<open>n / b / load_factor\<close> buckets, made even; \<open>n\<close> is an \<open>int\<close>.\<close>

definition bucket_count :: "(nat \<Rightarrow> nat) \<Rightarrow> nat \<Rightarrow> int" where
  "bucket_count dv n = (let m = dv (n div 4) in int (m + m mod 2))"

definition tracker_init :: "env \<Rightarrow> nat \<Rightarrow> nat \<Rightarrow> float32 \<Rightarrow> float32 \<Rightarrow> tracker \<Rightarrow> tracker res" where
  "tracker_init e n_pos n_neg lf orat s0 =
     (let s1 = s0\<lparr>load_factor := lf, o_ratio := orat, n_positive_keys := n_pos,
                   n_negative_keys := n_neg, key_ratio := (n_pos, n_neg)\<rparr>;
          s2 = s1\<lparr>trk_fp_len := optimal_fp_len e s1\<rparr>
      in rbind (vf_init (fits e) (bucket_count (\<lambda>n. div_float32 n lf) n_pos) 4 400 (trk_fp_len s2) (vf s2)) (\<lambda>f.
         let rows = replicate (nat (vn f)) []
         in Inr (s2\<lparr>vf := f, TNK_table := rows, FPK_table := rows\<rparr>)))"

text \<open>Insert the positive keys into the filter until one fails.\<close>

fun insert_positive :: "u64 list \<Rightarrow> tracker \<Rightarrow> (bool \<times> tracker) res" where
  "insert_positive [] s = Inr (True, s)"
| "insert_positive (k # ks) s =
     rbind (vf_insert k (vf s)) (\<lambda>(r, f).
     let s1 = s\<lparr>vf := f\<rparr>
     in if r = 1 then Inr (False, s1)
        else insert_positive ks (s1\<lparr>PK := set_insert k (PK s1)\<rparr>))"

text \<open>Record each negative key under its two buckets; the result lists the false positives.\<close>

definition insert_negative :: "u64 list \<Rightarrow> tracker \<Rightarrow> (u64 list \<times> tracker) res" where
  "insert_negative ks s0 =
     rfold (\<lambda>k (FPK, s).
       rbind (vf_lookup (vf s) k) (\<lambda>hit.
       rbind (position_pair (vf s) k) (\<lambda>(pos1, pos2).
       rbind (if hit then rbind (push_FPK pos1 k s) (push_FPK pos2 k)
              else rbind (push_TNK pos1 k s) (push_TNK pos2 k)) (\<lambda>s1.
       Inr (if hit then FPK @ [k] else FPK, s1\<lparr>NK := set_insert k (NK s1)\<rparr>))))) ks ([], s0)"

definition insert_all :: "u64 template \<Rightarrow> u32 \<Rightarrow> u64 list \<Rightarrow> u64 othello \<Rightarrow> u64 othello res" where
  "insert_all t v = rfold (\<lambda>k ot. rbind (insert_kv t False (k, v) ot) (\<lambda>(_, ot1). Inr ot1))"

text \<open>
  \<open>batch_insert\<close>: when the filter overflows, it is re-initialised with a longer fingerprint
  and everything is inserted again (the result is then false); each retry lengthens the
  fingerprint, and the filter is undefined for more than 19 bits, so 20 retries are enough.
\<close>

fun batch_insert_retry :: "nat \<Rightarrow> env \<Rightarrow> u64 list \<Rightarrow> u64 list \<Rightarrow> tracker \<Rightarrow> (bool \<times> tracker) res" where
  "batch_insert_retry 0 e pos neg s = Inl Diverges"
| "batch_insert_retry (Suc fuel) e pos neg s =
     (if n_positive_keys s \<noteq> length pos \<or> n_negative_keys s \<noteq> length neg then Inr (True, s)
      else rbind (insert_positive pos s) (\<lambda>(ok, s1).
        if \<not> ok then
          (let s2 = s1\<lparr>PK := [], NK := [], trk_fp_len := trk_fp_len s1 + 1\<rparr>
           in rbind (vf_init (fits e) (bucket_count div_0_95 (n_positive_keys s2)) 4 400 (trk_fp_len s2) (vf s2)) (\<lambda>f.
              rbind (batch_insert_retry fuel e pos neg (s2\<lparr>vf := f\<rparr>)) (\<lambda>(_, s3).
              Inr (False, s3))))
        else
          rbind (insert_negative neg s1) (\<lambda>(FPK, s2).
          rbind (othello_new (tmpl e) (w32 (n_positive_keys s2 + length FPK)) (o_ratio s2) (rand_pos (othello s2))) (\<lambda>o1.
          rbind (insert_all (tmpl e) 1 pos o1) (\<lambda>o2.
          rbind (insert_all (tmpl e) 0 FPK o2) (\<lambda>o3.
          Inr (True, s2\<lparr>othello := o3\<rparr>)))))))"

definition batch_insert :: "env \<Rightarrow> u64 list \<Rightarrow> u64 list \<Rightarrow> tracker \<Rightarrow> (bool \<times> tracker) res" where
  "batch_insert = batch_insert_retry 20"

definition tracker_rebuild :: "env \<Rightarrow> float32 \<Rightarrow> float32 \<Rightarrow> tracker \<Rightarrow> tracker res" where
  "tracker_rebuild e lf orat s =
     (let positive_keys = iter e (PK s); negative_keys = iter e (NK s)
      in rbind (tracker_init e (length positive_keys) (length negative_keys) lf orat (s\<lparr>PK := [], NK := []\<rparr>)) (\<lambda>s1.
         rbind (batch_insert e positive_keys negative_keys s1) (\<lambda>(_, s2). Inr s2)))"

subsection \<open>Lookups\<close>

text \<open>\<open>V v; othello.query(key, v); return v\<close>: \<open>v\<close> is uninitialised when \<open>query\<close> fails.\<close>

definition othello_value :: "u64 template \<Rightarrow> u64 othello \<Rightarrow> u64 \<Rightarrow> u32 res" where
  "othello_value t ot k =
     rbind (query t ot k) (\<lambda>q. case q of None \<Rightarrow> Inl Undefined | Some v \<Rightarrow> Inr v)"

definition tracker_query :: "env \<Rightarrow> tracker \<Rightarrow> u64 \<Rightarrow> u32 res" where
  "tracker_query e s key =
     rbind (vf_lookup (vf s) key) (\<lambda>hit.
     if hit then othello_value (tmpl e) (othello s) key else Inr 0)"

definition tracker_batch_query :: "env \<Rightarrow> tracker \<Rightarrow> u64 list \<Rightarrow> u32 list res" where
  "tracker_batch_query e s ks =
     rfold (\<lambda>k results.
       rbind (vf_lookup (vf s) k) (\<lambda>vf_query.
       if vf_query then rbind (othello_value (tmpl e) (othello s) k) (\<lambda>v. Inr (results @ [v]))
       else Inr (results @ [0]))) ks []"

subsection \<open>Insertion\<close>

text \<open>
  After a filter insertion: the true-negative keys of row \<open>pos\<close> that the filter now accepts
  move to the false positives and into Othello with value 0. \<open>kept\<close> is the part of the row
  already passed. The second loop of the code skips keys that are already members
  (\<open>check\<close>). The result says whether Othello accepted all.
\<close>

fun promote_row :: "u64 template \<Rightarrow> bool \<Rightarrow> int \<Rightarrow> u64 list \<Rightarrow> u64 list \<Rightarrow> tracker \<times> nat list
    \<Rightarrow> (bool \<times> tracker \<times> nat list) res" where
  "promote_row t check pos kept [] (s, fl) = Inr (True, s, fl)"
| "promote_row t check pos kept (x # xs) (s, fl) =
     rbind (vf_lookup (vf s) x) (\<lambda>hit.
     if hit then
       rbind (push_FPK pos x s) (\<lambda>s1.
       rbind (put_TNK pos (kept @ xs) s1) (\<lambda>s2.
       rbind (if check then isMember t (othello s2) x else Inr False) (\<lambda>member.
       if member then promote_row t check pos kept xs (s2, fl)
       else rbind (insert_on_demand t (x, 0) (othello s2, fl)) (\<lambda>(ok, ot, fl1).
            let s3 = s2\<lparr>othello := ot\<rparr>
            in if ok then promote_row t check pos kept xs (s3, fl1)
               else Inr (False, s3, fl1)))))
     else promote_row t check pos (kept @ [x]) xs (s, fl))"

definition promote :: "u64 template \<Rightarrow> bool \<Rightarrow> int \<Rightarrow> tracker \<times> nat list \<Rightarrow> (bool \<times> tracker \<times> nat list) res" where
  "promote t check pos = (\<lambda>(s, fl). rbind (row (TNK_table s) pos) (\<lambda>r. promote_row t check pos [] r (s, fl)))"

text \<open>The final insertion into Othello and its status.\<close>

definition othello_insert :: "u64 template \<Rightarrow> u64 \<times> u32 \<Rightarrow> tracker \<times> nat list \<Rightarrow> (nat list \<times> tracker) res" where
  "othello_insert t kv = (\<lambda>(s, fl).
     rbind (insert_on_demand t kv (othello s, fl)) (\<lambda>(ok, ot, fl1).
     Inr (if ok then fl1 else [REBUILD], s\<lparr>othello := ot\<rparr>)))"

definition tracker_insert :: "env \<Rightarrow> u64 \<times> u32 \<Rightarrow> tracker \<Rightarrow> (nat list \<times> tracker) res" where
  "tracker_insert e = (\<lambda>(k, v) s.
     let t = tmpl e
     in if v = 1 then
          (let s1 = s\<lparr>PK := set_insert k (PK s)\<rparr>
           in rbind (vf_insert k (vf s1)) (\<lambda>(r, f).
              let s2 = s1\<lparr>vf := f\<rparr>
              in if r = 1 then Inr ([REBUILD], s2)
                 else rbind (position_pair f k) (\<lambda>(pos1, pos2).
                      rbind (promote t False pos1 (s2, [])) (\<lambda>(ok1, s3, fl1).
                      if \<not> ok1 then Inr ([REBUILD], s3)
                      else rbind (promote t True pos2 (s3, fl1)) (\<lambda>(ok2, s4, fl2).
                           if \<not> ok2 then Inr ([REBUILD], s4)
                           else rbind (query t (othello s4) k) (\<lambda>_. othello_insert t (k, v) (s4, fl2)))))))
        else
          (let s1 = s\<lparr>NK := set_insert k (NK s)\<rparr>
           in rbind (vf_lookup (vf s1) k) (\<lambda>hit.
              rbind (position_pair (vf s1) k) (\<lambda>(pos1, pos2).
              if hit then
                rbind (push_FPK pos1 k s1) (\<lambda>s2. rbind (push_FPK pos2 k s2) (\<lambda>s3.
                othello_insert t (k, v) (s3, [])))
              else
                rbind (push_TNK pos1 k s1) (\<lambda>s2. rbind (push_TNK pos2 k s2) (\<lambda>s3. Inr ([], s3)))))))"

subsection \<open>Changing a value\<close>

text \<open>
  After a filter deletion: the false positives of row \<open>pos\<close> that the filter no longer accepts
  become true negatives and leave Othello.
\<close>

fun demote_row :: "u64 template \<Rightarrow> int \<Rightarrow> u64 list \<Rightarrow> u64 list \<Rightarrow> tracker \<times> nat list
    \<Rightarrow> (tracker \<times> nat list) res" where
  "demote_row t pos kept [] (s, fl) = Inr (s, fl)"
| "demote_row t pos kept (x # xs) (s, fl) =
     rbind (vf_lookup (vf s) x) (\<lambda>hit.
     if \<not> hit then
       rbind (push_TNK pos x s) (\<lambda>s1.
       rbind (isMember t (othello s1) x) (\<lambda>member.
       rbind (if member then erase_on_demand t x NOKEY (othello s1, fl) else Inr (othello s1, fl)) (\<lambda>(ot, fl1).
       rbind (put_FPK pos (kept @ xs) (s1\<lparr>othello := ot\<rparr>)) (\<lambda>s2.
       demote_row t pos kept xs (s2, fl1)))))
     else demote_row t pos (kept @ [x]) xs (s, fl))"

definition demote :: "u64 template \<Rightarrow> int \<Rightarrow> tracker \<times> nat list \<Rightarrow> (tracker \<times> nat list) res" where
  "demote t pos = (\<lambda>(s, fl). rbind (row (FPK_table s) pos) (\<lambda>r. demote_row t pos [] r (s, fl)))"

definition set_negative :: "env \<Rightarrow> u64 \<times> u32 \<Rightarrow> tracker \<Rightarrow> (nat list \<times> tracker) res" where
  "set_negative e = (\<lambda>(k, v) s.
     let t = tmpl e; s1 = s\<lparr>PK := set_erase k (PK s), NK := set_insert k (NK s)\<rparr>
     in rbind (vf_del k (vf s1)) (\<lambda>(_, f).
        rbind (position_pair f k) (\<lambda>(pos1, pos2).
        rbind (demote t pos1 (s1\<lparr>vf := f\<rparr>, [])) (\<lambda>(s2, fl2).
        rbind (demote t pos2 (s2, fl2)) (\<lambda>(s3, fl3).
        rbind (vf_lookup (vf s3) k) (\<lambda>hit.
        if hit then
          rbind (push_FPK pos1 k s3) (\<lambda>s4. rbind (push_FPK pos2 k s4) (\<lambda>s5.
          rbind (valueFlip_on_demand t (k, v) (othello s5, fl3)) (\<lambda>(ot, fl). Inr (fl, s5\<lparr>othello := ot\<rparr>))))
        else
          rbind (push_TNK pos1 k s3) (\<lambda>s4. rbind (push_TNK pos2 k s4) (\<lambda>s5.
          rbind (query t (othello s5) k) (\<lambda>_.
          rbind (erase_on_demand t k NOKEY (othello s5, fl3)) (\<lambda>(ot, fl). Inr (fl, s5\<lparr>othello := ot\<rparr>)))))))))))"

definition set_positive :: "env \<Rightarrow> u64 \<times> u32 \<Rightarrow> tracker \<Rightarrow> (nat list \<times> tracker) res" where
  "set_positive e = (\<lambda>(k, v) s.
     let t = tmpl e; s1 = s\<lparr>NK := set_erase k (NK s), PK := set_insert k (PK s)\<rparr>
     in rbind (vf_lookup (vf s1) k) (\<lambda>vf_query.
        rbind (position_pair (vf s1) k) (\<lambda>(p1, p2).
        rbind (if vf_query then rbind (remove_FPK p1 k s1) (remove_FPK p2 k)
               else rbind (remove_TNK p1 k s1) (remove_TNK p2 k)) (\<lambda>s2.
        rbind (vf_insert k (vf s2)) (\<lambda>(r, f).
        let s3 = s2\<lparr>vf := f\<rparr>
        in if r = 1 then Inr ([REBUILD], s3)
           else rbind (position_pair f k) (\<lambda>(pos1, pos2).
                rbind (promote t False pos1 (s3, [])) (\<lambda>(ok1, s4, fl1).
                if \<not> ok1 then Inr ([REBUILD], s4)
                else rbind (promote t True pos2 (s4, fl1)) (\<lambda>(ok2, s5, fl2).
                     if \<not> ok2 then Inr ([REBUILD], s5)
                     else rbind (isMember t (othello s5) k) (\<lambda>member.
                          if member then
                            rbind (valueFlip_on_demand t (k, v) (othello s5, fl2)) (\<lambda>(ot, fl).
                            Inr (fl, s5\<lparr>othello := ot\<rparr>))
                          else othello_insert t (k, v) (s5, fl2))))))))))"

definition tracker_setValue :: "env \<Rightarrow> u64 \<times> u32 \<Rightarrow> tracker \<Rightarrow> (nat list \<times> tracker) res" where
  "tracker_setValue e = (\<lambda>(k, v') s.
     rbind (tracker_query e s k) (\<lambda>v.
     if v = v' then Inr ([], s)
     else if v = 1 \<and> v' = 0 then set_negative e (k, v') s
     else if v = 0 \<and> v' = 1 then set_positive e (k, v') s
     else Inr ([], s)))"

subsection \<open>Deletion\<close>

text \<open>
  The loop of \<open>erase\<close>: it erases the row's element first and then deletes from Othello the
  key the iterator points to now, which is the next one (and none at the end of the row).
\<close>

fun erase_row :: "u64 template \<Rightarrow> int \<Rightarrow> u64 list \<Rightarrow> u64 list \<Rightarrow> tracker \<Rightarrow> tracker res" where
  "erase_row t pos kept [] s = Inr s"
| "erase_row t pos kept (x # xs) s =
     rbind (vf_lookup (vf s) x) (\<lambda>hit.
     if \<not> hit then
       rbind (push_TNK pos x s) (\<lambda>s1.
       rbind (put_FPK pos (kept @ xs) s1) (\<lambda>s2.
       rbind (vat xs 0) (\<lambda>y.
       rbind (erase t y NOKEY (othello s2)) (\<lambda>ot.
       erase_row t pos kept xs (s2\<lparr>othello := ot\<rparr>)))))
     else erase_row t pos (kept @ [x]) xs s)"

definition tracker_erase :: "env \<Rightarrow> u64 \<Rightarrow> tracker \<Rightarrow> tracker res" where
  "tracker_erase e key s =
     (let t = tmpl e
      in rbind (tracker_query e s key) (\<lambda>v.
         if v = 1 then
           rbind (vf_del key (vf s)) (\<lambda>(_, f).
           let s1 = s\<lparr>PK := set_erase key (PK s), vf := f\<rparr>
           in rbind (position_pair f key) (\<lambda>(pos1, pos2).
              rbind (rbind (row (FPK_table s1) pos1) (\<lambda>r. erase_row t pos1 [] r s1)) (\<lambda>s2.
              rbind (rbind (row (FPK_table s2) pos2) (\<lambda>r. erase_row t pos2 [] r s2)) (\<lambda>s3.
              rbind (erase t key NOKEY (othello s3)) (\<lambda>ot. Inr (s3\<lparr>othello := ot\<rparr>))))))
         else
           (let s1 = s\<lparr>NK := set_erase key (NK s)\<rparr>
            in rbind (vf_lookup (vf s1) key) (\<lambda>hit.
               if hit then
                 rbind (position_pair (vf s1) key) (\<lambda>(pos1, pos2).
                 rbind (remove_FPK pos1 key s1) (\<lambda>s2. rbind (remove_FPK pos2 key s2) (\<lambda>s3.
                 rbind (erase t key NOKEY (othello s3)) (\<lambda>ot. Inr (s3\<lparr>othello := ot\<rparr>)))))
               else Inr s1))))"

subsection \<open>Positions of changed bits\<close>

text \<open>The bits of one word, least significant first; 64 rounds empty every word.\<close>

fun diff_bits :: "nat \<Rightarrow> nat \<Rightarrow> nat \<Rightarrow> u64 \<Rightarrow> nat list" where
  "diff_bits 0 i index diff = []"
| "diff_bits (Suc fuel) i index diff =
     (if diff = 0 then []
      else (if odd diff then [w32 (w32 (i * 64) + index)] else [])
        @ diff_bits fuel i (index + 1) (drop_bit 1 diff))"

definition othello_flipped_indexes :: "u64 list \<Rightarrow> u64 list \<Rightarrow> nat list res" where
  "othello_flipped_indexes pre_mem post_mem =
     rfold (\<lambda>i flipped_indexes.
       rbind (vat pre_mem i) (\<lambda>a. rbind (vat post_mem i) (\<lambda>b.
       Inr (flipped_indexes @ diff_bits 64 i 0 (a XOR b)))))
     [0..<length pre_mem] []"

end
