(* ===== verification/Verifier.thy ===== *)
theory Verifier
  imports Tracker Othello_Data
begin

text \<open>
  The device-side classifier (\<open>src/platform/DASS_Verifier.h\<close>): a vacuum filter and an Othello
  data plane. It is installed from a tracker and then follows it: \<open>verifier_insert\<close> and
  \<open>verifier_setValue\<close> repeat the filter update of the server and flip the noted bits.
\<close>

record verifier =
  v_othello :: dplane
  v_vf :: vfilter

definition verifier_install :: "tracker \<Rightarrow> verifier \<Rightarrow> verifier res" where
  "verifier_install s d =
     rbind (vf_assign (v_vf d) (vf s)) (\<lambda>f.
     Inr \<lparr>v_othello = dplane_of (othello s), v_vf = f\<rparr>)"

definition verifier_assign :: "verifier \<Rightarrow> verifier \<Rightarrow> verifier res" where
  "verifier_assign d obj =
     rbind (vf_assign (v_vf d) (v_vf obj)) (\<lambda>f. Inr \<lparr>v_othello = v_othello obj, v_vf = f\<rparr>)"

definition verifier_query :: "u64 template \<Rightarrow> verifier \<Rightarrow> u64 \<Rightarrow> u32 res" where
  "verifier_query t d key =
     rbind (vf_lookup (v_vf d) key) (\<lambda>vf_query.
     if vf_query then rbind (dp_query t (v_othello d) key) (\<lambda>(_, v). Inr v) else Inr 0)"

definition verifier_batch_query :: "u64 template \<Rightarrow> verifier \<Rightarrow> u64 list \<Rightarrow> u32 list res" where
  "verifier_batch_query t d ks =
     rfold (\<lambda>k results.
       rbind (vf_lookup (v_vf d) k) (\<lambda>vf_query.
       if vf_query then rbind (dp_query t (v_othello d) k) (\<lambda>(_, v). Inr (results @ [v]))
       else Inr (results @ [0]))) ks []"

definition verifier_getMemoryCost :: "verifier \<Rightarrow> nat" where
  "verifier_getMemoryCost d = memory_consumption (v_vf d) + dp_getMemoryCost (v_othello d)"

definition flip_bits :: "nat list \<Rightarrow> verifier \<Rightarrow> verifier res" where
  "flip_bits fl d = rbind (mem_value_flipping fl (v_othello d)) (\<lambda>p. Inr (d\<lparr>v_othello := p\<rparr>))"

definition verifier_insert :: "u64 template \<Rightarrow> u64 \<times> u32 \<Rightarrow> nat list \<Rightarrow> verifier \<Rightarrow> verifier res" where
  "verifier_insert t = (\<lambda>(k, v) flipped_indexes d.
     rbind (dp_query t (v_othello d) k) (\<lambda>_.
     if flipped_indexes = [] then
       (if v = 1 then
          rbind (vf_insert k (v_vf d)) (\<lambda>(r, f). if r = 1 then Inl Exit else Inr (d\<lparr>v_vf := f\<rparr>))
        else Inr d)
     else if length flipped_indexes = 1 \<and> flipped_indexes ! 0 = REBUILD then Inr d
     else if v = 1 then
       rbind (vf_insert k (v_vf d)) (\<lambda>(r, f).
       if r = 1 then Inl Exit else flip_bits flipped_indexes (d\<lparr>v_vf := f\<rparr>))
     else
       rbind (vf_lookup (v_vf d) k) (\<lambda>hit. if hit then flip_bits flipped_indexes d else Inr d)))"

definition verifier_setValue :: "u64 template \<Rightarrow> u64 \<times> u32 \<Rightarrow> nat list \<Rightarrow> verifier \<Rightarrow> verifier res" where
  "verifier_setValue t = (\<lambda>(k, v') flipped_indexes d.
     rbind (verifier_query t d k) (\<lambda>v.
     if v = v' then Inr d
     else if v = 1 \<and> v' = 0 then
       rbind (vf_del k (v_vf d)) (\<lambda>(_, f).
       let d1 = d\<lparr>v_vf := f\<rparr>
       in if flipped_indexes = [] \<or> (length flipped_indexes = 1 \<and> flipped_indexes ! 0 = REBUILD) then Inr d1
          else flip_bits flipped_indexes d1)
     else if v = 0 \<and> v' = 1 then
       rbind (vf_insert k (v_vf d)) (\<lambda>(_, f).
       let d1 = d\<lparr>v_vf := f\<rparr>
       in if flipped_indexes = [] \<or> (length flipped_indexes = 1 \<and> flipped_indexes ! 0 = REBUILD) then Inr d1
          else flip_bits flipped_indexes d1)
     else Inr d))"

end
