(* ===== verification/Othello_Cycle.thy ===== *)
theory Othello_Cycle
  imports Othello_Session
begin

text \<open>
  Which sets of keys an Othello table can hold: those whose graph under the current seeds has no
  cycle. Insertion refuses a key exactly when the keys stored and the new one have a cycle.
\<close>

definition key_graph :: "'k template \<Rightarrow> 'k othello \<Rightarrow> 'k set \<Rightarrow> edges" where
  "key_graph t ot K = (\<lambda>k. (0, getIndices t ot k)) ` K"

definition no_cycle :: "'k template \<Rightarrow> 'k othello \<Rightarrow> 'k set \<Rightarrow> bool" where
  "no_cycle t ot K \<longleftrightarrow> (\<forall>k \<in> K. case getIndices t ot k of (a, b) \<Rightarrow> \<not> conn (key_graph t ot (K - {k})) a b)"

lemma key_graph_iff: "(i, a, b) \<in> key_graph t ot K \<longleftrightarrow> i = 0 \<and> (\<exists>k \<in> K. getIndices t ot k = (a, b))"
  by (simp add: key_graph_def image_iff eq_commute[of "(a, b)"])

lemma no_cycleD: "no_cycle t ot K \<Longrightarrow> k \<in> K \<Longrightarrow> getIndices t ot k = (a, b) \<Longrightarrow> \<not> conn (key_graph t ot (K - {k})) a b"
  by (auto simp: no_cycle_def)

lemma no_cycle_mono:
  assumes a: "no_cycle t ot K'" "K \<subseteq> K'"
  shows "no_cycle t ot K"
  unfolding no_cycle_def
proof (intro ballI, clarify)
  fix k x y assume k: "k \<in> K" "getIndices t ot k = (x, y)" and c: "conn (key_graph t ot (K - {k})) x y"
  have "key_graph t ot (K - {k}) \<subseteq> key_graph t ot (K' - {k})"
    unfolding key_graph_def by (intro image_mono Diff_mono a(2) order_refl)
  with conn_mono c have "conn (key_graph t ot (K' - {k})) x y" by metis
  with no_cycleD[OF a(1) _ k(2)] k(1) a(2) show False by blast
qed

lemma no_cycle_plane: "same_plane ot ot' \<Longrightarrow> no_cycle t ot' K = no_cycle t ot K"
  by (simp add: same_plane_def no_cycle_def key_graph_def getIndices_def)

lemma conn_links: "links G = links H \<Longrightarrow> conn G a b = conn H a b"
  by (simp add: conn_def)

lemma links_eqI: "(\<And>a b. (\<exists>i. (i, a, b) \<in> G) \<longleftrightarrow> (\<exists>i. (i, a, b) \<in> H)) \<Longrightarrow> links G = links H"
  unfolding links_def ex_disj_distrib by simp

lemma links_edges: "othello_inv t ot \<Longrightarrow> links (edges t ot) = links (key_graph t ot (dom (contents ot)))"
  by (rule links_eqI) (simp only: key_graph_iff edges_iff Bex_def contents_dom, blast)

lemma stored_once:
  assumes inv: "othello_inv t ot" and ij: "i < keyCnt ot" "j < keyCnt ot" and e: "keys ot ! i = keys ot ! j"
  shows "i = j"
  using queryIndex_stored[OF inv ij(1)] queryIndex_stored[OF inv ij(2)] unfolding e by simp

lemma links_without:
  assumes inv: "othello_inv t ot" and i: "i < keyCnt ot"
  shows "links (without i (edges t ot)) = links (key_graph t ot (dom (contents ot) - {keys ot ! i}))"
proof (rule links_eqI)
  have u: "keys ot ! j = keys ot ! i \<longleftrightarrow> j = i" if "j < keyCnt ot" for j
    using stored_once[OF inv that i] by blast
  fix a b
  have "(\<exists>j. (j, a, b) \<in> without i (edges t ot)) \<longleftrightarrow> (\<exists>j < keyCnt ot. keys ot ! j \<noteq> keys ot ! i \<and> getIndices t ot (keys ot ! j) = (a, b))"
    unfolding without_def mem_Collect_eq edges_iff fst_conv using u by blast
  also have "\<dots> \<longleftrightarrow> (\<exists>j. (j, a, b) \<in> key_graph t ot (dom (contents ot) - {keys ot ! i}))"
    unfolding key_graph_iff Bex_def Diff_iff contents_dom[OF inv] by blast
  finally show "(\<exists>j. (j, a, b) \<in> without i (edges t ot)) \<longleftrightarrow> (\<exists>j. (j, a, b) \<in> key_graph t ot (dom (contents ot) - {keys ot ! i}))" .
qed

lemma stored_no_cycle:
  assumes inv: "othello_inv t ot"
  shows "no_cycle t ot (dom (contents ot))"
  unfolding no_cycle_def
proof
  fix k assume "k \<in> dom (contents ot)"
  then obtain i where i: "i < keyCnt ot" "keys ot ! i = k" unfolding contents_dom[OF inv] by blast
  obtain a b where ab: "getIndices t ot k = (a, b)" by force
  with i have "(i, a, b) \<in> edges t ot" by (simp add: edges_iff)
  with invD(4)[OF inv] have "\<not> conn (without i (edges t ot)) a b" unfolding forest_def by blast
  then have "\<not> conn (key_graph t ot (dom (contents ot) - {k})) a b"
    using conn_links[OF links_without[OF inv i(1)]] i(2) by simp
  then show "case getIndices t ot k of (a, b) \<Rightarrow> \<not> conn (key_graph t ot (dom (contents ot) - {k})) a b" by (simp add: ab)
qed

lemma acyclic_with_iff:
  assumes inv: "othello_inv t ot" and k: "k \<notin> dom (contents ot)" and n: "keyCnt ot < length (keys ot)"
  shows "acyclic_with t ot k \<longleftrightarrow> no_cycle t ot (insert k (dom (contents ot)))"
proof
  assume "no_cycle t ot (insert k (dom (contents ot)))"
  then have "case getIndices t ot k of (a, b) \<Rightarrow> \<not> conn (key_graph t ot (dom (contents ot))) a b"
    using k unfolding no_cycle_def by (metis Diff_insert_absorb insertI1)
  then show "acyclic_with t ot k"
    unfolding acyclic_with_def Let_def using conn_links[OF links_edges[OF inv]] by auto
next
  assume "acyclic_with t ot k"
  from insert_on_demand_ok[OF inv n k this, of 0 "[]"] obtain ot' new where
    "othello_inv t ot'" "contents ot' = (contents ot)(k \<mapsto> 0)" "noted t ot ot' new" by metis
  with stored_no_cycle[of t ot'] no_cycle_plane[of ot ot' t] show "no_cycle t ot (insert k (dom (contents ot)))"
    by (simp add: noted_def)
qed

lemma keyCnt_card:
  assumes inv: "othello_inv t ot"
  shows "keyCnt ot = card (dom (contents ot))"
proof -
  have "dom (contents ot) = (\<lambda>i. keys ot ! i) ` {..<keyCnt ot}" 
    by (rule set_eqI) (use contents_dom[OF inv] in \<open>auto simp del: domIff\<close>)
  moreover have "inj_on (\<lambda>i. keys ot ! i) {..<keyCnt ot}"
    by (rule inj_onI) (use stored_once[OF inv] in blast)
  ultimately show ?thesis by (simp add: card_image)
qed

end
