(* ===== verification/Tracker_Invariant.thy ===== *)
theory Tracker_Invariant
  imports Verifier Othello_Cycle Vacuum_Theorems
begin

text \<open>
  The invariant of the tracker (\<open>src/platform/DASS_Tracker.h\<close>): what the filter, the Othello table
  and the two tables of rows hold, in terms of the sets of positive and negative keys; the
  queries it makes correct; and the positions a sequence of Othello updates tells the device.
\<close>

subsection \<open>Positions told by a sequence of updates\<close>

inductive tells :: "'k template \<Rightarrow> 'k othello \<Rightarrow> 'k othello \<Rightarrow> nat list \<Rightarrow> bool" for t where
  none: "tells t ot ot []"
| more: "tells t a b fl \<Longrightarrow> othello_inv t b \<Longrightarrow> othello_inv t c \<Longrightarrow> noted t b c new \<Longrightarrow> tells t a c (fl @ new)"

lemma tells_one: "othello_inv t a \<Longrightarrow> othello_inv t b \<Longrightarrow> noted t a b new \<Longrightarrow> tells t a b new"
  using tells.more[OF tells.none, of t a b new] by simp

lemma tells_trans: "tells t b c l2 \<Longrightarrow> tells t a b l1 \<Longrightarrow> tells t a c (l1 @ l2)"
proof (induction rule: tells.induct)
  case none
  then show ?case by simp
next
  case (more b c fl d new)
  then show ?case using tells.more[of t a c "l1 @ fl" d new] by simp
qed

lemma flip_append:
  "mem_value_flipping (l1 @ l2) dp = rbind (mem_value_flipping l1 dp) (mem_value_flipping l2)"
  by (simp add: mem_value_flipping_def rfold_append)

lemma tells_plane: "tells t a b fl \<Longrightarrow> same_plane a b"
  by (induction rule: tells.induct) (auto simp: noted_def intro: same_plane_trans)

lemma tells_synced:
  assumes "tells t ot ot' fl" "tL t = 1" "synced t ot dp"
  shows "\<exists>dp'. mem_value_flipping fl dp = Inr dp' \<and> synced t ot' dp'"
  using assms
proof (induction rule: tells.induct)
  case none
  then show ?case by (simp add: mem_value_flipping_def)
next
  case (more a b fl c new)
  then obtain dp' where 1: "mem_value_flipping fl dp = Inr dp'" "synced t b dp'" by blast
  obtain dp2 where "mem_value_flipping new dp' = Inr dp2" "synced t c dp2"
    using flip_synced[OF invD(2)[OF more(2)] more(6) invD(3)[OF more(2)] invD(3)[OF more(3)] 1(2) more(4)] by metis
  with 1(1) show ?case by (simp add: flip_append)
qed

subsection \<open>The invariant of the tracker\<close>

abbreviation hit :: "vfilter \<Rightarrow> u64 \<Rightarrow> bool" where
  "hit f x \<equiv> vf_tag f x \<in># cells f"

definition buckets :: "vfilter \<Rightarrow> u64 \<Rightarrow> int set" where
  "buckets f x = {fst (snd (vf_tag f x)), snd (snd (vf_tag f x))}"

lemma position_pair_buckets:
  assumes "vf_wf f"
  obtains p q where "position_pair f k = Inr (p, q)" "buckets f k = {p, q}" "p \<noteq> q" "0 \<le> p" "p < vn f" "0 \<le> q" "q < vn f"
proof -
  from position_pair_ok[OF assms, of k] obtain p q where pq: "position_pair f k = Inr (p, q)" "p \<noteq> q"
    "0 \<le> p" "p < vn f" "0 \<le> q" "q < vn f" "snd (vf_tag f k) = (min p q, max p q)" by blast
  then have "buckets f k = {p, q}" by (auto simp: buckets_def min_def max_def)
  with pq that show ?thesis by blast
qed

lemma same_tag_buckets: "vf_tag f x = vf_tag f k \<Longrightarrow> buckets f x = buckets f k"
  by (simp add: buckets_def)

definition rows_ok :: "vfilter \<Rightarrow> u64 list list \<Rightarrow> u64 set \<Rightarrow> bool" where
  "rows_ok f tab S \<longleftrightarrow> length tab = nat (vn f) \<and>
     (\<forall>p < length tab. distinct (tab ! p) \<and> set (tab ! p) = {x \<in> S. int p \<in> buckets f x})"

definition tracker_inv :: "u64 template \<Rightarrow> tracker \<Rightarrow> bool" where
  "tracker_inv t s \<longleftrightarrow>
     vf_wf (vf s) \<and> cells (vf s) = image_mset (vf_tag (vf s)) (mset (PK s)) \<and>
     distinct (PK s) \<and> distinct (NK s) \<and> set (PK s) \<inter> set (NK s) = {} \<and>
     rows_ok (vf s) (FPK_table s) {x \<in> set (NK s). hit (vf s) x} \<and>
     rows_ok (vf s) (TNK_table s) {x \<in> set (NK s). \<not> hit (vf s) x} \<and>
     othello_inv t (othello s) \<and>
     contents (othello s) = (\<lambda>x. if x \<in> set (PK s) then Some 1
        else if x \<in> set (NK s) \<and> hit (vf s) x then Some 0 else None)"

lemma tracker_invD:
  assumes "tracker_inv t s"
  shows "vf_wf (vf s)" "cells (vf s) = image_mset (vf_tag (vf s)) (mset (PK s))" "distinct (PK s)" "distinct (NK s)"
    "set (PK s) \<inter> set (NK s) = {}" "rows_ok (vf s) (FPK_table s) {x \<in> set (NK s). hit (vf s) x}"
    "rows_ok (vf s) (TNK_table s) {x \<in> set (NK s). \<not> hit (vf s) x}" "othello_inv t (othello s)"
    "contents (othello s) = (\<lambda>x. if x \<in> set (PK s) then Some 1
        else if x \<in> set (NK s) \<and> hit (vf s) x then Some 0 else None)"
  using assms unfolding tracker_inv_def by - (elim conjE, assumption)+

lemma tracker_query_ok:
  assumes inv: "tracker_inv (tmpl e) s" and k: "k \<in> set (PK s) \<union> set (NK s)" and L: "tL (tmpl e) = 1"
  shows "tracker_query e s k = Inr (if k \<in> set (PK s) then 1 else 0)"
proof -
  note I = tracker_invD[OF inv]
  have P: "k \<in> set (PK s) \<Longrightarrow> hit (vf s) k" using I(2) by simp
  have m: "mask (tL (tmpl e)) = (1 :: u32)" using L by simp
  show ?thesis
  proof (cases "hit (vf s) k")
    case True
    then have "contents (othello s) k = Some (if k \<in> set (PK s) then 1 else 0)" using k I(5) by (auto simp: I(9))
    from query_stored[OF I(8) this] True show ?thesis
      unfolding tracker_query_def othello_value_def m by (simp add: vf_lookup_ok[OF I(1)])
  next
    case False
    with P k show ?thesis by (auto simp: tracker_query_def vf_lookup_ok[OF I(1)])
  qed
qed

subsection \<open>Rows as sets\<close>

lemma row_push:
  assumes "p < length tab"
  shows "push_row (int p) k tab = Inr (tab[p := tab ! p @ [k]])" "row tab (int p) = Inr (tab ! p)"
    "put_row (int p) r tab = Inr (tab[p := r])"
  using assms by (simp_all add: push_row_def row_def put_row_def)

lemma rows_append:
  assumes r: "rows_ok f tab S" and d: "distinct A" "set A = D" "distinct B" "set B = D" "D \<inter> S = {}"
    and b: "\<And>x. x \<in> D \<Longrightarrow> buckets f x = {int p, int q}" and pq: "p \<noteq> q"
  shows "rows_ok f (tab[p := tab ! p @ A, q := tab ! q @ B]) (S \<union> D)"
  unfolding rows_ok_def
proof (intro conjI allI impI)
  show "length (tab[p := tab ! p @ A, q := tab ! q @ B]) = nat (vn f)" using r by (simp add: rows_ok_def)
  fix i assume "i < length (tab[p := tab ! p @ A, q := tab ! q @ B])"
  then have i: "i < length tab" by simp
  with r have t: "distinct (tab ! i)" "set (tab ! i) = {x \<in> S. int i \<in> buckets f x}" by (simp_all add: rows_ok_def)
  have c: "C = D \<Longrightarrow> C \<inter> set (tab ! i) = {}" for C using t(2) d(5) by blast
  consider "i = q" | "i = p" | "i \<noteq> p" "i \<noteq> q" by blast
  then show "distinct (tab[p := tab ! p @ A, q := tab ! q @ B] ! i)"
    "set (tab[p := tab ! p @ A, q := tab ! q @ B] ! i) = {x \<in> S \<union> D. int i \<in> buckets f x}"
  proof (atomize (full), cases)
    case 1
    then have "tab[p := tab ! p @ A, q := tab ! q @ B] ! i = tab ! i @ B" using i by simp
    with t d c b 1 show "distinct (tab[p := tab ! p @ A, q := tab ! q @ B] ! i) \<and>
      set (tab[p := tab ! p @ A, q := tab ! q @ B] ! i) = {x \<in> S \<union> D. int i \<in> buckets f x}" by auto
  next
    case 2
    then have "tab[p := tab ! p @ A, q := tab ! q @ B] ! i = tab ! i @ A" using i pq by simp
    with t d c b 2 show "distinct (tab[p := tab ! p @ A, q := tab ! q @ B] ! i) \<and>
      set (tab[p := tab ! p @ A, q := tab ! q @ B] ! i) = {x \<in> S \<union> D. int i \<in> buckets f x}" by auto
  next
    case 3
    then have "tab[p := tab ! p @ A, q := tab ! q @ B] ! i = tab ! i" by simp
    with t b 3 show "distinct (tab[p := tab ! p @ A, q := tab ! q @ B] ! i) \<and>
      set (tab[p := tab ! p @ A, q := tab ! q @ B] ! i) = {x \<in> S \<union> D. int i \<in> buckets f x}" by auto
  qed
qed

lemma rows_filter:
  assumes r: "rows_ok f tab S" and b: "\<And>x. x \<in> S \<Longrightarrow> \<not> P x \<Longrightarrow> buckets f x = {int p, int q}"
  shows "rows_ok f (tab[p := filter P (tab ! p), q := filter P (tab ! q)]) {x \<in> S. P x}"
  unfolding rows_ok_def
proof (intro conjI allI impI)
  show "length (tab[p := filter P (tab ! p), q := filter P (tab ! q)]) = nat (vn f)" using r by (simp add: rows_ok_def)
  fix i assume "i < length (tab[p := filter P (tab ! p), q := filter P (tab ! q)])"
  then have i: "i < length tab" by simp
  with r have t: "distinct (tab ! i)" "set (tab ! i) = {x \<in> S. int i \<in> buckets f x}" by (simp_all add: rows_ok_def)
  have e: "tab[p := filter P (tab ! p), q := filter P (tab ! q)] ! i = (if i = p \<or> i = q then filter P (tab ! i) else tab ! i)"
    by (cases "i = q"; cases "i = p") (use i in simp_all)
  show "distinct (tab[p := filter P (tab ! p), q := filter P (tab ! q)] ! i)" unfolding e using t(1) by simp
  show "set (tab[p := filter P (tab ! p), q := filter P (tab ! q)] ! i) = {x \<in> {x \<in> S. P x}. int i \<in> buckets f x}"
  proof (cases "i = p \<or> i = q")
    case True
    then show ?thesis unfolding e using t(2) by auto
  next
    case False
    have "P x" if "int i \<in> buckets f x" "x \<in> S" for x
      by (rule ccontr) (use False that b[of x] in auto)
    with False show ?thesis unfolding e using t(2) by auto
  qed
qed

lemma rows_length: "rows_ok f tab S \<Longrightarrow> length tab = nat (vn f)"
  by (simp add: rows_ok_def)

lemma rows_cong: "rows_ok f tab S \<Longrightarrow> vf_tag f' = vf_tag f \<Longrightarrow> vn f' = vn f \<Longrightarrow> rows_ok f' tab S"
  by (simp add: rows_ok_def buckets_def)

lemma rows_set: "rows_ok f tab S \<Longrightarrow> p < length tab \<Longrightarrow> set (tab ! p) = {x \<in> S. int p \<in> buckets f x} \<and> distinct (tab ! p)"
  by (simp add: rows_ok_def)

text \<open>The two buckets of a key as row numbers.\<close>

lemma position_rows:
  assumes "vf_wf f"
  obtains p q where "position_pair f k = Inr (int p, int q)" "buckets f k = {int p, int q}" "p \<noteq> q"
    "p < nat (vn f)" "q < nat (vn f)"
proof -
  from position_pair_buckets[OF assms, of k] obtain p q where pq: "position_pair f k = Inr (p, q)" "buckets f k = {p, q}" "p \<noteq> q"
    "0 \<le> p" "p < vn f" "0 \<le> q" "q < vn f" .
  then show ?thesis by (intro that[of "nat p" "nat q"]) auto
qed

end
