(* ===== verification/Tracker_Promote.thy ===== *)
theory Tracker_Promote
  imports Tracker_Invariant
begin

text \<open>
  After an insertion into the filter, the true negatives the filter now accepts move to the
  false positives and into Othello: \<open>promote_row\<close> on one row, and the two rows of a key.
\<close>

subsection \<open>Promotion of true negatives\<close>

lemma insert_on_demand_cases:
  assumes inv: "othello_inv t ot" and n: "keyCnt ot < length (keys ot)" and k: "contents ot k = None"
  obtains ot' fl' where "insert_on_demand t (k, v) (ot, fl) = Inr (False, ot', fl')" "\<not> no_cycle t ot (insert k (dom (contents ot)))"
  | ot' new where "insert_on_demand t (k, v) (ot, fl) = Inr (True, ot', fl @ new)" "othello_inv t ot'"
      "contents ot' = (contents ot)(k \<mapsto> v)" "tells t ot ot' new" "keyCnt ot' = Suc (keyCnt ot)" "length (keys ot') = length (keys ot)"
proof -
  have d: "k \<notin> dom (contents ot)" using k by auto
  show ?thesis
  proof (cases "acyclic_with t ot k")
    case True
    from insert_on_demand_ok[OF inv n d True, of v fl] show ?thesis using that(2) tells_one[OF inv] by metis
  next
    case False
    from insert_on_demand_cyclic[OF inv n d False, of v fl] show ?thesis using that(1) False acyclic_with_iff[OF inv d n] by metis
  qed
qed

definition fresh_hits :: "vfilter \<Rightarrow> u64 othello \<Rightarrow> u64 list \<Rightarrow> u64 list" where
  "fresh_hits f ot xs = filter (\<lambda>x. hit f x \<and> contents ot x = None) xs"

definition promoted :: "u64 template \<Rightarrow> vfilter \<Rightarrow> u64 list list \<Rightarrow> u64 list list \<Rightarrow> u64 othello \<Rightarrow> nat \<Rightarrow> u64 list \<Rightarrow> u64 list
    \<Rightarrow> u64 list list \<Rightarrow> u64 list list \<Rightarrow> u64 othello \<Rightarrow> nat list \<Rightarrow> bool" where
  "promoted t f F0 N0 ot0 p kept xs F N ot new \<longleftrightarrow>
     F = F0[p := F0 ! p @ filter (hit f) xs] \<and> N = N0[p := kept @ filter (\<lambda>x. \<not> hit f x) xs] \<and> othello_inv t ot \<and>
     contents ot = (\<lambda>x. if x \<in> set (fresh_hits f ot0 xs) then Some 0 else contents ot0 x) \<and>
     keyCnt ot = keyCnt ot0 + length (fresh_hits f ot0 xs) \<and> length (keys ot) = length (keys ot0) \<and> tells t ot0 ot new"

lemma promoted_Nil: "othello_inv t ot0 \<Longrightarrow> N0 ! p = kept \<Longrightarrow> promoted t f F0 N0 ot0 p kept [] F0 N0 ot0 []"
  by (auto simp: promoted_def fresh_hits_def intro: tells.none)

lemma promoted_keep:
  "\<not> hit f x \<Longrightarrow> promoted t f F0 N0 ot0 p (kept @ [x]) xs F N ot new \<Longrightarrow> promoted t f F0 N0 ot0 p kept (x # xs) F N ot new"
  by (simp add: promoted_def fresh_hits_def)

lemma promoted_member:
  assumes "hit f x" "contents ot0 x \<noteq> None" "p < length F0"
    "promoted t f (F0[p := F0 ! p @ [x]]) (N0[p := kept @ xs]) ot0 p kept xs F N ot new"
  shows "promoted t f F0 N0 ot0 p kept (x # xs) F N ot new"
proof -
  have "fresh_hits f ot0 (x # xs) = fresh_hits f ot0 xs" using assms(2) by (simp add: fresh_hits_def)
  with assms show ?thesis by (simp add: promoted_def)
qed

lemma promoted_insert:
  assumes "hit f x" "contents ot0 x = None" "p < length F0" "x \<notin> set xs"
    and I: "contents ot1 = (contents ot0)(x \<mapsto> 0)" "tells t ot0 ot1 new1" "keyCnt ot1 = Suc (keyCnt ot0)" "length (keys ot1) = length (keys ot0)"
    and R: "promoted t f (F0[p := F0 ! p @ [x]]) (N0[p := kept @ xs]) ot1 p kept xs F N ot new"
  shows "promoted t f F0 N0 ot0 p kept (x # xs) F N ot (new1 @ new)"
proof -
  have f1: "fresh_hits f ot1 xs = fresh_hits f ot0 xs"
    unfolding fresh_hits_def by (rule filter_cong) (use assms(4) in \<open>auto simp: I(1)\<close>)
  have f0: "fresh_hits f ot0 (x # xs) = x # fresh_hits f ot0 xs" using assms(1,2) by (simp add: fresh_hits_def)
  have c: "contents ot = (\<lambda>y. if y \<in> set (fresh_hits f ot0 (x # xs)) then Some 0 else contents ot0 y)"
    using R unfolding promoted_def f1 f0 I(1) by (auto simp: fun_eq_iff)
  have "tells t ot0 ot (new1 @ new)" using R tells_trans[OF _ I(2)] unfolding promoted_def by blast
  with R assms(1,3) c I(3,4) f0 show ?thesis unfolding promoted_def f1 by simp
qed

definition crowded :: "u64 template \<Rightarrow> vfilter \<Rightarrow> u64 othello \<Rightarrow> u64 list \<Rightarrow> bool" where
  "crowded t f ot xs \<longleftrightarrow> \<not> no_cycle t ot (dom (contents ot) \<union> set (fresh_hits f ot xs))"

lemma crowded_more:
  assumes "crowded t f ot1 xs" "same_plane ot0 ot1"
    "dom (contents ot1) \<union> set (fresh_hits f ot1 xs) = dom (contents ot0) \<union> set (fresh_hits f ot0 ys)"
  shows "crowded t f ot0 ys"
  using assms(1) unfolding crowded_def assms(3) no_cycle_plane[OF assms(2)] .

lemma promote_row_ok:
  assumes "vf_wf (vf s)" "othello_inv t (othello s)" "p < length (TNK_table s)" "p < length (FPK_table s)"
    "TNK_table s ! p = kept @ xs" "distinct xs" "keyCnt (othello s) + length (fresh_hits (vf s) (othello s) xs) \<le> length (keys (othello s))"
    "\<not> check \<longrightarrow> (\<forall>x \<in> set xs. hit (vf s) x \<longrightarrow> contents (othello s) x = None)"
  shows "\<exists>ok F N ot fl'. promote_row t check (int p) kept xs (s, fl) = Inr (ok, s\<lparr>FPK_table := F, TNK_table := N, othello := ot\<rparr>, fl') \<and>
     (ok \<longrightarrow> (\<exists>new. fl' = fl @ new \<and> promoted t (vf s) (FPK_table s) (TNK_table s) (othello s) p kept xs F N ot new)) \<and>
     (\<not> ok \<longrightarrow> crowded t (vf s) (othello s) xs)"
  using assms
proof (induction xs arbitrary: s fl kept)
  case Nil
  have "promote_row t check (int p) kept [] (s, fl) = Inr (True, s\<lparr>FPK_table := FPK_table s, TNK_table := TNK_table s, othello := othello s\<rparr>, fl)"
    by simp
  moreover have "promoted t (vf s) (FPK_table s) (TNK_table s) (othello s) p kept [] (FPK_table s) (TNK_table s) (othello s) []"
    using promoted_Nil Nil.prems(2,5) by simp
  ultimately show ?case by (metis append_Nil2)
next
  case (Cons x xs)
  note P = Cons.prems
  have lk: "vf_lookup (vf s) x = Inr (hit (vf s) x)" by (rule vf_lookup_ok[OF P(1)])
  have xs: "x \<notin> set xs" "distinct xs" using P(6) by simp_all
  show ?case
  proof (cases "hit (vf s) x")
    case False
    then have step: "promote_row t check (int p) kept (x # xs) (s, fl) = promote_row t check (int p) (kept @ [x]) xs (s, fl)"
      by (simp add: lk)
    have "fresh_hits (vf s) (othello s) (x # xs) = fresh_hits (vf s) (othello s) xs" using False by (simp add: fresh_hits_def)
    with Cons.IH[of s "kept @ [x]" fl] P xs promoted_keep[OF False] show ?thesis unfolding step crowded_def by fastforce
  next
    case True
    define ot where "ot = othello s"
    define F1 where "F1 = (FPK_table s)[p := FPK_table s ! p @ [x]]"
    define N1 where "N1 = (TNK_table s)[p := kept @ xs]"
    define member where "member = (contents ot x \<noteq> None)"
    note inv = P(2)[folded ot_def]
    have fr: "\<not> check \<Longrightarrow> \<not> member" using P(8) True by (simp add: member_def ot_def)
    let ?rest = "\<lambda>s' fl. promote_row t check (int p) kept xs (s', fl)"
    have step: "promote_row t check (int p) kept (x # xs) (s, fl) =
        (if member then ?rest (s\<lparr>FPK_table := F1, TNK_table := N1, othello := ot\<rparr>) fl
         else rbind (insert_on_demand t (x, 0) (ot, fl)) (\<lambda>(ok, ot, fl1).
            if ok then ?rest (s\<lparr>FPK_table := F1, TNK_table := N1, othello := ot\<rparr>) fl1
            else Inr (False, s\<lparr>FPK_table := F1, TNK_table := N1, othello := ot\<rparr>, fl1)))"
    proof -
      have m: "(if check then isMember t ot x else Inr False) = Inr member"
        using fr isMember_ok[OF inv, of x] by (auto simp: member_def)
      have pf: "push_FPK (int p) x s = Inr (s\<lparr>FPK_table := F1\<rparr>)" using P(4) by (simp add: push_FPK_def row_push F1_def)
      have pt: "put_TNK (int p) (kept @ xs) (s\<lparr>FPK_table := F1\<rparr>) = Inr (s\<lparr>FPK_table := F1, TNK_table := N1\<rparr>)"
        using P(3) by (simp add: put_TNK_def row_push N1_def)
      have o: "s\<lparr>FPK_table := F1, TNK_table := N1\<rparr> = s\<lparr>FPK_table := F1, TNK_table := N1, othello := ot\<rparr>"
        "othello (s\<lparr>FPK_table := F1, TNK_table := N1\<rparr>) = ot" by (simp_all add: ot_def)
      show ?thesis
      proof (cases member)
        case True
        then show ?thesis using \<open>hit (vf s) x\<close> m
          unfolding promote_row.simps lk rbind_simps pf pt o(2) by (simp add: ot_def)
      next
        case False
        then show ?thesis using \<open>hit (vf s) x\<close> m
          unfolding promote_row.simps lk rbind_simps pf pt o(2) by (simp add: Let_def)
      qed
    qed
    have tail: "\<exists>ok F N ot fl'. ?rest (s\<lparr>FPK_table := F1, TNK_table := N1, othello := ot1\<rparr>) fl1 = Inr (ok, s\<lparr>FPK_table := F, TNK_table := N, othello := ot\<rparr>, fl') \<and>
       (ok \<longrightarrow> (\<exists>new. fl' = fl1 @ new \<and> promoted t (vf s) F1 N1 ot1 p kept xs F N ot new)) \<and>
       (\<not> ok \<longrightarrow> crowded t (vf s) ot1 xs)"
      if h: "othello_inv t ot1" "keyCnt ot1 + length (fresh_hits (vf s) ot1 xs) \<le> length (keys ot1)"
        "\<not> check \<longrightarrow> (\<forall>x \<in> set xs. hit (vf s) x \<longrightarrow> contents ot1 x = None)" for ot1 fl1
    proof -
      let ?s = "s\<lparr>FPK_table := F1, TNK_table := N1, othello := ot1\<rparr>"
      have pre: "vf_wf (vf ?s)" "othello_inv t (othello ?s)" "p < length (TNK_table ?s)" "p < length (FPK_table ?s)"
        "TNK_table ?s ! p = kept @ xs" "keyCnt (othello ?s) + length (fresh_hits (vf ?s) (othello ?s) xs) \<le> length (keys (othello ?s))"
        "\<not> check \<longrightarrow> (\<forall>x \<in> set xs. hit (vf ?s) x \<longrightarrow> contents (othello ?s) x = None)"
        using P(1,3,4) h by (simp_all add: F1_def N1_def)
      from Cons.IH[of ?s kept fl1, OF pre(1-5) xs(2) pre(6,7)] show ?thesis by simp
    qed
    show ?thesis
    proof (cases member)
      case True
      then have c: "contents ot x \<noteq> None" by (simp add: member_def)
      then have fh: "fresh_hits (vf s) ot (x # xs) = fresh_hits (vf s) ot xs" by (simp add: fresh_hits_def)
      have h2: "keyCnt ot + length (fresh_hits (vf s) ot xs) \<le> length (keys ot)"
        "\<not> check \<longrightarrow> (\<forall>x \<in> set xs. hit (vf s) x \<longrightarrow> contents ot x = None)"
        using P(7,8) fh by (simp_all add: ot_def)
      obtain ok F N o2 fl' where
        R: "?rest (s\<lparr>FPK_table := F1, TNK_table := N1, othello := ot\<rparr>) fl = Inr (ok, s\<lparr>FPK_table := F, TNK_table := N, othello := o2\<rparr>, fl')"
          "ok \<longrightarrow> (\<exists>new. fl' = fl @ new \<and> promoted t (vf s) F1 N1 ot p kept xs F N o2 new)"
          "\<not> ok \<longrightarrow> crowded t (vf s) ot xs"
        using tail[OF inv h2, of fl] by (elim exE conjE) (rule that)
      then have "ok \<longrightarrow> (\<exists>new. fl' = fl @ new \<and> promoted t (vf s) (FPK_table s) (TNK_table s) ot p kept (x # xs) F N o2 new)"
        using promoted_member[OF \<open>hit (vf s) x\<close> c P(4)] unfolding F1_def N1_def by blast
      moreover have "\<not> ok \<longrightarrow> crowded t (vf s) ot (x # xs)" using R(3) fh by (simp add: crowded_def)
      ultimately show ?thesis using R(1) True unfolding step by (simp add: ot_def) blast
    next
      case False
      then have None: "contents ot x = None" by (simp add: member_def)
      then have fh: "fresh_hits (vf s) ot (x # xs) = x # fresh_hits (vf s) ot xs"
        using \<open>hit (vf s) x\<close> by (simp add: fresh_hits_def)
      have n: "keyCnt ot < length (keys ot)" using P(7) fh by (simp add: ot_def)
      show ?thesis
      proof (rule insert_on_demand_cases[OF inv n None, of 0 fl])
        fix ot' fl' assume I: "insert_on_demand t (x, 0) (ot, fl) = Inr (False, ot', fl')" "\<not> no_cycle t ot (insert x (dom (contents ot)))"
        have "insert x (dom (contents ot)) \<subseteq> dom (contents ot) \<union> set (fresh_hits (vf s) ot (x # xs))" unfolding fh by auto
        from no_cycle_mono[OF _ this] I(2) have "crowded t (vf s) (othello s) (x # xs)" unfolding crowded_def ot_def by blast
        then show ?thesis unfolding step using False I(1) by auto
      next
        fix ot' new1 assume I: "insert_on_demand t (x, 0) (ot, fl) = Inr (True, ot', fl @ new1)" "othello_inv t ot'"
          "contents ot' = (contents ot)(x \<mapsto> 0)" "tells t ot ot' new1" "keyCnt ot' = Suc (keyCnt ot)" "length (keys ot') = length (keys ot)"
        have fh': "fresh_hits (vf s) ot' xs = fresh_hits (vf s) ot xs"
          unfolding fresh_hits_def by (rule filter_cong) (use xs(1) in \<open>auto simp: I(3)\<close>)
        have "keyCnt ot' + length (fresh_hits (vf s) ot' xs) \<le> length (keys ot')"
          using P(7) fh unfolding fh' I(5,6) by (simp add: ot_def)
        moreover have "\<not> check \<longrightarrow> (\<forall>x \<in> set xs. hit (vf s) x \<longrightarrow> contents ot' x = None)"
          using P(8) xs(1) by (auto simp: I(3) ot_def)
        ultimately obtain ok F N o2 fl2 where R: "?rest (s\<lparr>FPK_table := F1, TNK_table := N1, othello := ot'\<rparr>) (fl @ new1) = Inr (ok, s\<lparr>FPK_table := F, TNK_table := N, othello := o2\<rparr>, fl2)"
          "ok \<longrightarrow> (\<exists>new. fl2 = (fl @ new1) @ new \<and> promoted t (vf s) F1 N1 ot' p kept xs F N o2 new)"
          "\<not> ok \<longrightarrow> crowded t (vf s) ot' xs"
          using tail[OF I(2), of "fl @ new1"] by blast
        have E: "promote_row t check (int p) kept (x # xs) (s, fl) = Inr (ok, s\<lparr>FPK_table := F, TNK_table := N, othello := o2\<rparr>, fl2)"
          unfolding step using False I(1) R(1) by simp
        have "ok \<longrightarrow> (\<exists>new. fl2 = fl @ new \<and> promoted t (vf s) (FPK_table s) (TNK_table s) ot p kept (x # xs) F N o2 new)"
          using R(2) promoted_insert[OF \<open>hit (vf s) x\<close> None P(4) xs(1) I(3-6)] unfolding F1_def N1_def by (metis append_assoc)
        moreover have "\<not> ok \<longrightarrow> crowded t (vf s) ot (x # xs)"
          using R(3) crowded_more[OF _ tells_plane[OF I(4)]] unfolding fh fh' I(3) by (auto simp: fh' I(3) fh)
        ultimately show ?thesis using E unfolding ot_def by blast
      qed
    qed
  qed
qed

definition kept_sets :: "tracker \<Rightarrow> tracker \<Rightarrow> bool" where
  "kept_sets s s' \<longleftrightarrow> (\<exists>F N ot. s' = s\<lparr>FPK_table := F, TNK_table := N, othello := ot\<rparr>)"

lemma kept_setsI: "kept_sets s (s\<lparr>FPK_table := F, TNK_table := N, othello := ot\<rparr>)"
  by (auto simp: kept_sets_def)

lemma promote_both:
  fixes s :: tracker and old :: "u64 \<Rightarrow> bool"
  defines "f \<equiv> vf s"
  assumes wf: "vf_wf f" and inv: "othello_inv t (othello s)"
    and pq: "buckets f k = {int p, int q}" "p \<noteq> q" "p < nat (vn f)" "q < nat (vn f)"
    and F: "rows_ok f (FPK_table s) {x \<in> S. old x}" and N: "rows_ok f (TNK_table s) {x \<in> S. \<not> old x}"
    and hit: "\<And>x. hit f x \<longleftrightarrow> old x \<or> vf_tag f x = vf_tag f k"
    and none: "\<And>x. x \<in> S \<Longrightarrow> \<not> old x \<Longrightarrow> contents (othello s) x = None"
    and room: "keyCnt (othello s) + card {x \<in> S. \<not> old x \<and> vf_tag f x = vf_tag f k} \<le> length (keys (othello s))"
  obtains s3 fl3 where "promote t False (int p) (s, fl) = Inr (False, s3, fl3)" "kept_sets s s3"
      "\<not> no_cycle t (othello s) (dom (contents (othello s)) \<union> {x \<in> S. \<not> old x \<and> hit f x})"
  | s3 fl3 F' N' ot new where "promote t False (int p) (s, fl) = Inr (True, s3, fl3)"
      "promote t True (int q) (s3, fl3) = Inr (True, s\<lparr>FPK_table := F', TNK_table := N', othello := ot\<rparr>, fl @ new)"
      "rows_ok f F' {x \<in> S. hit f x}" "rows_ok f N' {x \<in> S. \<not> hit f x}" "othello_inv t ot"
      "contents ot = (\<lambda>x. if x \<in> S \<and> \<not> old x \<and> hit f x then Some 0 else contents (othello s) x)"
      "keyCnt ot = keyCnt (othello s) + card {x \<in> S. \<not> old x \<and> vf_tag f x = vf_tag f k}" "length (keys ot) = length (keys (othello s))"
      "tells t (othello s) ot new"
proof -
  let ?F = "FPK_table s" and ?N = "TNK_table s"
  define D where "D = {x \<in> S. \<not> old x \<and> vf_tag f x = vf_tag f k}"
  have tb: "vf_tag f x = vf_tag f k \<Longrightarrow> buckets f x = {int p, int q}" for x using same_tag_buckets[of f x k] pq(1) by simp
  then have bD: "x \<in> D \<Longrightarrow> buckets f x = {int p, int q}" for x by (simp add: D_def)
  have hN: "set (filter (hit f) (?N ! i)) = D \<and> distinct (filter (hit f) (?N ! i)) \<and> i < length ?N \<and> i < length ?F" if "i = p \<or> i = q" for i
  proof -
    have i: "i < length ?N" "i < length ?F" using that pq(3,4) rows_length[OF N] rows_length[OF F] by auto
    have "set (filter (hit f) (?N ! i)) = {x \<in> S. \<not> old x \<and> int i \<in> buckets f x \<and> hit f x}" using rows_set[OF N i(1)] by auto
    also have "\<dots> = D"
    proof (intro set_eqI iffI)
      show "x \<in> D" if "x \<in> {x \<in> S. \<not> old x \<and> int i \<in> buckets f x \<and> hit f x}" for x
        using that hit[of x] unfolding D_def by blast
      show "x \<in> {x \<in> S. \<not> old x \<and> int i \<in> buckets f x \<and> hit f x}" if "x \<in> D" for x
        using that hit[of x] tb[of x] \<open>i = p \<or> i = q\<close> by (simp add: D_def)
    qed
    finally show ?thesis using rows_set[OF N i(1)] i by simp
  qed
  note np = hN[of p, simplified] and nq = hN[of q, simplified]
  have rN: "set (?N ! p) = {x \<in> S. \<not> old x \<and> int p \<in> buckets f x}" "distinct (?N ! p)"
    using rows_set[OF N, of p] np by (simp_all add: conj_assoc)
  have cN: "\<forall>x \<in> set (?N ! p). contents (othello s) x = None" unfolding rN(1) using none by blast
  have fp: "fresh_hits f (othello s) (?N ! p) = filter (hit f) (?N ! p)"
    unfolding fresh_hits_def by (intro filter_cong refl) (simp only: bspec[OF cN] simp_thms)
  have len: "length (filter (hit f) (?N ! p)) = card D"
    using distinct_card[OF conjunct1[OF conjunct2[OF hN[of p]]]] conjunct1[OF hN[of p]] by simp
  have rp: "promote t False (int p) (s, fl) = promote_row t False (int p) [] (?N ! p) (s, fl)" for fl
    using np by (simp add: promote_def row_push)
  have lp: "p < length ?N" "p < length ?F" using hN[of p] by simp_all
  have pre: "TNK_table s ! p = [] @ ?N ! p" "distinct (?N ! p)"
    "keyCnt (othello s) + length (fresh_hits (vf s) (othello s) (?N ! p)) \<le> length (keys (othello s))"
    "\<not> False \<longrightarrow> (\<forall>x \<in> set (?N ! p). hit (vf s) x \<longrightarrow> contents (othello s) x = None)"
    using rN(2) cN room fp len by (simp_all add: f_def D_def)
  obtain ok F1 N1 ot1 fl1 where R: "promote t False (int p) (s, fl) = Inr (ok, s\<lparr>FPK_table := F1, TNK_table := N1, othello := ot1\<rparr>, fl1)"
    "ok \<longrightarrow> (\<exists>new. fl1 = fl @ new \<and> promoted t f ?F ?N (othello s) p [] (?N ! p) F1 N1 ot1 new)"
    "\<not> ok \<longrightarrow> crowded t f (othello s) (?N ! p)"
    unfolding rp using promote_row_ok[OF wf[unfolded f_def] inv lp(1,2) pre(1-3) pre(4), where fl = fl] unfolding f_def by blast
  show thesis
  proof (cases ok)
    case False
    have "D = {x \<in> S. \<not> old x \<and> hit f x}" using hit unfolding D_def by auto
    with R(3) False hN[of p] have "\<not> no_cycle t (othello s) (dom (contents (othello s)) \<union> {x \<in> S. \<not> old x \<and> hit f x})"
      unfolding crowded_def fp by simp
    with R(1) False show thesis by (intro that(1)[OF _ kept_setsI]) simp_all
  next
    case True
    then obtain new1 where fl1: "fl1 = fl @ new1" and P1: "promoted t f ?F ?N (othello s) p [] (?N ! p) F1 N1 ot1 new1"
      using R(2) by blast
    let ?s1 = "s\<lparr>FPK_table := F1, TNK_table := N1, othello := ot1\<rparr>"
    from P1 have F1: "F1 = ?F[p := ?F ! p @ filter (hit f) (?N ! p)]" and N1: "N1 = ?N[p := filter (\<lambda>x. \<not> hit f x) (?N ! p)]"
      and inv1: "othello_inv t ot1" and C1: "contents ot1 = (\<lambda>x. if x \<in> D then Some 0 else contents (othello s) x)"
      and K1: "keyCnt ot1 = keyCnt (othello s) + card D" "length (keys ot1) = length (keys (othello s))" "tells t (othello s) ot1 new1"
      unfolding promoted_def fp len using np by auto
    have nq1: "N1 ! q = ?N ! q" "q < length N1" "q < length F1" using nq pq(2) by (simp_all add: N1 F1)
    have f2: "fresh_hits f ot1 (N1 ! q) = []" unfolding nq1(1) fresh_hits_def C1 using nq by (auto simp: filter_empty_conv)
    have rq: "promote t True (int q) (?s1, fl1) = promote_row t True (int q) [] (N1 ! q) (?s1, fl1)"
      using nq1 by (simp add: promote_def row_push)
    have pre: "vf_wf (vf ?s1)" "othello_inv t (othello ?s1)" "q < length (TNK_table ?s1)" "q < length (FPK_table ?s1)"
      "TNK_table ?s1 ! q = [] @ N1 ! q" "distinct (N1 ! q)"
      "keyCnt (othello ?s1) + length (fresh_hits (vf ?s1) (othello ?s1) (N1 ! q)) \<le> length (keys (othello ?s1))"
      "\<not> True \<longrightarrow> (\<forall>x \<in> set (N1 ! q). hit (vf ?s1) x \<longrightarrow> contents (othello ?s1) x = None)"
      using wf inv1 nq1 rows_set[OF N, of q] nq f2 K1 room by (simp_all add: f_def D_def)
    obtain ok2 F2 N2 ot2 fl2 where R2: "promote t True (int q) (?s1, fl1) = Inr (ok2, s\<lparr>FPK_table := F2, TNK_table := N2, othello := ot2\<rparr>, fl2)"
      "ok2 \<longrightarrow> (\<exists>new. fl2 = fl1 @ new \<and> promoted t f F1 N1 ot1 q [] (N1 ! q) F2 N2 ot2 new)"
      "\<not> ok2 \<longrightarrow> crowded t f ot1 (N1 ! q)"
    proof -
      have e: "vf ?s1 = f" "FPK_table ?s1 = F1" "TNK_table ?s1 = N1" "othello ?s1 = ot1"
        "?s1\<lparr>FPK_table := F, TNK_table := N, othello := ot\<rparr> = s\<lparr>FPK_table := F, TNK_table := N, othello := ot\<rparr>" for F N ot
        by (simp_all add: f_def)
      show ?thesis using promote_row_ok[OF pre, where fl = fl1, unfolded e, folded rq] by (elim exE conjE) (rule that)
    qed
    have T2: ok2 using R2(3) stored_no_cycle[OF inv1] unfolding crowded_def f2 by auto
    then obtain new2 where fl2: "fl2 = fl1 @ new2" and P2: "promoted t f F1 N1 ot1 q [] (N1 ! q) F2 N2 ot2 new2"
      using R2(2) by blast
    have F2: "F2 = ?F[p := ?F ! p @ filter (hit f) (?N ! p), q := ?F ! q @ filter (hit f) (?N ! q)]"
      and N2: "N2 = ?N[p := filter (\<lambda>x. \<not> hit f x) (?N ! p), q := filter (\<lambda>x. \<not> hit f x) (?N ! q)]"
      and inv2: "othello_inv t ot2" and C2: "contents ot2 = contents ot1" and K2: "keyCnt ot2 = keyCnt ot1" "length (keys ot2) = length (keys ot1)" "tells t ot1 ot2 new2"
      using P2 pq(2) unfolding promoted_def nq1(1) f2[unfolded nq1(1)] by (auto simp: F1 N1)
    have r1: "rows_ok f F2 {x \<in> S. hit f x}"
    proof -
      have "rows_ok f F2 ({x \<in> S. old x} \<union> D)"
        unfolding F2 by (rule rows_append[OF F _ _ _ _ _ bD pq(2)]) (use np nq in \<open>auto simp: D_def\<close>)
      moreover have "{x \<in> S. old x} \<union> D = {x \<in> S. hit f x}" unfolding D_def using hit by auto
      ultimately show ?thesis by simp
    qed
    have r2: "rows_ok f N2 {x \<in> S. \<not> hit f x}"
    proof -
      have "rows_ok f N2 {x \<in> {x \<in> S. \<not> old x}. \<not> hit f x}"
        unfolding N2 by (rule rows_filter[OF N]) (use hit bD in \<open>auto simp: D_def\<close>)
      moreover have "{x \<in> {x \<in> S. \<not> old x}. \<not> hit f x} = {x \<in> S. \<not> hit f x}" using hit by auto
      ultimately show ?thesis by simp
    qed
    have c: "contents ot2 = (\<lambda>x. if x \<in> S \<and> \<not> old x \<and> hit f x then Some 0 else contents (othello s) x)"
      unfolding C2 C1 using hit by (auto simp: D_def fun_eq_iff)
    show thesis
      by (rule that(2)[OF _ _ r1 r2 inv2 c]) (use R(1) R2(1) True T2 fl1 fl2 K1 K2 tells_trans[OF K2(3) K1(3)] in \<open>simp_all add: D_def\<close>)
  qed
qed

end
