(* ===== verification/Tracker_Demote.thy ===== *)
theory Tracker_Demote
  imports Tracker_Promote
begin

text \<open>
  After a deletion from the filter, the false positives the filter no longer accepts become
  true negatives and leave Othello: \<open>demote_row\<close> on one row, and the two rows of a key.
\<close>

definition demoted :: "u64 template \<Rightarrow> vfilter \<Rightarrow> u64 list list \<Rightarrow> u64 list list \<Rightarrow> u64 othello \<Rightarrow> nat \<Rightarrow> u64 list \<Rightarrow> u64 list
    \<Rightarrow> u64 list list \<Rightarrow> u64 list list \<Rightarrow> u64 othello \<Rightarrow> nat list \<Rightarrow> bool" where
  "demoted t f F0 N0 ot0 p kept xs F N ot new \<longleftrightarrow>
     F = F0[p := kept @ filter (hit f) xs] \<and> N = N0[p := N0 ! p @ filter (\<lambda>x. \<not> hit f x) xs] \<and> othello_inv t ot \<and>
     contents ot = (\<lambda>x. if x \<in> set xs \<and> \<not> hit f x then None else contents ot0 x) \<and>
     length (keys ot) = length (keys ot0) \<and> tells t ot0 ot new"

lemma demoted_Nil: "othello_inv t ot0 \<Longrightarrow> F0 ! p = kept \<Longrightarrow> demoted t f F0 N0 ot0 p kept [] F0 N0 ot0 []"
  by (auto simp: demoted_def intro: tells.none)

lemma demoted_keep:
  "hit f x \<Longrightarrow> demoted t f F0 N0 ot0 p (kept @ [x]) xs F N ot new \<Longrightarrow> demoted t f F0 N0 ot0 p kept (x # xs) F N ot new"
  by (auto simp: demoted_def fun_eq_iff)

lemma demoted_drop:
  assumes "\<not> hit f x" "p < length N0" "contents ot1 = (contents ot0)(x := None)" "tells t ot0 ot1 new1" "length (keys ot1) = length (keys ot0)"
    and R: "demoted t f (F0[p := kept @ xs]) (N0[p := N0 ! p @ [x]]) ot1 p kept xs F N ot new"
  shows "demoted t f F0 N0 ot0 p kept (x # xs) F N ot (new1 @ new)"
proof -
  have "contents ot = (\<lambda>y. if y \<in> set (x # xs) \<and> \<not> hit f y then None else contents ot0 y)"
    using R assms(1) unfolding demoted_def assms(3) by (auto simp: fun_eq_iff)
  moreover have "tells t ot0 ot (new1 @ new)" using R tells_trans[OF _ assms(4)] unfolding demoted_def by blast
  ultimately show ?thesis using R assms(1,2,5) unfolding demoted_def by simp
qed

lemma forget_key:
  assumes inv: "othello_inv t ot"
  obtains ot' new where "rbind (isMember t ot x) (\<lambda>member. if member then erase_on_demand t x NOKEY (ot, fl) else Inr (ot, fl)) = Inr (ot', fl @ new)"
    "othello_inv t ot'" "contents ot' = (contents ot)(x := None)" "tells t ot ot' new" "length (keys ot') = length (keys ot)"
proof (cases "contents ot x")
  case None
  then show thesis using inv tells.none[of t ot] by (intro that[of ot "[]"]) (auto simp: isMember_ok[OF inv])
next
  case (Some v)
  obtain ot' new where "erase_on_demand t x NOKEY (ot, fl) = Inr (ot', fl @ new)" "othello_inv t ot'"
    "contents ot' = (contents ot)(x := None)" "noted t ot ot' new" "length (keys ot') = length (keys ot)"
    using erase_ok[OF inv, of x fl] by metis
  then show thesis using Some tells_one[OF inv] by (intro that[of ot' new]) (auto simp: isMember_ok[OF inv])
qed

lemma demote_row_ok:
  assumes "vf_wf (vf s)" "othello_inv t (othello s)" "p < length (TNK_table s)" "p < length (FPK_table s)" "FPK_table s ! p = kept @ xs"
  shows "\<exists>F N ot new. demote_row t (int p) kept xs (s, fl) = Inr (s\<lparr>FPK_table := F, TNK_table := N, othello := ot\<rparr>, fl @ new) \<and>
     demoted t (vf s) (FPK_table s) (TNK_table s) (othello s) p kept xs F N ot new"
  using assms
proof (induction xs arbitrary: s fl kept)
  case Nil
  have "demote_row t (int p) kept [] (s, fl) = Inr (s\<lparr>FPK_table := FPK_table s, TNK_table := TNK_table s, othello := othello s\<rparr>, fl @ [])"
    by simp
  moreover have "demoted t (vf s) (FPK_table s) (TNK_table s) (othello s) p kept [] (FPK_table s) (TNK_table s) (othello s) []"
    using demoted_Nil Nil.prems(2,5) by simp
  ultimately show ?case by blast
next
  case (Cons x xs)
  note P = Cons.prems
  have lk: "vf_lookup (vf s) x = Inr (hit (vf s) x)" by (rule vf_lookup_ok[OF P(1)])
  show ?case
  proof (cases "hit (vf s) x")
    case True
    then have step: "demote_row t (int p) kept (x # xs) (s, fl) = demote_row t (int p) (kept @ [x]) xs (s, fl)"
      by (simp add: lk)
    show ?thesis unfolding step using Cons.IH[OF P(1-4), of "kept @ [x]" fl] P(5) demoted_keep[OF True] by fastforce
  next
    case False
    define F1 where "F1 = (FPK_table s)[p := kept @ xs]"
    define N1 where "N1 = (TNK_table s)[p := TNK_table s ! p @ [x]]"
    obtain ot1 new1 where O: "rbind (isMember t (othello s) x) (\<lambda>member. if member then erase_on_demand t x NOKEY (othello s, fl) else Inr (othello s, fl)) = Inr (ot1, fl @ new1)"
      "othello_inv t ot1" "contents ot1 = (contents (othello s))(x := None)" "tells t (othello s) ot1 new1" "length (keys ot1) = length (keys (othello s))"
      by (rule forget_key[OF P(2)])
    let ?s = "s\<lparr>FPK_table := F1, TNK_table := N1, othello := ot1\<rparr>"
    have step: "demote_row t (int p) kept (x # xs) (s, fl) = demote_row t (int p) kept xs (?s, fl @ new1)"
    proof -
      have pt: "push_TNK (int p) x s = Inr (s\<lparr>TNK_table := N1\<rparr>)" using P(3) by (simp add: push_TNK_def row_push N1_def)
      have pf: "put_FPK (int p) (kept @ xs) (s\<lparr>TNK_table := N1, othello := ot1\<rparr>) = Inr ?s"
        using P(4) by (simp add: put_FPK_def row_push F1_def)
      have o: "othello (s\<lparr>TNK_table := N1\<rparr>) = othello s" by simp
      show ?thesis unfolding demote_row.simps lk rbind_simps if_P[OF False] pt o rbind_assoc[symmetric] O(1)
        by (simp add: pf)
    qed
    have pre: "vf_wf (vf ?s)" "othello_inv t (othello ?s)" "p < length (TNK_table ?s)" "p < length (FPK_table ?s)" "FPK_table ?s ! p = kept @ xs"
      using P O(2) by (simp_all add: F1_def N1_def)
    have e: "vf ?s = vf s" "FPK_table ?s = F1" "TNK_table ?s = N1" "othello ?s = ot1"
      "?s\<lparr>FPK_table := F, TNK_table := N, othello := ot\<rparr> = s\<lparr>FPK_table := F, TNK_table := N, othello := ot\<rparr>" for F N ot
      by simp_all
    obtain F N ot new where R: "demote_row t (int p) kept xs (?s, fl @ new1) = Inr (s\<lparr>FPK_table := F, TNK_table := N, othello := ot\<rparr>, (fl @ new1) @ new)"
      "demoted t (vf s) F1 N1 ot1 p kept xs F N ot new"
      using Cons.IH[OF pre, of "fl @ new1", unfolded e] by (elim exE conjE) (rule that)
    note D = demoted_drop[OF False P(3) O(3-5) R(2)[unfolded F1_def N1_def]]
    show ?thesis unfolding step R(1) append_assoc by (intro exI conjI, rule refl, rule D)
  qed
qed

lemma demote_both:
  fixes s :: tracker and old :: "u64 \<Rightarrow> bool"
  defines "f \<equiv> vf s"
  assumes wf: "vf_wf f" and inv: "othello_inv t (othello s)"
    and pq: "buckets f k = {int p, int q}" "p \<noteq> q" "p < nat (vn f)" "q < nat (vn f)"
    and F: "rows_ok f (FPK_table s) {x \<in> S. old x}" and N: "rows_ok f (TNK_table s) {x \<in> S. \<not> old x}"
    and hit: "\<And>x. hit f x \<Longrightarrow> old x" "\<And>x. old x \<Longrightarrow> \<not> hit f x \<Longrightarrow> vf_tag f x = vf_tag f k"
  obtains s3 fl3 F' N' ot new where "demote t (int p) (s, fl) = Inr (s3, fl3)"
      "demote t (int q) (s3, fl3) = Inr (s\<lparr>FPK_table := F', TNK_table := N', othello := ot\<rparr>, fl @ new)"
      "rows_ok f F' {x \<in> S. hit f x}" "rows_ok f N' {x \<in> S. \<not> hit f x}" "othello_inv t ot"
      "contents ot = (\<lambda>x. if x \<in> S \<and> old x \<and> \<not> hit f x then None else contents (othello s) x)"
      "length (keys ot) = length (keys (othello s))" "tells t (othello s) ot new"
proof -
  let ?F = "FPK_table s" and ?N = "TNK_table s"
  define D where "D = {x \<in> S. old x \<and> \<not> hit f x}"
  have bD: "x \<in> D \<Longrightarrow> buckets f x = {int p, int q}" for x
    using same_tag_buckets[of f x k] hit(2)[of x] pq(1) unfolding D_def by auto
  have hF: "set (filter (\<lambda>x. \<not> hit f x) (?F ! i)) = D \<and> distinct (filter (\<lambda>x. \<not> hit f x) (?F ! i)) \<and> i < length ?N \<and> i < length ?F"
    if "i = p \<or> i = q" for i
  proof -
    have i: "i < length ?N" "i < length ?F" using that pq(3,4) rows_length[OF N] rows_length[OF F] by auto
    have "set (filter (\<lambda>x. \<not> hit f x) (?F ! i)) = {x \<in> S. old x \<and> int i \<in> buckets f x \<and> \<not> hit f x}" using rows_set[OF F i(2)] by auto
    also have "\<dots> = D" unfolding D_def using bD that unfolding D_def by auto
    finally show ?thesis using rows_set[OF F i(2)] i by simp
  qed
  have lp: "p < length ?N" "p < length ?F" "q < length ?N" "q < length ?F" using hF[of p] hF[of q] by simp_all
  have dp: "x \<in> set (?F ! i) \<and> \<not> hit f x \<longleftrightarrow> x \<in> D" if "i = p \<or> i = q" for x i
    using conjunct1[OF hF[OF that]] by auto
  obtain F1 N1 ot1 new1 where R: "demote t (int p) (s, fl) = Inr (s\<lparr>FPK_table := F1, TNK_table := N1, othello := ot1\<rparr>, fl @ new1)"
    "demoted t f ?F ?N (othello s) p [] (?F ! p) F1 N1 ot1 new1"
  proof -
    have rp: "demote t (int p) (s, fl) = demote_row t (int p) [] (?F ! p) (s, fl)" using lp by (simp add: demote_def row_push)
    show thesis using demote_row_ok[OF wf[unfolded f_def] inv lp(1,2), of "[]" "?F ! p" fl, simplified append_Nil, OF refl, folded f_def rp]
      by (elim exE conjE) (rule that)
  qed
  let ?s1 = "s\<lparr>FPK_table := F1, TNK_table := N1, othello := ot1\<rparr>"
  from R(2) have F1: "F1 = ?F[p := filter (hit f) (?F ! p)]" and N1: "N1 = ?N[p := ?N ! p @ filter (\<lambda>x. \<not> hit f x) (?F ! p)]"
    and inv1: "othello_inv t ot1" and C1: "contents ot1 = (\<lambda>x. if x \<in> D then None else contents (othello s) x)"
    and K1: "length (keys ot1) = length (keys (othello s))" "tells t (othello s) ot1 new1"
    unfolding demoted_def using dp[of p] by auto
  have q1: "F1 ! q = ?F ! q" "N1 ! q = ?N ! q" "q < length N1" "q < length F1" using lp pq(2) by (simp_all add: N1 F1)
  obtain F2 N2 ot2 new2 where R2: "demote t (int q) (?s1, fl @ new1) = Inr (s\<lparr>FPK_table := F2, TNK_table := N2, othello := ot2\<rparr>, (fl @ new1) @ new2)"
    "demoted t f F1 N1 ot1 q [] (?F ! q) F2 N2 ot2 new2"
  proof -
    have rq: "demote t (int q) (?s1, fl @ new1) = demote_row t (int q) [] (?F ! q) (?s1, fl @ new1)"
      using q1 by (simp add: demote_def row_push)
    have e: "vf ?s1 = f" "FPK_table ?s1 = F1" "TNK_table ?s1 = N1" "othello ?s1 = ot1"
      "?s1\<lparr>FPK_table := F, TNK_table := N, othello := ot\<rparr> = s\<lparr>FPK_table := F, TNK_table := N, othello := ot\<rparr>" for F N ot
      by (simp_all add: f_def)
    have pre: "vf_wf (vf ?s1)" "othello_inv t (othello ?s1)" "q < length (TNK_table ?s1)" "q < length (FPK_table ?s1)" "FPK_table ?s1 ! q = [] @ ?F ! q"
      unfolding e using wf inv1 q1 by simp_all
    show thesis using demote_row_ok[OF pre, where fl = "fl @ new1", unfolded e, folded rq] by (elim exE conjE) (rule that)
  qed
  have F2: "F2 = ?F[p := filter (hit f) (?F ! p), q := filter (hit f) (?F ! q)]"
    and N2: "N2 = ?N[p := ?N ! p @ filter (\<lambda>x. \<not> hit f x) (?F ! p), q := ?N ! q @ filter (\<lambda>x. \<not> hit f x) (?F ! q)]"
    and inv2: "othello_inv t ot2" and C2: "contents ot2 = (\<lambda>x. if x \<in> D then None else contents ot1 x)"
    and K2: "length (keys ot2) = length (keys ot1)" "tells t ot1 ot2 new2"
    using R2(2) pq(2) q1(1,2) dp[of q] unfolding demoted_def F1 N1 by auto
  have r1: "rows_ok f F2 {x \<in> S. hit f x}"
  proof -
    have "rows_ok f F2 {x \<in> {x \<in> S. old x}. hit f x}" unfolding F2 by (rule rows_filter[OF F]) (use bD in \<open>auto simp: D_def\<close>)
    moreover have "{x \<in> {x \<in> S. old x}. hit f x} = {x \<in> S. hit f x}" using hit(1) by auto
    ultimately show ?thesis by simp
  qed
  have r2: "rows_ok f N2 {x \<in> S. \<not> hit f x}"
  proof -
    have "rows_ok f N2 ({x \<in> S. \<not> old x} \<union> D)"
      unfolding N2 by (rule rows_append[OF N _ _ _ _ _ bD pq(2)]) (use hF[of p] hF[of q] in \<open>auto simp: D_def\<close>)
    moreover have "{x \<in> S. \<not> old x} \<union> D = {x \<in> S. \<not> hit f x}" unfolding D_def using hit(1) by auto
    ultimately show ?thesis by simp
  qed
  have c: "contents ot2 = (\<lambda>x. if x \<in> S \<and> old x \<and> \<not> hit f x then None else contents (othello s) x)"
    unfolding C2 C1 by (auto simp: D_def fun_eq_iff)
  note T = tells_trans[OF K2(2) K1(2)]
  show thesis by (rule that[OF R(1) R2(1)[unfolded append_assoc] r1 r2 inv2 c _ T]) (simp add: K2 K1)
qed

end
