(* ===== verification/Tracker_Insert.thy ===== *)
theory Tracker_Insert
  imports Tracker_Demote
begin

text \<open>
  \<open>DASS_Tracker::insert\<close> on a new key: the tracker moves to the new sets of keys and reports the
  positions of the Othello data that changed, or it asks for a rebuild, exactly when the filter
  overflows or the keys Othello would have to store have a cycle.
\<close>

subsection \<open>The keys Othello stores\<close>

definition stored_keys :: "vfilter \<Rightarrow> u64 list \<Rightarrow> u64 list \<Rightarrow> u64 set" where
  "stored_keys f P N = set P \<union> {x \<in> set N. vf_tag f x \<in> vf_tag f ` set P}"

lemma finite_stored [simp]: "finite (stored_keys f P N)"
  by (simp add: stored_keys_def)

text \<open>The classification the tracker stands for.\<close>

definition classes :: "tracker \<Rightarrow> u64 \<rightharpoonup> u32" where
  "classes s = (\<lambda>x. if x \<in> set (PK s) then Some 1 else if x \<in> set (NK s) then Some 0 else None)"

lemma tracker_hit: "tracker_inv t s \<Longrightarrow> hit (vf s) x \<longleftrightarrow> vf_tag (vf s) x \<in> vf_tag (vf s) ` set (PK s)"
  by (simp add: tracker_invD(2) image_iff)

lemma tracker_stored:
  assumes "tracker_inv t s"
  shows "dom (contents (othello s)) = stored_keys (vf s) (PK s) (NK s)"
  by (simp add: tracker_invD(9)[OF assms] stored_keys_def tracker_hit[OF assms] dom_def set_eq_iff)

definition moved_to :: "u64 template \<Rightarrow> tracker \<Rightarrow> vfilter \<Rightarrow> u64 list \<Rightarrow> u64 list \<Rightarrow> nat list \<times> tracker \<Rightarrow> bool" where
  "moved_to t s f P N = (\<lambda>(fl, s'). PK s' = P \<and> NK s' = N \<and> vf s' = f \<and> tracker_inv t s' \<and>
     follows (vf s) f \<and> tells t (othello s) (othello s') fl)"

subsection \<open>One key in two rows\<close>

lemma push_pair:
  assumes "p < length (FPK_table s)" "q < length (FPK_table s)" "p \<noteq> q"
  shows "rbind (push_FPK (int p) k s) (\<lambda>s1. rbind (push_FPK (int q) k s1) g) =
    g (s\<lparr>FPK_table := (FPK_table s)[p := FPK_table s ! p @ [k], q := FPK_table s ! q @ [k]]\<rparr>)"
  using assms by (simp add: push_FPK_def row_push)

lemma push_pair_TNK:
  assumes "p < length (TNK_table s)" "q < length (TNK_table s)" "p \<noteq> q"
  shows "rbind (push_TNK (int p) k s) (\<lambda>s1. rbind (push_TNK (int q) k s1) g) =
    g (s\<lparr>TNK_table := (TNK_table s)[p := TNK_table s ! p @ [k], q := TNK_table s ! q @ [k]]\<rparr>)"
  using assms by (simp add: push_TNK_def row_push)

lemma remove_pair:
  assumes "p < length (FPK_table s)" "q < length (FPK_table s)" "p \<noteq> q"
  shows "rbind (remove_FPK (int p) k s) (remove_FPK (int q) k) =
    Inr (s\<lparr>FPK_table := (FPK_table s)[p := filter (\<lambda>x. x \<noteq> k) (FPK_table s ! p), q := filter (\<lambda>x. x \<noteq> k) (FPK_table s ! q)]\<rparr>)"
  using assms by (simp add: remove_FPK_def put_FPK_def row_push)

lemma remove_pair_TNK:
  assumes "p < length (TNK_table s)" "q < length (TNK_table s)" "p \<noteq> q"
  shows "rbind (remove_TNK (int p) k s) (remove_TNK (int q) k) =
    Inr (s\<lparr>TNK_table := (TNK_table s)[p := filter (\<lambda>x. x \<noteq> k) (TNK_table s ! p), q := filter (\<lambda>x. x \<noteq> k) (TNK_table s ! q)]\<rparr>)"
  using assms by (simp add: remove_TNK_def put_TNK_def row_push)

lemma rows_push:
  assumes "rows_ok f tab S" "k \<notin> S" "buckets f k = {int p, int q}" "p \<noteq> q"
  shows "rows_ok f (tab[p := tab ! p @ [k], q := tab ! q @ [k]]) (insert k S)"
  using rows_append[OF assms(1), of "[k]" "{k}" "[k]" p q] assms(2-4) by simp

lemma rows_remove:
  assumes "rows_ok f tab S" "buckets f k = {int p, int q}"
  shows "rows_ok f (tab[p := filter (\<lambda>x. x \<noteq> k) (tab ! p), q := filter (\<lambda>x. x \<noteq> k) (tab ! q)]) (S - {k})"
proof -
  have "{x \<in> S. x \<noteq> k} = S - {k}" by auto
  with rows_filter[OF assms(1), of "\<lambda>x. x \<noteq> k" p q] assms(2) show ?thesis by simp
qed

lemma set_insert_fresh: "k \<notin> set ks \<Longrightarrow> set_insert k ks = ks @ [k]"
  by (simp add: set_insert_def)

lemma set_erase_simps: "set (set_erase k ks) = set ks - {k}" "distinct ks \<Longrightarrow> distinct (set_erase k ks)"
  by (auto simp: set_erase_def)

lemma mset_erase: "distinct ks \<Longrightarrow> k \<in> set ks \<Longrightarrow> mset ks = add_mset k (mset (set_erase k ks))"
proof (induction ks)
  case (Cons x xs)
  show ?case
  proof (cases "x = k")
    case True
    with Cons.prems have "set_erase k (x # xs) = xs" by (auto simp: set_erase_def filter_id_conv)
    with True show ?thesis by simp
  next
    case False
    then have "set_erase k (x # xs) = x # set_erase k xs" by (simp add: set_erase_def)
    with False Cons show ?thesis by simp
  qed
qed simp

subsection \<open>A new positive key\<close>

lemma raise_both:
  fixes s :: tracker
  defines "tg \<equiv> vf_tag (vf s)"
  assumes wf: "vf_wf (vf s)" and cells: "cells (vf s) = image_mset tg (mset P)"
    and F: "rows_ok (vf s) (FPK_table s) {x \<in> S. hit (vf s) x}" and N: "rows_ok (vf s) (TNK_table s) {x \<in> S. \<not> hit (vf s) x}"
    and inv: "othello_inv t (othello s)" and none: "\<And>x. x \<in> S \<Longrightarrow> \<not> hit (vf s) x \<Longrightarrow> contents (othello s) x = None"
    and S: "finite S" and K: "K = dom (contents (othello s)) \<union> {x \<in> S. tg x \<in> tg ` set (P @ [k])}"
    and room: "card K \<le> length (keys (othello s))" and ins: "vf_insert k (vf s) = Inr (0, f)"
  obtains p q where "position_pair f k = Inr (int p, int q)" "p < nat (vn f)" "q < nat (vn f)" "p \<noteq> q" "buckets f k = {int p, int q}"
      "vf_wf f" "cells f = image_mset (vf_tag f) (mset (P @ [k]))" "follows (vf s) f"
      "(\<exists>s3 fl3. promote t False (int p) (s\<lparr>vf := f\<rparr>, []) = Inr (False, s3, fl3) \<and> kept_sets (s\<lparr>vf := f\<rparr>) s3 \<and> \<not> no_cycle t (othello s) K) \<or>
       (\<exists>s3 fl3 F' N' ot new. promote t False (int p) (s\<lparr>vf := f\<rparr>, []) = Inr (True, s3, fl3) \<and>
          promote t True (int q) (s3, fl3) = Inr (True, s\<lparr>vf := f, FPK_table := F', TNK_table := N', othello := ot\<rparr>, new) \<and>
          rows_ok f F' {x \<in> S. hit f x} \<and> rows_ok f N' {x \<in> S. \<not> hit f x} \<and> othello_inv t ot \<and>
          contents ot = (\<lambda>x. if x \<in> S \<and> \<not> hit (vf s) x \<and> hit f x then Some 0 else contents (othello s) x) \<and>
          keyCnt ot \<le> card K \<and> length (keys ot) = length (keys (othello s)) \<and> tells t (othello s) ot new)"
proof -
  obtain res where "vf_insert k (vf s) = Inr res" "inserted (vf s) (vf_tag (vf s) k) res" using vf_insert_ok[OF wf] by blast
  with ins have i: "vf_wf f" "follows (vf s) f" "cells f = cells (vf s) + {# vf_tag (vf s) k #}" by (auto simp: inserted_def)
  have tg: "vf_tag f = tg" unfolding tg_def using follows_vf_tag[OF i(2)] by auto
  have vn: "vn f = vn (vf s)" by (rule follows_fields[OF i(2)])
  obtain p q where pq: "position_pair f k = Inr (int p, int q)" "buckets f k = {int p, int q}" "p \<noteq> q" "p < nat (vn f)" "q < nat (vn f)"
    by (rule position_rows[OF i(1)])
  have c: "cells f = image_mset (vf_tag f) (mset (P @ [k]))" unfolding i(3) tg cells by (simp add: tg_def)
  have h: "hit f x \<longleftrightarrow> hit (vf s) x \<or> tg x = tg k" for x unfolding tg i(3) by (auto simp: tg_def)
  let ?s = "s\<lparr>vf := f\<rparr>"
  have e: "vf ?s = f" "FPK_table ?s = FPK_table s" "TNK_table ?s = TNK_table s" "othello ?s = othello s" by simp_all
  have KE: "K = dom (contents (othello s)) \<union> {x \<in> S. hit f x}" unfolding K c tg by (simp add: image_iff)
  have r: "keyCnt (othello s) + card {x \<in> S. \<not> hit (vf s) x \<and> tg x = tg k} \<le> card K"
  proof -
    have "dom (contents (othello s)) \<inter> {x \<in> S. \<not> hit (vf s) x \<and> tg x = tg k} = {}" using none by auto
    moreover have fd: "finite (dom (contents (othello s)))" by (simp add: contents_def finite_dom_map_of)
    ultimately have "keyCnt (othello s) + card {x \<in> S. \<not> hit (vf s) x \<and> tg x = tg k}
      = card (dom (contents (othello s)) \<union> {x \<in> S. \<not> hit (vf s) x \<and> tg x = tg k})"
      using S by (simp add: keyCnt_card[OF inv] card_Un_disjoint)
    also have "\<dots> \<le> card K" by (rule card_mono) (use S fd h KE in auto)
    finally show ?thesis .
  qed
  show thesis
  proof (rule that[OF pq(1,4,5,3,2) i(1) c i(2)])
    show "(\<exists>s3 fl3. promote t False (int p) (?s, []) = Inr (False, s3, fl3) \<and> kept_sets ?s s3 \<and> \<not> no_cycle t (othello s) K) \<or>
       (\<exists>s3 fl3 F' N' ot new. promote t False (int p) (?s, []) = Inr (True, s3, fl3) \<and>
          promote t True (int q) (s3, fl3) = Inr (True, s\<lparr>vf := f, FPK_table := F', TNK_table := N', othello := ot\<rparr>, new) \<and>
          rows_ok f F' {x \<in> S. hit f x} \<and> rows_ok f N' {x \<in> S. \<not> hit f x} \<and> othello_inv t ot \<and>
          contents ot = (\<lambda>x. if x \<in> S \<and> \<not> hit (vf s) x \<and> hit f x then Some 0 else contents (othello s) x) \<and>
          keyCnt ot \<le> card K \<and> length (keys ot) = length (keys (othello s)) \<and> tells t (othello s) ot new)" (is "?A \<or> ?B")
    proof (rule promote_both[where s = ?s and fl = "[]" and k = k and S = S and old = "hit (vf s)", unfolded e, OF i(1) inv pq(2-5)])
      show "rows_ok f (FPK_table s) {x \<in> S. hit (vf s) x}" using rows_cong[OF F] tg vn by (simp add: tg_def)
      show "rows_ok f (TNK_table s) {x \<in> S. \<not> hit (vf s) x}" using rows_cong[OF N] tg vn by (simp add: tg_def)
      show "hit f x = (hit (vf s) x \<or> vf_tag f x = vf_tag f k)" for x using h unfolding tg .
      show "contents (othello s) x = None" if "x \<in> S" "\<not> hit (vf s) x" for x using none that .
      show "keyCnt (othello s) + card {x \<in> S. \<not> hit (vf s) x \<and> vf_tag f x = vf_tag f k} \<le> length (keys (othello s))"
        using r room unfolding tg by simp
    next
      fix s3 fl3 assume A: "promote t False (int p) (?s, []) = Inr (False, s3, fl3)" "kept_sets ?s s3"
        "\<not> no_cycle t (othello s) (dom (contents (othello s)) \<union> {x \<in> S. \<not> hit (vf s) x \<and> hit f x})"
      have "dom (contents (othello s)) \<union> {x \<in> S. \<not> hit (vf s) x \<and> hit f x} \<subseteq> K" unfolding KE by auto
      with A no_cycle_mono show ?thesis by blast
    next
      fix s3 fl3 F' N' ot new assume B: "promote t False (int p) (?s, []) = Inr (True, s3, fl3)"
        "promote t True (int q) (s3, fl3) = Inr (True, ?s\<lparr>FPK_table := F', TNK_table := N', othello := ot\<rparr>, [] @ new)"
        "rows_ok f F' {x \<in> S. hit f x}" "rows_ok f N' {x \<in> S. \<not> hit f x}" "othello_inv t ot"
        "contents ot = (\<lambda>x. if x \<in> S \<and> \<not> hit (vf s) x \<and> hit f x then Some 0 else contents (othello s) x)"
        "keyCnt ot = keyCnt (othello s) + card {x \<in> S. \<not> hit (vf s) x \<and> vf_tag f x = vf_tag f k}"
        "length (keys ot) = length (keys (othello s))" "tells t (othello s) ot new"
      have ?B
        by (intro exI conjI, rule B(1), rule B(2)[unfolded append_Nil], rule B(3), rule B(4), rule B(5), rule B(6), unfold B(7) tg, rule r, rule B(8), rule B(9))
      then show ?thesis by (rule disjI2)
    qed
  qed
qed

text \<open>The last step: the key goes into Othello, or its value changes there.\<close>

lemma othello_insert_cases:
  assumes inv: "othello_inv t (othello s)" and n: "keyCnt (othello s) < length (keys (othello s))" and k: "contents (othello s) k = None"
  obtains ot' where "othello_insert t (k, v) (s, fl) = Inr ([REBUILD], s\<lparr>othello := ot'\<rparr>)" "\<not> no_cycle t (othello s) (insert k (dom (contents (othello s))))"
  | ot' new where "othello_insert t (k, v) (s, fl) = Inr (fl @ new, s\<lparr>othello := ot'\<rparr>)" "othello_inv t ot'"
      "contents ot' = (contents (othello s))(k \<mapsto> v)" "tells t (othello s) ot' new"
proof (rule insert_on_demand_cases[OF inv n k, of v fl])
  fix ot' fl' assume "insert_on_demand t (k, v) (othello s, fl) = Inr (False, ot', fl')" "\<not> no_cycle t (othello s) (insert k (dom (contents (othello s))))"
  then show thesis by (intro that(1)[of ot']) (simp_all add: othello_insert_def)
next
  fix ot' new assume "insert_on_demand t (k, v) (othello s, fl) = Inr (True, ot', fl @ new)" "othello_inv t ot'"
      "contents ot' = (contents (othello s))(k \<mapsto> v)" "tells t (othello s) ot' new"
  then show thesis by (intro that(2)[of new ot']) (simp_all add: othello_insert_def)
qed

lemma moved_positive:
  assumes I: "tracker_inv t s" and k: "k \<notin> set (PK s)"
    and N: "set N = set (NK s) - {k}" "distinct N"
    and F: "rows_ok f F' {x \<in> set N. hit f x}" "rows_ok f N' {x \<in> set N. \<not> hit f x}"
    and f: "vf_wf f" "cells f = image_mset (vf_tag f) (mset (PK s @ [k]))" "follows (vf s) f"
    and ot: "othello_inv t ot" "contents ot = (\<lambda>x. if x \<in> set N \<and> \<not> hit (vf s) x \<and> hit f x then Some 0 else contents (othello s) x)(k \<mapsto> 1)"
    and T: "tells t (othello s) ot fl"
    and s': "PK s' = PK s @ [k]" "NK s' = N" "vf s' = f" "FPK_table s' = F'" "TNK_table s' = N'" "othello s' = ot"
  shows "moved_to t s f (PK s @ [k]) N (fl, s')"
proof -
  note i = tracker_invD[OF I]
  have tg: "vf_tag f = vf_tag (vf s)" using follows_vf_tag[OF f(3)] by auto
  have mono: "hit (vf s) x \<Longrightarrow> hit f x" for x using tracker_hit[OF I, of x] by (simp add: f(2) tg)
  have "tracker_inv t s'"
    unfolding tracker_inv_def s'
  proof (intro conjI f(1,2) F ot(1) N(2))
    show "distinct (PK s @ [k])" using i(3) k by simp
    show "set (PK s @ [k]) \<inter> set N = {}" using i(5) N(1) by auto
    show "contents ot = (\<lambda>x. if x \<in> set (PK s @ [k]) then Some 1 else if x \<in> set N \<and> hit f x then Some 0 else None)"
      unfolding ot(2) i(9) using N(1) mono i(5) by (auto simp: fun_eq_iff)
  qed
  with f(3) T s' show ?thesis by (simp add: moved_to_def)
qed

definition outcome :: "u64 template \<Rightarrow> tracker \<Rightarrow> vfilter \<Rightarrow> u64 list \<Rightarrow> u64 list \<Rightarrow> bool \<Rightarrow> nat list \<times> tracker \<Rightarrow> bool" where
  "outcome t s f P N again = (\<lambda>(fl, s'). PK s' = P \<and> NK s' = N \<and> vf s' = f \<and> follows (vf s) f \<and> (if again then fl = [REBUILD] else moved_to t s f P N (fl, s')))"

lemma kept_fields: "kept_sets s s' \<Longrightarrow> PK s' = PK s \<and> NK s' = NK s \<and> vf s' = vf s"
  by (auto simp: kept_sets_def)

lemma insert_positive_ok:
  assumes I: "tracker_inv (tmpl e) s" and k: "k \<notin> set (PK s)" "k \<notin> set (NK s)"
    and room: "card (stored_keys (vf s) (PK s @ [k]) (NK s)) \<le> length (keys (othello s))"
    and ins: "vf_insert k (vf s) = Inr (r, f)"
  shows "\<exists>out. tracker_insert e (k, 1) s = Inr out \<and>
     outcome (tmpl e) s f (PK s @ [k]) (NK s) (r = 1 \<or> \<not> no_cycle (tmpl e) (othello s) (stored_keys (vf s) (PK s @ [k]) (NK s))) out"
proof -
  note i = tracker_invD[OF I]
  let ?t = "tmpl e" and ?K = "stored_keys (vf s) (PK s @ [k]) (NK s)"
  let ?s1 = "s\<lparr>PK := PK s @ [k]\<rparr>"
  have e: "vf ?s1 = vf s" "FPK_table ?s1 = FPK_table s" "TNK_table ?s1 = TNK_table s" "othello ?s1 = othello s" "PK ?s1 = PK s @ [k]" "NK ?s1 = NK s"
    by simp_all
  have "inserted (vf s) (vf_tag (vf s) k) (r, f)" using vf_insert_ok[OF i(1), of k] ins by auto
  then have r01: "r = 0 \<or> r = 1" and fo: "follows (vf s) f" by (auto simp: inserted_def)
  note unf = tracker_insert_def Let_def prod.case if_P[OF refl] set_insert_fresh[OF k(1)] e ins rbind_simps
  show ?thesis
  proof (cases "r = 1")
    case True
    then have "tracker_insert e (k, 1) s = Inr ([REBUILD], ?s1\<lparr>vf := f\<rparr>)" unfolding unf by simp
    with True show ?thesis by (simp add: outcome_def fo)
  next
    case False
    with r01 ins have ins0: "vf_insert k (vf s) = Inr (0, f)" by simp
    define K where "K = dom (contents (othello s)) \<union> {x \<in> set (NK s). vf_tag (vf s) x \<in> vf_tag (vf s) ` set (PK s @ [k])}"
    have K: "?K = insert k K" "k \<notin> K" "finite K"
      unfolding K_def tracker_stored[OF I] using k by (auto simp: stored_keys_def)
    have cK: "card K < length (keys (othello s))" using room K by simp
    have none: "contents (othello s) x = None" if "x \<in> set (NK s)" "\<not> hit (vf s) x" for x using that i(5) by (auto simp: i(9))
    have nk: "contents (othello s) k = None" using k by (simp add: i(9))
    show ?thesis
    proof (rule raise_both[of ?s1 "PK s" "set (NK s)" ?t K k f, unfolded e, OF i(1,2,6,7,8) none finite_set K_def less_imp_le[OF cK] ins0])
      fix p q assume pq: "position_pair f k = Inr (int p, int q)" and f: "vf_wf f" "cells f = image_mset (vf_tag f) (mset (PK s @ [k]))" "follows (vf s) f"
        and R: "(\<exists>s3 fl3. promote ?t False (int p) (?s1\<lparr>vf := f\<rparr>, []) = Inr (False, s3, fl3) \<and> kept_sets (?s1\<lparr>vf := f\<rparr>) s3 \<and> \<not> no_cycle ?t (othello s) K) \<or>
         (\<exists>s3 fl3 F' N' ot new. promote ?t False (int p) (?s1\<lparr>vf := f\<rparr>, []) = Inr (True, s3, fl3) \<and>
          promote ?t True (int q) (s3, fl3) = Inr (True, ?s1\<lparr>vf := f, FPK_table := F', TNK_table := N', othello := ot\<rparr>, new) \<and>
          rows_ok f F' {x \<in> set (NK s). hit f x} \<and> rows_ok f N' {x \<in> set (NK s). \<not> hit f x} \<and> othello_inv ?t ot \<and>
          contents ot = (\<lambda>x. if x \<in> set (NK s) \<and> \<not> hit (vf s) x \<and> hit f x then Some 0 else contents (othello s) x) \<and>
          keyCnt ot \<le> card K \<and> length (keys ot) = length (keys (othello s)) \<and> tells ?t (othello s) ot new)" (is "?A \<or> ?B")
      from R show ?thesis
      proof
        assume ?A
        then obtain s3 fl3 where A: "promote ?t False (int p) (?s1\<lparr>vf := f\<rparr>, []) = Inr (False, s3, fl3)" "kept_sets (?s1\<lparr>vf := f\<rparr>) s3" "\<not> no_cycle ?t (othello s) K"
          by (elim exE conjE) (rule that)
        have "tracker_insert e (k, 1) s = Inr ([REBUILD], s3)" unfolding unf if_not_P[OF False] pq A(1) by (simp only: rbind_simps prod.case not_False_eq_True if_True)
        moreover have "\<not> no_cycle ?t (othello s) ?K" using A(3) no_cycle_mono[of ?t "othello s" ?K K] K(1) by blast
        ultimately show ?thesis using kept_fields[OF A(2)] by (simp add: outcome_def fo)
      next
        assume ?B
        then obtain s3 fl3 F' N' ot new where B: "promote ?t False (int p) (?s1\<lparr>vf := f\<rparr>, []) = Inr (True, s3, fl3)"
          "promote ?t True (int q) (s3, fl3) = Inr (True, ?s1\<lparr>vf := f, FPK_table := F', TNK_table := N', othello := ot\<rparr>, new)"
          "rows_ok f F' {x \<in> set (NK s). hit f x}" "rows_ok f N' {x \<in> set (NK s). \<not> hit f x}" "othello_inv ?t ot"
          "contents ot = (\<lambda>x. if x \<in> set (NK s) \<and> \<not> hit (vf s) x \<and> hit f x then Some 0 else contents (othello s) x)"
          "keyCnt ot \<le> card K" "length (keys ot) = length (keys (othello s))" "tells ?t (othello s) ot new"
          by (elim exE conjE) (rule that)
        define s4 where "s4 = ?s1\<lparr>vf := f, FPK_table := F', TNK_table := N', othello := ot\<rparr>"
        have s4: "othello s4 = ot" "PK s4 = PK s @ [k]" "NK s4 = NK s" "vf s4 = f" "FPK_table s4 = F'" "TNK_table s4 = N'" by (simp_all add: s4_def)
        obtain v where v: "query ?t ot k = Inr v" by (cases "getIndices ?t ot k") (simp add: query_total[OF invD(2,3)[OF B(5)]])
        have run: "tracker_insert e (k, 1) s = othello_insert ?t (k, 1) (s4, new)"
          unfolding unf if_not_P[OF False] pq B(1) B(2)[folded s4_def] by (simp only: rbind_simps prod.case not_True_eq_False if_False s4 v)
        have "dom (contents ot) = K"
        proof (rule set_eqI)
          fix x
          have "x \<in> K \<longleftrightarrow> x \<in> dom (contents (othello s)) \<or> x \<in> set (NK s) \<and> hit f x"
            unfolding K_def f(2) by (simp add: image_iff follows_vf_tag[OF f(3)])
          then show "x \<in> dom (contents ot) \<longleftrightarrow> x \<in> K" using i(5) by (auto simp: B(6) i(9) split: if_splits)
        qed
        then have dK: "insert k (dom (contents ot)) = ?K" using K(1) by simp
        have P: "same_plane (othello s) ot" by (rule tells_plane[OF B(9)])
        have ko: "contents ot k = None" unfolding B(6) using nk k by simp
        show ?thesis unfolding run
        proof (rule othello_insert_cases[of ?t s4 k 1 new, unfolded s4, OF B(5) _ ko])
          show "keyCnt ot < length (keys ot)" using B(7,8) cK by simp
        next
          fix ot' assume C: "othello_insert ?t (k, 1) (s4, new) = Inr ([REBUILD], s4\<lparr>othello := ot'\<rparr>)" "\<not> no_cycle ?t ot (insert k (dom (contents ot)))"
          then show "\<exists>out. othello_insert ?t (k, 1) (s4, new) = Inr out \<and> outcome ?t s f (PK s @ [k]) (NK s) (r = 1 \<or> \<not> no_cycle ?t (othello s) ?K) out"
            unfolding dK no_cycle_plane[OF P] by (simp add: outcome_def s4 fo)
        next
          fix ot' new' assume C: "othello_insert ?t (k, 1) (s4, new) = Inr (new @ new', s4\<lparr>othello := ot'\<rparr>)" "othello_inv ?t ot'"
            "contents ot' = (contents ot)(k \<mapsto> 1)" "tells ?t ot ot' new'"
          have "moved_to ?t s f (PK s @ [k]) (NK s) (new @ new', s4\<lparr>othello := ot'\<rparr>)"
            by (rule moved_positive[OF I k(1) _ i(4) B(3,4) f C(2) C(3)[unfolded B(6)] tells_trans[OF C(4) B(9)]]) (use k s4 in simp_all)
          moreover have "no_cycle ?t (othello s) ?K"
            using stored_no_cycle[OF C(2)] unfolding C(3) no_cycle_plane[OF tells_plane[OF tells_trans[OF C(4) B(9)]]] by (simp add: dK)
          ultimately show "\<exists>out. othello_insert ?t (k, 1) (s4, new) = Inr out \<and> outcome ?t s f (PK s @ [k]) (NK s) (r = 1 \<or> \<not> no_cycle ?t (othello s) ?K) out"
            using False C(1) s4 by (simp add: outcome_def fo)
        qed
      qed
    qed
  qed
qed

lemma insert_negative_ok:
  assumes I: "tracker_inv (tmpl e) s" and k: "k \<notin> set (PK s)" "k \<notin> set (NK s)"
    and room: "card (stored_keys (vf s) (PK s) (NK s @ [k])) \<le> length (keys (othello s))"
  shows "\<exists>out. tracker_insert e (k, 0) s = Inr out \<and>
     outcome (tmpl e) s (vf s) (PK s) (NK s @ [k]) (\<not> no_cycle (tmpl e) (othello s) (stored_keys (vf s) (PK s) (NK s @ [k]))) out \<and>
     (\<not> hit (vf s) k \<longrightarrow> fst out = [])"
proof -
  note i = tracker_invD[OF I]
  let ?t = "tmpl e" and ?K = "stored_keys (vf s) (PK s) (NK s @ [k])"
  let ?s1 = "s\<lparr>NK := NK s @ [k]\<rparr>"
  have e: "vf ?s1 = vf s" "FPK_table ?s1 = FPK_table s" "TNK_table ?s1 = TNK_table s" "othello ?s1 = othello s" "PK ?s1 = PK s" "NK ?s1 = NK s @ [k]"
    by simp_all
  obtain p q where pq: "position_pair (vf s) k = Inr (int p, int q)" "buckets (vf s) k = {int p, int q}" "p \<noteq> q" "p < nat (vn (vf s))" "q < nat (vn (vf s))"
    by (rule position_rows[OF i(1)])
  have len: "p < length (FPK_table s)" "q < length (FPK_table s)" "p < length (TNK_table s)" "q < length (TNK_table s)"
    using pq(4,5) rows_length[OF i(6)] rows_length[OF i(7)] by simp_all
  have one: "(0 :: u32) \<noteq> 1" by simp
  note unf = tracker_insert_def Let_def prod.case if_not_P[OF one] set_insert_fresh[OF k(2)] e vf_lookup_ok[OF i(1)] pq(1) rbind_simps
  have hk: "hit (vf s) x \<longleftrightarrow> vf_tag (vf s) x \<in> vf_tag (vf s) ` set (PK s)" for x by (rule tracker_hit[OF I])
  show ?thesis
  proof (cases "hit (vf s) k")
    case True
    define F' where "F' = (FPK_table s)[p := FPK_table s ! p @ [k], q := FPK_table s ! q @ [k]]"
    define s3 where "s3 = ?s1\<lparr>FPK_table := F'\<rparr>"
    have s3: "othello s3 = othello s" "PK s3 = PK s" "NK s3 = NK s @ [k]" "vf s3 = vf s" "FPK_table s3 = F'" "TNK_table s3 = TNK_table s" by (simp_all add: s3_def)
    have run: "tracker_insert e (k, 0) s = othello_insert ?t (k, 0) (s3, [])"
      unfolding unf if_P[OF True] push_pair[of p ?s1 q, unfolded e, OF len(1,2) pq(3)] s3_def F'_def ..
    have K: "?K = insert k (dom (contents (othello s)))" "k \<notin> dom (contents (othello s))"
      unfolding tracker_stored[OF I] using True k by (auto simp: stored_keys_def hk)
    have n: "keyCnt (othello s) < length (keys (othello s))" using room K unfolding keyCnt_card[OF i(8)] K(1) by simp
    have ko: "contents (othello s) k = None" using K(2) by auto
    have "\<exists>out. othello_insert ?t (k, 0) (s3, []) = Inr out \<and> outcome ?t s (vf s) (PK s) (NK s @ [k]) (\<not> no_cycle ?t (othello s) ?K) out"
    proof (rule othello_insert_cases[of ?t s3 k 0 "[]", unfolded s3, OF i(8) n ko])
      fix ot' assume "othello_insert ?t (k, 0) (s3, []) = Inr ([REBUILD], s3\<lparr>othello := ot'\<rparr>)" "\<not> no_cycle ?t (othello s) (insert k (dom (contents (othello s))))"
      then show "\<exists>out. othello_insert ?t (k, 0) (s3, []) = Inr out \<and> outcome ?t s (vf s) (PK s) (NK s @ [k]) (\<not> no_cycle ?t (othello s) ?K) out"
        unfolding K(1) by (simp add: outcome_def s3)
    next
      fix ot' new assume C: "othello_insert ?t (k, 0) (s3, []) = Inr ([] @ new, s3\<lparr>othello := ot'\<rparr>)" "othello_inv ?t ot'"
        "contents ot' = (contents (othello s))(k \<mapsto> 0)" "tells ?t (othello s) ot' new"
      let ?s' = "s3\<lparr>othello := ot'\<rparr>"
      have s': "othello ?s' = ot'" "PK ?s' = PK s" "NK ?s' = NK s @ [k]" "vf ?s' = vf s" "FPK_table ?s' = F'" "TNK_table ?s' = TNK_table s" by (simp_all add: s3)
      have sets: "{x \<in> set (NK s @ [k]). hit (vf s) x} = insert k {x \<in> set (NK s). hit (vf s) x}"
        "{x \<in> set (NK s @ [k]). \<not> hit (vf s) x} = {x \<in> set (NK s). \<not> hit (vf s) x}" using True by auto
      have "tracker_inv ?t ?s'"
        unfolding tracker_inv_def s' sets
      proof (intro conjI i(1,2,3,7) C(2))
        show "rows_ok (vf s) F' (insert k {x \<in> set (NK s). hit (vf s) x})"
          unfolding F'_def by (rule rows_push[OF i(6) _ pq(2,3)]) (use k in simp)
        show "contents ot' = (\<lambda>x. if x \<in> set (PK s) then Some 1 else if x \<in> set (NK s @ [k]) \<and> hit (vf s) x then Some 0 else None)"
          unfolding C(3) i(9) using k True by (auto simp: fun_eq_iff)
      qed (use i(4,5) k in auto)
      then have "moved_to ?t s (vf s) (PK s) (NK s @ [k]) (new, ?s')" using C(4) by (simp add: moved_to_def s3)
      moreover have "no_cycle ?t (othello s) ?K"
        using stored_no_cycle[OF C(2)] unfolding C(3) no_cycle_plane[OF tells_plane[OF C(4)]] by (simp add: K(1))
      ultimately show "\<exists>out. othello_insert ?t (k, 0) (s3, []) = Inr out \<and> outcome ?t s (vf s) (PK s) (NK s @ [k]) (\<not> no_cycle ?t (othello s) ?K) out"
        using C(1) s3 by (simp add: outcome_def)
    qed
    with True run show ?thesis by simp
  next
    case False
    define N' where "N' = (TNK_table s)[p := TNK_table s ! p @ [k], q := TNK_table s ! q @ [k]]"
    let ?s' = "?s1\<lparr>TNK_table := N'\<rparr>"
    have s': "othello ?s' = othello s" "PK ?s' = PK s" "NK ?s' = NK s @ [k]" "vf ?s' = vf s" "FPK_table ?s' = FPK_table s" "TNK_table ?s' = N'" by simp_all
    have run: "tracker_insert e (k, 0) s = Inr ([], ?s')"
      unfolding unf if_not_P[OF False] push_pair_TNK[of p ?s1 q, unfolded e, OF len(3,4) pq(3)] N'_def ..
    have K: "?K = dom (contents (othello s))"
      unfolding tracker_stored[OF I] using False k by (auto simp: stored_keys_def hk)
    have sets: "{x \<in> set (NK s @ [k]). \<not> hit (vf s) x} = insert k {x \<in> set (NK s). \<not> hit (vf s) x}"
      "{x \<in> set (NK s @ [k]). hit (vf s) x} = {x \<in> set (NK s). hit (vf s) x}" using False by auto
    have "tracker_inv ?t ?s'"
      unfolding tracker_inv_def s' sets
    proof (intro conjI i(1,2,3,6,8))
      show "rows_ok (vf s) N' (insert k {x \<in> set (NK s). \<not> hit (vf s) x})"
        unfolding N'_def by (rule rows_push[OF i(7) _ pq(2,3)]) (use k in simp)
      show "contents (othello s) = (\<lambda>x. if x \<in> set (PK s) then Some 1 else if x \<in> set (NK s @ [k]) \<and> hit (vf s) x then Some 0 else None)"
        unfolding i(9) using k False by (auto simp: fun_eq_iff)
    qed (use i(4,5) k in auto)
    then have "moved_to ?t s (vf s) (PK s) (NK s @ [k]) ([], ?s')" by (simp add: moved_to_def tells.none)
    with run stored_no_cycle[OF i(8)] show ?thesis unfolding K by (simp add: outcome_def)
  qed
qed

end
