(* ===== verification/Othello_Construct.thy ===== *)
theory Othello_Construct
  imports Othello_Cycle
begin

text \<open>
  A new table and its filling: the constructor of \<open>ControlPlaneOthello\<close> always returns an empty table that
  satisfies the invariant, with room for the capacity it was asked for, and \<open>insert\<close> below that
  capacity adds the key, by an edge or by a rebuild, or throws when no seed works.
\<close>

lemma empty_forest: "keyCnt ot = 0 \<Longrightarrow> forest (edges t ot)"
  by (simp add: edges_def forest_empty)

lemma build_empty:
  assumes t: "plain t" and s: "sizes t ot" and k: "keyCnt ot = 0"
  shows "\<exists>ot'. build t ot = Inr ot' \<and> othello_inv t ot' \<and> same_keys ot ot'"
proof -
  have "acyclic_seed t ot 0" unfolding acyclic_seed_def by (rule empty_forest) (simp add: k)
  moreover have "0 < MAX_REHASH" by (simp add: MAX_REHASH_def)
  ultimately show ?thesis using build_ok[OF t s] by (cases "build t ot") auto
qed

lemma othello_new_ok:
  assumes t: "plain t" and c: "c = w32 (w32 (mul_float32 n r) + 1)" "0 < c" "3 * c * tL t < 2 ^ 31"
  shows "\<exists>ot. othello_new t n r pos = Inr ot \<and> othello_inv t ot \<and> contents ot = Map.empty \<and> keyCnt ot = 0 \<and>
     mb ot = c \<and> ma ot = mul_1_33334 c \<and> length (keys ot) = max 256 (2 * c)"
proof -
    have L: "0 < tL t" by (rule plainD(2)[OF t])
  have c3: "3 * c < 2 ^ 31" proof -
    have "3 * c * 1 \<le> 3 * c * tL t" by (rule mult_le_mono2) (use L in simp)
    then show ?thesis using c(3) unfolding mult_1_right by (rule le_less_trans)
  qed
  define A where "A = mul_1_33334 c"
  have A: "c \<le> A" "A \<le> 2 * c" "0 < A" using mul_1_33334_bounds[of c] c(2) by (simp_all add: A_def)
  let ?o = "(othello_init t pos)\<lparr>minimalKeyCapacity := c\<rparr>" and ?R = "max 256 (2 * c)"
  let ?o1 = "?o\<lparr>keys := replicate ?R 0, vals := replicate ?R 0, nextAtA := replicate ?R zero_cell, nextAtB := replicate ?R zero_cell\<rparr>"
  let ?n = "A + c"
  let ?o2 = "memResize t (?o1\<lparr>ma := A, mb := c\<rparr>)"
  let ?o3 = "?o2\<lparr>indMem := vresize ?n 0 (indMem ?o2), head := vresize ?n zero_cell (head ?o2), connectivityForest := ds_resize (connectivityForest ?o2) ?n\<rparr>"
  have n3: "?n < 2 ^ 31" "?n \<le> 3 * c" using A(2) c3 by simp_all
  have nt: "?n * tL t < 2 ^ 31" by (rule le_less_trans[OF mult_le_mono1[OF n3(2)] c(3)])
  have w: "w32 A = A" "w32 ?n = ?n" "w32 (c * 2) = 2 * c" "w32 (w32 (?n * tL t) + 63) = ?n * tL t + 63"
    using n3(1) nt A(2) c3 by (simp_all add: w32_def)
  have R: "resizeKey t 0 True ?o = build t ?o3"
    using A(3) c(2) by (simp add: resizeKey_def othello_init_def Let_def w A_def[symmetric] vresize_def)
  have r: "?R < 2 ^ 32" "?n * tL t \<le> 64 * ((?n * tL t + 63) div 64)" "64 * ((?n * tL t + 63) div 64) < ?n * tL t + 64" using c3 by simp_all
  have f: "maintainingDP ?o3" "ma ?o3 = A" "mb ?o3 = c" "length (mem ?o3) = (?n * tL t + 63) div 64" "length (indMem ?o3) = ?n"
    "length (head ?o3) = ?n" "length (connectivityForest ?o3) = ?n" "length (vals ?o3) = ?R" "length (keys ?o3) = ?R"
    "length (nextAtA ?o3) = ?R" "length (nextAtB ?o3) = ?R" "keyCnt ?o3 = 0"
    by (simp_all add: memResize_def othello_init_def plainD(4,7)[OF t] w(2,4) ds_resize_def)
  have s3: "sizes t ?o3"
    unfolding sizes_def nodes_def f
    by (intro conjI f(1) A(3) c(2) n3(1) less_trans[OF nt] r refl) simp_all
  obtain o4 where o4: "build t ?o3 = Inr o4" "othello_inv t o4" "same_keys ?o3 o4"
    using build_empty[OF t s3 f(12)] by (elim exE conjE) (rule that)
  have k4: "keyCnt o4 = 0" "length (keys o4) = ?R" "mb o4 = c" "ma o4 = A"
    using o4(3) unfolding same_keys_def by (simp_all only: f)
  obtain o5 where o5: "resetBuildState t o4 = Inr o5" "sizes t o5" "keyCnt o5 = keyCnt o4" "keys o5 = keys o4" "mb o5 = mb o4" "ma o5 = ma o4"
    by (rule resetBuildState_ok[OF t invD(3)[OF o4(2)]])
  obtain o6 where o6: "build t o5 = Inr o6" "othello_inv t o6" "same_keys o5 o6" using build_empty[OF t o5(2)] o5(3) k4(1) by auto
  have "othello_new t n r pos = Inr o6"
    unfolding othello_new_def c(1)[symmetric] Let_def by (simp only: R o4(1) o5(1) o6(1) rbind_simps)
  moreover have "keyCnt o6 = 0" "mb o6 = c" "ma o6 = mul_1_33334 c" "length (keys o6) = ?R" using o6(3) o5(3-6) k4 A_def by (simp_all add: same_keys_def)
  ultimately show ?thesis using o6(2) by (simp add: contents_def)
qed

text \<open>Keys that have no cycle in any table of the given sizes, whatever its seeds.\<close>

definition settled :: "'k template \<Rightarrow> nat \<Rightarrow> nat \<Rightarrow> 'k set \<Rightarrow> bool" where
  "settled t a b K \<longleftrightarrow> (\<forall>ot. sizes t ot \<longrightarrow> ma ot = a \<longrightarrow> mb ot = b \<longrightarrow> no_cycle t ot K)"

lemma settled_mono: "settled t a b K' \<Longrightarrow> K \<subseteq> K' \<Longrightarrow> settled t a b K"
  by (auto simp: settled_def intro: no_cycle_mono)

lemma insert_kv_ok:
  assumes inv: "othello_inv t ot" and n: "Suc (keyCnt ot) < length (keys ot)" "keyCnt ot < mb ot" and k: "contents ot k = None" and L: "tL t < 32"
  shows "case insert_kv t False (k, v) ot of
      Inr (_, ot') \<Rightarrow> othello_inv t ot' \<and> contents ot' = (contents ot)(k \<mapsto> v) \<and> keyCnt ot' = Suc (keyCnt ot) \<and>
        length (keys ot') = length (keys ot) \<and> mb ot' = mb ot \<and> ma ot' = ma ot
    | Inl e \<Rightarrow> e = Thrown ''exception'' \<and> \<not> settled t (ma ot) (mb ot) (insert k (dom (contents ot)))"
proof -
  have n1: "keyCnt ot < length (keys ot)" using n(1) by simp
  have kd: "k \<notin> dom (contents ot)" using k by auto
  note I = invD[OF inv] and Gf = grow_facts[OF invD(3)[OF inv] n1, of k v]
  obtain a b where ab: "getIndices t ot k = (a, b)" by force
  note r = getIndices_range[OF I(3) ab]
  obtain R d where "joined ot (edges t ot) R d" using inv by (auto simp: othello_inv_def)
  then have j: "joined (grow (k, v) ot) (edges t ot) R d" using Gf(5) by simp
  have ab2: "a < nodes (grow (k, v) ot)" "b < nodes (grow (k, v) ot)" using r Gf(8) by simp_all
  obtain cf where C: "isConnectedDFS t a b (grow (k, v) ot) = Inr (conn (edges t ot) a b, (grow (k, v) ot)\<lparr>connectivityForest := cf\<rparr>)"
    "joined ((grow (k, v) ot)\<lparr>connectivityForest := cf\<rparr>) (edges t ot) R d"
    using isConnected_ok[OF I(2) j ab2] by metis
  let ?o = "(grow (k, v) ot)\<lparr>connectivityForest := cf\<rparr>"
  have w: "w32 (keyCnt ot + 1) = Suc (keyCnt ot)" using n1 I(10) by simp
  have g: "ot\<lparr>keyCnt := Suc (keyCnt ot), keys := (keys ot)[keyCnt ot := k], vals := (vals ot)[keyCnt ot := v]\<rparr> = grow (k, v) ot"
    by (simp add: grow_def)
  have small: "\<not> (length (keys ot) \<le> Suc (keyCnt ot) \<or> mb ot \<le> keyCnt ot)" using n by simp
  have run: "insert_kv t False (k, v) ot = (if conn (edges t ot) a b then rbind (build t ?o) (\<lambda>o4. Inr (scast (push_bit (VDL t) 1 :: u32), o4))
     else rbind (addEdge (keyCnt ot) a b ?o) (\<lambda>o4. fixHalfTreeDFS t (tMaintainDP t) True False (w32 (keyCnt o4 + (2 ^ 32 - 1))) a b o4))"
    unfolding insert_kv_def prod.case Let_def w if_not_P[OF small] using n1 I(9) kd C(1) ab Gf(9) w L
    by (simp add: plainD(7)[OF I(2)] isMember_ok[OF inv] g Let_def)
  show ?thesis
  proof (cases "acyclic_with t ot k")
    case True
    obtain o4 x ot' new where L: "addEdge (keyCnt ot) a b ?o = Inr o4" "keyCnt o4 = Suc (keyCnt ot)"
      "fixHalfTreeDFS t True True False (keyCnt ot) a b o4 = Inr (x, ot')"
      "othello_inv t ot'" "contents ot' = (contents ot)(k \<mapsto> v)" "noted t ot ot' new"
      "keyCnt ot' = Suc (keyCnt ot)" "length (keys ot') = length (keys ot)"
      using link_new_edge[OF inv n1 ab True refl C(2), where fl = "[]"] by metis
    have w2: "w32 (keyCnt o4 + (2 ^ 32 - 1)) = keyCnt ot" using n1 I(10) L(2) pred_w32[of "keyCnt ot"] by simp
    have "insert_kv t False (k, v) ot = Inr (x, ot')"
      unfolding run using True ab L(1,3) w2 by (simp add: acyclic_with_def plainD(4)[OF I(2)])
    moreover have "mb ot' = mb ot" "ma ot' = ma ot" using L(6) by (simp_all add: noted_def same_plane_def)
    ultimately show ?thesis using L(4,5,7,8) by simp
  next
    case False
    then have c: "conn (edges t ot) a b" using ab by (simp add: acyclic_with_def)
    have "length cf = nodes ot" using joinedD(1)[OF C(2)] Gf(8) by (simp add: nodes_def)
    note S = refused_state[OF inv n1 kd False this, of v]
    have "\<not> no_cycle t ot (insert k (dom (contents ot)))" using False acyclic_with_iff[OF inv kd n1] by simp
    then have ns: "\<not> settled t (ma ot) (mb ot) (insert k (dom (contents ot)))" using I(3) unfolding settled_def by blast
    show ?thesis
    proof (cases "build t ?o")
      case (Inl e)
      then show ?thesis using build_ok[OF I(2) S(1)] ns by (simp add: run c)
    next
      case (Inr o4)
      then have B: "othello_inv t o4" "same_keys ?o o4" using build_ok[OF I(2) S(1)] by simp_all
      then have "contents o4 = (contents ot)(k \<mapsto> v)" using same_keys_contents[OF B(2)] S(3) by simp
      moreover have "keyCnt o4 = Suc (keyCnt ot)" "length (keys o4) = length (keys ot)" "mb o4 = mb ot" "ma o4 = ma ot"
        using B(2) by (simp_all add: same_keys_def grow_def)
      ultimately show ?thesis using Inr B(1) by (simp add: run c)
    qed
  qed
qed

end
