(* ===== verification/Tracker_Construct.thy ===== *)
theory Tracker_Construct
  imports Tracker_Insert Othello_Construct
begin

text \<open>
  Filling a tracker: inserting the positive keys into the filter and the negative keys into the rows,
  a new Othello table over the positive keys and the false positives, and with them \<open>init\<close> and
  \<open>rebuild\<close> of \<open>src/platform/DASS_Tracker.h\<close>.
\<close>


lemma insert_all_ok:
  assumes "othello_inv t ot" "distinct ks" "set ks \<inter> dom (contents ot) = {}"
    "keyCnt ot + length ks < length (keys ot)" "keyCnt ot + length ks \<le> mb ot" "tL t < 32"
  shows "case insert_all t v ks ot of
      Inr ot' \<Rightarrow> othello_inv t ot' \<and> contents ot' = (\<lambda>x. if x \<in> set ks then Some v else contents ot x) \<and>
        keyCnt ot' = keyCnt ot + length ks \<and> length (keys ot') = length (keys ot) \<and> mb ot' = mb ot \<and> ma ot' = ma ot
    | Inl e \<Rightarrow> e = Thrown ''exception'' \<and> \<not> settled t (ma ot) (mb ot) (set ks \<union> dom (contents ot))"
  using assms
proof (induction ks arbitrary: ot)
  case Nil
  then show ?case by (simp add: insert_all_def)
next
  case (Cons k ks)
  have k: "contents ot k = None" "k \<notin> set ks" "distinct ks" using Cons.prems(2,3) by (auto simp: dom_def)
  have n: "Suc (keyCnt ot) < length (keys ot)" "keyCnt ot < mb ot" using Cons.prems(4,5) by simp_all
  have step: "insert_all t v (k # ks) ot = rbind (insert_kv t False (k, v) ot) (\<lambda>(_, o1). insert_all t v ks o1)"
    by (cases "insert_kv t False (k, v) ot") (auto simp: insert_all_def)
  note ok = insert_kv_ok[OF Cons.prems(1) n k(1) Cons.prems(6), of v]
  show ?case
  proof (cases "insert_kv t False (k, v) ot")
    case (Inl e)
    with ok settled_mono[of t "ma ot" "mb ot" "set (k # ks) \<union> dom (contents ot)" "insert k (dom (contents ot))"] show ?thesis unfolding step by auto
  next
    case (Inr r)
    then obtain x o1 where r: "insert_kv t False (k, v) ot = Inr (x, o1)" by (cases r) simp
    with ok have o1: "othello_inv t o1" "contents o1 = (contents ot)(k \<mapsto> v)" "keyCnt o1 = Suc (keyCnt ot)"
      "length (keys o1) = length (keys ot)" "mb o1 = mb ot" "ma o1 = ma ot" by simp_all
    have e: "insert_all t v (k # ks) ot = insert_all t v ks o1" unfolding step r by simp
    have "set ks \<inter> dom (contents o1) = {}" using Cons.prems(3) k(2) by (auto simp: o1(2))
    have dk: "contents o1 = (contents ot)(k \<mapsto> v)" "set ks \<union> dom (contents o1) = set (k # ks) \<union> dom (contents ot)" by (auto simp: o1(2) split: if_splits)
    have "case insert_all t v ks o1 of
      Inr ot' \<Rightarrow> othello_inv t ot' \<and> contents ot' = (\<lambda>x. if x \<in> set ks then Some v else contents o1 x) \<and>
        keyCnt ot' = keyCnt o1 + length ks \<and> length (keys ot') = length (keys o1) \<and> mb ot' = mb o1 \<and> ma ot' = ma o1
      | Inl e \<Rightarrow> e = Thrown ''exception'' \<and> \<not> settled t (ma o1) (mb o1) (set ks \<union> dom (contents o1))"
      by (intro Cons.IH o1(1) k(3) \<open>set ks \<inter> dom (contents o1) = {}\<close>) (use Cons.prems(4-6) o1(3-5) in simp_all)
    then show ?thesis unfolding e using o1(3-6) dk by (auto simp: fun_eq_iff split: sum.splits)
  qed
qed

text \<open>The positive keys.\<close>

lemma insert_positive_loop:
  assumes "vf_wf (vf s)" "cells (vf s) = image_mset (vf_tag (vf s)) (mset (PK s))" "distinct (PK s @ ks)"
  shows "\<exists>ok s'. insert_positive ks s = Inr (ok, s') \<and> (ok \<longrightarrow> (\<exists>f. s' = s\<lparr>vf := f, PK := PK s @ ks\<rparr> \<and> vf_wf f \<and> follows (vf s) f \<and>
     cells f = image_mset (vf_tag f) (mset (PK s @ ks)) \<and> filled_cell f = filled_cell (vf s) + int (length ks)))"
  using assms
proof (induction ks arbitrary: s)
  case Nil
  have "s = s\<lparr>vf := vf s, PK := PK s @ []\<rparr>" by simp
  with Nil(1,2) show ?case by (intro exI[of _ True] exI[of _ s] exI[of _ "vf s"] conjI impI) simp_all
next
  case (Cons k ks)
  obtain r f where ins: "vf_insert k (vf s) = Inr (r, f)" "inserted (vf s) (vf_tag (vf s) k) (r, f)"
    using vf_insert_ok[OF Cons.prems(1), of k] by auto
  show ?case
  proof (cases "r = 1")
    case True
    then show ?thesis using ins(1) by (intro exI[of _ False] exI[of _ "s\<lparr>vf := f\<rparr>"]) (simp add: Let_def)
  next
    case False
    then have i: "vf_wf f" "follows (vf s) f" "cells f = cells (vf s) + {# vf_tag (vf s) k #}" "filled_cell f = filled_cell (vf s) + 1"
      using ins(2) by (simp_all add: inserted_def)
    note tag = follows_vf_tag[OF i(2)]
    let ?s = "s\<lparr>vf := f, PK := PK s @ [k]\<rparr>"
    have fresh: "k \<notin> set (PK s)" using Cons.prems(3) by simp
    have run: "insert_positive (k # ks) s = insert_positive ks ?s"
      using ins(1) False fresh by (simp add: Let_def set_insert_def)
    have "vf_wf (vf ?s)" "cells (vf ?s) = image_mset (vf_tag (vf ?s)) (mset (PK ?s))" "distinct (PK ?s @ ks)"
      using i(1,3) Cons.prems(2,3) by (simp_all add: tag)
    from Cons.IH[OF this] obtain ok s' where R: "insert_positive ks ?s = Inr (ok, s')"
      "ok \<longrightarrow> (\<exists>g. s' = ?s\<lparr>vf := g, PK := PK ?s @ ks\<rparr> \<and> vf_wf g \<and> follows (vf ?s) g \<and>
        cells g = image_mset (vf_tag g) (mset (PK ?s @ ks)) \<and> filled_cell g = filled_cell (vf ?s) + int (length ks))" by (elim exE conjE) (rule that)
    have "\<exists>g. s' = s\<lparr>vf := g, PK := PK s @ k # ks\<rparr> \<and> vf_wf g \<and> follows (vf s) g \<and>
        cells g = image_mset (vf_tag g) (mset (PK s @ k # ks)) \<and> filled_cell g = filled_cell (vf s) + int (length (k # ks))" if O: ok
    proof -
      obtain g where g: "s' = ?s\<lparr>vf := g, PK := PK ?s @ ks\<rparr>" "vf_wf g" "follows (vf ?s) g"
        "cells g = image_mset (vf_tag g) (mset (PK ?s @ ks))" "filled_cell g = filled_cell (vf ?s) + int (length ks)" using R(2) O by blast
      have "follows (vf s) g" using follows_trans[OF i(2), of g] g(3) by simp
      with g i(4) show ?thesis by (intro exI[of _ g]) simp
    qed
    with R(1) show ?thesis unfolding run by blast
  qed
qed

text \<open>The negative keys.\<close>

definition record_negative :: "u64 \<Rightarrow> u64 list \<times> tracker \<Rightarrow> (u64 list \<times> tracker) res" where
  "record_negative k = (\<lambda>(FPK, s).
       rbind (vf_lookup (vf s) k) (\<lambda>hit.
       rbind (position_pair (vf s) k) (\<lambda>(pos1, pos2).
       rbind (if hit then rbind (push_FPK pos1 k s) (push_FPK pos2 k)
              else rbind (push_TNK pos1 k s) (push_TNK pos2 k)) (\<lambda>s1.
       Inr (if hit then FPK @ [k] else FPK, s1\<lparr>NK := set_insert k (NK s1)\<rparr>)))))"

lemma insert_negative_rfold: "insert_negative ks s = rfold record_negative ks ([], s)"
  by (simp add: insert_negative_def record_negative_def[abs_def])

lemma record_negative_ok:
  assumes wf: "vf_wf (vf s)" and k: "k \<notin> set (NK s)"
    and rows: "rows_ok (vf s) (FPK_table s) {x \<in> set (NK s). hit (vf s) x}" "rows_ok (vf s) (TNK_table s) {x \<in> set (NK s). \<not> hit (vf s) x}"
  shows "\<exists>F N. record_negative k (acc, s) = Inr (acc @ filter (hit (vf s)) [k], s\<lparr>FPK_table := F, TNK_table := N, NK := NK s @ [k]\<rparr>) \<and>
     rows_ok (vf s) F {x \<in> set (NK s @ [k]). hit (vf s) x} \<and> rows_ok (vf s) N {x \<in> set (NK s @ [k]). \<not> hit (vf s) x}"
proof -
  obtain p q where pq: "position_pair (vf s) k = Inr (int p, int q)" "buckets (vf s) k = {int p, int q}" "p \<noteq> q" "p < nat (vn (vf s))" "q < nat (vn (vf s))"
    by (rule position_rows[OF wf])
  have len: "p < length (FPK_table s)" "q < length (FPK_table s)" "p < length (TNK_table s)" "q < length (TNK_table s)"
    using pq(4,5) rows_length[OF rows(1)] rows_length[OF rows(2)] by simp_all
  note unf = record_negative_def prod.case vf_lookup_ok[OF wf] pq(1) rbind_simps
  show ?thesis
  proof (cases "hit (vf s) k")
    case True
    let ?F = "(FPK_table s)[p := FPK_table s ! p @ [k], q := FPK_table s ! q @ [k]]"
    have "rbind (push_FPK (int p) k s) (push_FPK (int q) k) = Inr (s\<lparr>FPK_table := ?F\<rparr>)"
      using push_pair[OF len(1,2) pq(3), of k Inr] by simp
    then have "record_negative k (acc, s) = Inr (acc @ filter (hit (vf s)) [k], s\<lparr>FPK_table := ?F, TNK_table := TNK_table s, NK := NK s @ [k]\<rparr>)"
      unfolding unf if_P[OF True] using True k by (simp add: set_insert_def)
    moreover have "{x \<in> set (NK s @ [k]). hit (vf s) x} = insert k {x \<in> set (NK s). hit (vf s) x}"
      "{x \<in> set (NK s @ [k]). \<not> hit (vf s) x} = {x \<in> set (NK s). \<not> hit (vf s) x}" using True by auto
    moreover have "rows_ok (vf s) ?F (insert k {x \<in> set (NK s). hit (vf s) x})" by (rule rows_push[OF rows(1) _ pq(2,3)]) (use k in simp)
    ultimately show ?thesis using rows(2) by (intro exI[of _ ?F] exI[of _ "TNK_table s"]) simp
  next
    case False
    let ?N = "(TNK_table s)[p := TNK_table s ! p @ [k], q := TNK_table s ! q @ [k]]"
    have "rbind (push_TNK (int p) k s) (push_TNK (int q) k) = Inr (s\<lparr>TNK_table := ?N\<rparr>)"
      using push_pair_TNK[OF len(3,4) pq(3), of k Inr] by simp
    then have "record_negative k (acc, s) = Inr (acc @ filter (hit (vf s)) [k], s\<lparr>FPK_table := FPK_table s, TNK_table := ?N, NK := NK s @ [k]\<rparr>)"
      unfolding unf if_not_P[OF False] using False k by (simp add: set_insert_def)
    moreover have "{x \<in> set (NK s @ [k]). \<not> hit (vf s) x} = insert k {x \<in> set (NK s). \<not> hit (vf s) x}"
      "{x \<in> set (NK s @ [k]). hit (vf s) x} = {x \<in> set (NK s). hit (vf s) x}" using False by auto
    moreover have "rows_ok (vf s) ?N (insert k {x \<in> set (NK s). \<not> hit (vf s) x})" by (rule rows_push[OF rows(2) _ pq(2,3)]) (use k in simp)
    ultimately show ?thesis using rows(1) by (intro exI[of _ "FPK_table s"] exI[of _ ?N]) simp
  qed
qed

lemma insert_negative_loop:
  assumes "vf_wf (vf s)" "distinct (NK s @ ks)"
    "rows_ok (vf s) (FPK_table s) {x \<in> set (NK s). hit (vf s) x}" "rows_ok (vf s) (TNK_table s) {x \<in> set (NK s). \<not> hit (vf s) x}"
  shows "\<exists>F N. rfold record_negative ks (acc, s) = Inr (acc @ filter (hit (vf s)) ks, s\<lparr>FPK_table := F, TNK_table := N, NK := NK s @ ks\<rparr>) \<and>
     rows_ok (vf s) F {x \<in> set (NK s @ ks). hit (vf s) x} \<and> rows_ok (vf s) N {x \<in> set (NK s @ ks). \<not> hit (vf s) x}"
  using assms
proof (induction ks arbitrary: s acc)
  case Nil
  then show ?case by (intro exI[of _ "FPK_table s"] exI[of _ "TNK_table s"]) simp
next
  case (Cons k ks)
  have "k \<notin> set (NK s)" using Cons.prems(2) by simp
  from record_negative_ok[OF Cons.prems(1) this Cons.prems(3,4), of acc] obtain F N where
    R: "record_negative k (acc, s) = Inr (acc @ filter (hit (vf s)) [k], s\<lparr>FPK_table := F, TNK_table := N, NK := NK s @ [k]\<rparr>)"
    "rows_ok (vf s) F {x \<in> set (NK s @ [k]). hit (vf s) x}" "rows_ok (vf s) N {x \<in> set (NK s @ [k]). \<not> hit (vf s) x}" by (elim exE conjE) (rule that)
  define s1 where "s1 = s\<lparr>FPK_table := F, TNK_table := N, NK := NK s @ [k]\<rparr>"
  have e: "vf s1 = vf s" "NK s1 = NK s @ [k]" "FPK_table s1 = F" "TNK_table s1 = N" by (simp_all add: s1_def)
  have "vf_wf (vf s1)" "distinct (NK s1 @ ks)"
    "rows_ok (vf s1) (FPK_table s1) {x \<in> set (NK s1). hit (vf s1) x}" "rows_ok (vf s1) (TNK_table s1) {x \<in> set (NK s1). \<not> hit (vf s1) x}"
    using Cons.prems(1,2) R(2,3) unfolding e by simp_all
  from Cons.IH[OF this, of "acc @ filter (hit (vf s)) [k]"] obtain F' N' where
    S: "rfold record_negative ks (acc @ filter (hit (vf s)) [k], s1) = Inr ((acc @ filter (hit (vf s)) [k]) @ filter (hit (vf s1)) ks, s1\<lparr>FPK_table := F', TNK_table := N', NK := NK s1 @ ks\<rparr>)"
    "rows_ok (vf s1) F' {x \<in> set (NK s1 @ ks). hit (vf s1) x}" "rows_ok (vf s1) N' {x \<in> set (NK s1 @ ks). \<not> hit (vf s1) x}" by (elim exE conjE) (rule that)
  have l: "(NK s @ [k]) @ ks = NK s @ k # ks" "filter (hit (vf s)) [k] @ filter (hit (vf s)) ks = filter (hit (vf s)) (k # ks)" by simp_all
  have "rfold record_negative (k # ks) (acc, s) = Inr (acc @ filter (hit (vf s)) (k # ks), s1\<lparr>FPK_table := F', TNK_table := N', NK := NK s @ k # ks\<rparr>)"
    using R(1)[folded s1_def] S(1) unfolding rfold.simps e append_assoc l append_Cons append_Nil by (simp only: rbind_simps)
  moreover have "s1\<lparr>FPK_table := F', TNK_table := N', NK := NK s @ k # ks\<rparr> = s\<lparr>FPK_table := F', TNK_table := N', NK := NK s @ k # ks\<rparr>"
    by (simp add: s1_def)
  ultimately show ?case using S(2,3) unfolding e l by (intro exI[of _ F'] exI[of _ N']) (simp only:)
qed

text \<open>Filling an empty tracker.\<close>

definition fresh_tracker :: "tracker \<Rightarrow> bool" where
  "fresh_tracker s \<longleftrightarrow> PK s = [] \<and> NK s = [] \<and> vf_wf (vf s) \<and> cells (vf s) = {#} \<and> filled_cell (vf s) = 0 \<and>
     FPK_table s = replicate (nat (vn (vf s))) [] \<and> TNK_table s = replicate (nat (vn (vf s))) [] \<and> o_ratio s = (1, 0)"

lemma rows_empty: "rows_ok f (replicate (nat (vn f)) []) {}"
  by (simp add: rows_ok_def)

definition classified :: "u64 template \<Rightarrow> u64 list \<Rightarrow> u64 list \<Rightarrow> vfilter \<Rightarrow> tracker \<Rightarrow> bool" where
  "classified t pos neg f s \<longleftrightarrow> tracker_inv t s \<and> PK s = pos \<and> NK s = neg \<and> vf s = f \<and>
     (let c = Suc (card (stored_keys f pos neg)) in c \<le> length (keys (othello s)) \<and> mb (othello s) = c \<and> ma (othello s) = mul_1_33334 c)"

text \<open>Whatever the filter tells apart, the keys to store settle in the table made for their number.\<close>

definition settles :: "u64 template \<Rightarrow> u64 list \<Rightarrow> u64 list \<Rightarrow> bool" where
  "settles t pos neg \<longleftrightarrow> (\<forall>f. let K = stored_keys f pos neg; c = Suc (card K) in settled t (mul_1_33334 c) c K)"

lemma settles_cong: "set pos = set pos' \<Longrightarrow> set neg = set neg' \<Longrightarrow> settles t pos neg = settles t pos' neg'"
  by (simp add: settles_def stored_keys_def)

lemma batch_insert_ok:
  fixes e :: env
  assumes t: "plain (tmpl e)" "tL (tmpl e) = 1" and s: "fresh_tracker s"
    and n: "n_positive_keys s = length pos" "n_negative_keys s = length neg" "length pos + length neg < 2 ^ 24"
    and d: "distinct pos" "distinct neg" "set pos \<inter> set neg = {}" and fit: "insert_positive pos s = Inr (True, s1)"
  shows "case batch_insert e pos neg s of
      Inr (ok, s') \<Rightarrow> ok \<and> classified (tmpl e) pos neg (vf s1) s'
    | Inl err \<Rightarrow> err = Thrown ''exception'' \<and> \<not> settles (tmpl e) pos neg"
    and "vf_wf (vf s1) \<and> follows (vf s) (vf s1) \<and> filled_cell (vf s1) = int (length pos)"
proof -
  let ?t = "tmpl e"
  have S: "PK s = []" "NK s = []" "vf_wf (vf s)" "cells (vf s) = {#}" "filled_cell (vf s) = 0"
    "FPK_table s = replicate (nat (vn (vf s))) []" "TNK_table s = replicate (nat (vn (vf s))) []" "o_ratio s = (1, 0)"
    using s by (simp_all add: fresh_tracker_def)
  have c: "cells (vf s) = image_mset (vf_tag (vf s)) (mset (PK s))" "distinct (PK s @ pos)" using S(1,4) d(1) by simp_all
  obtain f where f: "s1 = s\<lparr>vf := f, PK := PK s @ pos\<rparr>" "vf_wf f" "follows (vf s) f"
    "cells f = image_mset (vf_tag f) (mset (PK s @ pos))" "filled_cell f = filled_cell (vf s) + int (length pos)"
    using insert_positive_loop[OF S(3) c] fit by auto
  have e1: "vf s1 = f" "PK s1 = pos" "NK s1 = []" "FPK_table s1 = FPK_table s" "TNK_table s1 = TNK_table s" "n_positive_keys s1 = length pos"
    "o_ratio s1 = (1, 0)" "othello s1 = othello s" using S n(1) by (simp_all add: f(1))
  show "vf_wf (vf s1) \<and> follows (vf s) (vf s1) \<and> filled_cell (vf s1) = int (length pos)" using f(2,3,5) S(5) by (simp add: e1)
  have cf: "cells f = image_mset (vf_tag f) (mset pos)" using f(4) S(1) by simp
  have vn: "vn f = vn (vf s)" using f(3) by (auto simp: follows_def)
  have "vf_wf (vf s1)" "distinct (NK s1 @ neg)" "rows_ok (vf s1) (FPK_table s1) {x \<in> set (NK s1). hit (vf s1) x}"
    "rows_ok (vf s1) (TNK_table s1) {x \<in> set (NK s1). \<not> hit (vf s1) x}"
    using f(2) d(2) rows_empty[of f] by (simp_all add: e1 S(6,7) vn)
  from insert_negative_loop[OF this, of "[]"] obtain F N where N: "insert_negative neg s1 = Inr (filter (hit f) neg, s1\<lparr>FPK_table := F, TNK_table := N, NK := neg\<rparr>)"
    "rows_ok f F {x \<in> set neg. hit f x}" "rows_ok f N {x \<in> set neg. \<not> hit f x}"
    unfolding insert_negative_rfold e1 by auto
  define s2 where "s2 = s1\<lparr>FPK_table := F, TNK_table := N, NK := neg\<rparr>"
  have e2: "vf s2 = f" "PK s2 = pos" "NK s2 = neg" "FPK_table s2 = F" "TNK_table s2 = N" "n_positive_keys s2 = length pos" "o_ratio s2 = (1, 0)"
    by (simp_all add: s2_def e1)
  let ?FP = "filter (hit f) neg" and ?cap = "length pos + length (filter (hit f) neg)"
  have cap: "?cap < 2 ^ 24" using n(3) length_filter_le[of "hit f" neg] by linarith
  have m: "Suc ?cap = w32 (w32 (mul_float32 (w32 ?cap) (1, 0)) + 1)" using cap by (simp add: mul_float32_one[unfolded One_nat_def] w32_def)
  have "3 * Suc ?cap * tL ?t < 2 ^ 31" using cap t(2) by simp
  from othello_new_ok[OF t(1) m zero_less_Suc this, of "rand_pos (othello s2)"] obtain o1 where
    o1: "othello_new ?t (w32 ?cap) (1, 0) (rand_pos (othello s2)) = Inr o1" "othello_inv ?t o1" "contents o1 = Map.empty" "keyCnt o1 = 0"
      "mb o1 = Suc ?cap" "length (keys o1) = max 256 (2 * Suc ?cap)" "ma o1 = mul_1_33334 (Suc ?cap)" by blast
  have K: "stored_keys f pos neg = set (pos @ ?FP)" by (auto simp: stored_keys_def cf)
  have "distinct (pos @ ?FP)" using d by auto
  then have cK: "card (stored_keys f pos neg) = ?cap" unfolding K using distinct_card by fastforce
  then have settled: "settled ?t (ma o1) (mb o1) J" if "settles ?t pos neg" "J \<subseteq> set (pos @ ?FP)" for J
    using that settled_mono[OF _ that(2)] unfolding settles_def Let_def o1 K[symmetric] by metis
  have run: "batch_insert e pos neg s = rbind (insert_all ?t 1 pos o1) (\<lambda>o2. rbind (insert_all ?t 0 ?FP o2) (\<lambda>o3. Inr (True, s2\<lparr>othello := o3\<rparr>)))"
  proof -
    have "batch_insert e pos neg s = batch_insert_retry (Suc 19) e pos neg s" by (simp add: batch_insert_def)
    also have "\<dots> = rbind (insert_all ?t 1 pos o1) (\<lambda>o2. rbind (insert_all ?t 0 ?FP o2) (\<lambda>o3. Inr (True, s2\<lparr>othello := o3\<rparr>)))"
      unfolding batch_insert_retry.simps(2) fit N(1) s2_def[symmetric] rbind_simps prod.case e2 o1(1) using n(1,2) by simp
    finally show ?thesis .
  qed
  have a1: "set pos \<inter> dom (contents o1) = {}" "keyCnt o1 + length pos < length (keys o1)" "keyCnt o1 + length pos \<le> mb o1"
    by (simp_all add: o1(3-6))
  have L: "tL ?t < 32" using t(2) by simp
  note A = insert_all_ok[OF o1(2) d(1) a1 L, of 1]
  show "case batch_insert e pos neg s of Inr (ok, s') \<Rightarrow> ok \<and> classified ?t pos neg (vf s1) s' | Inl err \<Rightarrow> err = Thrown ''exception'' \<and> \<not> settles ?t pos neg"
  proof (cases "insert_all ?t 1 pos o1")
    case (Inl err)
    with A settled[of "set pos"] show ?thesis by (auto simp: run o1(3))
  next
    case (Inr o2)
    with A have o2: "othello_inv ?t o2" "contents o2 = (\<lambda>x. if x \<in> set pos then Some 1 else None)" "keyCnt o2 = length pos"
      "length (keys o2) = length (keys o1)" "mb o2 = mb o1" "ma o2 = ma o1" by (simp_all add: o1(3,4) cong: if_cong)
    have J: "set ?FP \<union> dom (contents o2) \<subseteq> set (pos @ ?FP)" by (auto simp: o2(2) split: if_splits)
    have dF: "distinct ?FP" using d(2) by simp
    have a2: "set ?FP \<inter> dom (contents o2) = {}" using d(3) by (auto simp: o2(2) split: if_splits)
    have a3: "keyCnt o2 + length ?FP < length (keys o2)" "keyCnt o2 + length ?FP \<le> mb o2" unfolding o2(3-5) o1(5,6) by simp_all
    note B = insert_all_ok[OF o2(1) dF a2 a3 L, of 0]
    show ?thesis
    proof (cases "insert_all ?t 0 ?FP o2")
      case (Inl err)
      with B settled[OF _ J] show ?thesis by (auto simp: run Inr o2(5,6))
    next
      case r3: (Inr o3)
      with B have o3: "othello_inv ?t o3" "contents o3 = (\<lambda>x. if x \<in> set ?FP then Some 0 else contents o2 x)" "length (keys o3) = length (keys o2)"
        "mb o3 = mb o2" "ma o3 = ma o2" by simp_all
      let ?s = "s2\<lparr>othello := o3\<rparr>"
      have e3: "vf ?s = f" "PK ?s = pos" "NK ?s = neg" "FPK_table ?s = F" "TNK_table ?s = N" "othello ?s = o3" by (simp_all add: e2)
      have "contents o3 = (\<lambda>x. if x \<in> set pos then Some 1 else if x \<in> set neg \<and> hit f x then Some 0 else None)"
        unfolding o3(2) o2(2) using d(3) by (auto simp: fun_eq_iff)
      then have "tracker_inv ?t ?s" unfolding tracker_inv_def e3 using f(2) cf d N(2,3) o3(1) by (intro conjI)
      moreover have "Suc ?cap \<le> length (keys o3)" "mb o3 = Suc ?cap" "ma o3 = mul_1_33334 (Suc ?cap)"
        unfolding o3(3-5) o2(4-6) o1(5-7) by simp_all
      ultimately show ?thesis by (simp add: run Inr r3 classified_def e2 e1 cK)
    qed
  qed
qed
end
