(* ===== verification/Codec.thy ===== *)
theory Codec
  imports Prelude
begin

text \<open>
  The byte codecs of \<open>src/utils/helpers.cpp\<close>: big-endian encoding of 32- and 64-bit words and
  of vectors of them, and their decoders at an offset of a received message. The interface
  \<open>codec\<close> states what a protocol relies on (a value is read back from where it was written,
  with a fixed number of bytes) and derives the same for vectors.
\<close>

subsection \<open>Encoders\<close>

definition split_uint32 :: "u32 \<Rightarrow> u8 list \<Rightarrow> u8 list" where
  "split_uint32 x v = fold (\<lambda>i v. v @ [ucast (drop_bit (i * 8) x AND 0xff)]) [3, 2, 1, 0] v"

definition split_uint64 :: "u64 \<Rightarrow> u8 list \<Rightarrow> u8 list" where
  "split_uint64 x v = fold (\<lambda>i v. v @ [ucast (drop_bit (i * 8) x AND 0xff)]) [7, 6, 5, 4, 3, 2, 1, 0] v"

definition split_uint64_vector :: "u64 list \<Rightarrow> u8 list \<Rightarrow> u8 list" where
  "split_uint64_vector x v =
     fold (\<lambda>e v. fold (\<lambda>j v. v @ [ucast (drop_bit (j * 8) e AND 0xff)]) [7, 6, 5, 4, 3, 2, 1, 0] v) x v"

definition split_uint32_vector :: "u32 list \<Rightarrow> u8 list \<Rightarrow> u8 list" where
  "split_uint32_vector x v =
     fold (\<lambda>e v. fold (\<lambda>j v. v @ [ucast (drop_bit (j * 8) e AND 0xff)]) [3, 2, 1, 0] v) x v"

text \<open>A \<open>std::string\<close> is the list of its bytes.\<close>

definition convert_string_to_uint8_vector :: "u8 list \<Rightarrow> u8 list \<Rightarrow> u8 list" where
  "convert_string_to_uint8_vector x v = fold (\<lambda>c v. v @ [c]) x v"

subsection \<open>Decoders\<close>

definition combine_uint32 :: "u8 list \<Rightarrow> u32 res" where
  "combine_uint32 data =
     rbind (vat data 0) (\<lambda>ch1. rbind (vat data 1) (\<lambda>ch2. rbind (vat data 2) (\<lambda>ch3. rbind (vat data 3) (\<lambda>ch4.
     Inr (push_bit 24 (ucast ch1) + push_bit 16 (ucast ch2) + push_bit 8 (ucast ch3) + ucast ch4)))))"

definition combine_uint64 :: "u8 list \<Rightarrow> u64 res" where
  "combine_uint64 data =
     rbind (vat data 0) (\<lambda>ch1. rbind (vat data 1) (\<lambda>ch2. rbind (vat data 2) (\<lambda>ch3. rbind (vat data 3) (\<lambda>ch4.
     rbind (vat data 4) (\<lambda>ch5. rbind (vat data 5) (\<lambda>ch6. rbind (vat data 6) (\<lambda>ch7. rbind (vat data 7) (\<lambda>ch8.
     Inr (push_bit 56 (ucast ch1) + push_bit 48 (ucast ch2) + push_bit 40 (ucast ch3) + push_bit 32 (ucast ch4)
       + push_bit 24 (ucast ch5) + push_bit 16 (ucast ch6) + push_bit 8 (ucast ch7) + ucast ch8)))))))))"

definition combine_uint32_at :: "u8 list \<Rightarrow> nat \<Rightarrow> u32 res" where
  "combine_uint32_at data begin =
     rbind (vat data begin) (\<lambda>ch1. rbind (vat data (w32 (begin + 1))) (\<lambda>ch2.
     rbind (vat data (w32 (begin + 2))) (\<lambda>ch3. rbind (vat data (w32 (begin + 3))) (\<lambda>ch4.
     Inr (push_bit 24 (ucast ch1) + push_bit 16 (ucast ch2) + push_bit 8 (ucast ch3) + ucast ch4)))))"

definition combine_uint64_at :: "u8 list \<Rightarrow> nat \<Rightarrow> u64 res" where
  "combine_uint64_at data begin =
     rbind (vat data begin) (\<lambda>ch1. rbind (vat data (w32 (begin + 1))) (\<lambda>ch2.
     rbind (vat data (w32 (begin + 2))) (\<lambda>ch3. rbind (vat data (w32 (begin + 3))) (\<lambda>ch4.
     rbind (vat data (w32 (begin + 4))) (\<lambda>ch5. rbind (vat data (w32 (begin + 5))) (\<lambda>ch6.
     rbind (vat data (w32 (begin + 6))) (\<lambda>ch7. rbind (vat data (w32 (begin + 7))) (\<lambda>ch8.
     Inr (push_bit 56 (ucast ch1) + push_bit 48 (ucast ch2) + push_bit 40 (ucast ch3) + push_bit 32 (ucast ch4)
       + push_bit 24 (ucast ch5) + push_bit 16 (ucast ch6) + push_bit 8 (ucast ch7) + ucast ch8)))))))))"

text \<open>The loop \<open>for (j < count) { read at offset; offset += size; push_back }\<close>.\<close>

fun read_many :: "(nat \<Rightarrow> 'a res) \<Rightarrow> nat \<Rightarrow> nat \<Rightarrow> nat \<Rightarrow> ('a list \<times> nat) res" where
  "read_many rd n_bytes 0 offset = Inr ([], offset)"
| "read_many rd n_bytes (Suc n) offset =
     rbind (rd offset) (\<lambda>x.
     rbind (read_many rd n_bytes n (w32 (offset + n_bytes))) (\<lambda>(xs, offset').
     Inr (x # xs, offset')))"

subsection \<open>Words and their bytes\<close>

lemma byte_mask: "(255 :: 'a::len word) = mask 8"
  by (simp add: mask_eq_exp_minus_1)

lemma split_uint32_eq:
  "split_uint32 x v = v @ [ucast (drop_bit 24 x), ucast (drop_bit 16 x), ucast (drop_bit 8 x), ucast x]"
  by (simp add: split_uint32_def) (auto intro!: bit_word_eqI simp: bit_simps byte_mask)

lemma split_uint64_eq:
  "split_uint64 x v = v @ [ucast (drop_bit 56 x), ucast (drop_bit 48 x), ucast (drop_bit 40 x), ucast (drop_bit 32 x),
     ucast (drop_bit 24 x), ucast (drop_bit 16 x), ucast (drop_bit 8 x), ucast x]"
  by (simp add: split_uint64_def) (auto intro!: bit_word_eqI simp: bit_simps byte_mask)

lemma split_uint64_vector_eq: "split_uint64_vector xs v = v @ concat (map (\<lambda>x. split_uint64 x []) xs)"
  by (induction xs arbitrary: v) (simp_all add: split_uint64_vector_def split_uint64_def)

lemma split_uint32_vector_eq: "split_uint32_vector xs v = v @ concat (map (\<lambda>x. split_uint32 x []) xs)"
  by (induction xs arbitrary: v) (simp_all add: split_uint32_vector_def split_uint32_def)

lemma convert_string_eq: "convert_string_to_uint8_vector x v = v @ x"
  by (induction x arbitrary: v) (simp_all add: convert_string_to_uint8_vector_def)

lemma length_split [simp]:
  "length (split_uint32 x v) = length v + 4" "length (split_uint64 y v) = length v + 8"
  by (simp_all add: split_uint32_eq split_uint64_eq)

lemma byte_step:
  fixes x :: "'a::len word"
  shows "push_bit (n + 8) (drop_bit (n + 8) x) + push_bit n (take_bit 8 (drop_bit n x)) = push_bit n (drop_bit n x)"
proof -
  have "push_bit n (push_bit 8 (drop_bit 8 (drop_bit n x)) + take_bit 8 (drop_bit n x)) = push_bit n (drop_bit n x)"
    by (simp only: bits_ident)
  then show ?thesis by (simp add: push_bit_add push_bit_push_bit drop_bit_drop_bit add.commute)
qed

lemma byte_cast: "(ucast (ucast y :: u8) :: 'a::len word) = take_bit 8 (ucast (y :: 'a word))" if "8 \<le> LENGTH('a)"
  using that by (intro bit_word_eqI) (auto simp: bit_simps)

lemma combine4: "push_bit 24 (ucast (ucast (drop_bit 24 x) :: u8)) + push_bit 16 (ucast (ucast (drop_bit 16 x) :: u8))
   + push_bit 8 (ucast (ucast (drop_bit 8 x) :: u8)) + ucast (ucast x :: u8) = (x :: u32)"
proof -
  have "push_bit 24 (drop_bit 24 x) = push_bit 24 (take_bit 8 (drop_bit 24 x))"
    by (rule bit_word_eqI) (auto simp: bit_simps)
  then show ?thesis
    using byte_step[of 16 x] byte_step[of 8 x] byte_step[of 0 x] by (simp add: byte_cast)
qed

lemma combine8: "push_bit 56 (ucast (ucast (drop_bit 56 x) :: u8)) + push_bit 48 (ucast (ucast (drop_bit 48 x) :: u8))
   + push_bit 40 (ucast (ucast (drop_bit 40 x) :: u8)) + push_bit 32 (ucast (ucast (drop_bit 32 x) :: u8))
   + push_bit 24 (ucast (ucast (drop_bit 24 x) :: u8)) + push_bit 16 (ucast (ucast (drop_bit 16 x) :: u8))
   + push_bit 8 (ucast (ucast (drop_bit 8 x) :: u8)) + ucast (ucast x :: u8) = (x :: u64)"
proof -
  have "push_bit 56 (drop_bit 56 x) = push_bit 56 (take_bit 8 (drop_bit 56 x))"
    by (rule bit_word_eqI) (auto simp: bit_simps)
  then show ?thesis
    using byte_step[of 48 x] byte_step[of 40 x] byte_step[of 32 x] byte_step[of 24 x]
      byte_step[of 16 x] byte_step[of 8 x] byte_step[of 0 x] by (simp add: byte_cast)
qed

lemma combine_uint32_ok: "combine_uint32 (split_uint32 x []) = Inr x"
  by (simp add: combine_uint32_def split_uint32_eq combine4)

lemma below8: "0 < (8::nat)" "1 < (8::nat)" "2 < (8::nat)" "3 < (8::nat)" "4 < (8::nat)" "5 < (8::nat)" "6 < (8::nat)" "7 < (8::nat)"
  by simp_all

lemma combine_uint64_ok: "combine_uint64 (split_uint64 x []) = Inr x"
  proof -
  have a: "vat (split_uint64 x []) i = Inr (split_uint64 x [] ! i)" if "i < 8" for i using that by simp
  have n: "split_uint64 x [] ! 0 = ucast (drop_bit 56 x)" "split_uint64 x [] ! 1 = ucast (drop_bit 48 x)"
    "split_uint64 x [] ! 2 = ucast (drop_bit 40 x)" "split_uint64 x [] ! 3 = ucast (drop_bit 32 x)"
    "split_uint64 x [] ! 4 = ucast (drop_bit 24 x)" "split_uint64 x [] ! 5 = ucast (drop_bit 16 x)"
    "split_uint64 x [] ! 6 = ucast (drop_bit 8 x)" "split_uint64 x [] ! 7 = ucast x" by (simp_all add: split_uint64_eq)
  show ?thesis unfolding combine_uint64_def 
    by (simp only: below8[THEN a] rbind_simps n combine8)
qed

lemma vat_append: "length u < 2 ^ 32 \<Longrightarrow> n + i < length u \<Longrightarrow> u = v @ w \<Longrightarrow> n = length v \<Longrightarrow> vat u (w32 (n + i)) = Inr (w ! i)"
  by (simp add: nth_append)

subsection \<open>The interface of a codec\<close>

locale codec =
  fixes enc :: "'a \<Rightarrow> u8 list"
    and dec :: "u8 list \<Rightarrow> nat \<Rightarrow> 'a res"
    and width :: nat
  assumes enc_length: "length (enc x) = width"
    and dec_enc: "length (v @ enc x @ w) < 2 ^ 32 \<Longrightarrow> dec (v @ enc x @ w) (length v) = Inr x"
begin

lemma read_many_enc:
  "length (v @ concat (map enc xs) @ w) < 2 ^ 32 \<Longrightarrow>
   read_many (dec (v @ concat (map enc xs) @ w)) width (length xs) (length v) =
     Inr (xs, length v + width * length xs)"
proof (induction xs arbitrary: v)
  case Nil
  then show ?case by simp
next
  case (Cons x xs)
  let ?u = "v @ concat (map enc (x # xs)) @ w"
  have u: "?u = v @ enc x @ (concat (map enc xs) @ w)" "?u = (v @ enc x) @ concat (map enc xs) @ w" by simp_all
  have 1: "dec ?u (length v) = Inr x" using Cons.prems unfolding u(1) by (rule dec_enc)
  have 2: "read_many (dec ?u) width (length xs) (length (v @ enc x)) =
      Inr (xs, length (v @ enc x) + width * length xs)"
    using Cons.prems unfolding u(2) by (rule Cons.IH)
  have "w32 (length v + width) = length (v @ enc x)" using Cons.prems by (simp add: enc_length)
  with 1 2 show ?case by (simp only: list.size read_many.simps rbind_simps prod.case) (simp add: enc_length)
qed

lemma concat_length: "length (concat (map enc xs)) = width * length xs"
  by (induction xs) (simp_all add: enc_length)

end

interpretation be32: codec "\<lambda>x. split_uint32 x []" combine_uint32_at 4
proof
  show "length (split_uint32 x []) = 4" for x by simp
  fix v w :: "u8 list" and x assume l: "length (v @ split_uint32 x [] @ w) < 2 ^ 32"
  let ?u = "v @ split_uint32 x [] @ w"
  have a: "vat ?u (w32 (length v + i)) = Inr ((split_uint32 x [] @ w) ! i)" if "i < 4" for i
    by (rule vat_append[OF l _ refl refl]) (use that in simp)
  have b: "vat ?u (length v) = Inr ((split_uint32 x [] @ w) ! 0)" using a[of 0] l by simp
  show "combine_uint32_at ?u (length v) = Inr x"
    unfolding combine_uint32_at_def using a[of 1] a[of 2] a[of 3] b
    by (simp only: rbind_simps) (simp add: split_uint32_eq combine4)
qed

interpretation be64: codec "\<lambda>x. split_uint64 x []" combine_uint64_at 8
proof
  show "length (split_uint64 x []) = 8" for x by simp
  fix v w :: "u8 list" and x assume l: "length (v @ split_uint64 x [] @ w) < 2 ^ 32"
  let ?u = "v @ split_uint64 x [] @ w"
  have a: "vat ?u (w32 (length v + i)) = Inr ((split_uint64 x [] @ w) ! i)" if "i < 8" for i
    by (rule vat_append[OF l _ refl refl]) (use that in simp)
  have nth8: "(split_uint64 x [] @ w) ! 0 = ucast (drop_bit 56 x)" "(split_uint64 x [] @ w) ! 1 = ucast (drop_bit 48 x)"
    "(split_uint64 x [] @ w) ! 2 = ucast (drop_bit 40 x)" "(split_uint64 x [] @ w) ! 3 = ucast (drop_bit 32 x)"
    "(split_uint64 x [] @ w) ! 4 = ucast (drop_bit 24 x)" "(split_uint64 x [] @ w) ! 5 = ucast (drop_bit 16 x)"
    "(split_uint64 x [] @ w) ! 6 = ucast (drop_bit 8 x)" "(split_uint64 x [] @ w) ! 7 = ucast x"
    by (simp_all add: split_uint64_eq)
  have b: "vat ?u (length v) = Inr ((split_uint64 x [] @ w) ! 0)" using a[of 0] l by simp
  show "combine_uint64_at ?u (length v) = Inr x"
    unfolding combine_uint64_at_def
    by (simp only: below8[THEN a] b rbind_simps nth8 combine8)
qed

lemma split_uint64_vector_length [simp]: "length (split_uint64_vector xs v) = length v + 8 * length xs"
  by (simp add: split_uint64_vector_eq be64.concat_length)

lemma split_uint32_vector_length [simp]: "length (split_uint32_vector xs v) = length v + 4 * length xs"
  by (simp add: split_uint32_vector_eq be32.concat_length)

text \<open>
  A vector of 64-bit words written by \<open>split_uint_t_vector\<close> anywhere in a message of less
  than \<open>2 ^ 32\<close> bytes is read back by the decoding loop of \<open>combine_chars_as_uint64_t\<close> at its
  offset, which ends just behind it; likewise 32-bit words with \<open>combine_chars_as_uint32_t\<close>.
\<close>

theorem vector_roundtrip:
  assumes "data = v @ split_uint64_vector xs [] @ split_uint32_vector ys [] @ w" "length data < 2 ^ 32"
  shows "read_many (combine_uint64_at data) 8 (length xs) (length v) = Inr (xs, length v + 8 * length xs) \<and>
    read_many (combine_uint32_at data) 4 (length ys) (length v + 8 * length xs)
      = Inr (ys, length v + 8 * length xs + 4 * length ys)"
proof
  show "read_many (combine_uint64_at data) 8 (length xs) (length v) = Inr (xs, length v + 8 * length xs)"
    using be64.read_many_enc[of v xs "split_uint32_vector ys [] @ w"] assms by (simp add: split_uint64_vector_eq)
  show "read_many (combine_uint32_at data) 4 (length ys) (length v + 8 * length xs)
      = Inr (ys, length v + 8 * length xs + 4 * length ys)"
    using be32.read_many_enc[of "v @ split_uint64_vector xs []" ys w] assms by (simp add: split_uint32_vector_eq)
qed

lemma vector_roundtrip_witness:
  "read_many (combine_uint64_at ([70] @ split_uint64_vector [5, 2 ^ 63] [] @ split_uint32_vector [9] [] @ [])) 8 2 1
     = Inr ([5, 2 ^ 63], 17)"
proof -
  have "length ([70] @ split_uint64_vector [5, 2 ^ 63] [] @ split_uint32_vector [9] [] @ []) < 2 ^ 32" by simp
  from vector_roundtrip[OF refl this] show ?thesis by (simp add: numeral_2_eq_2)
qed

end
