(* ===== verification/CRIoT.thy ===== *)
theory CRIoT
  imports Verifier Codec
begin

text \<open>
  The two ends of the update protocol (\<open>src/platform/CRIoT.h\<close>): \<open>CRIoT_Control_VO\<close> on the
  server keeps a tracker, the verifier new devices receive, and the positions flipped by the
  last update, and encodes full states and summaries; \<open>CRIoT_Data_VO\<close> on the device decodes
  and applies them. Keys are 64-bit and values 32-bit words, as in \<open>src/server.cpp\<close>.
\<close>

datatype Action = AddAction | RemoveAction | UnrevokeAction | RevokeAction

fun action_code :: "Action \<Rightarrow> u8" where
  "action_code AddAction = 0"
| "action_code RemoveAction = 1"
| "action_code UnrevokeAction = 2"
| "action_code RevokeAction = 3"

record control =
  vo_control :: tracker
  vo_data :: verifier
  flipped_indexes :: "nat list"
  c_loadfactor :: float32
  c_o_ratio :: float32

subsection \<open>Server: updates\<close>

text \<open>
  \<open>init\<close> assigns \<open>loadfactor\<close> to itself: the parameter \<open>load_factor\<close> reaches the tracker only.
\<close>

definition control_init :: "env \<Rightarrow> u64 list \<Rightarrow> u64 list \<Rightarrow> float32 \<Rightarrow> float32 \<Rightarrow> control \<Rightarrow> control res" where
  "control_init e pos neg lf orat c =
     rbind (tracker_init e (w32 (length pos)) (w32 (length neg)) lf orat (vo_control c)) (\<lambda>s1.
     rbind (batch_insert e pos neg s1) (\<lambda>(_, s2).
     rbind (verifier_install s2 (vo_data c)) (\<lambda>d.
     Inr (c\<lparr>c_o_ratio := orat, vo_control := s2, vo_data := d\<rparr>))))"

text \<open>After an update: rebuild and install when the tracker asks for it.\<close>

definition after_update :: "env \<Rightarrow> nat list \<times> tracker \<Rightarrow> control \<Rightarrow> (bool \<times> control) res" where
  "after_update e = (\<lambda>(fl, s) c.
     let c1 = c\<lparr>flipped_indexes := fl, vo_control := s\<rparr>
     in if length fl = 1 \<and> fl ! 0 = REBUILD then
          rbind (tracker_rebuild e (c_loadfactor c) (c_o_ratio c) s) (\<lambda>s1.
          rbind (verifier_install s1 (vo_data c)) (\<lambda>d.
          Inr (False, c1\<lparr>vo_control := s1, vo_data := d\<rparr>)))
        else Inr (True, c1))"

definition control_insert :: "env \<Rightarrow> u64 \<times> u32 \<Rightarrow> control \<Rightarrow> (bool \<times> control) res" where
  "control_insert e kv c = rbind (tracker_insert e kv (vo_control c)) (\<lambda>r. after_update e r c)"

definition control_setValue :: "env \<Rightarrow> u64 \<times> u32 \<Rightarrow> control \<Rightarrow> (bool \<times> control) res" where
  "control_setValue e kv c = rbind (tracker_setValue e kv (vo_control c)) (\<lambda>r. after_update e r c)"

definition control_erase :: "env \<Rightarrow> u64 \<Rightarrow> control \<Rightarrow> control res" where
  "control_erase e key c = rbind (tracker_erase e key (vo_control c)) (\<lambda>s. Inr (c\<lparr>vo_control := s\<rparr>))"

definition control_query :: "env \<Rightarrow> control \<Rightarrow> u64 \<Rightarrow> u32 res" where
  "control_query e c key = tracker_query e (vo_control c) key"

subsection \<open>Server: encoding\<close>

text \<open>The decimal digits an engine is written with.\<close>

fun decimal :: "nat \<Rightarrow> u8 list" where
  "decimal n = (if n < 10 then [word_of_nat (48 + n)] else decimal (n div 10) @ [word_of_nat (48 + n mod 10)])"

declare decimal.simps [simp del]

definition int32 :: "int \<Rightarrow> u32" where
  "int32 x = word_of_int x"

text \<open>The 18 sections of a full update, in order; \<open>T\<close> is read up to \<open>memory_consumption / 4\<close>.\<close>

definition encode_full :: "control \<Rightarrow> u8 list list res" where
  "encode_full c =
     (let o' = v_othello (vo_data c); f = v_vf (vo_data c);
          e = decimal (eng f);
          T_len = nat (to_int (int (memory_consumption f div 4)))
      in rbind (rfold (\<lambda>i v. rbind (vat (T f) i) (\<lambda>x. Inr (split_uint32 x v))) [0..<T_len] []) (\<lambda>vf_T_v.
         Inr [split_uint32 (word_of_nat (length (dmem o'))) [],
              split_uint64_vector (dmem o') [],
              split_uint32 (word_of_nat (dma o')) [],
              split_uint32 (word_of_nat (dmb o')) [],
              split_uint64 (dhab o') [],
              split_uint32 (dhd o') [],
              split_uint64 (word_of_nat (memory_consumption f)) [],
              convert_string_to_uint8_vector e (split_uint32 (word_of_nat (length e)) []),
              split_uint64 (word_of_int (vn f)) [],
              split_uint32 (int32 (vm f)) [],
              split_uint32 (int32 (filled_cell f)) [],
              split_uint32 (int32 (max_kick_steps f)) [],
              split_uint32 (int32 (max_2_power f)) [],
              split_uint32 (int32 (big_seg f)) [],
              [if isSmall f then 1 else 0],
              fold (\<lambda>i v. split_uint32 (int32 (len4 f ! i)) v) [0, 1, 2, 3] [],
              split_uint32 (int32 (fp_len f)) [],
              vf_T_v]))"

definition encode_summary :: "u64 \<times> u32 \<Rightarrow> u8 \<Rightarrow> control \<Rightarrow> u8 list" where
  "encode_summary = (\<lambda>(k, v) action c.
     [action] @ split_uint64 k [] @ split_uint32 v []
       @ [word_of_nat (length (flipped_indexes c))]
       @ split_uint32_vector (map word_of_nat (flipped_indexes c)) [])"

definition encode_batch_summary :: "(u64 \<times> u32) list \<Rightarrow> u8 list \<Rightarrow> control \<Rightarrow> u8 list res" where
  "encode_batch_summary key_value_pairs actions c =
     (if length key_value_pairs \<noteq> length actions
      then Inl (Thrown ''key_value_pairs is not the same size as actions'')
      else rfold (\<lambda>i encoded.
             rbind (vat key_value_pairs i) (\<lambda>kv. rbind (vat actions i) (\<lambda>a.
             Inr (encoded @ encode_summary kv a c))))
           [0..<length actions] [word_of_nat (length actions)])"

subsection \<open>Device: full updates\<close>

text \<open>
  \<open>eState >> e\<close> reads the leading decimal number of a C string. The code copies \<open>ess_length\<close>
  bytes without a terminator; \<open>tail\<close> are the bytes that follow them in memory.
\<close>

definition is_digit :: "u8 \<Rightarrow> bool" where
  "is_digit c \<longleftrightarrow> 48 \<le> c \<and> c \<le> 57"

definition parse_engine :: "u8 list \<Rightarrow> u8 list \<Rightarrow> nat" where
  "parse_engine cs tail =
     fold (\<lambda>c n. 10 * n + (unat c - 48)) (takeWhile is_digit (cs @ tail)) 0"

definition to_sint32 :: "u32 \<Rightarrow> int" where
  "to_sint32 x = sint x"

definition decode_othello :: "u8 list \<Rightarrow> nat \<Rightarrow> (dplane \<times> nat) res" where
  "decode_othello data offset =
     rbind (combine_uint32_at data offset) (\<lambda>mem_size.
     rbind (read_many (combine_uint64_at data) 8 (unat mem_size) (w32 (offset + 4))) (\<lambda>(m, offset).
     rbind (combine_uint32_at data offset) (\<lambda>a. let offset = w32 (offset + 4) in
     rbind (combine_uint32_at data offset) (\<lambda>b. let offset = w32 (offset + 4) in
     rbind (combine_uint64_at data offset) (\<lambda>hab_para. let offset = w32 (offset + 8) in
     rbind (combine_uint32_at data offset) (\<lambda>hd_para. let offset = w32 (offset + 4) in
     Inr (dplane_new m (unat a) (unat b) hab_para hd_para, offset)))))))"

definition decode_filter :: "u8 list \<Rightarrow> u8 list \<Rightarrow> vfilter \<Rightarrow> nat \<Rightarrow> vfilter res" where
  "decode_filter tail data f0 offset =
     rbind (combine_uint64_at data offset) (\<lambda>mc. let offset = w32 (offset + 8) in
     rbind (combine_uint32_at data offset) (\<lambda>ess_length. let offset = w32 (offset + 4) in
     rbind (read_many (vat data) 1 (unat ess_length) offset) (\<lambda>(cs, offset). let e = parse_engine cs tail in
     rbind (combine_uint64_at data offset) (\<lambda>n. let offset = w32 (offset + 8) in
     rbind (combine_uint32_at data offset) (\<lambda>m. let offset = w32 (offset + 4) in
     rbind (combine_uint32_at data offset) (\<lambda>filled. let offset = w32 (offset + 4) in
     rbind (combine_uint32_at data offset) (\<lambda>kicks. let offset = w32 (offset + 4) in
     rbind (combine_uint32_at data offset) (\<lambda>m2p. let offset = w32 (offset + 4) in
     rbind (combine_uint32_at data offset) (\<lambda>bseg. let offset = w32 (offset + 4) in
     rbind (vat data offset) (\<lambda>small. let offset = w32 (offset + 1) in
     rbind (read_many (combine_uint32_at data) 4 4 offset) (\<lambda>(lens, offset).
     rbind (combine_uint32_at data offset) (\<lambda>fpl. let offset = w32 (offset + 4) in
     rbind (read_many (combine_uint32_at data) 4 (nat (to_int (int (unat mc div 4)))) offset) (\<lambda>(T0, offset).
     init_with_params (unat mc) e (sint n) (to_sint32 m) (to_sint32 filled) (to_sint32 kicks) (to_sint32 m2p)
       (to_sint32 bseg) (small \<noteq> 0) (map to_sint32 lens) (to_sint32 fpl) T0 f0)))))))))))))"

definition decode_full :: "u8 list \<Rightarrow> u8 list \<Rightarrow> verifier \<Rightarrow> verifier res" where
  "decode_full tail data d =
     rbind (decode_othello data 1) (\<lambda>(p, offset).
     rbind (decode_filter tail data (v_vf d) offset) (\<lambda>f.
     Inr (d\<lparr>v_othello := p, v_vf := f\<rparr>)))"

subsection \<open>Device: summaries\<close>

text \<open>One entry at \<open>offset\<close>: action, key, value, number of positions, positions.\<close>

definition read_entry :: "u8 list \<Rightarrow> nat \<Rightarrow> ((u8 \<times> u64 \<times> u32 \<times> nat list) \<times> nat) res" where
  "read_entry summary offset =
     rbind (vat summary offset) (\<lambda>action.
     rbind (read_many (vat summary) 1 8 (w32 (offset + 1))) (\<lambda>(k_chars, offset).
     rbind (combine_uint64 k_chars) (\<lambda>k.
     rbind (read_many (vat summary) 1 4 offset) (\<lambda>(v_chars, offset).
     rbind (combine_uint32 v_chars) (\<lambda>v.
     rbind (vat summary offset) (\<lambda>flipped_indexes_size.
     rbind (read_many (\<lambda>offset. rbind (read_many (vat summary) 1 4 offset) (\<lambda>(cs, _). combine_uint32 cs))
              4 (unat flipped_indexes_size) (w32 (offset + 1))) (\<lambda>(fl, offset).
     Inr ((action, k, v, map unat fl), offset))))))))"

definition apply_action :: "u64 template \<Rightarrow> u8 \<times> u64 \<times> u32 \<times> nat list \<Rightarrow> verifier \<Rightarrow> verifier res" where
  "apply_action t = (\<lambda>(action, k, v, fl) d.
     if action = 0 then verifier_insert t (k, v) fl d
     else if action = 1 then Inr d
     else if action = 2 \<or> action = 3 then verifier_setValue t (k, v) fl d
     else Inr d)"

definition decode_sub_summary :: "u64 template \<Rightarrow> u8 list \<Rightarrow> nat \<times> verifier \<Rightarrow> (nat \<times> verifier) res" where
  "decode_sub_summary t summary = (\<lambda>(offset, d).
     rbind (read_entry summary offset) (\<lambda>(en, offset').
     rbind (apply_action t en d) (\<lambda>d'. Inr (offset', d'))))"

definition decode_batch_summary :: "u64 template \<Rightarrow> u8 list \<Rightarrow> verifier \<Rightarrow> verifier res" where
  "decode_batch_summary t summary d =
     rbind (vat summary 0) (\<lambda>num_actions.
     rbind (rfold (\<lambda>_. decode_sub_summary t summary) [0..<unat num_actions] (1, d)) (\<lambda>(_, d').
     Inr d'))"

definition decode_summary :: "u64 template \<Rightarrow> u8 list \<Rightarrow> verifier \<Rightarrow> verifier res" where
  "decode_summary t summary d = rbind (read_entry summary 0) (\<lambda>(en, _). apply_action t en d)"

definition data_query :: "u64 template \<Rightarrow> verifier \<Rightarrow> u64 \<Rightarrow> u32 res" where
  "data_query = verifier_query"

definition data_rebuild :: "verifier \<Rightarrow> verifier \<Rightarrow> verifier res" where
  "data_rebuild d rebuild_patch = verifier_assign d rebuild_patch"

end
