(* ===== verification/Server.thy ===== *)
theory Server
  imports CRIoT "HOL-Library.Char_ord"
begin

text \<open>
  The server (\<open>src/TinyCR/TinyCRServer.h\<close>): certificate operations, the byte streams it sends to
  its devices, and the command interface of the certificate authority. Sockets are
  abstracted to the bytes written: an operation returns the list of (host, bytes) it sends.
  \<open>reach host\<close> says whether a connection to the host succeeds. Timings are left out: \<open>rtt\<close> and
  \<open>stat\<close> stand for the printed durations.
\<close>

record server =
  dassTracker :: control
  connectedDevices :: "string list"
  positive_keys :: "u64 list"
  negative_keys :: "u64 list"
  running :: bool
  updateLock :: bool

type_synonym packet = "string \<times> u8 list"

definition finish_mark :: "u8 list" where
  "finish_mark = [102, 105, 110, 105, 115, 104]"

definition server_init :: "env \<Rightarrow> u64 list \<Rightarrow> u64 list \<Rightarrow> float32 \<Rightarrow> float32 \<Rightarrow> server \<Rightarrow> server res" where
  "server_init e pos neg lf orat s =
     rbind (control_init e pos neg lf orat (dassTracker s)) (\<lambda>c.
     Inr (s\<lparr>positive_keys := pos, negative_keys := neg, dassTracker := c\<rparr>))"

subsection \<open>Sending\<close>

definition full_stream :: "control \<Rightarrow> u8 list res" where
  "full_stream c = rbind (encode_full c) (\<lambda>v. Inr ([70] @ concat v @ finish_mark))"

definition sendFullUpdate :: "string \<Rightarrow> server \<Rightarrow> packet res" where
  "sendFullUpdate host s = rbind (full_stream (dassTracker s)) (\<lambda>m. Inr (host, m))"

text \<open>Full updates stop at the first host that cannot be reached, with status false.\<close>

fun send_to_hosts :: "(string \<Rightarrow> bool) \<Rightarrow> server \<Rightarrow> string list \<Rightarrow> packet list \<Rightarrow> (bool \<times> packet list) res" where
  "send_to_hosts reach s [] sent = Inr (True, sent)"
| "send_to_hosts reach s (host # hosts) sent =
     (if reach host then rbind (sendFullUpdate host s) (\<lambda>p. send_to_hosts reach s hosts (sent @ [p]))
      else Inr (False, sent))"

definition sendFullUpdates :: "(string \<Rightarrow> bool) \<Rightarrow> server \<Rightarrow> (bool \<times> packet list) res" where
  "sendFullUpdates reach s =
     (if connectedDevices s = [] then Inr (True, [])
      else rbind (encode_full (dassTracker s)) (\<lambda>_. send_to_hosts reach s (connectedDevices s) []))"

text \<open>A summary to an unreachable host ends the process.\<close>

definition sendSummaryUpdate :: "(string \<Rightarrow> bool) \<Rightarrow> (u64 \<times> u32) list \<Rightarrow> u8 list \<Rightarrow> server \<Rightarrow> (bool \<times> packet list) res" where
  "sendSummaryUpdate reach kvs actions s =
     (if connectedDevices s = [] then Inr (True, [])
      else rbind (encode_batch_summary kvs actions (dassTracker s)) (\<lambda>v.
           rbind (rfold (\<lambda>host sent. if reach host then Inr (sent @ [(host, v @ finish_mark)]) else Inl Exit)
             (connectedDevices s) []) (\<lambda>sent. Inr (True, sent))))"

subsection \<open>Certificate operations\<close>

definition addCertificate :: "env \<Rightarrow> (string \<Rightarrow> bool) \<Rightarrow> u64 \<times> u32 \<Rightarrow> server \<Rightarrow> ((bool \<times> packet list) \<times> server) res" where
  "addCertificate e reach kv s =
     rbind (control_insert e kv (dassTracker s)) (\<lambda>(status, c).
     let s1 = s\<lparr>dassTracker := c\<rparr>
     in rbind (if status then sendSummaryUpdate reach [kv] [action_code AddAction] s1 else sendFullUpdates reach s1) (\<lambda>r.
        Inr (r, s1)))"

text \<open>\<open>std::vector<uint8_t>(RemoveAction)\<close> is the vector of one zero.\<close>

definition removeCertificate :: "env \<Rightarrow> (string \<Rightarrow> bool) \<Rightarrow> u64 \<Rightarrow> server \<Rightarrow> ((bool \<times> packet list) \<times> server) res" where
  "removeCertificate e reach key s =
     rbind (control_erase e key (dassTracker s)) (\<lambda>c.
     let s1 = s\<lparr>dassTracker := c\<rparr>
     in rbind (sendSummaryUpdate reach [(key, 0)] (replicate (unat (action_code RemoveAction)) 0) s1) (\<lambda>r. Inr (r, s1)))"

definition unrevokeCertificate :: "env \<Rightarrow> (string \<Rightarrow> bool) \<Rightarrow> u64 \<Rightarrow> server \<Rightarrow> ((bool \<times> packet list) \<times> server) res" where
  "unrevokeCertificate e reach key s =
     (let kv = (key, 0)
      in rbind (control_setValue e kv (dassTracker s)) (\<lambda>(status, c).
         let s1 = s\<lparr>dassTracker := c\<rparr>
         in rbind (if status then sendSummaryUpdate reach [kv] [action_code UnrevokeAction] s1
                   else sendFullUpdates reach s1) (\<lambda>r. Inr (r, s1))))"

text \<open>\<open>revokeCertificate\<close> ignores the status of \<open>setValue\<close>.\<close>

definition revokeCertificate :: "env \<Rightarrow> (string \<Rightarrow> bool) \<Rightarrow> u64 \<Rightarrow> server \<Rightarrow> ((bool \<times> packet list) \<times> server) res" where
  "revokeCertificate e reach key s =
     (let kv = (key, 1)
      in rbind (control_setValue e kv (dassTracker s)) (\<lambda>(_, c).
         let s1 = s\<lparr>dassTracker := c\<rparr>
         in rbind (sendSummaryUpdate reach [kv] [action_code RevokeAction] s1) (\<lambda>r. Inr (r, s1))))"

definition server_queryCertificate :: "env \<Rightarrow> server \<Rightarrow> u64 \<Rightarrow> bool res" where
  "server_queryCertificate e s key = rbind (control_query e (dassTracker s) key) (\<lambda>v. Inr (v = 1))"

text \<open>
  A new device: registered under the lock, then sent the full state. \<open>reach\<close> is whether the
  transfer succeeds; a failing one leaves the device registered.
\<close>

definition listenForNewDevices :: "string \<Rightarrow> server \<Rightarrow> (packet list \<times> server) res" where
  "listenForNewDevices device s =
     (if updateLock s then Inl Diverges
      else (let s1 = s\<lparr>connectedDevices := connectedDevices s @ [device]\<rparr>
            in rbind (sendFullUpdate device s1) (\<lambda>p. Inr ([p], s1))))"

subsection \<open>Commands\<close>

text \<open>The regular expressions, as deterministic matchers over the command string.\<close>

definition digit :: "char \<Rightarrow> bool" where
  "digit c \<longleftrightarrow> CHR ''0'' \<le> c \<and> c \<le> CHR ''9''"

definition lower :: "char \<Rightarrow> bool" where
  "lower c \<longleftrightarrow> CHR ''a'' \<le> c \<and> c \<le> CHR ''z''"

definition word_char :: "char \<Rightarrow> bool" where
  "word_char c \<longleftrightarrow> digit c \<or> lower c \<or> (CHR ''A'' \<le> c \<and> c \<le> CHR ''Z'') \<or> c = CHR ''_''"

text \<open>\<open> ([0-9]+)\<close>: a blank and at least one digit; the digits and the rest.\<close>

definition match_number :: "string \<Rightarrow> (string \<times> string) option" where
  "match_number s =
     (case s of [] \<Rightarrow> None
      | c # cs \<Rightarrow>
          if c = CHR '' '' \<and> takeWhile digit cs \<noteq> [] then Some (takeWhile digit cs, dropWhile digit cs) else None)"

lemma match_number_shorter: "match_number s = Some (a, r) \<Longrightarrow> length r < length s"
  by (auto simp: match_number_def split: list.splits if_splits)
    (metis length_dropWhile_le less_Suc_eq_le)

text \<open>\<open>(?: ([0-9]+) ([0-9]+))+\<close>: the groups of the last repetition.\<close>

function match_pairs :: "(string \<times> string) option \<Rightarrow> string \<Rightarrow> (string \<times> string) option" where
  "match_pairs last_pair s =
     (case match_number s of None \<Rightarrow> last_pair
      | Some (a, r1) \<Rightarrow>
          (case match_number r1 of None \<Rightarrow> last_pair
           | Some (b, r2) \<Rightarrow> match_pairs (Some (a, b)) r2))"
  by pat_completeness auto

termination
  by (relation "measure (\<lambda>(_, s). length s)") (auto dest!: match_number_shorter)

declare match_pairs.simps [simp del]

definition three_letters :: "string \<Rightarrow> string option" where
  "three_letters s = (if length s \<ge> 3 \<and> list_all lower (take 3 s) then Some (drop 3 s) else None)"

text \<open>\<open>regex_search\<close>: the first position where the matcher succeeds.\<close>

fun search :: "(string \<Rightarrow> 'a option) \<Rightarrow> string \<Rightarrow> 'a option" where
  "search m [] = m []"
| "search m (c # cs) = (case m (c # cs) of Some x \<Rightarrow> Some x | None \<Rightarrow> search m cs)"

definition add_args :: "string \<Rightarrow> (string \<times> string) option" where
  "add_args = search (\<lambda>s. case three_letters s of None \<Rightarrow> None | Some r \<Rightarrow> match_pairs None r)"

definition key_arg :: "string \<Rightarrow> string option" where
  "key_arg = search (\<lambda>s. case three_letters s of None \<Rightarrow> None | Some r \<Rightarrow> map_option fst (match_number r))"

definition show_arg :: "string \<Rightarrow> string option" where
  "show_arg = search (\<lambda>s. if take 4 s = ''show'' then map_option fst (match_number (drop 4 s)) else None)"

definition command_name :: "string \<Rightarrow> string option" where
  "command_name s = (let w = takeWhile word_char s in if w = [] then None else Some w)"

definition stat_arg :: "string \<Rightarrow> string option" where
  "stat_arg s =
     (let w = takeWhile word_char s; r = dropWhile word_char s
      in case r of [] \<Rightarrow> None
         | c # cs \<Rightarrow> if w \<noteq> [] \<and> c = CHR '' '' \<and> takeWhile word_char cs \<noteq> [] then Some (takeWhile word_char cs) else None)"

text \<open>\<open>std::stoul\<close> on a string of digits: values of more than 64 bits throw.\<close>

definition stoul :: "string \<Rightarrow> nat res" where
  "stoul s =
     (let n = fold (\<lambda>c n. 10 * n + (of_char c - 48)) s 0
      in if n < 2 ^ 64 then Inr n else Inl (Thrown ''out_of_range''))"

definition bad_inputs :: string where
  "bad_inputs = ''Inputs are badly formed''"

definition addCommand :: "env \<Rightarrow> (string \<Rightarrow> bool) \<Rightarrow> string \<Rightarrow> string \<Rightarrow> server \<Rightarrow> (string \<times> packet list \<times> server) res" where
  "addCommand e reach rtt command s =
     (case add_args command of None \<Rightarrow> Inr (bad_inputs, [], s)
      | Some (a, b) \<Rightarrow>
          rbind (stoul a) (\<lambda>k. rbind (stoul b) (\<lambda>v.
          rbind (addCertificate e reach (word_of_nat k, word_of_nat v) s) (\<lambda>((_, ps), s1).
          Inr (''Add Duration: '' @ rtt, ps, s1)))))"

definition removeCommand :: "env \<Rightarrow> (string \<Rightarrow> bool) \<Rightarrow> string \<Rightarrow> string \<Rightarrow> server \<Rightarrow> (string \<times> packet list \<times> server) res" where
  "removeCommand e reach rtt command s =
     (case key_arg command of None \<Rightarrow> Inr (bad_inputs, [], s)
      | Some a \<Rightarrow>
          rbind (stoul a) (\<lambda>k.
          rbind (removeCertificate e reach (word_of_nat k) s) (\<lambda>((_, ps), s1).
          Inr (''Unr Duration: '' @ rtt, ps, s1))))"

definition unrevokeCommand :: "env \<Rightarrow> (string \<Rightarrow> bool) \<Rightarrow> string \<Rightarrow> string \<Rightarrow> server \<Rightarrow> (string \<times> packet list \<times> server) res" where
  "unrevokeCommand e reach rtt command s =
     (case key_arg command of None \<Rightarrow> Inr (bad_inputs, [], s)
      | Some a \<Rightarrow>
          rbind (stoul a) (\<lambda>k.
          rbind (unrevokeCertificate e reach (word_of_nat k) s) (\<lambda>((_, ps), s1).
          Inr (''Unr Duration: '' @ rtt, ps, s1))))"

definition revokeCommand :: "env \<Rightarrow> (string \<Rightarrow> bool) \<Rightarrow> string \<Rightarrow> string \<Rightarrow> server \<Rightarrow> (string \<times> packet list \<times> server) res" where
  "revokeCommand e reach rtt command s =
     (case key_arg command of None \<Rightarrow> Inr (bad_inputs, [], s)
      | Some a \<Rightarrow>
          rbind (stoul a) (\<lambda>k.
          rbind (revokeCertificate e reach (word_of_nat k) s) (\<lambda>((_, ps), s1).
          Inr (''Rev Duration: '' @ rtt, ps, s1))))"

text \<open>\<open>show\<close> cuts the number to 32 bits before the lookup.\<close>

definition showCommand :: "env \<Rightarrow> string \<Rightarrow> server \<Rightarrow> string res" where
  "showCommand e command s =
     (case show_arg command of None \<Rightarrow> Inr (bad_inputs @ ''\<newline>'')
      | Some a \<Rightarrow>
          rbind (stoul a) (\<lambda>n.
          rbind (server_queryCertificate e s (word_of_nat (w32 n))) (\<lambda>v.
          Inr (a @ (if v then '' is revoked\<newline>'' else '' is unrevoked\<newline>'')))))"

definition exitCommand :: "server \<Rightarrow> string \<times> server" where
  "exitCommand s = (''exiting'', s\<lparr>running := False\<rparr>)"

definition pingCommand :: "string \<Rightarrow> string" where
  "pingCommand command = ''pong''"

definition statisticsCommand :: "(string \<Rightarrow> string) \<Rightarrow> string \<Rightarrow> string" where
  "statisticsCommand stat command =
     (case stat_arg command of None \<Rightarrow> bad_inputs | Some a \<Rightarrow> stat a)"

definition run_command :: "env \<Rightarrow> (string \<Rightarrow> bool) \<Rightarrow> string \<Rightarrow> (string \<Rightarrow> string) \<Rightarrow> string \<Rightarrow> string \<Rightarrow> server
    \<Rightarrow> (string \<times> packet list \<times> server) res" where
  "run_command e reach rtt stat name command s =
     (if name = ''add'' then addCommand e reach rtt command s
      else if name = ''rem'' then removeCommand e reach rtt command s
      else if name = ''unr'' then unrevokeCommand e reach rtt command s
      else if name = ''rev'' then revokeCommand e reach rtt command s
      else if name = ''exi'' then (let (r, s1) = exitCommand s in Inr (r, [], s1))
      else if name = ''ping'' then Inr (pingCommand command, [], s)
      else if name = ''get'' then Inr (statisticsCommand stat command, [], s)
      else if name = ''show'' then rbind (showCommand e command s) (\<lambda>r. Inr (r, [], s))
      else Inr (''Not a valid command'', [], s))"

text \<open>
  One round of the command loop: lock, read, answer, unlock. A string without a command word
  is answered and the loop continues without unlocking, so the next round blocks for ever.
\<close>

definition command_round :: "env \<Rightarrow> (string \<Rightarrow> bool) \<Rightarrow> string \<Rightarrow> (string \<Rightarrow> string) \<Rightarrow> string \<Rightarrow> server
    \<Rightarrow> (string \<times> packet list \<times> server) res" where
  "command_round e reach rtt stat command s =
     (if updateLock s then Inl Diverges
      else (let s1 = s\<lparr>updateLock := True\<rparr>
            in case command_name command of
                 None \<Rightarrow> Inr (''Command not recognized'', [], s1)
               | Some name \<Rightarrow>
                   rbind (run_command e reach rtt stat name command s1) (\<lambda>(r, ps, s2).
                   Inr (r, ps, s2\<lparr>updateLock := False\<rparr>))))"

text \<open>The loop over the commands received while the server runs; then the process exits.\<close>

fun listenForCACommands :: "env \<Rightarrow> (string \<Rightarrow> bool) \<Rightarrow> string \<Rightarrow> (string \<Rightarrow> string) \<Rightarrow> string list \<Rightarrow> server
    \<Rightarrow> (string \<times> packet list) list \<times> (server res)" where
  "listenForCACommands e reach rtt stat [] s = ([], if running s then Inr s else Inl Exit)"
| "listenForCACommands e reach rtt stat (c # cs) s =
     (if \<not> running s then ([], Inl Exit)
      else case command_round e reach rtt stat c s of
             Inl err \<Rightarrow> ([], Inl err)
           | Inr (r, ps, s1) \<Rightarrow>
               (let (out, s2) = listenForCACommands e reach rtt stat cs s1 in ((r, ps) # out, s2)))"

end
