(* ===== verification/Client.thy ===== *)
theory Client
  imports Server
begin

text \<open>
  The device (\<open>src/TinyCR/TinyCRClient.h\<close>): it reassembles a message from the chunks \<open>recv\<close>
  returns until one ends in \<open>finish\<close>, decodes it, and answers lookups.
\<close>

record client =
  dassVerifier :: verifier
  queryLock :: bool

text \<open>
  The test on the last six bytes of a chunk, from the last one backwards with short-circuit
  evaluation: a chunk that is too short is read in front of its start.
\<close>

fun ends_in :: "u8 list \<Rightarrow> u8 list \<Rightarrow> bool res" where
  "ends_in [] rdata = Inr True"
| "ends_in (m # ms) rdata =
     (case rdata of [] \<Rightarrow> Inl OutOfBounds
      | b # bs \<Rightarrow> if b = m then ends_in ms bs else Inr False)"

definition ends_finish :: "u8 list \<Rightarrow> bool res" where
  "ends_finish chunk = ends_in (rev finish_mark) (rev chunk)"

text \<open>The chunks \<open>recv\<close> returns, in order; without a final one the loop does not return.\<close>

fun read_message :: "u8 list list \<Rightarrow> u8 list \<Rightarrow> u8 list res" where
  "read_message [] msg = Inl Diverges"
| "read_message (chunk # chunks) msg =
     rbind (ends_finish chunk) (\<lambda>fin.
     if fin then Inr (msg @ chunk) else read_message chunks (msg @ chunk))"

definition readFullSummary :: "u8 list \<Rightarrow> u8 list list \<Rightarrow> client \<Rightarrow> client res" where
  "readFullSummary tail chunks c =
     rbind (read_message chunks []) (\<lambda>msg.
     rbind (decode_full tail msg (dassVerifier c)) (\<lambda>d. Inr (c\<lparr>dassVerifier := d\<rparr>)))"

text \<open>One connection of \<open>listenForUpdates\<close>; the reply is returned.\<close>

definition receive_update :: "u64 template \<Rightarrow> u8 list \<Rightarrow> u8 list list \<Rightarrow> client \<Rightarrow> (string \<times> client) res" where
  "receive_update t tail chunks c =
     (if queryLock c then Inl Diverges
      else rbind (read_message chunks []) (\<lambda>msg.
           rbind (vat msg 0) (\<lambda>b.
           if b = 70 then
             rbind (decode_full tail msg (dassVerifier c)) (\<lambda>d. Inr (''FullDone'', c\<lparr>dassVerifier := d\<rparr>))
           else
             rbind (decode_batch_summary t msg (dassVerifier c)) (\<lambda>d.
             Inr (''SummaryDone'', c\<lparr>dassVerifier := d\<rparr>)))))"

fun listenForUpdates :: "u64 template \<Rightarrow> u8 list \<Rightarrow> u8 list list list \<Rightarrow> client \<Rightarrow> client res" where
  "listenForUpdates t tail [] c = Inr c"
| "listenForUpdates t tail (chunks # rest) c =
     rbind (receive_update t tail chunks c) (\<lambda>(_, c1). listenForUpdates t tail rest c1)"

definition client_queryCertificate :: "u64 template \<Rightarrow> u64 \<Rightarrow> client \<Rightarrow> bool res" where
  "client_queryCertificate t key c =
     (if queryLock c then Inl Diverges
      else rbind (data_query t (dassVerifier c) key) (\<lambda>v. Inr (v = 1)))"

subsection \<open>Commands of the device\<close>

text \<open>\<open>src/client.cpp\<close>; the loop takes no lock. \<open>stat\<close> stands for the printed latency.\<close>

definition client_showCommand :: "u64 template \<Rightarrow> string \<Rightarrow> client \<Rightarrow> string res" where
  "client_showCommand t command c =
     (case show_arg command of None \<Rightarrow> Inr (bad_inputs @ ''\<newline>'')
      | Some a \<Rightarrow>
          rbind (stoul a) (\<lambda>n.
          rbind (client_queryCertificate t (word_of_nat (w32 n)) c) (\<lambda>v.
          Inr (a @ (if v then '' is revoked\<newline>'' else '' is unrevoked\<newline>'')))))"

definition get_arg :: "string \<Rightarrow> string option" where
  "get_arg = search (\<lambda>s. if take 4 s = ''get '' \<and> takeWhile word_char (drop 4 s) \<noteq> []
     then Some (takeWhile word_char (drop 4 s)) else None)"

definition client_getCommand :: "(string \<Rightarrow> string) \<Rightarrow> string \<Rightarrow> string" where
  "client_getCommand stat command =
     (case get_arg command of None \<Rightarrow> bad_inputs @ ''\<newline>'' | Some a \<Rightarrow> stat a @ ''\<newline>'')"

definition client_command :: "u64 template \<Rightarrow> (string \<Rightarrow> string) \<Rightarrow> string \<Rightarrow> client \<Rightarrow> (string \<times> bool) res" where
  "client_command t stat command c =
     (case command_name command of
        None \<Rightarrow> Inr (''Command not recognized'', True)
      | Some name \<Rightarrow>
          if name = ''show'' then rbind (client_showCommand t command c) (\<lambda>r. Inr (r, True))
          else if name = ''get'' then Inr (client_getCommand stat command, True)
          else if name = ''ping'' then Inr (''pong'', True)
          else if name = ''exi'' then Inr (''exited'', False)
          else Inr (''Bad input'', True))"

text \<open>\<open>listenForCommands\<close>: until \<open>exi\<close> clears \<open>running\<close>.\<close>

fun client_commands :: "u64 template \<Rightarrow> (string \<Rightarrow> string) \<Rightarrow> string list \<Rightarrow> client \<Rightarrow> string list res" where
  "client_commands t stat [] c = Inr []"
| "client_commands t stat (x # xs) c =
     rbind (client_command t stat x c) (\<lambda>(r, running).
     if running then rbind (client_commands t stat xs c) (\<lambda>rs. Inr (r # rs)) else Inr [r])"

end
