(* ===== verification/Vacuum_Copy.thy ===== *)
theory Vacuum_Copy
  imports Vacuum_Operations
begin

text \<open>
  Two filters that agree on everything but \<open>full_bucket\<close> (a counter that \<open>operator =\<close> leaves out and
  no operation reads) and the unused entries of the encoding tables: every operation gives the
  same answer on both and keeps them so. A device that received its filter in a message and the
  server stay such copies of each other, down to the state of the random engine.
\<close>

lemma rbind_cases:
  "rbind (case z of None \<Rightarrow> m1 | Some x \<Rightarrow> m2 x) g = (case z of None \<Rightarrow> rbind m1 g | Some x \<Rightarrow> rbind (m2 x) g)"
  "rbind (case p of (x, y) \<Rightarrow> m3 x y) h = (case p of (x, y) \<Rightarrow> rbind (m3 x y) h)"
  "rbind (if c then m4 else m5) i = (if c then rbind m4 i else rbind m5 i)"
  by (simp_all split: option.splits prod.splits)

subsection \<open>What the operations read\<close>

definition other :: "int \<Rightarrow> u32 list \<Rightarrow> u32 list \<Rightarrow> vfilter \<Rightarrow> vfilter" where
  "other b e d f = f\<lparr>full_bucket := b, encode_table := e, decode_table := d\<rparr>"

definition tables :: "u32 list \<Rightarrow> u32 list \<Rightarrow> bool" where
  "tables e d \<longleftrightarrow> length e = 65536 \<and> length d = 65536 \<and>
     (\<forall>i < length quads. unat (d ! i) = quads ! i) \<and> (\<forall>q \<in> set quads. \<exists>j < length quads. unat (e ! q) = j \<and> quads ! j = q)"

lemma tables_ok_iff: "tables_ok f \<longleftrightarrow> tables (encode_table f) (decode_table f)"
  by (simp add: tables_ok_def tables_def)

lemma other_fields [simp]:
  "vn (other b e d f) = vn f" "vm (other b e d f) = vm f" "fp_len (other b e d f) = fp_len f" "isSmall (other b e d f) = isSmall f"
  "max_2_power (other b e d f) = max_2_power f" "T (other b e d f) = T f" "memory_consumption (other b e d f) = memory_consumption f"
  "max_kick_steps (other b e d f) = max_kick_steps f" "eng (other b e d f) = eng f" "filled_cell (other b e d f) = filled_cell f"
  "encode_table (other b e d f) = e" "decode_table (other b e d f) = d" "len4 (other b e d f) = len4 f" "big_seg (other b e d f) = big_seg f"
  by (simp_all add: other_def)

lemma other_updates [simp]:
  "(other b e d f)\<lparr>filled_cell := c\<rparr> = other b e d (f\<lparr>filled_cell := c\<rparr>)" "(other b e d f)\<lparr>eng := x\<rparr> = other b e d (f\<lparr>eng := x\<rparr>)"
  "(other b e d f)\<lparr>T := t\<rparr> = other b e d (f\<lparr>T := t\<rparr>)"
  by (simp_all add: other_def)

lemma other_image:
  assumes "vf_wf f" "tables e d"
  shows "vf_wf (other b e d f)" "cells (other b e d f) = cells f" "vf_tag (other b e d f) = vf_tag f"
  by (rule same_image[OF assms(1)]; simp add: tables_ok_iff assms(2))+

lemma other_readers [simp]:
  "position_hash (other b e d f) = position_hash f" "fingerprint (other b e d f) = fingerprint f"
  "alternate (other b e d f) = alternate f" "alternate_small (other b e d f) = alternate_small f" "bucket_range (other b e d f) = bucket_range f"
  "insert_to_bucket (other b e d f) = insert_to_bucket f" "fits_fp (other b e d f) = fits_fp f" "small_ok (other b e d f) = small_ok f"
proof -
  show 1: "alternate_small (other b e d f) = alternate_small f" by (simp add: alternate_small_def fun_eq_iff)
  show "alternate (other b e d f) = alternate f" by (simp add: alternate_def 1 fun_eq_iff)
qed (simp_all add: position_hash_def fingerprint_def insert_to_bucket_def bucket_range_def fits_fp_def fpw_def small_ok_def fun_eq_iff)

lemma other_bucket:
  assumes wf: "vf_wf f" and t: "tables e d" and p: "0 \<le> p" "p < vn f"
  shows "get_bucket (other b e d f) p = get_bucket f p" "bucket_of (other b e d f) p = bucket_of f p"
proof -
  have wf': "vf_wf (other b e d f)" by (rule other_image[OF wf t])
  have h: "bucket_holds (other b e d f) p s = bucket_holds f p s" for s by (simp add: bucket_holds_def fpw_def bucket_width_def)
  have g: "vf_geom (other b e d f)" using wf' by (simp add: vf_wf_def)
  show B: "bucket_of (other b e d f) p = bucket_of f p"
    by (rule bucket_of_unique[OF g]) (use bucket_of_ok(2)[OF wf p] p h in simp_all)
  show "get_bucket (other b e d f) p = get_bucket f p"
    using bucket_of_ok(1)[OF wf' p(1)] p(2) bucket_of_ok(1)[OF wf p] unfolding B by simp
qed

subsection \<open>Writing\<close>

lemma tables_index:
  assumes "tables e d" "q \<in> set quads"
  shows "\<exists>j < length quads. unat (e ! q) = j \<and> quads ! j = q"
  by (rule bspec[OF _ assms(2)]) (use assms(1) in \<open>unfold tables_def, elim conjE\<close>)

lemma sorted_wrt_less_distinct: "sorted_wrt (<) (xs :: nat list) \<Longrightarrow> distinct xs"
  by (induction xs) auto

lemma tables_unique:
  assumes "tables e d" "tables e' d'" "q \<in> set quads"
  shows "e ! q = e' ! q"
proof -
  have "\<exists>j < length quads. unat (e ! q) = j \<and> quads ! j = q" "\<exists>j < length quads. unat (e' ! q) = j \<and> quads ! j = q"
    using tables_index[OF assms(1,3)] tables_index[OF assms(2,3)] .
  then obtain j j' where j: "j < length quads" "unat (e ! q) = j" "quads ! j = q" "j' < length quads" "unat (e' ! q) = j'" "quads ! j' = q"
    by (elim exE conjE) (rule that)
  have "distinct quads" using quads_sorted by (rule sorted_wrt_less_distinct)
  moreover have "quads ! j = quads ! j'" unfolding j(3,6) ..
  ultimately have "j = j'" by (rule iffD1[OF nth_eq_iff_index_eq[OF _ j(1,4)]])
  then have "unat (e ! q) = unat (e' ! q)" unfolding j(2,5) .
  then show ?thesis by (rule iffD2[OF word_unat_eq_iff])
qed

lemma other_set_bucket:
  assumes g: "vf_geom f" and t: "tables e d" and x: "\<forall>x \<in> {w, x, y, z}. fits_fp f x"
  shows "set_bucket p (w # x # y # z # r) (other b e d f) = rbind (set_bucket p (w # x # y # z # r) f) (\<lambda>f1. Inr (other b e d f1))"
proof -
  let ?w = "fpw f"
  obtain s where s: "sort_store (w # x # y # z # r) = s @ r" "desc4 s" "mset s = {# w, x, y, z #}"
    using sort_store_ok by metis
  have "set s = {w, x, y, z}" using arg_cong[OF s(3), of set_mset] by simp
  then have fs: "\<forall>x \<in> set s. unat x < 2 ^ (?w + 4)" using x by (simp add: fits_fp_def)
  have len: "length s = 4" using s(2) by (simp add: desc4_def)
  have q: "unat (high_part ?w s) \<in> set quads" by (rule high_part_quad[OF s(2) fs])
  have nth: "(s @ r) ! 0 = s ! 0" "(s @ r) ! 1 = s ! 1" "(s @ r) ! 2 = s ! 2" "(s @ r) ! 3 = s ! 3"
    using len by (simp_all add: nth_append)
  then have parts: "low_part ?w (s @ r) = low_part ?w s" "high_part ?w (s @ r) = high_part ?w s"
    unfolding low_part_def high_part_def by (simp_all only:)
  have tf: "tables (encode_table f) (decode_table f)" using vf_geomD(6)[OF g] by (simp add: tables_ok_iff)
  have v: "vat e (unat (high_part ?w s)) = vat (encode_table f) (unat (high_part ?w s))"
    using tables_unique[OF t tf q] t tf quads_less[OF q] by (simp add: tables_def)
  show ?thesis
    unfolding set_bucket_def Let_def s(1) low_part_def[symmetric] high_part_def[symmetric] other_fields other_readers
      fpw_def[symmetric] parts v
    by (simp add: rbind_assoc rbind_cases cong: rbind_cong)
qed

lemma four_elements: "length xs = 4 \<Longrightarrow> \<exists>w x y z. xs = [w, x, y, z]"
  by (auto simp: numeral_eq_Suc length_Suc_conv)

lemma other_replace:
  assumes wf: "vf_wf f" and t: "tables e d" and p: "0 \<le> p" "p < vn f" and j: "j < 4" and y: "fits_fp f y"
  obtains f' where "set_bucket p ((bucket_of f p)[j := y] @ r) f = Inr f'"
    "set_bucket p ((bucket_of f p)[j := y] @ r) (other b e d f) = Inr (other b e d f')" "vf_wf f'" "follows f f'"
    "\<forall>q. 0 \<le> q \<and> q < vn f \<and> q \<noteq> p \<longrightarrow> bucket_of f' q = bucket_of f q"
proof -
  obtain f' where f': "set_bucket p ((bucket_of f p)[j := y] @ r) f = Inr f'" "vf_wf f'" "follows f f'"
    "\<forall>q. 0 \<le> q \<and> q < vn f \<and> q \<noteq> p \<longrightarrow> bucket_of f' q = bucket_of f q"
    using replace_ok[OF wf p j y, of r] by (elim exE conjE) (rule that)
  have g: "vf_geom f" using wf by (simp add: vf_wf_def)
  have len: "length ((bucket_of f p)[j := y]) = 4" using bucket_full(1)[OF wf p] by simp
  then obtain w x u z where B: "(bucket_of f p)[j := y] = [w, x, u, z]" using four_elements by blast
  have "\<forall>v \<in> set (bucket_of f p). fits_fp f v" using bucket_of_ok(2)[OF wf p] by (simp add: bucket_holds_def)
  then have "\<forall>v \<in> set ((bucket_of f p)[j := y]). fits_fp f v" using y set_update_subset_insert by fastforce
  then have "\<forall>v \<in> {w, x, u, z}. fits_fp f v" unfolding B by simp
  from other_set_bucket[OF g t this, of p r b] f'(1) show thesis
    by (intro that[OF f'(1) _ f'(2-4)]) (simp add: B)
qed

lemma other_find_room:
  assumes wf: "vf_wf f" and t: "tables e d" and p: "0 \<le> p" "p < vn f"
  shows "find_room (other b e d f) p st js = find_room f p st js"
proof (induction js)
  case (Cons j js)
  have s: "small_ok f" using wf by (simp add: vf_wf_def)
  have g: "get_bucket (other b e d f) (alternate_small f p x) = get_bucket f (alternate_small f p x)" for x
    by (rule other_bucket[OF wf t]) (use alternate_small_ok[OF s p, of x] in simp_all)
  show ?case using Cons by (simp add: alternate_eq[OF s] g cong: if_cong)
qed simp

lemma other_kick:
  assumes t: "tables e d"
  shows "vf_wf f \<Longrightarrow> 0 \<le> p \<Longrightarrow> p < vn f \<Longrightarrow> fits_fp f x \<Longrightarrow>
    kick n p x (other b e d f) = rbind (kick n p x f) (\<lambda>(r, f1). Inr (r, other b e d f1))"
proof (induction n arbitrary: p x f)
  case (Suc n)
  note wf = Suc.prems(1) and p = Suc.prems(2,3) and x = Suc.prems(4)
  let ?B = "bucket_of f p" and ?o = "other b e d"
  define c where "c = (word_of_nat (occupied ?B) :: u64)"
  have gb: "get_bucket f p = Inr (?B @ [c])" unfolding c_def by (rule bucket_of_ok(1)[OF wf p])
  have gb': "get_bucket (?o f) p = Inr (?B @ [c])" unfolding other_bucket(1)[OF wf t p] by (rule gb)
  have s: "small_ok f" and m: "vm f = 4" using wf by (simp_all add: vf_wf_def vf_geom_def)
  note len = bucket_full(1)[OF wf p] and full = bucket_full(2-5)[OF wf p]
  have v: "vat (?B @ [c]) 4 = Inr c" using len by (simp add: nth_append)
  have at: "vat (?B @ [c]) j = Inr (?B ! j)" "vput (?B @ [c]) j y = Inr (?B[j := y] @ [c])" if "j < 4" for j y
    using that len by (simp_all add: nth_append list_update_append)
  note nm = nat_vm[OF wf]
  have vm3: "nat (vm f - 1) = 3" by (simp add: m)
  show ?case
  proof (cases "c = word_of_int (vm f)")
    case False
    obtain f' where f': "set_bucket p (?B[3 := x] @ [c]) (f\<lparr>filled_cell := filled_cell f + 1\<rparr>) = Inr f'"
      "set_bucket p (?B[3 := x] @ [c]) (?o (f\<lparr>filled_cell := filled_cell f + 1\<rparr>)) = Inr (?o f')"
      by (rule other_replace[of "f\<lparr>filled_cell := filled_cell f + 1\<rparr>" e d p 3 x "[c]" b]) (use wf p x t in simp_all)
    from f' False show ?thesis by (simp add: gb gb' v nm vm3 at del: One_nat_def)
  next
    case True
    from find_room_ok[OF wf p, of "[0..<4]" c] obtain room where
      R: "find_room f p (?B @ [c]) [0..<4] = Inr room" "case room of None \<Rightarrow> True
      | Some (j, nex, store2) \<Rightarrow> j < 4 \<and> nex = alternate_small f p (?B ! j) \<and>
          store2 = bucket_of f nex @ [word_of_nat (occupied (bucket_of f nex))] \<and> occupied (bucket_of f nex) < 4" by auto
    note R' = other_find_room[OF wf t p, of b "?B @ [c]" "[0..<4]", unfolded R(1)]
    show ?thesis
    proof (cases room)
      case (Some r)
      obtain j nex store2 where r: "r = (j, nex, store2)" by (cases r)
      with R(2) Some have J: "j < 4" "nex = alternate_small f p (?B ! j)"
        "store2 = bucket_of f nex @ [word_of_nat (occupied (bucket_of f nex))]" by auto
      let ?y = "?B ! j" and ?c2 = "word_of_nat (occupied (bucket_of f nex)) :: u64" and ?f = "f\<lparr>filled_cell := filled_cell f + 1\<rparr>"
      have n: "0 \<le> nex" "nex < vn f" "nex \<noteq> p" using alternate_small_ok[OF s p, of ?y] J(2) by simp_all
      have u2: "vput store2 3 ?y = Inr ((bucket_of f nex)[3 := ?y] @ [?c2])"
        using bucket_full(1)[OF wf n(1,2)] by (simp add: J(3) list_update_append)
      obtain f1 where f1: "set_bucket nex ((bucket_of f nex)[3 := ?y] @ [?c2]) ?f = Inr f1"
        "set_bucket nex ((bucket_of f nex)[3 := ?y] @ [?c2]) (?o ?f) = Inr (?o f1)" "vf_wf f1" "follows ?f f1"
        "\<forall>q. 0 \<le> q \<and> q < vn f \<and> q \<noteq> nex \<longrightarrow> bucket_of f1 q = bucket_of f q"
        by (rule other_replace[of ?f e d nex 3 ?y "[?c2]" b]) (use wf n full(4)[OF J(1)] t in simp_all)
      note F1 = follows_trans[OF follows_updates(2) f1(4)]
      have b1: "bucket_of f1 p = ?B" using f1(5) p n(3) by simp
      obtain f2 where f2: "set_bucket p (?B[j := x] @ [c]) f1 = Inr f2" "set_bucket p (?B[j := x] @ [c]) (?o f1) = Inr (?o f2)"
        by (rule other_replace[of f1 e d p j x "[c]" b]) (use f1(3) t p J(1) x b1 in \<open>simp_all add: follows_fields[OF F1] follows_tag[OF F1]\<close>)
      show ?thesis
        using R(1) R' Some by (simp add: eqTrueI[OF True] gb gb' v nm r at J(1) u2 vm3 f1(1,2) f2 del: One_nat_def)
    next
      case None
      define e1 where "e1 = minstd_rand0 (eng f)"
      define rk where "rk = e1 mod 4"
      have rk: "rk < 4" by (simp add: rk_def)
      let ?y = "?B ! rk" and ?f = "f\<lparr>eng := e1\<rparr>"
      obtain f1 where f1: "set_bucket p (?B[rk := x] @ [c]) ?f = Inr f1" "set_bucket p (?B[rk := x] @ [c]) (?o ?f) = Inr (?o f1)"
        "vf_wf f1" "follows ?f f1"
        by (rule other_replace[of ?f e d p rk x "[c]" b]) (use wf p rk x t in simp_all)
      note F1 = follows_trans[OF follows_updates(3) f1(4)]
      have s1: "small_ok f1" using f1(3) by (simp add: vf_wf_def)
      let ?q = "alternate_small f p ?y"
      have q: "0 \<le> ?q" "?q < vn f1" using alternate_small_ok[OF s p, of ?y] by (simp_all add: follows_fields[OF F1])
      have y: "fits_fp f1 ?y" using full(4)[OF rk] by (simp add: follows_tag[OF F1])
      note IH = Suc.IH[OF f1(3) q y]
      show ?thesis
        using R(1) R' None
        by (simp add: eqTrueI[OF True] gb gb' v nm Let_def e1_def[symmetric] rk_def[symmetric] at rk f1(1,2) alternate_eq[OF s1] follows_tag[OF F1] IH)
    qed
  qed
qed simp

subsection \<open>Operations on a copy\<close>

definition stored :: "vfilter \<Rightarrow> int \<Rightarrow> u64 list" where
  "stored f p = bucket_of f p @ [word_of_nat (occupied (bucket_of f p))]"

definition emptier :: "vfilter \<Rightarrow> int \<Rightarrow> int \<Rightarrow> int" where
  "emptier f p q = (if (word_of_nat (occupied (bucket_of f p)) :: u64) \<le> word_of_nat (occupied (bucket_of f q)) then p else q)"

text \<open>\<open>vf_insert\<close> once the fingerprint \<open>x\<close> and the position \<open>p\<close> are known.\<close>

definition insert_steps :: "int \<Rightarrow> u64 \<Rightarrow> vfilter \<Rightarrow> (nat \<times> vfilter) res" where
  "insert_steps p x f =
     (let q = alternate_small f p x; cur = emptier f p q;
          e1 = minstd_rand0 (eng f); e2 = minstd_rand0 e1; rk = e1 mod 4; c2 = (if odd e2 then p else q)
      in rbind (insert_to_bucket f (stored f cur) x) (\<lambda>(r, s).
            if r = 0 then
              rbind (set_bucket cur s (f\<lparr>filled_cell := filled_cell f + 1\<rparr>)) (\<lambda>f1. Inr (0, f1))
            else
              rbind (vat (stored f c2) rk) (\<lambda>tmp_fp.
              rbind (vput (stored f c2) rk x) (\<lambda>s1.
              rbind (set_bucket c2 s1 (f\<lparr>eng := e2\<rparr>)) (\<lambda>f1.
              rbind (alternate f1 c2 tmp_fp) (\<lambda>alt.
              kick (nat (max_kick_steps f1)) alt tmp_fp f1))))))"

lemma vf_insert_steps:
  assumes wf: "vf_wf f" and P: "fingerprint f (mixed k) = Inr x" "position_hash f (mixed k) = Inr p" "0 \<le> p" "p < vn f" "to_int p = p"
  shows "vf_insert k f = insert_steps p x f"
proof -
  have s: "small_ok f" and m: "vm f = 4" using wf by (simp_all add: vf_wf_def vf_geom_def)
  let ?q = "alternate_small f p x"
  have q: "0 \<le> ?q" "?q < vn f" using alternate_small_ok[OF s P(3,4), of x] by auto
  have G: "get_bucket f r = Inr (stored f r)" if "0 \<le> r" "r < vn f" for r
    using bucket_of_ok(1)[OF wf that] by (simp add: stored_def)
  have V: "vat (stored f r) 4 = Inr (word_of_nat (occupied (bucket_of f r)))" if "0 \<le> r" "r < vn f" for r
    using bucket_full(1)[OF wf that] by (simp add: stored_def nth_append)
  have sc: "(if (word_of_nat (occupied (bucket_of f p)) :: u64) \<le> word_of_nat (occupied (bucket_of f ?q)) then (p, stored f p) else (?q, stored f ?q))
    = (emptier f p ?q, stored f (emptier f p ?q))" by (simp add: emptier_def)
  have s2: "(if odd n then (p, stored f p) else (?q, stored f ?q)) = (if odd n then p else ?q, stored f (if odd n then p else ?q))" for n :: nat by simp
  have g: "guard Undefined (vm f \<noteq> 0) = Inr ()" by (simp add: m)
  show ?thesis
    unfolding vf_insert_def insert_steps_def mixed_def[symmetric] Let_def P(1,2) rbind_simps P(5)
      alternate_eq[OF s] G[OF P(3,4)] G[OF q] nat_vm[OF wf] V[OF P(3,4)] V[OF q] sc s2 case_prod_conv g ..
qed

lemma other_insert:
  assumes wf: "vf_wf f" and t: "tables e d"
  shows "vf_insert k (other b e d f) = rbind (vf_insert k f) (\<lambda>(r, f1). Inr (r, other b e d f1))"
proof -
  obtain x p where P: "fingerprint f (mixed k) = Inr x" "fits_fp f x" "position_hash f (mixed k) = Inr p"
    "0 \<le> p" "p < vn f" "to_int p = p" using probe[OF wf, of k] by metis
  let ?o = "other b e d" and ?q = "alternate_small f p x"
  have s: "small_ok f" and m: "vm f = 4" using wf by (simp_all add: vf_wf_def vf_geom_def)
  have q: "0 \<le> ?q" "?q < vn f" using alternate_small_ok[OF s P(4,5), of x] by auto
  have B: "bucket_of (?o f) r = bucket_of f r" if "0 \<le> r" "r < vn f" for r by (rule other_bucket(2)[OF wf t that])
  have em: "emptier (?o f) p ?q = emptier f p ?q" by (simp add: emptier_def B P q)
  define cur where "cur = emptier f p ?q"
  have cur: "0 \<le> cur" "cur < vn f" using P q by (simp_all add: cur_def emptier_def)
  have st: "stored (?o f) r = stored f r" if "0 \<le> r" "r < vn f" for r using B[OF that] by (simp add: stored_def)
  define e1 where "e1 = minstd_rand0 (eng f)"
  define e2 where "e2 = minstd_rand0 e1"
  define rk where "rk = e1 mod 4"
  define c2 where "c2 = (if odd e2 then p else ?q)"
  have c2: "0 \<le> c2" "c2 < vn f" using P q by (simp_all add: c2_def)
  have rk: "rk < 4" by (simp add: rk_def)
  have I: "vf_insert k f = insert_steps p x f" "vf_insert k (?o f) = insert_steps p x (?o f)"
    using vf_insert_steps[OF wf P(1,3-6)] vf_insert_steps[OF other_image(1)[OF wf t], where k = k and x = x and p = p] P by simp_all
  note unf = insert_steps_def Let_def other_readers other_fields other_updates em e1_def[symmetric] cur_def[symmetric]
  note unf2 = e2_def[symmetric] rk_def[symmetric] c2_def[symmetric] st[OF cur] st[OF c2]
  have at: "vat (stored f c2) rk = Inr (bucket_of f c2 ! rk)"
    "vput (stored f r) j y = Inr ((bucket_of f r)[j := y] @ [word_of_nat (occupied (bucket_of f r))])" if "0 \<le> r" "r < vn f" "j < 4" for r j y
    using that rk bucket_full(1)[OF wf that(1,2)] bucket_full(1)[OF wf c2] by (simp_all add: stored_def nth_append list_update_append)
  obtain f0 where f0: "set_bucket cur ((bucket_of f cur)[3 := x] @ [word_of_nat (occupied (bucket_of f cur))]) (f\<lparr>filled_cell := filled_cell f + 1\<rparr>) = Inr f0"
    "set_bucket cur ((bucket_of f cur)[3 := x] @ [word_of_nat (occupied (bucket_of f cur))]) (?o (f\<lparr>filled_cell := filled_cell f + 1\<rparr>)) = Inr (?o f0)"
    by (rule other_replace[of "f\<lparr>filled_cell := filled_cell f + 1\<rparr>" e d cur 3 x "[word_of_nat (occupied (bucket_of f cur))]" b])
      (use wf cur P(2) t in simp_all)
  obtain f1 where f1: "set_bucket c2 ((bucket_of f c2)[rk := x] @ [word_of_nat (occupied (bucket_of f c2))]) (f\<lparr>eng := e2\<rparr>) = Inr f1"
    "set_bucket c2 ((bucket_of f c2)[rk := x] @ [word_of_nat (occupied (bucket_of f c2))]) (?o (f\<lparr>eng := e2\<rparr>)) = Inr (?o f1)"
    "vf_wf f1" "follows (f\<lparr>eng := e2\<rparr>) f1"
    by (rule other_replace[of "f\<lparr>eng := e2\<rparr>" e d c2 rk x "[word_of_nat (occupied (bucket_of f c2))]" b])
      (use wf c2 rk P(2) t in simp_all)
  note F1 = follows_trans[OF follows_updates(3) f1(4)]
  have s1: "small_ok f1" using f1(3) by (simp add: vf_wf_def)
  let ?y = "bucket_of f c2 ! rk" and ?r = "alternate_small f c2 (bucket_of f c2 ! rk)"
  have r: "0 \<le> ?r" "?r < vn f1" using alternate_small_ok[OF s c2, of ?y] by (simp_all add: follows_fields[OF F1])
  have y: "fits_fp f1 ?y" using bucket_full(5)[OF wf c2 rk] by (simp add: follows_tag[OF F1])
  note K = other_kick[OF t f1(3) r y, of "nat (max_kick_steps f1)" b]
  have J: "insert_to_bucket f (stored f cur) x = Inr (5, stored f cur) \<or>
      insert_to_bucket f (stored f cur) x = Inr (0, (bucket_of f cur)[3 := x] @ [word_of_nat (occupied (bucket_of f cur))])"
    using at(2)[OF cur, of 3 x] bucket_full(1)[OF wf cur] by (simp add: insert_to_bucket_def m stored_def nth_append)
  then show ?thesis
  proof
    assume J: "insert_to_bucket f (stored f cur) x = Inr (0, (bucket_of f cur)[3 := x] @ [word_of_nat (occupied (bucket_of f cur))])"
    show ?thesis unfolding I unf unf2 J by (simp add: f0)
  next
    assume J: "insert_to_bucket f (stored f cur) x = Inr (5, stored f cur)"
    show ?thesis unfolding I unf unf2 J
      by (simp add: at(1)[OF c2 rk] at(2)[OF c2 rk] f1(1,2) alternate_eq[OF s1] follows_tag[OF F1] K)
  qed
qed

lemma other_del_from:
  assumes wf: "vf_wf f" and t: "tables e d" and p: "0 \<le> p" "p < vn f" and js: "\<forall>j \<in> set js. j < 4"
  shows "del_from (stored f p) p x js (other b e d f) = rbind (del_from (stored f p) p x js f) (\<lambda>(r, f1). Inr (r, other b e d f1))"
  using js
proof (induction js)
  case (Cons j js)
  then have j: "j < 4" by simp
  obtain f0 where f0: "set_bucket p ((bucket_of f p)[j := 0] @ [word_of_nat (occupied (bucket_of f p))]) (f\<lparr>filled_cell := filled_cell f - 1\<rparr>) = Inr f0"
    "set_bucket p ((bucket_of f p)[j := 0] @ [word_of_nat (occupied (bucket_of f p))]) (other b e d (f\<lparr>filled_cell := filled_cell f - 1\<rparr>)) = Inr (other b e d f0)"
    by (rule other_replace[of "f\<lparr>filled_cell := filled_cell f - 1\<rparr>" e d p j 0 "[word_of_nat (occupied (bucket_of f p))]" b])
      (use wf p j t in \<open>simp_all add: fits_fp_def\<close>)
  have at: "vat (stored f p) j = Inr (bucket_of f p ! j)" "vput (stored f p) j 0 = Inr ((bucket_of f p)[j := 0] @ [word_of_nat (occupied (bucket_of f p))])"
    using j bucket_full(1)[OF wf p] by (simp_all add: stored_def nth_append list_update_append)
  from Cons show ?case by (simp add: at f0)
qed simp

lemma other_del:
  assumes wf: "vf_wf f" and t: "tables e d"
  shows "vf_del k (other b e d f) = rbind (vf_del k f) (\<lambda>(r, f1). Inr (r, other b e d f1))"
proof -
  obtain x p where P: "fingerprint f (mixed k) = Inr x" "x \<noteq> 0" "position_hash f (mixed k) = Inr p" "0 \<le> p" "p < vn f" "to_int p = p"
    using probe[OF wf, of k] by metis
  let ?o = "other b e d"
  have s: "small_ok f" using wf by (simp add: vf_wf_def)
  have D: "del_in_bucket r x (?o f) = rbind (del_in_bucket r x f) (\<lambda>(r, f1). Inr (r, ?o f1))" if r: "0 \<le> r" "r < vn f" for r
  proof -
    have g: "get_bucket f r = Inr (stored f r)" "get_bucket (?o f) r = Inr (stored f r)"
      using bucket_of_ok(1)[OF wf r] other_bucket(1)[OF wf t r] by (simp_all add: stored_def)
    show ?thesis using other_del_from[OF wf t r, of "[0..<4]" x b] by (simp add: del_in_bucket_def g nat_vm[OF wf])
  qed
  obtain r1 f1 where R: "del_in_bucket p x f = Inr (r1, f1)" "r1 = 1 \<or> r1 = 0 \<and> f1 = f"
    using del_in_bucket_ok[OF wf P(4,5,2)] by (metis (no_types, lifting))
  let ?q = "alternate_small f p x"
  have q: "0 \<le> ?q" "?q < vn f" using alternate_small_ok[OF s P(4,5), of x] by simp_all
  show ?thesis
    unfolding vf_del_def Let_def mixed_def[symmetric] other_readers P(1,3) rbind_simps P(6) D[OF P(4,5)] R(1) prod.case
    using R(2) by (elim disjE conjE) (simp_all add: alternate_eq[OF s] D[OF q] rbind_assoc rbind_cases cong: rbind_cong)
qed

definition copies :: "vfilter \<Rightarrow> vfilter \<Rightarrow> bool" where
  "copies g f \<longleftrightarrow> (\<exists>b e d. tables e d \<and> g = other b e d f)"

lemma wf_tables: "vf_wf f \<Longrightarrow> tables (encode_table f) (decode_table f)"
  using tables_ok_iff vf_geomD(6) by (auto simp: vf_wf_def)

lemma copies_image:
  assumes "vf_wf f" "copies g f"
  shows "vf_wf g" "cells g = cells f" "vf_tag g = vf_tag f"
  using assms(2) other_image[OF assms(1)] unfolding copies_def by blast+

lemma copies_lookup: "vf_wf f \<Longrightarrow> copies g f \<Longrightarrow> vf_lookup g k = vf_lookup f k"
  using copies_image[of f g] by (simp add: vf_lookup_ok)

lemma copies_insert: "vf_wf f \<Longrightarrow> copies g f \<Longrightarrow> vf_insert k f = Inr (r, f1) \<Longrightarrow> \<exists>g1. vf_insert k g = Inr (r, g1) \<and> copies g1 f1"
  unfolding copies_def by (elim exE conjE) (simp add: other_insert, blast)

lemma copies_del: "vf_wf f \<Longrightarrow> copies g f \<Longrightarrow> vf_del k f = Inr (r, f1) \<Longrightarrow> \<exists>g1. vf_del k g = Inr (r, g1) \<and> copies g1 f1"
  unfolding copies_def by (elim exE conjE) (simp add: other_del, blast)

lemma copies_assign:
  assumes "vf_wf f"
  shows "\<exists>g1. vf_assign g f = Inr g1 \<and> copies g1 f"
proof -
  have "f\<lparr>full_bucket := full_bucket g\<rparr> = other (full_bucket g) (encode_table f) (decode_table f) f" by (simp add: other_def)
  with wf_tables[OF assms] show ?thesis by (auto simp: copies_def vf_assign_ok[OF assms])
qed

lemma copies_trans: "copies h g \<Longrightarrow> copies g f \<Longrightarrow> copies h f"
proof -
  assume "copies h g" "copies g f"
  then obtain b e d b' e' d' where h: "tables b' e'" "h = other d' b' e' g" "g = other b e d f" unfolding copies_def by blast
  then have "h = other d' b' e' f" by (simp add: other_def)
  with h(1) show ?thesis unfolding copies_def by blast
qed

end
