(* ===== verification/Wire.thy ===== *)
theory Wire
  imports CRIoT Vacuum_Copy
begin

text \<open>
  The two message formats of \<open>src/platform/CRIoT.h\<close>: what the device reads at an offset of a
  message is what the server wrote there. A summary entry is read back with the number of
  positions its count byte can say; a full update restores the Othello data plane exactly and the
  filter up to \<open>full_bucket\<close> and the unused table entries.
\<close>

subsection \<open>Bytes at an offset\<close>

definition holds_at :: "u8 list \<Rightarrow> nat \<Rightarrow> u8 list \<Rightarrow> bool" where
  "holds_at data off bs \<longleftrightarrow> length data < 2 ^ 32 \<and> (\<exists>v w. data = v @ bs @ w \<and> length v = off)"

lemma holds_at_append: "holds_at data off (xs @ ys) \<longleftrightarrow> holds_at data off xs \<and> holds_at data (off + length xs) ys"
proof
  assume "holds_at data off (xs @ ys)"
  then obtain v w where "length data < 2 ^ 32" "data = v @ xs @ ys @ w" "length v = off" by (auto simp: holds_at_def)
  then show "holds_at data off xs \<and> holds_at data (off + length xs) ys"
    unfolding holds_at_def by (metis append_assoc length_append)
next
  assume "holds_at data off xs \<and> holds_at data (off + length xs) ys"
  then obtain v w v' w' where h: "length data < 2 ^ 32" "data = v @ xs @ w" "length v = off" "data = v' @ ys @ w'" "length v' = off + length xs"
    unfolding holds_at_def by (elim exE conjE) (rule that)
  then have "v' = v @ xs" by (metis append_assoc append_eq_append_conv length_append)
  with h show "holds_at data off (xs @ ys)" unfolding holds_at_def by auto
qed

lemma holds_at_step: "holds_at data off bs \<Longrightarrow> w32 (off + length bs) = off + length bs"
  by (auto simp: holds_at_def)

lemma holds_at_self: "length (v @ bs @ w) < 2 ^ 32 \<Longrightarrow> holds_at (v @ bs @ w) (length v) bs"
  by (auto simp: holds_at_def)

lemma get32:
  assumes "holds_at data off (split_uint32 x [])"
  shows "combine_uint32_at data off = Inr x" "w32 (off + 4) = off + 4"
  using be32.dec_enc holds_at_step[OF assms] assms by (auto simp: holds_at_def)

lemma get64:
  assumes "holds_at data off (split_uint64 x [])"
  shows "combine_uint64_at data off = Inr x" "w32 (off + 8) = off + 8"
  using be64.dec_enc holds_at_step[OF assms] assms by (auto simp: holds_at_def)

lemma get_byte:
  assumes "holds_at data off [b]"
  shows "vat data off = Inr b" "w32 (off + 1) = off + 1"
  using assms by (auto simp: holds_at_def nth_append)

interpretation bytes: codec "\<lambda>b. [b]" vat 1
  by unfold_locales (simp_all add: nth_append)

lemma get_bytes: "holds_at data off bs \<Longrightarrow> read_many (vat data) 1 (length bs) off = Inr (bs, off + length bs)"
  using bytes.read_many_enc[of _ bs] by (auto simp: holds_at_def)

lemma get_many32: "holds_at data off (concat (map (\<lambda>x. split_uint32 x []) xs)) \<Longrightarrow>
    read_many (combine_uint32_at data) 4 (length xs) off = Inr (xs, off + 4 * length xs)"
  using be32.read_many_enc[of _ xs] by (auto simp: holds_at_def)

lemma get_many64: "holds_at data off (concat (map (\<lambda>x. split_uint64 x []) xs)) \<Longrightarrow>
    read_many (combine_uint64_at data) 8 (length xs) off = Inr (xs, off + 8 * length xs)"
  using be64.read_many_enc[of _ xs] by (auto simp: holds_at_def)

definition read_chars32 :: "u8 list \<Rightarrow> nat \<Rightarrow> u32 res" where
  "read_chars32 data offset = rbind (read_many (vat data) 1 4 offset) (\<lambda>(cs, _). combine_uint32 cs)"

interpretation chars32: codec "\<lambda>x. split_uint32 x []" read_chars32 4
proof
  show "length (split_uint32 x []) = 4" for x by simp
  show "read_chars32 (v @ split_uint32 x [] @ w) (length v) = Inr x" if "length (v @ split_uint32 x [] @ w) < 2 ^ 32" for v w x
    using get_bytes[OF holds_at_self[OF that]] by (simp add: read_chars32_def combine_uint32_ok)
qed

lemma get_chars32: "holds_at data off (concat (map (\<lambda>x. split_uint32 x []) xs)) \<Longrightarrow>
    read_many (read_chars32 data) 4 (length xs) off = Inr (xs, off + 4 * length xs)"
  using chars32.read_many_enc[of _ xs] by (auto simp: holds_at_def)

subsection \<open>Summaries\<close>

text \<open>The entry of one action, as \<open>encode_summary\<close> writes it.\<close>

definition entry :: "u8 \<Rightarrow> u64 \<Rightarrow> u32 \<Rightarrow> nat list \<Rightarrow> u8 list" where
  "entry action k v fl = [action] @ split_uint64 k [] @ split_uint32 v [] @ [word_of_nat (length fl)]
     @ concat (map (\<lambda>x. split_uint32 (word_of_nat x) []) fl)"

lemma encode_summary_entry: "encode_summary (k, v) action c = entry action k v (flipped_indexes c)"
  by (simp add: encode_summary_def entry_def split_uint32_vector_eq comp_def)

text \<open>The reader takes as many positions as the count byte says: the length modulo 256.\<close>

lemma read_entry_ok:
  assumes h: "holds_at data off (entry action k v fl)" and fl: "\<forall>j \<in> set fl. j < 2 ^ 32"
  shows "read_entry data off = Inr ((action, k, v, take (length fl mod 256) fl), off + 14 + 4 * (length fl mod 256))"
proof -
  let ?n = "length fl mod 256"
  let ?xs = "map word_of_nat fl :: u32 list"
  have "entry action k v fl = [action] @ split_uint64 k [] @ split_uint32 v [] @ [word_of_nat (length fl)]
      @ concat (map (\<lambda>x. split_uint32 x []) (take ?n ?xs)) @ concat (map (\<lambda>x. split_uint32 x []) (drop ?n ?xs))"
    by (simp add: entry_def comp_def flip: concat_append map_append take_map drop_map)
  with h have H: "holds_at data off [action]" "holds_at data (off + 1) (split_uint64 k [])" "holds_at data (off + 9) (split_uint32 v [])"
    "holds_at data (off + 13) [word_of_nat (length fl)]" "holds_at data (off + 14) (concat (map (\<lambda>x. split_uint32 x []) (take ?n ?xs)))"
    by (simp_all only: holds_at_append) (simp_all add: ac_simps)
  have n: "unat (word_of_nat (length fl) :: u8) = ?n" by (simp add: unat_of_nat take_bit_eq_mod)
  have l: "length (take ?n ?xs) = ?n" by (simp add: min_def)
  have r8: "read_many (vat data) 1 8 (off + 1) = Inr (split_uint64 k [], off + 9)" using get_bytes[OF H(2)] by simp
  have r4: "read_many (vat data) 1 4 (off + 9) = Inr (split_uint32 v [], off + 13)" using get_bytes[OF H(3)] by simp
  have rn: "read_many (read_chars32 data) 4 ?n (off + 14) = Inr (take ?n ?xs, off + 14 + 4 * ?n)"
    using get_chars32[OF H(5)] unfolding l .
  have m: "map unat (take ?n ?xs) = take ?n fl"
  proof -
    have "map unat ?xs = fl"
      unfolding map_map comp_def by (rule map_idI) (use fl in \<open>simp add: unat_of_nat take_bit_eq_mod\<close>)
    then show ?thesis by (metis take_map)
  qed
  have s14: "w32 (off + 13 + 1) = off + 14" using get_byte[OF H(4)] by simp
  show ?thesis
    unfolding read_entry_def read_chars32_def[symmetric] get_byte[OF H(1)] rbind_simps r8 prod.case
      combine_uint64_ok r4 combine_uint32_ok get_byte(1)[OF H(4)] s14 n rn m ..
qed

lemma entry_length: "length (entry action k v fl) = 14 + 4 * length fl"
  by (simp add: entry_def length_concat comp_def sum_list_triv)

subsection \<open>Full updates\<close>

lemma split_length: "length (split_uint32 x []) = 4" "length (split_uint64 y []) = 8"
  by simp_all

definition othello_bytes :: "dplane \<Rightarrow> u8 list" where
  "othello_bytes o' = split_uint32 (word_of_nat (length (dmem o'))) [] @ concat (map (\<lambda>x. split_uint64 x []) (dmem o'))
     @ split_uint32 (word_of_nat (dma o')) [] @ split_uint32 (word_of_nat (dmb o')) [] @ split_uint64 (dhab o') [] @ split_uint32 (dhd o') []"

lemma decode_othello_ok:
  assumes h: "holds_at data off (othello_bytes o')" and r: "length (dmem o') < 2 ^ 32" "dma o' < 2 ^ 32" "dmb o' < 2 ^ 32"
  shows "decode_othello data off = Inr (dplane_new (dmem o') (dma o') (dmb o') (dhab o') (dhd o'), off + length (othello_bytes o'))"
proof -
  let ?m = "dmem o'"
  have l: "length (concat (map (\<lambda>x. split_uint64 x []) ?m)) = 8 * length ?m" by (rule be64.concat_length)
  note H = h[unfolded othello_bytes_def holds_at_append split_length l]
  have u: "unat (word_of_nat n :: u32) = n" if "n < 2 ^ 32" for n using that by (simp add: unat_of_nat take_bit_eq_mod)
  show ?thesis
    using H
    by (elim conjE) (simp only: decode_othello_def Let_def get32 get64 get_many64 rbind_simps u[OF r(1)] u[OF r(2)] u[OF r(3)] prod.case,
      simp add: othello_bytes_def l)
qed

text \<open>Values the C \<open>int\<close> fields of a filter can take.\<close>

definition in32 :: "int \<Rightarrow> bool" where
  "in32 x \<longleftrightarrow> - (2 ^ 31) \<le> x \<and> x < 2 ^ 31"

definition vf_ints :: "vfilter \<Rightarrow> bool" where
  "vf_ints f \<longleftrightarrow> in32 (filled_cell f) \<and> in32 (max_kick_steps f) \<and> in32 (big_seg f) \<and> length (len4 f) = 4 \<and>
     (\<forall>x \<in> set (len4 f). in32 x) \<and> memory_consumption f < 2 ^ 33"

lemma sint_back: "in32 x \<Longrightarrow> to_sint32 (int32 x) = x"
  by (simp add: in32_def to_sint32_def int32_def sint_sbintrunc' signed_take_bit_int_eq_self_iff)

lemma to_int_back: "in32 x \<Longrightarrow> to_int x = x"
  using sint_back[of x] by (simp add: to_int_def to_sint32_def int32_def)

lemma sint64_back: "0 \<le> x \<Longrightarrow> x < 2 ^ 31 \<Longrightarrow> sint (word_of_int x :: u64) = x"
  by (simp add: sint_sbintrunc' signed_take_bit_int_eq_self_iff)

text \<open>The engine as text.\<close>

lemma digit_byte: "n < 10 \<Longrightarrow> is_digit (word_of_nat (48 + n)) \<and> unat (word_of_nat (48 + n) :: u8) = 48 + n"
proof -
  assume n: "n < 10"
  have u: "unat (word_of_nat (48 + n) :: u8) = 48 + n" unfolding unat_of_nat using n by (simp add: take_bit_eq_mod)
  have "unat (48 :: u8) = 48" "unat (57 :: u8) = 57" by simp_all
  with u n show ?thesis unfolding is_digit_def word_le_nat_alt by (simp only: u) simp
qed

lemma decimal_digits: "\<forall>c \<in> set (decimal n). is_digit c"
proof (induction n rule: decimal.induct)
  case (1 n)
  show ?case
  proof (cases "n < 10")
    case True
    then show ?thesis using digit_byte[of n] by (subst decimal.simps) simp
  next
    case False
    then show ?thesis using 1 digit_byte[of "n mod 10"] by (subst decimal.simps) auto
  qed
qed

lemma decimal_value: "fold (\<lambda>c n. 10 * n + (unat c - 48)) (decimal n) 0 = n"
proof (induction n rule: decimal.induct)
  case (1 n)
  show ?case
  proof (cases "n < 10")
    case True
    then show ?thesis using digit_byte[of n] by (subst decimal.simps) simp
  next
    case False
    then show ?thesis using 1 digit_byte[of "n mod 10"] by (subst decimal.simps) simp
  qed
qed

lemma parse_decimal: "takeWhile is_digit tail = [] \<Longrightarrow> parse_engine (decimal n) tail = n"
  using decimal_digits[of n] decimal_value[of n] by (simp add: parse_engine_def takeWhile_append2)

definition filter_bytes :: "vfilter \<Rightarrow> u8 list" where
  "filter_bytes f = split_uint64 (word_of_nat (memory_consumption f)) [] @ split_uint32 (word_of_nat (length (decimal (eng f)))) []
     @ decimal (eng f) @ split_uint64 (word_of_int (vn f)) [] @ split_uint32 (int32 (vm f)) [] @ split_uint32 (int32 (filled_cell f)) []
     @ split_uint32 (int32 (max_kick_steps f)) [] @ split_uint32 (int32 (max_2_power f)) [] @ split_uint32 (int32 (big_seg f)) []
     @ [if isSmall f then 1 else 0] @ concat (map (\<lambda>x. split_uint32 x []) (map int32 (len4 f))) @ split_uint32 (int32 (fp_len f)) []
     @ concat (map (\<lambda>x. split_uint32 x []) (T f))"

lemma init_with_params_ok:
  assumes wf: "vf_wf f" and t: "tables_sized f0"
  shows "\<exists>g. init_with_params (memory_consumption f) (eng f) (vn f) (vm f) (filled_cell f) (max_kick_steps f) (max_2_power f)
     (big_seg f) (isSmall f) (len4 f) (fp_len f) (T f) f0 = Inr g \<and> copies g f"
proof -
  have len: "length (T f) = memory_consumption f div 4" "vm f = 4" using wf by (simp_all add: vf_wf_def vf_geom_def)
  define f1 where "f1 = f0\<lparr>eng := eng f, memory_consumption := memory_consumption f, vn := vn f, vm := vm f, filled_cell := filled_cell f,
      max_kick_steps := max_kick_steps f, max_2_power := max_2_power f, big_seg := big_seg f, isSmall := isSmall f, len4 := len4 f,
      fp_len := fp_len f, T := T f\<rparr>"
  have "vm f1 = 4" "length (encode_table f1) = 65536" "length (decode_table f1) = 65536"
    using t len(2) by (simp_all add: f1_def tables_sized_def)
  from fill_tables_ok[OF this] obtain e d where R: "fill_tables f1 = Inr (f1\<lparr>encode_table := e, decode_table := d\<rparr>)"
    "tables_ok (f1\<lparr>encode_table := e, decode_table := d\<rparr>)" by blast
  have "f1\<lparr>encode_table := e, decode_table := d\<rparr> = other (full_bucket f0) e d f"
    by (rule vfilter.equality) (simp_all add: f1_def other_def)
  moreover have "tables e d" using R(2) by (simp add: tables_ok_iff)
  moreover have "rfold (\<lambda>i t. rbind (vat (T f) i) (vput t i)) [0..<length (T f)] (replicate (memory_consumption f div 4) 0) = Inr (T f)"
    using copy_loop[of "length (T f)" "T f" "replicate (memory_consumption f div 4) 0"] len(1) by simp
  ultimately show ?thesis using R(1) by (auto simp: init_with_params_def copies_def f1_def Let_def)
qed

lemma decode_filter_ok:
  assumes h: "holds_at data off (filter_bytes f)" and wf: "vf_wf f" and i: "vf_ints f" and t: "tables_sized f0" and tl: "takeWhile is_digit tail = []"
  shows "\<exists>g. decode_filter tail data f0 off = Inr g \<and> copies g f"
proof -
  let ?e = "decimal (eng f)"
  have l: "length (concat (map (\<lambda>x. split_uint32 x []) xs)) = 4 * length xs" for xs by (rule be32.concat_length)
  note H = h[unfolded filter_bytes_def holds_at_append split_length l length_map list.size add_0 One_nat_def[symmetric]]
  have s: "small_ok f" and len: "length (T f) = memory_consumption f div 4" and m: "vm f = 4" and fp: "4 \<le> fp_len f" "fp_len f \<le> 16"
    using wf by (simp_all add: vf_wf_def vf_geom_def)
  have l4: "length (len4 f) = 4" and mc: "memory_consumption f < 2 ^ 33" using i by (simp_all add: vf_ints_def)
  have I: "to_sint32 (int32 (vm f)) = vm f" "to_sint32 (int32 (filled_cell f)) = filled_cell f" "to_sint32 (int32 (max_kick_steps f)) = max_kick_steps f"
    "to_sint32 (int32 (max_2_power f)) = max_2_power f" "to_sint32 (int32 (big_seg f)) = big_seg f" "to_sint32 (int32 (fp_len f)) = fp_len f"
    "map to_sint32 (map int32 (len4 f)) = len4 f" "sint (word_of_int (vn f) :: u64) = vn f"
  proof -
    have "0 \<le> max_2_power f" "max_2_power f < 2 ^ 31" "0 \<le> vn f" "vn f < 2 ^ 31" using s by (auto simp: small_ok_def)
    then show "to_sint32 (int32 (max_2_power f)) = max_2_power f" "sint (word_of_int (vn f) :: u64) = vn f"
      by (simp_all add: sint_back in32_def sint64_back)
    show "map to_sint32 (map int32 (len4 f)) = len4 f"
      unfolding map_map comp_def by (rule map_idI) (use i sint_back in \<open>auto simp: vf_ints_def\<close>)
  qed (use i fp m in \<open>simp_all add: sint_back vf_ints_def in32_def\<close>)
  have u64: "unat (word_of_nat (memory_consumption f) :: u64) = memory_consumption f" using mc by (intro unat_word64) simp
  have T: "nat (to_int (int (memory_consumption f div 4))) = length (T f)"
  proof -
    have "memory_consumption f div 4 < 2 ^ 31" using mc by simp
    then have "in32 (int (memory_consumption f div 4))" by (simp add: in32_def)
    then show ?thesis using to_int_back len by simp
  qed
  have eb: "holds_at data (off + 8 + 4) ?e" using H by (simp add: add.assoc)
  then have "length ?e < 2 ^ 32" by (auto simp: holds_at_def)
  then have ue: "unat (word_of_nat (length ?e) :: u32) = length ?e" by (simp add: unat_of_nat take_bit_eq_mod)
  have small: "((if isSmall f then 1 else 0 :: u8) \<noteq> 0) = isSmall f" by simp
  obtain g where g: "init_with_params (memory_consumption f) (eng f) (vn f) (vm f) (filled_cell f) (max_kick_steps f) (max_2_power f)
     (big_seg f) (isSmall f) (len4 f) (fp_len f) (T f) f0 = Inr g" "copies g f" using init_with_params_ok[OF wf t] by blast
  have lens: "read_many (combine_uint32_at data) 4 4 n = Inr (map int32 (len4 f), n + 4 * length (len4 f))"
    if "holds_at data n (concat (map (\<lambda>x. split_uint32 x []) (map int32 (len4 f))))" for n
    using get_many32[OF that] l4 by simp
  have "decode_filter tail data f0 off = Inr g"
    using H
    by (elim conjE) (simp only: decode_filter_def Let_def get32 get64 get_byte get_bytes rbind_simps u64 ue prod.case
      lens T get_many32 parse_decimal[OF tl] small I g(1))
  with g(2) show ?thesis by blast
qed

end
