(* ===== verification/Tracker_Set.thy ===== *)
theory Tracker_Set
  imports Tracker_Insert
begin

text \<open>
  \<open>DASS_Tracker::setValue\<close> on a known key: from revoked to valid (\<open>set_negative\<close>, which never
  needs a rebuild) and from valid to revoked (\<open>set_positive\<close>).
\<close>

lemma set_negative_ok:
  assumes I: "tracker_inv (tmpl e) s" and k: "k \<in> set (PK s)"
  shows "\<exists>f out. vf_del k (vf s) = Inr (True, f) \<and> set_negative e (k, 0) s = Inr out \<and> moved_to (tmpl e) s f (set_erase k (PK s)) (NK s @ [k]) out"
proof -
  note i = tracker_invD[OF I]
  have kN: "k \<notin> set (NK s)" using i(5) k by auto
  let ?t = "tmpl e" and ?P = "set_erase k (PK s)"
  let ?s1 = "s\<lparr>PK := ?P, NK := NK s @ [k]\<rparr>"
  obtain f where f: "vf_del k (vf s) = Inr (vf_tag (vf s) k \<in># cells (vf s), f)" "vf_wf f" "follows (vf s) f"
    "cells f = cells (vf s) - {# vf_tag (vf s) k #}" using vf_del_ok[OF i(1), of k] by metis
  have del: "vf_del k (vf s) = Inr (True, f)" using f(1) k by (simp add: i(2))
  have tg: "vf_tag f = vf_tag (vf s)" by (rule follows_vf_tag[OF f(3)])
  have vn: "vn f = vn (vf s)" by (rule follows_fields[OF f(3)])
  have cf: "cells f = image_mset (vf_tag f) (mset ?P)" unfolding f(4) i(2) tg mset_erase[OF i(3) k] by simp
  obtain p q where pq: "position_pair f k = Inr (int p, int q)" "buckets f k = {int p, int q}" "p \<noteq> q" "p < nat (vn f)" "q < nat (vn f)"
    by (rule position_rows[OF f(2)])
  let ?s2 = "?s1\<lparr>vf := f\<rparr>"
  have e: "vf ?s1 = vf s" "PK (s\<lparr>PK := P\<rparr>) = P" "NK (s\<lparr>PK := P\<rparr>) = NK s" for P by simp_all
  have e2: "vf ?s2 = f" "FPK_table ?s2 = FPK_table s" "TNK_table ?s2 = TNK_table s" "othello ?s2 = othello s" by simp_all
  have F: "rows_ok f (FPK_table s) {x \<in> set (NK s). hit (vf s) x}" "rows_ok f (TNK_table s) {x \<in> set (NK s). \<not> hit (vf s) x}"
    using rows_cong[OF i(6) tg vn] rows_cong[OF i(7) tg vn] .
  have h1: "hit (vf s) x" if "hit f x" for x using that unfolding tg f(4) by (rule in_diffD)
  have h2: "vf_tag f x = vf_tag f k" if "hit (vf s) x" "\<not> hit f x" for x
    by (rule ccontr) (use that in \<open>simp add: tg f(4) not_in_iff flip: count_greater_zero_iff\<close>)
  obtain s3 fl3 F' N' ot new where D: "demote ?t (int p) (?s2, []) = Inr (s3, fl3)"
      "demote ?t (int q) (s3, fl3) = Inr (?s2\<lparr>FPK_table := F', TNK_table := N', othello := ot\<rparr>, [] @ new)"
      "rows_ok f F' {x \<in> set (NK s). hit f x}" "rows_ok f N' {x \<in> set (NK s). \<not> hit f x}" "othello_inv ?t ot"
      "contents ot = (\<lambda>x. if x \<in> set (NK s) \<and> hit (vf s) x \<and> \<not> hit f x then None else contents (othello s) x)"
      "tells ?t (othello s) ot new"
    by (rule demote_both[where s = ?s2 and fl = "[]" and old = "hit (vf s)", unfolded e2, OF f(2) i(8) pq(2-5) F h1 h2])
  define s4 where "s4 = ?s2\<lparr>FPK_table := F', TNK_table := N', othello := ot\<rparr>"
  have s4: "othello s4 = ot" "PK s4 = ?P" "NK s4 = NK s @ [k]" "vf s4 = f" "FPK_table s4 = F'" "TNK_table s4 = N'" by (simp_all add: s4_def)
  have len: "p < length (FPK_table s4)" "q < length (FPK_table s4)" "p < length (TNK_table s4)" "q < length (TNK_table s4)"
    using pq(4,5) rows_length[OF D(3)] rows_length[OF D(4)] by (simp_all add: s4)
  have ck: "contents ot k = Some 1" unfolding D(6) using kN k by (simp add: i(9))
  note unf = set_negative_def Let_def prod.case set_insert_fresh[OF kN] e f(1) rbind_simps pq(1) D(1) D(2)[unfolded append_Nil, folded s4_def] s4 vf_lookup_ok[OF f(2)]
  have PN: "distinct ?P" "distinct (NK s @ [k])" "set ?P \<inter> set (NK s @ [k]) = {}"
    using i(3-5) kN by (auto simp: set_erase_simps)
  show ?thesis
  proof (cases "hit f k")
    case True
    define F2 where "F2 = F'[p := F' ! p @ [k], q := F' ! q @ [k]]"
    obtain ot' new' where V: "valueFlip_on_demand ?t (k, 0) (ot, new) = Inr (ot', new @ new')" "othello_inv ?t ot'"
      "contents ot' = (contents ot)(k \<mapsto> 0)" "noted ?t ot ot' new'" using valueFlip_ok[OF D(5), of k 0 new] ck by (metis option.distinct(1))
    let ?s' = "s4\<lparr>FPK_table := F2, othello := ot'\<rparr>"
    have run: "set_negative e (k, 0) s = Inr (new @ new', ?s')"
      unfolding unf if_P[OF True] push_pair[OF len(1,2) pq(3)] F2_def[symmetric] using V(1) by (simp add: s4)
    have s': "othello ?s' = ot'" "PK ?s' = ?P" "NK ?s' = NK s @ [k]" "vf ?s' = f" "FPK_table ?s' = F2" "TNK_table ?s' = N'" by (simp_all add: s4)
    have sets: "{x \<in> set (NK s @ [k]). hit f x} = insert k {x \<in> set (NK s). hit f x}"
      "{x \<in> set (NK s @ [k]). \<not> hit f x} = {x \<in> set (NK s). \<not> hit f x}" using True by auto
    have "tracker_inv ?t ?s'"
      unfolding tracker_inv_def s' sets
    proof (intro conjI f(2) cf PN D(4) V(2))
      show "rows_ok f F2 (insert k {x \<in> set (NK s). hit f x})"
        unfolding F2_def by (rule rows_push[OF D(3) _ pq(2,3)]) (use kN in simp)
      show "contents ot' = (\<lambda>x. if x \<in> set ?P then Some 1 else if x \<in> set (NK s @ [k]) \<and> hit f x then Some 0 else None)"
        unfolding V(3) D(6) i(9) using True kN h1 i(5) by (auto simp: fun_eq_iff set_erase_simps)
    qed
    with f(3) tells_trans[OF tells_one[OF D(5) V(2,4)] D(7)] run s' del show ?thesis by (simp add: moved_to_def)
  next
    case False
    define N2 where "N2 = N'[p := N' ! p @ [k], q := N' ! q @ [k]]"
    obtain ot' new' where V: "erase_on_demand ?t k NOKEY (ot, new) = Inr (ot', new @ new')" "othello_inv ?t ot'"
      "contents ot' = (contents ot)(k := None)" "noted ?t ot ot' new'" using erase_ok[OF D(5), of k new] by metis
    obtain v where v: "query ?t ot k = Inr v"
      by (cases "getIndices ?t ot k") (simp add: query_total[OF invD(2,3)[OF D(5)]])
    let ?s' = "s4\<lparr>TNK_table := N2, othello := ot'\<rparr>"
    have run: "set_negative e (k, 0) s = Inr (new @ new', ?s')"
      unfolding unf if_not_P[OF False] push_pair_TNK[OF len(3,4) pq(3)] N2_def[symmetric] using V(1) v by (simp add: s4)
    have s': "othello ?s' = ot'" "PK ?s' = ?P" "NK ?s' = NK s @ [k]" "vf ?s' = f" "FPK_table ?s' = F'" "TNK_table ?s' = N2" by (simp_all add: s4)
    have sets: "{x \<in> set (NK s @ [k]). \<not> hit f x} = insert k {x \<in> set (NK s). \<not> hit f x}"
      "{x \<in> set (NK s @ [k]). hit f x} = {x \<in> set (NK s). hit f x}" using False by auto
    have "tracker_inv ?t ?s'"
      unfolding tracker_inv_def s' sets
    proof (intro conjI f(2) cf PN D(3) V(2))
      show "rows_ok f N2 (insert k {x \<in> set (NK s). \<not> hit f x})"
        unfolding N2_def by (rule rows_push[OF D(4) _ pq(2,3)]) (use kN in simp)
      show "contents ot' = (\<lambda>x. if x \<in> set ?P then Some 1 else if x \<in> set (NK s @ [k]) \<and> hit f x then Some 0 else None)"
        unfolding V(3) D(6) i(9) using False kN h1 i(5) by (auto simp: fun_eq_iff set_erase_simps)
    qed
    with f(3) tells_trans[OF tells_one[OF D(5) V(2,4)] D(7)] run s' del show ?thesis by (simp add: moved_to_def)
  qed
qed

lemma set_positive_ok:
  assumes I: "tracker_inv (tmpl e) s" and k: "k \<in> set (NK s)"
    and room: "card (stored_keys (vf s) (PK s @ [k]) (set_erase k (NK s))) \<le> length (keys (othello s))"
    and ins: "vf_insert k (vf s) = Inr (r, f)"
  shows "\<exists>out. set_positive e (k, 1) s = Inr out \<and>
     outcome (tmpl e) s f (PK s @ [k]) (set_erase k (NK s))
       (r = 1 \<or> \<not> no_cycle (tmpl e) (othello s) (stored_keys (vf s) (PK s @ [k]) (set_erase k (NK s)))) out"
proof -
  note i = tracker_invD[OF I]
  have kP: "k \<notin> set (PK s)" using i(5) k by auto
  let ?t = "tmpl e" and ?N = "set_erase k (NK s)"
  let ?K = "stored_keys (vf s) (PK s @ [k]) ?N"
  have sN: "set ?N = set (NK s) - {k}" "distinct ?N" using i(4) by (simp_all add: set_erase_simps)
  obtain p1 p2 where pp: "position_pair (vf s) k = Inr (int p1, int p2)" "buckets (vf s) k = {int p1, int p2}" "p1 \<noteq> p2"
    "p1 < nat (vn (vf s))" "p2 < nat (vn (vf s))" by (rule position_rows[OF i(1)])
  let ?s1 = "s\<lparr>NK := ?N, PK := PK s @ [k]\<rparr>"
  have e: "vf ?s1 = vf s" "PK (s\<lparr>NK := N\<rparr>) = PK s" "FPK_table ?s1 = FPK_table s" "TNK_table ?s1 = TNK_table s" for N by simp_all
  obtain F0 N0 where Z: "(if hit (vf s) k then rbind (remove_FPK (int p1) k ?s1) (remove_FPK (int p2) k)
      else rbind (remove_TNK (int p1) k ?s1) (remove_TNK (int p2) k)) = Inr (?s1\<lparr>FPK_table := F0, TNK_table := N0\<rparr>)"
    "rows_ok (vf s) F0 {x \<in> set ?N. hit (vf s) x}" "rows_ok (vf s) N0 {x \<in> set ?N. \<not> hit (vf s) x}"
  proof (cases "hit (vf s) k")
    case True
    have s: "{x \<in> set ?N. hit (vf s) x} = {x \<in> set (NK s). hit (vf s) x} - {k}" "{x \<in> set ?N. \<not> hit (vf s) x} = {x \<in> set (NK s). \<not> hit (vf s) x}"
      using True by (auto simp: sN)
    show thesis
      by (rule that[OF _ rows_remove[OF i(6) pp(2), folded s] i(7)[folded s]])
        (use True pp rows_length[OF i(6)] in \<open>simp add: remove_pair\<close>)
  next
    case False
    have s: "{x \<in> set ?N. \<not> hit (vf s) x} = {x \<in> set (NK s). \<not> hit (vf s) x} - {k}" "{x \<in> set ?N. hit (vf s) x} = {x \<in> set (NK s). hit (vf s) x}"
      using False by (auto simp: sN)
    show thesis
      by (rule that[OF _ i(6)[folded s] rows_remove[OF i(7) pp(2), folded s]])
        (use False pp rows_length[OF i(7)] in \<open>simp add: remove_pair_TNK\<close>)
  qed
  define s2 where "s2 = ?s1\<lparr>FPK_table := F0, TNK_table := N0\<rparr>"
  have s2: "vf s2 = vf s" "FPK_table s2 = F0" "TNK_table s2 = N0" "othello s2 = othello s" "PK s2 = PK s @ [k]" "NK s2 = ?N"
    by (simp_all add: s2_def)
  have "inserted (vf s) (vf_tag (vf s) k) (r, f)" using vf_insert_ok[OF i(1), of k] ins by auto
  then have r01: "r = 0 \<or> r = 1" and fo: "follows (vf s) f" by (auto simp: inserted_def)
  note unf = set_positive_def Let_def prod.case set_insert_fresh[OF kP] e vf_lookup_ok[OF i(1)] pp(1) rbind_simps Z(1)[folded s2_def] s2(1) ins
  show ?thesis
  proof (cases "r = 1")
    case True
    then have "set_positive e (k, 1) s = Inr ([REBUILD], s2\<lparr>vf := f\<rparr>)" unfolding unf by simp
    with True show ?thesis by (simp add: outcome_def s2 fo)
  next
    case False
    with r01 ins have ins0: "vf_insert k (vf s) = Inr (0, f)" by simp
    define K where "K = dom (contents (othello s)) \<union> {x \<in> set ?N. vf_tag (vf s) x \<in> vf_tag (vf s) ` set (PK s @ [k])}"
    have K: "?K = insert k K" "finite K"
      unfolding K_def tracker_stored[OF I] using k by (auto simp: stored_keys_def sN)
    have cK: "card (insert k K) \<le> length (keys (othello s))" using room unfolding K(1) .
    then have cK': "card K \<le> length (keys (othello s))" using card_mono[of "insert k K" K, OF _ subset_insertI] K(2) by simp
    have none: "contents (othello s) x = None" if "x \<in> set ?N" "\<not> hit (vf s) x" for x using that i(5) by (auto simp: i(9) sN)
    show ?thesis
    proof (rule raise_both[of s2 "PK s" "set ?N" ?t K k f, unfolded s2, OF i(1,2) Z(2,3) i(8) none finite_set K_def cK' ins0])
      fix p q assume pq: "position_pair f k = Inr (int p, int q)" and f: "vf_wf f" "cells f = image_mset (vf_tag f) (mset (PK s @ [k]))" "follows (vf s) f"
        and R: "(\<exists>s3 fl3. promote ?t False (int p) (s2\<lparr>vf := f\<rparr>, []) = Inr (False, s3, fl3) \<and> kept_sets (s2\<lparr>vf := f\<rparr>) s3 \<and> \<not> no_cycle ?t (othello s) K) \<or>
         (\<exists>s3 fl3 F' N' ot new. promote ?t False (int p) (s2\<lparr>vf := f\<rparr>, []) = Inr (True, s3, fl3) \<and>
          promote ?t True (int q) (s3, fl3) = Inr (True, s2\<lparr>vf := f, FPK_table := F', TNK_table := N', othello := ot\<rparr>, new) \<and>
          rows_ok f F' {x \<in> set ?N. hit f x} \<and> rows_ok f N' {x \<in> set ?N. \<not> hit f x} \<and> othello_inv ?t ot \<and>
          contents ot = (\<lambda>x. if x \<in> set ?N \<and> \<not> hit (vf s) x \<and> hit f x then Some 0 else contents (othello s) x) \<and>
          keyCnt ot \<le> card K \<and> length (keys ot) = length (keys (othello s)) \<and> tells ?t (othello s) ot new)" (is "?A \<or> ?B")
      from R show ?thesis
      proof
        assume ?A
        then obtain s3 fl3 where A: "promote ?t False (int p) (s2\<lparr>vf := f\<rparr>, []) = Inr (False, s3, fl3)" "kept_sets (s2\<lparr>vf := f\<rparr>) s3" "\<not> no_cycle ?t (othello s) K"
          by (elim exE conjE) (rule that)
        have "set_positive e (k, 1) s = Inr ([REBUILD], s3)"
          unfolding unf if_not_P[OF False] pq A(1) by (simp only: rbind_simps prod.case not_False_eq_True if_True)
        moreover have "\<not> no_cycle ?t (othello s) ?K" using A(3) no_cycle_mono[of ?t "othello s" ?K K] K(1) by blast
        ultimately show ?thesis using kept_fields[OF A(2)] by (simp add: outcome_def s2 fo)
      next
        assume ?B
        then obtain s3 fl3 F' N' ot new where B: "promote ?t False (int p) (s2\<lparr>vf := f\<rparr>, []) = Inr (True, s3, fl3)"
          "promote ?t True (int q) (s3, fl3) = Inr (True, s2\<lparr>vf := f, FPK_table := F', TNK_table := N', othello := ot\<rparr>, new)"
          "rows_ok f F' {x \<in> set ?N. hit f x}" "rows_ok f N' {x \<in> set ?N. \<not> hit f x}" "othello_inv ?t ot"
          "contents ot = (\<lambda>x. if x \<in> set ?N \<and> \<not> hit (vf s) x \<and> hit f x then Some 0 else contents (othello s) x)"
          "keyCnt ot \<le> card K" "length (keys ot) = length (keys (othello s))" "tells ?t (othello s) ot new"
          by (elim exE conjE) (rule that)
        define s4 where "s4 = s2\<lparr>vf := f, FPK_table := F', TNK_table := N', othello := ot\<rparr>"
        have s4: "othello s4 = ot" "PK s4 = PK s @ [k]" "NK s4 = ?N" "vf s4 = f" "FPK_table s4 = F'" "TNK_table s4 = N'" by (simp_all add: s4_def s2)
        note run = unf if_not_P[OF False] pq B(1) B(2)[folded s4_def] rbind_simps prod.case not_True_eq_False if_False s4(1) isMember_ok[OF B(5)]
        have "dom (contents ot) = K"
        proof (rule set_eqI)
          fix x
          have "x \<in> K \<longleftrightarrow> x \<in> dom (contents (othello s)) \<or> x \<in> set ?N \<and> hit f x"
            unfolding K_def f(2) by (simp add: image_iff follows_vf_tag[OF f(3)])
          then show "x \<in> dom (contents ot) \<longleftrightarrow> x \<in> K" using i(5) by (auto simp: B(6) i(9) sN split: if_splits)
        qed
        then have dK: "insert k (dom (contents ot)) = ?K" using K(1) by simp
        note P = tells_plane[OF B(9)]
        have fin: "\<exists>out. Inr (new @ new', s4\<lparr>othello := ot'\<rparr>) = Inr out \<and> outcome ?t s f (PK s @ [k]) ?N (r = 1 \<or> \<not> no_cycle ?t (othello s) ?K) out"
          if C: "othello_inv ?t ot'" "contents ot' = (contents ot)(k \<mapsto> 1)" "tells ?t ot ot' new'" for ot' new'
        proof -
          have "moved_to ?t s f (PK s @ [k]) ?N (new @ new', s4\<lparr>othello := ot'\<rparr>)"
            by (rule moved_positive[OF I kP sN B(3,4) f C(1) C(2)[unfolded B(6)] tells_trans[OF C(3) B(9)]]) (use s4 in simp_all)
          moreover have "no_cycle ?t (othello s) ?K"
            using stored_no_cycle[OF C(1)] unfolding C(2) no_cycle_plane[OF tells_plane[OF tells_trans[OF C(3) B(9)]]] by (simp add: dK)
          ultimately show ?thesis using False s4 by (simp add: outcome_def fo)
        qed
        show ?thesis
        proof (cases "k \<in> dom (contents ot)")
          case True
          obtain ot' new' where V: "valueFlip_on_demand ?t (k, 1) (ot, new) = Inr (ot', new @ new')" "othello_inv ?t ot'"
            "contents ot' = (contents ot)(k \<mapsto> 1)" "noted ?t ot ot' new'" using valueFlip_ok[OF B(5), of k 1 new] True by (metis domIff)
          have "set_positive e (k, 1) s = Inr (new @ new', s4\<lparr>othello := ot'\<rparr>)"
            unfolding run if_P[OF True] V(1) by (simp only: rbind_simps prod.case)
          with fin[OF V(2,3) tells_one[OF B(5) V(2,4)]] show ?thesis by simp
        next
          case out: False
          then have ko: "contents ot k = None" by auto
          have n: "keyCnt ot < length (keys ot)"
            using cK out B(8) keyCnt_card[OF B(5)] \<open>dom (contents ot) = K\<close> K(2) by simp
          have R: "set_positive e (k, 1) s = othello_insert ?t (k, 1) (s4, new)" unfolding run if_not_P[OF out] ..
          show ?thesis unfolding R
          proof (rule othello_insert_cases[of ?t s4 k 1 new, unfolded s4, OF B(5) n ko])
            fix ot' assume C: "othello_insert ?t (k, 1) (s4, new) = Inr ([REBUILD], s4\<lparr>othello := ot'\<rparr>)" "\<not> no_cycle ?t ot (insert k (dom (contents ot)))"
            then show "\<exists>out. othello_insert ?t (k, 1) (s4, new) = Inr out \<and> outcome ?t s f (PK s @ [k]) ?N (r = 1 \<or> \<not> no_cycle ?t (othello s) ?K) out"
              unfolding dK no_cycle_plane[OF P] by (simp add: outcome_def s4 fo)
          next
            fix ot' new' assume C: "othello_insert ?t (k, 1) (s4, new) = Inr (new @ new', s4\<lparr>othello := ot'\<rparr>)" "othello_inv ?t ot'"
              "contents ot' = (contents ot)(k \<mapsto> 1)" "tells ?t ot ot' new'"
            show "\<exists>out. othello_insert ?t (k, 1) (s4, new) = Inr out \<and> outcome ?t s f (PK s @ [k]) ?N (r = 1 \<or> \<not> no_cycle ?t (othello s) ?K) out"
              unfolding C(1) by (rule fin[OF C(2-4)])
          qed
        qed
      qed
    qed
  qed
qed

end
