(* ===== verification/Verifier_Follow.thy ===== *)
theory Verifier_Follow
  imports Tracker_Set Vacuum_Copy
begin

text \<open>
  The device follows the server: installed from the tracker, it holds a copy of the filter and an
  Othello data plane in sync; applying the update the server applied, with the positions the
  server reported, keeps it so, and it answers every lookup as the server does.
\<close>

subsection \<open>Positions told to the device\<close>

lemma tells_positions: "tells t a b fl \<Longrightarrow> j \<in> set fl \<Longrightarrow> j < nodes a"
proof (induction rule: tells.induct)
  case (more b c fl d new)
  then have "nodes c = nodes b" using tells_plane[OF more(1)] by (simp add: same_plane_def nodes_def)
  with more show ?case by (auto simp: noted_def)
qed simp

text \<open>A list of positions is never mistaken for the request of a rebuild.\<close>

lemma tells_not_rebuild: "othello_inv t a \<Longrightarrow> tells t a b fl \<Longrightarrow> \<not> (length fl = 1 \<and> fl ! 0 = REBUILD)"
proof
  assume a: "othello_inv t a" "tells t a b fl" "length fl = 1 \<and> fl ! 0 = REBUILD"
  then have "REBUILD \<in> set fl" by (metis nth_mem zero_less_one)
  with tells_positions[OF a(2)] have "REBUILD < nodes a" .
  with invD(3)[OF a(1)] show False by (simp add: sizes_def nodes_def REBUILD_def)
qed

subsection \<open>A device in step with the tracker\<close>

definition in_step :: "u64 template \<Rightarrow> tracker \<Rightarrow> verifier \<Rightarrow> bool" where
  "in_step t s d \<longleftrightarrow> synced t (othello s) (v_othello d) \<and> copies (v_vf d) (vf s)"

lemma install_in_step:
  assumes "tracker_inv t s"
  shows "\<exists>d'. verifier_install s d = Inr d' \<and> in_step t s d'"
proof -
  note i = tracker_invD[OF assms]
  obtain g where "vf_assign (v_vf d) (vf s) = Inr g" "copies g (vf s)" using copies_assign[OF i(1)] by blast
  then show ?thesis using fullSync_synced[OF invD(3)[OF i(8)]]
    by (simp add: verifier_install_def in_step_def dplane_of_def)
qed

lemma in_step_query:
  assumes I: "tracker_inv (tmpl e) s" and S: "in_step (tmpl e) s d"
  shows "verifier_query (tmpl e) d k = tracker_query e s k"
proof -
  note i = tracker_invD[OF I]
  obtain v where "dp_query (tmpl e) (v_othello d) k = Inr (True, v)" "query (tmpl e) (othello s) k = Inr (Some v)"
    using synced_query[OF invD(2,3)[OF i(8)]] S unfolding in_step_def by blast
  moreover have "vf_lookup (v_vf d) k = vf_lookup (vf s) k" using S copies_lookup[OF i(1)] by (simp add: in_step_def)
  ultimately show ?thesis by (simp add: verifier_query_def tracker_query_def othello_value_def cong: if_cong)
qed

lemma flip_in_step:
  assumes "tL t = 1" "synced t (othello s) (v_othello d)" "tells t (othello s) ot fl" "copies g (vf s')" "othello s' = ot"
  shows "\<exists>d'. flip_bits fl (d\<lparr>v_vf := g\<rparr>) = Inr d' \<and> in_step t s' d'"
proof -
  obtain p where "mem_value_flipping fl (v_othello d) = Inr p" "synced t ot p"
    using tells_synced[OF assms(3,1,2)] by blast
  with assms(4,5) show ?thesis by (simp add: flip_bits_def in_step_def)
qed

lemma no_flip: "mem_value_flipping [] dp = Inr dp"
  by (simp add: mem_value_flipping_def)

lemma device_insert_positive:
  assumes I: "tracker_inv t s" and L: "tL t = 1" and S: "in_step t s d" and ins: "vf_insert k (vf s) = Inr (0, f)"
    and M: "moved_to t s f P N (fl, s')"
  shows "\<exists>d'. verifier_insert t (k, 1) fl d = Inr d' \<and> in_step t s' d'"
proof -
  note i = tracker_invD[OF I]
  have m: "vf s' = f" "tells t (othello s) (othello s') fl" using M by (simp_all add: moved_to_def)
  have s: "synced t (othello s) (v_othello d)" "copies (v_vf d) (vf s)" using S by (simp_all add: in_step_def)
  obtain v where q: "dp_query t (v_othello d) k = Inr v" using synced_query[OF invD(2,3)[OF i(8)] s(1), of k] by blast
  obtain g where g: "vf_insert k (v_vf d) = Inr (0, g)" "copies g f" using copies_insert[OF i(1) s(2) ins] by blast
  obtain d' where d': "flip_bits fl (d\<lparr>v_vf := g\<rparr>) = Inr d'" "in_step t s' d'"
    using flip_in_step[OF L s(1) m(2), of g] g(2) m(1) by blast
  have nr: "\<not> (length fl = 1 \<and> fl ! 0 = REBUILD)" by (rule tells_not_rebuild[OF i(8) m(2)])
  show ?thesis
  proof (cases "fl = []")
    case True
    then show ?thesis using d' q g(1) by (simp add: verifier_insert_def flip_bits_def no_flip)
  next
    case False
    then show ?thesis using d' q g(1) nr by (auto simp: verifier_insert_def)
  qed
qed

lemma device_insert_negative:
  assumes I: "tracker_inv t s" and L: "tL t = 1" and S: "in_step t s d"
    and M: "moved_to t s (vf s) P N (fl, s')" and h: "\<not> hit (vf s) k \<longrightarrow> fl = []"
  shows "\<exists>d'. verifier_insert t (k, 0) fl d = Inr d' \<and> in_step t s' d'"
proof -
  note i = tracker_invD[OF I]
  have m: "vf s' = vf s" "tells t (othello s) (othello s') fl" using M by (simp_all add: moved_to_def)
  have s: "synced t (othello s) (v_othello d)" "copies (v_vf d) (vf s)" using S by (simp_all add: in_step_def)
  obtain v where q: "dp_query t (v_othello d) k = Inr v" using synced_query[OF invD(2,3)[OF i(8)] s(1), of k] by blast
  have "\<exists>d'. flip_bits fl (d\<lparr>v_vf := v_vf d\<rparr>) = Inr d' \<and> in_step t s' d'"
    by (rule flip_in_step[OF L s(1) m(2)]) (simp_all add: s(2) m(1))
  then obtain d' where d': "flip_bits fl d = Inr d'" "in_step t s' d'" by auto
  have nr: "\<not> (length fl = 1 \<and> fl ! 0 = REBUILD)" by (rule tells_not_rebuild[OF i(8) m(2)])
  have lk: "vf_lookup (v_vf d) k = Inr (hit (vf s) k)" using copies_lookup[OF i(1) s(2)] vf_lookup_ok[OF i(1)] by simp
  show ?thesis
  proof (cases "fl = []")
    case True
    then show ?thesis using d' q by (simp add: verifier_insert_def flip_bits_def no_flip)
  next
    case False
    then show ?thesis using d' q nr h lk by (auto simp: verifier_insert_def)
  qed
qed

lemma device_setValue:
  fixes e :: env
  assumes I: "tracker_inv (tmpl e) s" and L: "tL (tmpl e) = 1" and S: "in_step (tmpl e) s d"
    and M: "moved_to (tmpl e) s f P N (fl, s')"
    and c: "k \<in> set (PK s) \<and> v = 0 \<and> vf_del k (vf s) = Inr (b, f) \<or> k \<in> set (NK s) \<and> v = 1 \<and> vf_insert k (vf s) = Inr (r, f)"
  shows "\<exists>d'. verifier_setValue (tmpl e) (k, v) fl d = Inr d' \<and> in_step (tmpl e) s' d'"
proof -
  note i = tracker_invD[OF I]
  let ?t = "tmpl e"
  have m: "vf s' = f" "tells ?t (othello s) (othello s') fl" using M by (simp_all add: moved_to_def)
  have s: "synced ?t (othello s) (v_othello d)" "copies (v_vf d) (vf s)" using S by (simp_all add: in_step_def)
  have nr: "\<not> (length fl = 1 \<and> fl ! 0 = REBUILD)" by (rule tells_not_rebuild[OF i(8) m(2)])
  have fin: "\<exists>d'. (if fl = [] \<or> length fl = 1 \<and> fl ! 0 = REBUILD then Inr (d\<lparr>v_vf := g\<rparr>) else flip_bits fl (d\<lparr>v_vf := g\<rparr>)) = Inr d' \<and> in_step ?t s' d'"
    if g: "copies g f" for g
  proof -
    obtain d' where d': "flip_bits fl (d\<lparr>v_vf := g\<rparr>) = Inr d'" "in_step ?t s' d'"
      using flip_in_step[OF L s(1) m(2), of g] g m(1) by blast
    then show ?thesis using nr by (cases "fl = []") (auto simp: flip_bits_def no_flip)
  qed
  have q: "verifier_query ?t d k = Inr (if k \<in> set (PK s) then 1 else 0)"
    unfolding in_step_query[OF I S] by (rule tracker_query_ok[OF I _ L]) (use c in auto)
  from c show ?thesis
  proof
    assume a: "k \<in> set (PK s) \<and> v = 0 \<and> vf_del k (vf s) = Inr (b, f)"
    obtain g where "vf_del k (v_vf d) = Inr (b, g)" "copies g f" using copies_del[OF i(1) s(2)] a by blast
    with fin a q show ?thesis by (simp add: verifier_setValue_def Let_def)
  next
    assume a: "k \<in> set (NK s) \<and> v = 1 \<and> vf_insert k (vf s) = Inr (r, f)"
    then have "k \<notin> set (PK s)" using i(5) by auto
    obtain g where "vf_insert k (v_vf d) = Inr (r, g)" "copies g f" using copies_insert[OF i(1) s(2)] a by blast
    with fin a q \<open>k \<notin> set (PK s)\<close> show ?thesis by (simp add: verifier_setValue_def Let_def)
  qed
qed

end
