(* ===== verification/Delivery.thy ===== *)
theory Delivery
  imports Client Wire Verifier_Follow
begin

text \<open>
  How messages reach a device: the chunks \<open>recv\<close> may return for a message, and the effect of a
  full update on a device that reads it.
\<close>

subsection \<open>Messages\<close>

definition delivers :: "u8 list list \<Rightarrow> u8 list \<Rightarrow> bool" where
  "delivers chunks data \<longleftrightarrow> chunks \<noteq> [] \<and> concat chunks = data \<and>
     (\<forall>c \<in> set (butlast chunks). ends_finish c = Inr False) \<and> ends_finish (last chunks) = Inr True"

lemma read_message_ok:
  "(\<forall>c \<in> set cs. ends_finish c = Inr False) \<Longrightarrow> ends_finish l = Inr True \<Longrightarrow> read_message (cs @ [l]) m = Inr (m @ concat cs @ l)"
  by (induction cs arbitrary: m) simp_all

lemma delivers_read: "delivers chunks data \<Longrightarrow> read_message chunks [] = Inr data"
  using read_message_ok[of "butlast chunks" "last chunks" "[]"]
  by (simp add: delivers_def) (metis append_butlast_last_id concat.simps concat_append append_Nil2)

lemma ends_finish_mark: "ends_finish (xs @ finish_mark) = Inr True"
  by (simp add: ends_finish_def finish_mark_def)

lemma delivers_one: "delivers [xs @ finish_mark] (xs @ finish_mark)"
  by (simp add: delivers_def ends_finish_mark)

subsection \<open>Full updates\<close>

lemma split_fold: "fold (\<lambda>i v. split_uint32 (g i) v) xs v = v @ concat (map (\<lambda>x. split_uint32 x []) (map g xs))"
proof (induction xs arbitrary: v)
  case (Cons x xs)
  have "split_uint32 (g x) v = v @ split_uint32 (g x) []" by (simp add: split_uint32_eq)
  with Cons show ?case by simp
qed simp

lemma encode_full_ok:
  assumes wf: "vf_wf (v_vf (vo_data c))" and i: "vf_ints (v_vf (vo_data c))"
  shows "\<exists>v. encode_full c = Inr v \<and> concat v = othello_bytes (v_othello (vo_data c)) @ filter_bytes (v_vf (vo_data c))"
proof -
  let ?f = "v_vf (vo_data c)"
  have len: "length (T ?f) = memory_consumption ?f div 4" using wf by (simp add: vf_wf_def vf_geom_def)
  have l4: "length (len4 ?f) = 4" and mc: "memory_consumption ?f < 2 ^ 33" using i by (simp_all add: vf_ints_def)
  have "in32 (int (memory_consumption ?f div 4))" using mc by (simp add: in32_def)
  then have T: "nat (to_int (int (memory_consumption ?f div 4))) = length (T ?f)" using to_int_back len by simp
  have R: "rfold (\<lambda>i v. rbind (vat (T ?f) i) (\<lambda>x. Inr (split_uint32 x v))) [0..<n] [] = Inr (concat (map (\<lambda>x. split_uint32 x []) (take n (T ?f))))"
    if "n \<le> length (T ?f)" for n
    using that
  proof (induction n)
    case (Suc n)
    let ?v = "concat (map (\<lambda>x. split_uint32 x []) (take n (T ?f)))"
    have "split_uint32 (T ?f ! n) ?v = ?v @ split_uint32 (T ?f ! n) []" by (simp add: split_uint32_eq)
    with Suc show ?case by (simp add: rfold_append take_Suc_conv_app_nth)
  qed simp
  have L: "fold (\<lambda>i v. split_uint32 (int32 (len4 ?f ! i)) v) [0, 1, 2, 3] [] = concat (map (\<lambda>x. split_uint32 x []) (map int32 (len4 ?f)))"
  proof -
    obtain w x y z where "len4 ?f = [w, x, y, z]" using four_elements[OF l4] by blast
    then have "map (\<lambda>i. len4 ?f ! i) [0, 1, 2, 3] = len4 ?f" by (simp add: numeral_2_eq_2 numeral_3_eq_3)
    then have "map (\<lambda>i. int32 (len4 ?f ! i)) [0, 1, 2, 3] = map int32 (len4 ?f)"
      using map_map[of int32 "\<lambda>i. len4 ?f ! i" "[0, 1, 2, 3]"] unfolding comp_def by (simp only:)
    then show ?thesis unfolding split_fold by (simp only: append_Nil)
  qed
  show ?thesis
    unfolding encode_full_def Let_def T R[OF order_refl] L rbind_simps
    by (simp add: othello_bytes_def filter_bytes_def split_uint64_vector_eq convert_string_eq split_uint32_eq)
qed

lemma decode_full_ok:
  assumes s: "full_stream c = Inr data" "length data < 2 ^ 32"
    and f: "vf_wf (v_vf (vo_data c))" "vf_ints (v_vf (vo_data c))" "dma (v_othello (vo_data c)) < 2 ^ 32" "dmb (v_othello (vo_data c)) < 2 ^ 32"
    and d: "tables_sized (v_vf d)" "takeWhile is_digit tail = []"
  shows "\<exists>d'. decode_full tail data d = Inr d' \<and> v_othello d' = v_othello (vo_data c) \<and> copies (v_vf d') (v_vf (vo_data c))"
proof -
  let ?o = "v_othello (vo_data c)" and ?f = "v_vf (vo_data c)"
  obtain v where v: "encode_full c = Inr v" "concat v = othello_bytes ?o @ filter_bytes ?f" using encode_full_ok[OF f(1,2)] by blast
  then have data: "data = [70] @ (othello_bytes ?o @ filter_bytes ?f) @ finish_mark" using s(1) by (simp add: full_stream_def)
  have "holds_at data (length [70 :: u8]) (othello_bytes ?o @ filter_bytes ?f)"
    unfolding data by (rule holds_at_self) (use s(2) data in simp)
  then have H: "holds_at data 1 (othello_bytes ?o)" "holds_at data (1 + length (othello_bytes ?o)) (filter_bytes ?f)"
    by (simp_all add: holds_at_append)
  have "length (dmem ?o) \<le> length (othello_bytes ?o)"
    by (simp add: othello_bytes_def be64.concat_length)
  also have "\<dots> \<le> length data" unfolding data by simp
  finally have m: "length (dmem ?o) < 2 ^ 32" using s(2) by simp
  obtain g where g: "decode_filter tail data (v_vf d) (1 + length (othello_bytes ?o)) = Inr g" "copies g ?f"
    using decode_filter_ok[OF H(2) f(1,2) d] by blast
  have "dplane_new (dmem ?o) (dma ?o) (dmb ?o) (dhab ?o) (dhd ?o) = ?o" by (simp add: dplane_new_def)
  with g show ?thesis by (simp add: decode_full_def decode_othello_ok[OF H(1) m f(3,4)] del: One_nat_def)
qed

lemma in_step_fields: "in_step t s d \<Longrightarrow> tracker_inv t s \<Longrightarrow>
    vf_wf (v_vf d) \<and> dma (v_othello d) < 2 ^ 32 \<and> dmb (v_othello d) < 2 ^ 32"
proof -
  assume h: "in_step t s d" "tracker_inv t s"
  have "vf_wf (v_vf d)" using copies_image(1)[OF tracker_invD(1)[OF h(2)]] h(1) by (simp add: in_step_def)
  moreover have "sizes t (othello s)" using invD(3)[OF tracker_invD(8)[OF h(2)]] .
  ultimately show ?thesis using h(1) by (auto simp: in_step_def synced_def sizes_def nodes_def)
qed

text \<open>A device that reads a full update is in step with the state it was encoded from.\<close>

lemma full_update_in_step:
  assumes s: "full_stream c = Inr data" "length data < 2 ^ 32" and i: "tracker_inv t tr" "in_step t tr (vo_data c)" "vf_ints (v_vf (vo_data c))"
    and d: "tables_sized (v_vf (dassVerifier cl))" "takeWhile is_digit tail = []" "queryLock cl = False" "delivers chunks data"
  shows "\<exists>cl'. receive_update t tail chunks cl = Inr (''FullDone'', cl') \<and> in_step t tr (dassVerifier cl') \<and> queryLock cl' = False"
proof -
  note F = in_step_fields[OF i(2,1)]
  obtain d' where d': "decode_full tail data (dassVerifier cl) = Inr d'" "v_othello d' = v_othello (vo_data c)" "copies (v_vf d') (v_vf (vo_data c))"
    using decode_full_ok[OF s, of "dassVerifier cl" tail] F i(3) d(1,2) by auto
  have "in_step t tr d'" using i(2) d'(2,3) copies_trans by (auto simp: in_step_def)
  moreover obtain v where "data = [70] @ v @ finish_mark" using s(1) by (auto simp: full_stream_def rbind_eq_Inr)
  ultimately show ?thesis using d' d(3) by (simp add: receive_update_def delivers_read[OF d(4)])
qed

end
