(* ===== verification/Service.thy ===== *)
theory Service
  imports Delivery
begin

text \<open>
  The operations of the server (\<open>src/TinyCR/TinyCRServer.h\<close>) that end without a rebuild: they change the
  directory of certificates by one key, and the summary they send brings every device that was in
  step before in step with the new state, however the summary is cut into chunks.
\<close>

subsection \<open>Summaries\<close>

lemma one_summary: "encode_batch_summary [(k, v)] [a] c = Inr ([1] @ entry a k v (flipped_indexes c))"
  by (simp add: encode_batch_summary_def encode_summary_entry)

lemma decode_batch_one:
  assumes "length ([1] @ entry a k v fl @ rest) < 2 ^ 32" "\<forall>j \<in> set fl. j < 2 ^ 32"
  shows "decode_batch_summary t ([1] @ entry a k v fl @ rest) d = apply_action t (a, k, v, take (length fl mod 256) fl) d"
proof -
  let ?data = "[1] @ entry a k v fl @ rest"
  have "holds_at ?data (length [1 :: u8]) (entry a k v fl)" by (rule holds_at_self[OF assms(1)])
  then have "read_entry ?data 1 = Inr ((a, k, v, take (length fl mod 256) fl), 1 + 14 + 4 * (length fl mod 256))"
    using read_entry_ok assms(2) by simp
  moreover have "[0..<1] = [0 :: nat]" by simp
  ultimately show ?thesis by (simp add: decode_batch_summary_def decode_sub_summary_def rbind_assoc del: One_nat_def)
qed

lemma summary_received:
  assumes "delivers chunks ([1] @ entry a k v fl @ finish_mark)" "length fl < 256" "\<forall>j \<in> set fl. j < 2 ^ 32" "\<not> queryLock cl"
    and "apply_action t (a, k, v, fl) (dassVerifier cl) = Inr d'"
  shows "receive_update t tail chunks cl = Inr (''SummaryDone'', cl\<lparr>dassVerifier := d'\<rparr>)"
proof -
  have "length ([1] @ entry a k v fl @ finish_mark) < 2 ^ 32" using assms(2) by (simp add: entry_length finish_mark_def)
  from decode_batch_one[OF this assms(3), of t "dassVerifier cl"] show ?thesis
    using assms(2,4,5) by (simp add: receive_update_def delivers_read[OF assms(1)])
qed

subsection \<open>From the tracker of the server to a device\<close>

text \<open>Whatever device is in step before the message is in step after it, however it is cut into chunks.\<close>

definition carries :: "u64 template \<Rightarrow> tracker \<Rightarrow> tracker \<Rightarrow> u8 list \<Rightarrow> bool" where
  "carries t tr tr' msg \<longleftrightarrow> (\<forall>cl chunks tail. in_step t tr (dassVerifier cl) \<longrightarrow> \<not> queryLock cl \<longrightarrow> delivers chunks msg \<longrightarrow>
     takeWhile is_digit tail = [] \<longrightarrow>
     (\<exists>reply cl'. receive_update t tail chunks cl = Inr (reply, cl') \<and> in_step t tr' (dassVerifier cl') \<and> \<not> queryLock cl'))"

lemma tells_small: "othello_inv t a \<Longrightarrow> tells t a b fl \<Longrightarrow> \<forall>j \<in> set fl. j < 2 ^ 32"
  using tells_positions invD(3) by (fastforce simp: sizes_def)

lemma carriesI:
  assumes "\<And>d. in_step t tr d \<Longrightarrow> \<exists>d'. apply_action t (a, k, v, fl) d = Inr d' \<and> in_step t tr' d'"
    and "length fl < 256" "\<forall>j \<in> set fl. j < 2 ^ 32"
  shows "carries t tr tr' ([1] @ entry a k v fl @ finish_mark)"
  unfolding carries_def
proof (intro allI impI)
  fix cl :: client and chunks tail
  assume h: "in_step t tr (dassVerifier cl)" "\<not> queryLock cl" "delivers chunks ([1] @ entry a k v fl @ finish_mark)"
  then obtain d' where "apply_action t (a, k, v, fl) (dassVerifier cl) = Inr d'" "in_step t tr' d'" using assms(1) by blast
  with summary_received[OF h(3) assms(2,3) h(2)] h(2)
  show "\<exists>reply cl'. receive_update t tail chunks cl = Inr (reply, cl') \<and> in_step t tr' (dassVerifier cl') \<and> \<not> queryLock cl'" by auto
qed

text \<open>The update of the server's tracker and its summary.\<close>

lemma to_all_hosts:
  "\<forall>h \<in> set hs. reach h \<Longrightarrow>
     rfold (\<lambda>host sent. if reach host then Inr (sent @ [(host, m)]) else Inl Exit) hs sent = Inr (sent @ map (\<lambda>h. (h, m)) hs)"
  by (induction hs arbitrary: sent) simp_all

lemma send_summary:
  assumes "\<forall>h \<in> set (connectedDevices s). reach h"
  shows "sendSummaryUpdate reach [(k, v)] [a] s =
    Inr (True, map (\<lambda>h. (h, [1] @ entry a k v (flipped_indexes (dassTracker s)) @ finish_mark)) (connectedDevices s))"
  unfolding sendSummaryUpdate_def one_summary rbind_simps append_assoc to_all_hosts[OF assms] by simp

lemma quiet_update:
  assumes "\<not> (length fl = 1 \<and> fl ! 0 = REBUILD)"
  shows "after_update e (fl, tr) c = Inr (True, c\<lparr>flipped_indexes := fl, vo_control := tr\<rparr>)"
  by (simp only: after_update_def Let_def prod.case if_not_P[OF assms])

lemma moved_not_rebuild: "tracker_inv t s \<Longrightarrow> moved_to t s f P N (fl, s') \<Longrightarrow> \<not> (length fl = 1 \<and> fl ! 0 = REBUILD)"
  unfolding moved_to_def prod.case by (elim conjE) (rule tells_not_rebuild[OF tracker_invD(8)])

lemma moved_small: "tracker_inv t s \<Longrightarrow> moved_to t s f P N (fl, s') \<Longrightarrow> \<forall>j \<in> set fl. j < 2 ^ 32"
  unfolding moved_to_def prod.case by (elim conjE) (rule tells_small[OF tracker_invD(8)])

subsection \<open>The server's operations, without a rebuild\<close>

definition tracker_of :: "server \<Rightarrow> tracker" where
  "tracker_of s = vo_control (dassTracker s)"

text \<open>Othello has room for the keys of the new state, and they have no cycle.\<close>

definition storable :: "u64 template \<Rightarrow> tracker \<Rightarrow> u64 list \<Rightarrow> u64 list \<Rightarrow> bool" where
  "storable t s P N \<longleftrightarrow> card (stored_keys (vf s) P N) \<le> length (keys (othello s)) \<and> no_cycle t (othello s) (stored_keys (vf s) P N)"

definition divided :: "u64 list \<Rightarrow> u64 list \<Rightarrow> u64 \<rightharpoonup> u32" where
  "divided P N = (\<lambda>x. if x \<in> set P then Some 1 else if x \<in> set N then Some 0 else None)"

lemma classes_divided: "classes s = divided (PK s) (NK s)"
  by (simp add: classes_def divided_def)

definition accepted :: "u64 template \<Rightarrow> server \<Rightarrow> u64 \<Rightarrow> u32 \<Rightarrow> u8 \<Rightarrow> (bool \<times> packet list) \<times> server \<Rightarrow> bool" where
  "accepted t s k v a = (\<lambda>((ok, ps), s'). let fl = flipped_indexes (dassTracker s') in ok \<and> connectedDevices s' = connectedDevices s \<and>
     ps = map (\<lambda>h. (h, [1] @ entry a k v fl @ finish_mark)) (connectedDevices s) \<and>
     vo_data (dassTracker s') = vo_data (dassTracker s) \<and> c_o_ratio (dassTracker s') = c_o_ratio (dassTracker s) \<and>
     follows (vf (tracker_of s)) (vf (tracker_of s')) \<and> tracker_inv t (tracker_of s') \<and> classes (tracker_of s') = (classes (tracker_of s))(k \<mapsto> v) \<and>
     (length fl < 256 \<longrightarrow> carries t (tracker_of s) (tracker_of s') ([1] @ entry a k v fl @ finish_mark)))"

lemma acceptedI:
  assumes I: "tracker_inv t (tracker_of s)" and M: "moved_to t (tracker_of s) f P N (fl, tr)"
    and c: "divided P N = (classes (tracker_of s))(k \<mapsto> v)"
    and d: "\<And>d. in_step t (tracker_of s) d \<Longrightarrow> \<exists>d'. apply_action t (a, k, v, fl) d = Inr d' \<and> in_step t tr d'"
    and s': "s' = s\<lparr>dassTracker := (dassTracker s)\<lparr>flipped_indexes := fl, vo_control := tr\<rparr>\<rparr>"
  shows "accepted t s k v a ((True, map (\<lambda>h. (h, [1] @ entry a k v fl @ finish_mark)) (connectedDevices s)), s')"
proof -
  have "tracker_of s' = tr" by (simp add: s' tracker_of_def)
  moreover have "tracker_inv t tr" "PK tr = P" "NK tr = N" "follows (vf (tracker_of s)) (vf tr)" using M by (auto simp: moved_to_def)
  moreover have "classes tr = (classes (tracker_of s))(k \<mapsto> v)"
    using c \<open>PK tr = P\<close> \<open>NK tr = N\<close> by (simp add: classes_divided)
  moreover have "length fl < 256 \<longrightarrow> carries t (tracker_of s) tr ([1] @ entry a k v fl @ finish_mark)"
    using carriesI[OF d _ moved_small[OF I M]] by blast
  ultimately show ?thesis by (simp add: accepted_def s')
qed

lemma add_accepted:
  fixes e :: env
  assumes I: "tracker_inv (tmpl e) (tracker_of s)" and L: "tL (tmpl e) = 1" and r: "\<forall>h \<in> set (connectedDevices s). reach h"
    and k: "classes (tracker_of s) k = None"
    and v: "v = 1 \<and> vf_insert k (vf (tracker_of s)) = Inr (0, f) \<and> storable (tmpl e) (tracker_of s) (PK (tracker_of s) @ [k]) (NK (tracker_of s))
      \<or> v = 0 \<and> storable (tmpl e) (tracker_of s) (PK (tracker_of s)) (NK (tracker_of s) @ [k])"
  shows "\<exists>out. addCertificate e reach (k, v) s = Inr out \<and> accepted (tmpl e) s k v 0 out"
proof -
  let ?t = "tmpl e" and ?tr = "tracker_of s"
  have kn: "k \<notin> set (PK ?tr)" "k \<notin> set (NK ?tr)" using k by (auto simp: classes_def split: if_splits)
  have go: "\<exists>out. addCertificate e reach (k, v) s = Inr out \<and> accepted ?t s k v 0 out"
    if T: "tracker_insert e (k, v) ?tr = Inr (fl, tr)" and M: "moved_to ?t ?tr g P N (fl, tr)"
      and c: "divided P N = (classes ?tr)(k \<mapsto> v)"
      and d: "\<And>d. in_step ?t ?tr d \<Longrightarrow> \<exists>d'. verifier_insert ?t (k, v) fl d = Inr d' \<and> in_step ?t tr d'" for fl tr g P N
  proof -
    let ?s' = "s\<lparr>dassTracker := (dassTracker s)\<lparr>flipped_indexes := fl, vo_control := tr\<rparr>\<rparr>"
    have "control_insert e (k, v) (dassTracker s) = Inr (True, (dassTracker s)\<lparr>flipped_indexes := fl, vo_control := tr\<rparr>)"
      using T quiet_update[OF moved_not_rebuild[OF I M]] by (simp add: control_insert_def tracker_of_def)
    then have "addCertificate e reach (k, v) s = Inr ((True, map (\<lambda>h. (h, [1] @ entry 0 k v fl @ finish_mark)) (connectedDevices s)), ?s')"
      using send_summary[of ?s' reach k v 0] r by (simp add: addCertificate_def)
    moreover have "accepted ?t s k v 0 ((True, map (\<lambda>h. (h, [1] @ entry 0 k v fl @ finish_mark)) (connectedDevices s)), ?s')"
      by (rule acceptedI[OF I M c _ refl]) (use d in \<open>simp add: apply_action_def\<close>)
    ultimately show ?thesis by blast
  qed
  from v show ?thesis
  proof (elim disjE conjE)
    assume v: "v = 1" "vf_insert k (vf ?tr) = Inr (0, f)" and st: "storable ?t ?tr (PK ?tr @ [k]) (NK ?tr)"
    obtain fl tr where T: "tracker_insert e (k, 1) ?tr = Inr (fl, tr)" "moved_to ?t ?tr f (PK ?tr @ [k]) (NK ?tr) (fl, tr)"
      using insert_positive_ok[OF I kn _ v(2)] st by (auto simp: outcome_def storable_def)
    show ?thesis
      by (rule go[OF _ T(2)]) (use T kn v device_insert_positive[OF I L _ v(2) T(2)] in \<open>auto simp: classes_def divided_def fun_eq_iff\<close>)
  next
    assume v: "v = 0" and st: "storable ?t ?tr (PK ?tr) (NK ?tr @ [k])"
    obtain fl tr where T: "tracker_insert e (k, 0) ?tr = Inr (fl, tr)" "moved_to ?t ?tr (vf ?tr) (PK ?tr) (NK ?tr @ [k]) (fl, tr)"
      "\<not> hit (vf ?tr) k \<longrightarrow> fl = []"
      using insert_negative_ok[OF I kn] st by (auto simp: outcome_def storable_def)
    show ?thesis
      by (rule go[OF _ T(2)]) (use T kn v device_insert_negative[OF I L _ T(2,3)] in \<open>auto simp: classes_def divided_def fun_eq_iff\<close>)
  qed
qed

text \<open>Setting the value of a known key: nothing to do, or a move between the sets.\<close>

lemma setValue_same:
  fixes e :: env
  assumes I: "tracker_inv (tmpl e) tr" and L: "tL (tmpl e) = 1" and k: "classes tr k = Some v"
  shows "tracker_setValue e (k, v) tr = Inr ([], tr) \<and> moved_to (tmpl e) tr (vf tr) (PK tr) (NK tr) ([], tr) \<and>
    (in_step (tmpl e) tr d \<longrightarrow> verifier_setValue (tmpl e) (k, v) [] d = Inr d)"
proof -
  have q: "tracker_query e tr k = Inr v"
    using tracker_query_ok[OF I _ L, of k] k by (auto simp: classes_def split: if_splits)
  moreover have "in_step (tmpl e) tr d \<longrightarrow> verifier_query (tmpl e) d k = Inr v" using in_step_query[OF I] q by simp
  ultimately show ?thesis using I
    by (auto simp: tracker_setValue_def verifier_setValue_def moved_to_def tells.none)
qed

lemma tracker_setValue_zero:
  fixes e :: env
  assumes I: "tracker_inv (tmpl e) tr" and L: "tL (tmpl e) = 1" and k: "k \<in> set (PK tr)"
  obtains f fl tr' where "tracker_setValue e (k, 0) tr = Inr (fl, tr')" "vf_del k (vf tr) = Inr (True, f)"
    "moved_to (tmpl e) tr f (set_erase k (PK tr)) (NK tr @ [k]) (fl, tr')"
proof -
  obtain f fl tr' where T: "vf_del k (vf tr) = Inr (True, f)" "set_negative e (k, 0) tr = Inr (fl, tr')"
    "moved_to (tmpl e) tr f (set_erase k (PK tr)) (NK tr @ [k]) (fl, tr')" using set_negative_ok[OF I k] by auto
  have "tracker_query e tr k = Inr 1" using tracker_query_ok[OF I _ L, of k] k by simp
  then have "tracker_setValue e (k, 0) tr = Inr (fl, tr')" using T(2) by (simp add: tracker_setValue_def)
  from that[OF this T(1,3)] show thesis .
qed

lemma tracker_setValue_one:
  fixes e :: env
  assumes I: "tracker_inv (tmpl e) tr" and L: "tL (tmpl e) = 1" and k: "k \<in> set (NK tr)"
  shows "tracker_setValue e (k, 1) tr = set_positive e (k, 1) tr"
proof -
  have "k \<notin> set (PK tr)" using k tracker_invD(5)[OF I] by auto
  then have "tracker_query e tr k = Inr 0" using tracker_query_ok[OF I _ L, of k] k by simp
  then show ?thesis by (simp add: tracker_setValue_def)
qed

definition settable :: "u64 template \<Rightarrow> tracker \<Rightarrow> u64 \<Rightarrow> u32 \<Rightarrow> bool" where
  "settable t tr k v \<longleftrightarrow> classes tr k = Some v \<or> classes tr k = Some 1 \<and> v = 0 \<or>
     classes tr k = Some 0 \<and> v = 1 \<and> (\<exists>f. vf_insert k (vf tr) = Inr (0, f)) \<and> storable t tr (PK tr @ [k]) (set_erase k (NK tr))"

lemma settable_update:
  fixes e :: env
  assumes I: "tracker_inv (tmpl e) tr" and L: "tL (tmpl e) = 1" and k: "settable (tmpl e) tr k v"
  obtains f fl tr' P N where "tracker_setValue e (k, v) tr = Inr (fl, tr')" "moved_to (tmpl e) tr f P N (fl, tr')"
    "divided P N = (classes tr)(k \<mapsto> v)"
    "\<And>d. in_step (tmpl e) tr d \<Longrightarrow> \<exists>d'. verifier_setValue (tmpl e) (k, v) fl d = Inr d' \<and> in_step (tmpl e) tr' d'"
  using k unfolding settable_def
proof (elim disjE conjE exE)
  assume s: "classes tr k = Some v"
  then have "divided (PK tr) (NK tr) = (classes tr)(k \<mapsto> v)" by (simp add: classes_divided fun_upd_idem)
  with setValue_same[OF I L s] show thesis by (intro that[of "[]" tr "vf tr" "PK tr" "NK tr"]) auto
next
  assume s: "classes tr k = Some 1" "v = 0"
  then have k: "k \<in> set (PK tr)" by (auto simp: classes_def split: if_splits)
  show thesis
  proof (rule tracker_setValue_zero[OF I L k])
    fix f fl tr' assume T: "tracker_setValue e (k, 0) tr = Inr (fl, tr')" "vf_del k (vf tr) = Inr (True, f)"
      "moved_to (tmpl e) tr f (set_erase k (PK tr)) (NK tr @ [k]) (fl, tr')"
    have "divided (set_erase k (PK tr)) (NK tr @ [k]) = (classes tr)(k \<mapsto> v)"
      using s(2) by (auto simp: divided_def classes_def set_erase_simps fun_eq_iff)
    with T k s(2) device_setValue[OF I L _ T(3), of _ k 0] show thesis by (intro that[of fl tr' f]) blast+
  qed
next
  fix f assume s: "classes tr k = Some 0" "v = 1" and i: "vf_insert k (vf tr) = Inr (0, f)" and st: "storable (tmpl e) tr (PK tr @ [k]) (set_erase k (NK tr))"
  then have k: "k \<in> set (NK tr)" by (auto simp: classes_def split: if_splits)
  obtain fl tr' where T: "set_positive e (k, 1) tr = Inr (fl, tr')" "moved_to (tmpl e) tr f (PK tr @ [k]) (set_erase k (NK tr)) (fl, tr')"
    using set_positive_ok[OF I k _ i] st by (auto simp: outcome_def storable_def)
  have "divided (PK tr @ [k]) (set_erase k (NK tr)) = (classes tr)(k \<mapsto> v)"
    using s(2) by (auto simp: divided_def classes_def set_erase_simps fun_eq_iff)
  with T k s(2) tracker_setValue_one[OF I L k] device_setValue[OF I L _ T(2), of _ k 1] i show thesis
    by (intro that[of fl tr' f]) auto
qed

lemma set_accepted:
  fixes e :: env
  assumes I: "tracker_inv (tmpl e) (tracker_of s)" and L: "tL (tmpl e) = 1" and r: "\<forall>h \<in> set (connectedDevices s). reach h"
    and k: "settable (tmpl e) (tracker_of s) k v"
  shows "v = 0 \<Longrightarrow> \<exists>out. unrevokeCertificate e reach k s = Inr out \<and> accepted (tmpl e) s k v 2 out"
    "v = 1 \<Longrightarrow> \<exists>out. revokeCertificate e reach k s = Inr out \<and> accepted (tmpl e) s k v 3 out"
proof -
  let ?t = "tmpl e" and ?tr = "tracker_of s"
  obtain f fl tr P N where T: "tracker_setValue e (k, v) ?tr = Inr (fl, tr)" "moved_to ?t ?tr f P N (fl, tr)"
    "divided P N = (classes ?tr)(k \<mapsto> v)"
    "\<And>d. in_step ?t ?tr d \<Longrightarrow> \<exists>d'. verifier_setValue ?t (k, v) fl d = Inr d' \<and> in_step ?t tr d'"
    by (rule settable_update[OF I L k]) (rule that)
  let ?s' = "s\<lparr>dassTracker := (dassTracker s)\<lparr>flipped_indexes := fl, vo_control := tr\<rparr>\<rparr>"
  have C: "control_setValue e (k, v) (dassTracker s) = Inr (True, (dassTracker s)\<lparr>flipped_indexes := fl, vo_control := tr\<rparr>)"
    using T(1) quiet_update[OF moved_not_rebuild[OF I T(2)]] by (simp add: control_setValue_def tracker_of_def)
  have A: "accepted ?t s k v a ((True, map (\<lambda>h. (h, [1] @ entry a k v fl @ finish_mark)) (connectedDevices s)), ?s')" if "a = 2 \<or> a = 3" for a
    by (rule acceptedI[OF I T(2,3) _ refl]) (use T(4) that in \<open>auto simp: apply_action_def\<close>)
  show "\<exists>out. unrevokeCertificate e reach k s = Inr out \<and> accepted ?t s k v 2 out" if "v = 0"
    using C A[of 2] send_summary[of ?s' reach k v 2] r that by (simp add: unrevokeCertificate_def)
  show "\<exists>out. revokeCertificate e reach k s = Inr out \<and> accepted ?t s k v 3 out" if "v = 1"
    using C A[of 3] send_summary[of ?s' reach k v 3] r that by (simp add: revokeCertificate_def)
qed

end
