(* ===== verification/Tracker_Returns.thy ===== *)
theory Tracker_Returns
  imports Service
begin

text \<open>
  What follows when an update of the tracker returns at all, with no assumption on the room in
  Othello's key vector: the sets of keys it leaves (also when it asks for a rebuild), and, without a
  rebuild, that the keys it had to store fitted. The code checks no capacity; an insertion into
  a full vector is an error of the model.
\<close>

subsection \<open>The sets of keys\<close>

definition sets_of :: "tracker \<Rightarrow> u64 list \<times> u64 list \<times> vfilter" where
  "sets_of s = (PK s, NK s, vf s)"

lemma sets_steps:
  "push_FPK p x s = Inr s' \<Longrightarrow> sets_of s' = sets_of s" "push_TNK p x s = Inr s' \<Longrightarrow> sets_of s' = sets_of s"
  "put_TNK p r s = Inr s' \<Longrightarrow> sets_of s' = sets_of s" "remove_FPK p x s = Inr s' \<Longrightarrow> sets_of s' = sets_of s"
  "remove_TNK p x s = Inr s' \<Longrightarrow> sets_of s' = sets_of s" "sets_of (s\<lparr>othello := ot\<rparr>) = sets_of s"
  by (auto simp: sets_of_def push_FPK_def push_TNK_def put_TNK_def put_FPK_def remove_FPK_def remove_TNK_def rbind_eq_Inr)

lemma promote_row_sets: "promote_row t check p kept xs (s, fl) = Inr (ok, s', fl') \<Longrightarrow> sets_of s' = sets_of s"
proof (induction xs arbitrary: s fl kept)
  case (Cons x xs)
  obtain h where h: "vf_lookup (vf s) x = Inr h" using Cons.prems by (auto simp: rbind_eq_Inr)
  show ?case
  proof (cases h)
    case False
    then show ?thesis using Cons.prems Cons.IH h by simp
  next
    case True
    then obtain s1 s2 m where s: "push_FPK p x s = Inr s1" "put_TNK p (kept @ xs) s1 = Inr s2" "(if check then isMember t (othello s2) x else Inr False) = Inr m"
      using Cons.prems h by (auto simp: rbind_eq_Inr)
    have e: "sets_of s2 = sets_of s" using sets_steps(1)[OF s(1)] sets_steps(3)[OF s(2)] by simp
    show ?thesis
    proof (cases m)
      case True
      then have "promote_row t check p kept xs (s2, fl) = Inr (ok, s', fl')" using Cons.prems h \<open>h\<close> s by simp
      from Cons.IH[OF this] e show ?thesis by simp
    next
      case False
      then obtain b ot fl1 where i: "insert_on_demand t (x, 0) (othello s2, fl) = Inr (b, ot, fl1)"
        using Cons.prems h \<open>h\<close> s by (auto simp: rbind_eq_Inr)
      have o: "sets_of (s2\<lparr>othello := ot\<rparr>) = sets_of s" using e sets_steps(6) by simp
      have "if b then promote_row t check p kept xs (s2\<lparr>othello := ot\<rparr>, fl1) = Inr (ok, s', fl') else s' = s2\<lparr>othello := ot\<rparr>"
        using Cons.prems h \<open>h\<close> s False i by (auto split: if_splits)
      with Cons.IH o show ?thesis by (auto split: if_splits)
    qed
  qed
qed simp

lemma promote_sets: "promote t check p (s, fl) = Inr (ok, s', fl') \<Longrightarrow> sets_of s' = sets_of s"
  by (auto simp: promote_def rbind_eq_Inr dest: promote_row_sets)

lemma othello_insert_sets: "othello_insert t kv (s, fl) = Inr (fl', s') \<Longrightarrow> sets_of s' = sets_of s"
  by (auto simp: othello_insert_def rbind_eq_Inr sets_steps(6))

lemma insert_sets:
  "tracker_insert e (k, 1) s = Inr (fl, s') \<Longrightarrow> \<exists>r f. vf_insert k (vf s) = Inr (r, f) \<and> sets_of s' = (set_insert k (PK s), NK s, f)"
  "v \<noteq> 1 \<Longrightarrow> tracker_insert e (k, v) s = Inr (fl, s') \<Longrightarrow> sets_of s' = (PK s, set_insert k (NK s), vf s)"
proof -
  assume a: "tracker_insert e (k, 1) s = Inr (fl, s')"
  then obtain r f where f: "vf_insert k (vf s) = Inr (r, f)" by (auto simp: tracker_insert_def rbind_eq_Inr Let_def)
  have "sets_of s' = sets_of (s\<lparr>PK := set_insert k (PK s), vf := f\<rparr>)"
    using a f by (auto simp: tracker_insert_def rbind_eq_Inr Let_def split: if_splits dest!: promote_sets othello_insert_sets)
  with f show "\<exists>r f. vf_insert k (vf s) = Inr (r, f) \<and> sets_of s' = (set_insert k (PK s), NK s, f)" by (auto simp: sets_of_def)
next
  assume "v \<noteq> 1" "tracker_insert e (k, v) s = Inr (fl, s')"
  then have "sets_of s' = sets_of (s\<lparr>NK := set_insert k (NK s)\<rparr>)"
    by (auto simp: tracker_insert_def rbind_eq_Inr Let_def split: if_splits dest!: sets_steps(1,2) othello_insert_sets)
  then show "sets_of s' = (PK s, set_insert k (NK s), vf s)" by (simp add: sets_of_def)
qed

lemma set_positive_sets:
  assumes "set_positive e (k, 1) s = Inr (fl, s')"
  shows "\<exists>r f. vf_insert k (vf s) = Inr (r, f) \<and> sets_of s' = (set_insert k (PK s), set_erase k (NK s), f)"
proof -
  let ?s1 = "s\<lparr>NK := set_erase k (NK s), PK := set_insert k (PK s)\<rparr>"
  obtain h p1 p2 s2 where h: "vf_lookup (vf s) k = Inr h" "position_pair (vf s) k = Inr (p1, p2)"
    "(if h then rbind (remove_FPK p1 k ?s1) (remove_FPK p2 k) else rbind (remove_TNK p1 k ?s1) (remove_TNK p2 k)) = Inr s2"
    using assms by (auto simp: set_positive_def rbind_eq_Inr Let_def)
  have s2: "sets_of s2 = sets_of ?s1" using h(3) by (auto simp: rbind_eq_Inr dest!: sets_steps(4,5) split: if_splits)
  then have v: "vf s2 = vf s" by (simp add: sets_of_def)
  obtain r f where f: "vf_insert k (vf s) = Inr (r, f)" using assms h v by (auto simp: set_positive_def rbind_eq_Inr Let_def)
  have "sets_of s' = sets_of (s2\<lparr>vf := f\<rparr>)"
    using assms h f v by (auto simp: set_positive_def rbind_eq_Inr Let_def sets_steps(6) split: if_splits dest!: promote_sets othello_insert_sets)
  with f s2 show ?thesis by (auto simp: sets_of_def)
qed

subsection \<open>The keys that were stored\<close>

definition grown :: "u64 template \<Rightarrow> u64 othello \<Rightarrow> u64 othello \<Rightarrow> bool" where
  "grown t ot ot' \<longleftrightarrow> othello_inv t ot' \<and> dom (contents ot) \<subseteq> dom (contents ot') \<and> length (keys ot') = length (keys ot)"

lemma grown_refl: "othello_inv t ot \<Longrightarrow> grown t ot ot"
  by (simp add: grown_def)

lemma grown_trans: "grown t a b \<Longrightarrow> grown t b c \<Longrightarrow> grown t a c"
  by (auto simp: grown_def)

lemma grown_inv: "grown t a b \<Longrightarrow> othello_inv t b"
  by (simp add: grown_def)

lemma insert_returns:
  assumes I: "othello_inv t ot" and run: "insert_on_demand t (k, v) (ot, fl) = Inr (True, ot', fl')"
  shows "grown t ot ot' \<and> k \<in> dom (contents ot')"
proof -
  have m: "contents ot k = None"
  proof (rule ccontr)
    assume "contents ot k \<noteq> None"
    then have "isMember t ot k = Inr True" using isMember_ok[OF I, of k] by auto
    then have "insert_on_demand t (k, v) (ot, fl) = Inl AssertFailed" by (simp add: insert_on_demand_def)
    with run show False by simp
  qed
  then have mem: "isMember t ot k = Inr False" using isMember_ok[OF I, of k] by auto
  have n: "keyCnt ot < length (keys ot)"
    by (rule ccontr) (use run mem in \<open>simp add: insert_on_demand_def vput_out\<close>)
  show ?thesis
  proof (rule insert_on_demand_cases[OF I n m, of v fl])
    fix o2 fl2 assume "insert_on_demand t (k, v) (ot, fl) = Inr (False, o2, fl2)"
    with run show ?thesis by simp
  next
    fix o2 new assume "insert_on_demand t (k, v) (ot, fl) = Inr (True, o2, fl @ new)" "othello_inv t o2"
      "contents o2 = (contents ot)(k \<mapsto> v)" "length (keys o2) = length (keys ot)"
    with run show ?thesis by (auto simp: grown_def)
  qed
qed

lemma promote_row_returns:
  assumes "vf_wf (vf s)" "othello_inv t (othello s)" "promote_row t check p kept xs (s, fl) = Inr (True, s', fl')"
  shows "grown t (othello s) (othello s') \<and> {x \<in> set xs. hit (vf s) x} \<subseteq> dom (contents (othello s'))"
  using assms
proof (induction xs arbitrary: s fl kept)
  case Nil
  then show ?case by (simp add: grown_refl)
next
  case (Cons x xs)
  note lk = vf_lookup_ok[OF Cons.prems(1), of x]
  show ?case
  proof (cases "hit (vf s) x")
    case False
    then have "promote_row t check p (kept @ [x]) xs (s, fl) = Inr (True, s', fl')" using Cons.prems(3) lk by simp
    with Cons.IH[OF Cons.prems(1,2) this] False show ?thesis by auto
  next
    case True
    then obtain s1 s2 m where s: "push_FPK p x s = Inr s1" "put_TNK p (kept @ xs) s1 = Inr s2" "(if check then isMember t (othello s2) x else Inr False) = Inr m"
      using Cons.prems(3) lk by (auto simp: rbind_eq_Inr)
    have e: "vf s2 = vf s" "othello s2 = othello s"
      using s(1,2) by (auto simp: push_FPK_def put_TNK_def rbind_eq_Inr)
    have I: "vf_wf (vf s2)" "othello_inv t (othello s2)" using Cons.prems(1,2) e by simp_all
    show ?thesis
    proof (cases m)
      case True
      then have R: "promote_row t check p kept xs (s2, fl) = Inr (True, s', fl')" using Cons.prems(3) lk \<open>hit (vf s) x\<close> s by simp
      have "x \<in> dom (contents (othello s))" using True s(3) isMember_ok[OF I(2)] e by (auto split: if_splits)
      with Cons.IH[OF I R] e show ?thesis by (auto simp: grown_def)
    next
      case False
      then obtain ot fl1 where i: "insert_on_demand t (x, 0) (othello s2, fl) = Inr (True, ot, fl1)"
        "promote_row t check p kept xs (s2\<lparr>othello := ot\<rparr>, fl1) = Inr (True, s', fl')"
        using Cons.prems(3) lk \<open>hit (vf s) x\<close> s by (auto simp: rbind_eq_Inr Let_def split: if_splits)
      note g = insert_returns[OF I(2) i(1)]
      then have "vf_wf (vf (s2\<lparr>othello := ot\<rparr>))" "othello_inv t (othello (s2\<lparr>othello := ot\<rparr>))" using I by (simp_all add: grown_def)
      from Cons.IH[OF this i(2)] e have G: "grown t ot (othello s')" "{x \<in> set xs. hit (vf s) x} \<subseteq> dom (contents (othello s'))" by simp_all
      moreover have "grown t (othello s) (othello s')" using grown_trans[OF _ G(1)] g e by simp
      moreover have "x \<in> dom (contents (othello s'))" using g G(1) unfolding grown_def by blast
      ultimately show ?thesis by auto
    qed
  qed
qed

lemma promote_returns:
  assumes "vf_wf (vf s)" "othello_inv t (othello s)" "promote t check (int p) (s, fl) = Inr (True, s', fl')"
  shows "grown t (othello s) (othello s') \<and> {x \<in> set (TNK_table s ! p). hit (vf s) x} \<subseteq> dom (contents (othello s'))"
proof -
  have "promote_row t check (int p) [] (TNK_table s ! p) (s, fl) = Inr (True, s', fl')"
    using assms(3) by (auto simp: promote_def rbind_eq_Inr row_def vat_eq_Inr)
  from promote_row_returns[OF assms(1,2) this] show ?thesis .
qed

lemma othello_insert_returns:
  assumes "othello_inv t (othello s)" "othello_insert t (k, v) (s, fl) = Inr (fl', s')" "fl' \<noteq> [REBUILD]"
  shows "grown t (othello s) (othello s') \<and> k \<in> dom (contents (othello s'))"
proof -
  obtain ot where "insert_on_demand t (k, v) (othello s, fl) = Inr (True, ot, fl')" "s' = s\<lparr>othello := ot\<rparr>"
    using assms(2,3) by (auto simp: othello_insert_def rbind_eq_Inr split: if_splits)
  with insert_returns[OF assms(1)] show ?thesis by simp
qed

lemma grown_room:
  assumes "grown t ot ot'" "K \<subseteq> dom (contents ot')"
  shows "card K \<le> length (keys ot)"
proof -
  have I: "othello_inv t ot'" "length (keys ot') = length (keys ot)" using assms(1) by (simp_all add: grown_def)
  have "finite (dom (contents ot'))" by (simp add: contents_def finite_dom_map_of)
  then have "card K \<le> keyCnt ot'" unfolding keyCnt_card[OF I(1)] by (rule card_mono) (rule assms(2))
  with invD(3)[OF I(1)] I(2) show ?thesis by (simp add: sizes_def)
qed

lemma grown_room_insert:
  assumes "grown t ot ot1" "grown t ot1 ot' \<and> k \<in> dom (contents ot')" "K \<subseteq> insert k (dom (contents ot1))"
  shows "card K \<le> length (keys ot)"
proof (rule grown_room)
  show "grown t ot ot'" using assms(1,2) grown_trans by blast
  have "dom (contents ot1) \<subseteq> dom (contents ot')" using assms(2) by (simp add: grown_def)
  then show "K \<subseteq> dom (contents ot')" using assms(2,3) by blast
qed

lemma promoted_stored:
  assumes I: "tracker_inv t s" and f: "vf_insert k (vf s) = Inr (r, f)" "r \<noteq> 1"
    and pq: "position_pair f k = Inr (pos1, pos2)"
    and s2: "vf s2 = f" "othello s2 = othello s" "\<And>x. x \<in> N \<Longrightarrow> \<not> hit (vf s) x \<Longrightarrow> pos1 \<in> buckets f x \<Longrightarrow> x \<in> set (TNK_table s2 ! nat pos1)"
    and N: "N \<subseteq> set (NK s)"
    and P: "promote t False pos1 (s2, []) = Inr (True, s3, fl3)" "promote t True pos2 (s3, fl3) = Inr (True, s4, fl4)"
  shows "grown t (othello s) (othello s4) \<and> dom (contents (othello s)) \<union> {x \<in> N. vf_tag (vf s) x \<in> vf_tag (vf s) ` set (PK s @ [k])} \<subseteq> dom (contents (othello s4))"
proof -
  note i = tracker_invD[OF I]
  have F: "vf_wf f" "follows (vf s) f" "cells f = cells (vf s) + {# vf_tag (vf s) k #}"
    using vf_insert_ok[OF i(1), of k] f by (auto simp: inserted_def)
  note tg = follows_vf_tag[OF F(2)]
  obtain p q where pq': "pos1 = int p" "pos2 = int q" "buckets f k = {int p, int q}" by (rule position_rows[OF F(1), of k]) (use pq in auto)
  have wf: "vf_wf (vf s2)" "othello_inv t (othello s2)" using F(1) i(8) s2(1,2) by simp_all
  note A = promote_returns[OF wf P(1)[unfolded pq'(1)]]
  have v3: "vf s3 = f" using promote_sets[OF P(1)] s2(1) by (simp add: sets_of_def)
  have wf3: "vf_wf (vf s3)" "othello_inv t (othello s3)" using F(1) v3 A grown_inv by auto
  note B = promote_returns[OF wf3 P(2)[unfolded pq'(2)]]
  have G: "grown t (othello s) (othello s4)" using grown_trans A B s2(2) by metis
  have "x \<in> dom (contents (othello s4))" if x: "x \<in> N" "vf_tag (vf s) x \<in> vf_tag (vf s) ` set (PK s @ [k])" for x
  proof (cases "hit (vf s) x")
    case True
    have "x \<in> dom (contents (othello s))" using True x(1) N by (auto simp: i(9))
    with G show ?thesis unfolding grown_def by blast
  next
    case False
    then have e: "vf_tag (vf s) x = vf_tag (vf s) k" using x(2) tracker_hit[OF I, of x] by auto
    have "buckets f x = buckets f k" by (simp add: buckets_def tg e)
    then have "x \<in> set (TNK_table s2 ! p)" using s2(3)[OF x(1) False] pq' by simp
    moreover have "hit (vf s2) x" by (simp add: s2(1) F(3) tg e)
    ultimately have "x \<in> dom (contents (othello s3))" using A by blast
    with B show ?thesis unfolding grown_def by blast
  qed
  with G show ?thesis unfolding grown_def by blast
qed

text \<open>The rows of true negatives hold the keys that could become false positives.\<close>

lemma negative_row:
  assumes I: "tracker_inv t s" and f: "vf_wf f" "follows (vf s) f" and pq: "position_pair f k = Inr (pos1, pos2)"
    and x: "x \<in> set (NK s)" "\<not> hit (vf s) x" "pos1 \<in> buckets f x"
  shows "x \<in> set (TNK_table s ! nat pos1)"
proof -
  note i = tracker_invD[OF I]
  obtain p q where p: "pos1 = int p" "p < nat (vn f)" by (rule position_rows[OF f(1), of k]) (use pq in auto)
  have "vn f = vn (vf s)" "buckets f x = buckets (vf s) x" using follows_fields[OF f(2)] follows_vf_tag[OF f(2)] by (simp_all add: buckets_def)
  with i(7) p x show ?thesis by (simp add: rows_ok_def)
qed

lemma insert_positive_room:
  assumes I: "tracker_inv (tmpl e) s" and k: "k \<notin> set (PK s)" "k \<notin> set (NK s)"
    and run: "tracker_insert e (k, 1) s = Inr (fl, s')" "fl \<noteq> [REBUILD]"
  shows "card (stored_keys (vf s) (PK s @ [k]) (NK s)) \<le> length (keys (othello s))"
proof -
  let ?t = "tmpl e"
  note i = tracker_invD[OF I]
  obtain r f pos1 pos2 s2 s3 fl3 s4 fl4 where R: "vf_insert k (vf s) = Inr (r, f)" "r \<noteq> 1" "position_pair f k = Inr (pos1, pos2)"
    "s2 = s\<lparr>PK := set_insert k (PK s), vf := f\<rparr>"
    "promote ?t False pos1 (s2, []) = Inr (True, s3, fl3)" "promote ?t True pos2 (s3, fl3) = Inr (True, s4, fl4)"
    "othello_insert ?t (k, 1) (s4, fl4) = Inr (fl, s')"
    using run by (auto simp: tracker_insert_def rbind_eq_Inr Let_def split: if_splits)
  have F: "vf_wf f" "follows (vf s) f" using vf_insert_ok[OF i(1), of k] R(1) by (auto simp: inserted_def)
  have S: "grown ?t (othello s) (othello s4)" "dom (contents (othello s)) \<union> {x \<in> set (NK s). vf_tag (vf s) x \<in> vf_tag (vf s) ` set (PK s @ [k])} \<subseteq> dom (contents (othello s4))"
    using promoted_stored[OF I R(1-3) _ _ _ subset_refl R(5,6)] negative_row[OF I F R(3)] R(4) by simp_all
  have "stored_keys (vf s) (PK s @ [k]) (NK s) \<subseteq> insert k (dom (contents (othello s4)))"
    using S(2) tracker_stored[OF I] by (auto simp: stored_keys_def)
  with S(1) othello_insert_returns[OF grown_inv[OF S(1)] R(7) run(2)] show ?thesis by (rule grown_room_insert)
qed

lemma insert_negative_room:
  assumes I: "tracker_inv (tmpl e) s" and k: "k \<notin> set (PK s)" "k \<notin> set (NK s)"
    and run: "tracker_insert e (k, 0) s = Inr (fl, s')" "fl \<noteq> [REBUILD]"
  shows "card (stored_keys (vf s) (PK s) (NK s @ [k])) \<le> length (keys (othello s))"
proof -
  let ?t = "tmpl e"
  note i = tracker_invD[OF I]
  show ?thesis
  proof (cases "hit (vf s) k")
    case False
    then have "stored_keys (vf s) (PK s) (NK s @ [k]) \<subseteq> dom (contents (othello s))"
      using tracker_hit[OF I, of k] unfolding tracker_stored[OF I] by (auto simp: stored_keys_def)
    then show ?thesis by (rule grown_room[OF grown_refl[OF i(8)]])
  next
    case True
    then obtain F where "othello_insert ?t (k, 0) (s\<lparr>NK := set_insert k (NK s), FPK_table := F\<rparr>, []) = Inr (fl, s')"
      using run by (auto simp: tracker_insert_def rbind_eq_Inr Let_def vf_lookup_ok[OF i(1)] push_FPK_def)
    then obtain s3 where s3: "othello s3 = othello s" "othello_insert ?t (k, 0) (s3, []) = Inr (fl, s')" by (rule that[rotated]) simp
    have "stored_keys (vf s) (PK s) (NK s @ [k]) \<subseteq> insert k (dom (contents (othello s)))"
      unfolding tracker_stored[OF I] by (auto simp: stored_keys_def)
    moreover have "grown ?t (othello s) (othello s') \<and> k \<in> dom (contents (othello s'))"
      using othello_insert_returns[OF _ s3(2) run(2)] i(8) s3(1) by simp
    ultimately show ?thesis using grown_room_insert[OF grown_refl[OF i(8)]] by blast
  qed
qed

lemma set_positive_room:
  assumes I: "tracker_inv (tmpl e) s" and k: "k \<in> set (NK s)" and run: "set_positive e (k, 1) s = Inr (fl, s')" "fl \<noteq> [REBUILD]"
  shows "card (stored_keys (vf s) (PK s @ [k]) (set_erase k (NK s))) \<le> length (keys (othello s))"
proof -
  let ?t = "tmpl e" and ?N = "set_erase k (NK s)" and ?s1 = "s\<lparr>NK := set_erase k (NK s), PK := set_insert k (PK s)\<rparr>"
  note i = tracker_invD[OF I]
  obtain p1 p2 s1 where Z: "position_pair (vf s) k = Inr (p1, p2)"
    "(if hit (vf s) k then rbind (remove_FPK p1 k ?s1) (remove_FPK p2 k) else rbind (remove_TNK p1 k ?s1) (remove_TNK p2 k)) = Inr s1"
    using run(1) by (auto simp: set_positive_def rbind_eq_Inr Let_def vf_lookup_ok[OF i(1)])
  have s1: "othello s1 = othello s" "vf s1 = vf s" "x \<noteq> k \<Longrightarrow> x \<in> set (TNK_table s ! j) \<Longrightarrow> x \<in> set (TNK_table s1 ! j)" for x j
    using Z(2) by (auto simp: remove_FPK_def remove_TNK_def put_FPK_def put_TNK_def put_row_def row_def vat_eq_Inr vput_eq_Inr rbind_eq_Inr
        nth_list_update split: if_splits)
  obtain r f where ins: "vf_insert k (vf s) = Inr (r, f)" using run(1) Z s1(2) by (auto simp: set_positive_def rbind_eq_Inr Let_def vf_lookup_ok[OF i(1)])
  have unf: "set_positive e (k, 1) s = (if r = 1 then Inr ([REBUILD], s1\<lparr>vf := f\<rparr>)
           else rbind (position_pair f k) (\<lambda>(pos1, pos2).
                rbind (promote ?t False pos1 (s1\<lparr>vf := f\<rparr>, [])) (\<lambda>(ok1, s4, fl1).
                if \<not> ok1 then Inr ([REBUILD], s4)
                else rbind (promote ?t True pos2 (s4, fl1)) (\<lambda>(ok2, s5, fl2).
                     if \<not> ok2 then Inr ([REBUILD], s5)
                     else rbind (isMember ?t (othello s5) k) (\<lambda>member.
                          if member then rbind (valueFlip_on_demand ?t (k, 1) (othello s5, fl2)) (\<lambda>(ot, fl). Inr (fl, s5\<lparr>othello := ot\<rparr>))
                          else othello_insert ?t (k, 1) (s5, fl2))))))"
    unfolding set_positive_def Let_def prod.case using Z by (simp add: vf_lookup_ok[OF i(1)] s1(2) ins)
  have r: "r \<noteq> 1" using run by (auto simp: unf)
  let ?rest = "\<lambda>(ok2, s5, fl2). if \<not> ok2 then Inr ([REBUILD], s5)
                     else rbind (isMember ?t (othello s5) k) (\<lambda>member.
                          if member then rbind (valueFlip_on_demand ?t (k, 1) (othello s5, fl2)) (\<lambda>(ot, fl). Inr (fl, s5\<lparr>othello := ot\<rparr>))
                          else othello_insert ?t (k, 1) (s5, fl2))"
  obtain pos1 pos2 where pos: "position_pair f k = Inr (pos1, pos2)"
    using run(1) unfolding unf if_not_P[OF r] rbind_eq_Inr by (elim exE conjE) (auto split: prod.splits)
  obtain ok1 s3 fl3 where R1: "position_pair f k = Inr (pos1, pos2)" "promote ?t False pos1 (s1\<lparr>vf := f\<rparr>, []) = Inr (ok1, s3, fl3)"
    "(if \<not> ok1 then Inr ([REBUILD], s3) else rbind (promote ?t True pos2 (s3, fl3)) ?rest) = Inr (fl, s')"
    using run(1) pos unfolding unf if_not_P[OF r] pos rbind_simps prod.case rbind_eq_Inr[of "promote ?t False pos1 _"] by (elim exE conjE) (auto split: prod.splits)
  then have ok1: "ok1" using run(2) by (cases ok1) simp_all
  then obtain ok2 s4 fl4 where R2: "promote ?t True pos2 (s3, fl3) = Inr (ok2, s4, fl4)" "?rest (ok2, s4, fl4) = Inr (fl, s')"
    using R1(3) by (auto simp only: rbind_eq_Inr not_True_eq_False if_False)
  then have ok2: "ok2" using run(2) by (cases ok2) simp_all
  then obtain m where m: "isMember ?t (othello s4) k = Inr m" "\<not> m \<longrightarrow> othello_insert ?t (k, 1) (s4, fl4) = Inr (fl, s')"
    using R2(2) by (cases "isMember ?t (othello s4) k") (auto split: if_splits)
  note R = ins r R1(1) R1(2)[unfolded eqTrueI[OF ok1]] R2(1)[unfolded eqTrueI[OF ok2]] m
  have F: "vf_wf f" "follows (vf s) f" using vf_insert_ok[OF i(1), of k] R(1) by (auto simp: inserted_def)
  have sub: "set ?N \<subseteq> set (NK s)" "k \<notin> set ?N" by (simp_all add: set_erase_simps)
  have row: "x \<in> set (TNK_table (s1\<lparr>vf := f\<rparr>) ! nat pos1)" if x: "x \<in> set ?N" "\<not> hit (vf s) x" "pos1 \<in> buckets f x" for x
  proof -
    have "x \<in> set (NK s)" "x \<noteq> k" using x(1) sub by blast+
    with s1(3) negative_row[OF I F R(3) _ x(2,3)] show ?thesis by simp
  qed
  have e: "vf (s1\<lparr>vf := f\<rparr>) = f" "othello (s1\<lparr>vf := f\<rparr>) = othello s" by (simp_all add: s1(1))
  note S = conjunct1[OF promoted_stored[OF I R(1-3) e row sub(1) R(4,5)]] conjunct2[OF promoted_stored[OF I R(1-3) e row sub(1) R(4,5)]]
  have K: "stored_keys (vf s) (PK s @ [k]) ?N \<subseteq> insert k (dom (contents (othello s4)))"
    using S(2) tracker_stored[OF I] by (auto simp: stored_keys_def)
  show ?thesis
  proof (cases "k \<in> dom (contents (othello s4))")
    case True
    with K have "stored_keys (vf s) (PK s @ [k]) ?N \<subseteq> dom (contents (othello s4))" by blast
    from grown_room[OF S(1) this] show ?thesis .
  next
    case False
    then have "othello_insert ?t (k, 1) (s4, fl4) = Inr (fl, s')" using R(6,7) isMember_ok[OF grown_inv[OF S(1)], of k] by simp
    from grown_room_insert[OF S(1) othello_insert_returns[OF grown_inv[OF S(1)] this run(2)] K] show ?thesis .
  qed
qed

end
