(* ===== verification/Rebuild.thy ===== *)
theory Rebuild
  imports Tracker_Construct Tracker_Returns
begin

text \<open>
  Installing and rebuilding: \<open>init\<close> of the server's side of the protocol from lists of keys, and the
  rebuild after an update for which the filter or Othello has no room; both leave a tracker that
  satisfies its invariant and a verifier in step with it, or end with the exception of \<open>build\<close>.
\<close>

text \<open>What \<open>init\<close> needs of the filter's old fields: arrays of their declared sizes and values of an \<open>int\<close>.\<close>

definition sized_filter :: "vfilter \<Rightarrow> bool" where
  "sized_filter f \<longleftrightarrow> tables_sized f \<and> in32 (big_seg f) \<and> length (len4 f) = 4 \<and> (\<forall>x \<in> set (len4 f). in32 x)"

lemma sized_filterI: "vf_wf f \<Longrightarrow> vf_ints f \<Longrightarrow> sized_filter f"
  by (simp add: sized_filter_def vf_ints_def vf_wf_def vf_geom_def tables_ok_sized)

lemma sized_follows: "sized_filter f \<Longrightarrow> follows f g \<Longrightarrow> sized_filter g"
  by (auto simp: sized_filter_def follows_def tables_sized_def)

lemma ints_follows: "vf_ints f \<Longrightarrow> follows f g \<Longrightarrow> in32 (filled_cell g) \<Longrightarrow> vf_ints g"
  by (auto simp: vf_ints_def follows_def)

text \<open>A filter whose full update is short; the engine of the filter writes at most ten digits.\<close>

definition compact :: "vfilter \<Rightarrow> bool" where
  "compact f \<longleftrightarrow> memory_consumption f < 2 ^ 30 \<and> eng f < 2 ^ 31"

lemma insert_positive_eng: "insert_positive ks s = Inr (ok, s') \<Longrightarrow> eng (vf s) < 2 ^ 31 \<Longrightarrow> eng (vf s') < 2 ^ 31"
proof (induction ks arbitrary: s)
  case (Cons k ks)
  obtain r f where f: "vf_insert k (vf s) = Inr (r, f)" using Cons.prems(1) by (auto simp: rbind_eq_Inr)
  have "eng f < 2 ^ 31" by (rule vf_insert_eng[OF f Cons.prems(2)])
  with Cons.IH[of "s\<lparr>vf := f, PK := set_insert k (PK s)\<rparr>"] Cons.prems(1) f show ?case by (auto simp: Let_def split: if_splits)
qed simp

text \<open>Numbers of keys for which the filter has buckets, is small, and has fingerprints of 4 to 16 bits.\<close>

definition buildable :: "env \<Rightarrow> float32 \<Rightarrow> nat \<Rightarrow> nat \<Rightarrow> bool" where
  "buildable e lf p n \<longleftrightarrow> (let b = bucket_count (\<lambda>n. div_float32 n lf) p in 0 < b \<and> b < 1315798) \<and> log_len e (p, n) \<le> 15 \<and> p + n < 2 ^ 24"

definition fp_bits :: "env \<Rightarrow> nat \<Rightarrow> nat \<Rightarrow> int" where
  "fp_bits e p n = (let l = log_len e (p, n) + 1 in if l < 4 then 4 else l)"

lemma tracker_init_ok:
  fixes e :: env
  assumes s: "PK s = []" "NK s = []" "sized_filter (vf s)" and b: "buildable e lf p n"
  shows "\<exists>s1. tracker_init e p n lf (1, 0) s = Inr s1 \<and> fresh_tracker s1 \<and> n_positive_keys s1 = p \<and> n_negative_keys s1 = n \<and> vf_ints (vf s1) \<and> compact (vf s1) \<and>
     fp_len (vf s1) = fp_bits e p n"
proof -
  define s2 where "s2 = s\<lparr>load_factor := lf, o_ratio := (1, 0), n_positive_keys := p, n_negative_keys := n, key_ratio := (p, n)\<rparr>"
  define fp where "fp = optimal_fp_len e s2"
  let ?b = "bucket_count (\<lambda>n. div_float32 n lf) p"
  have fp: "4 \<le> fp" "fp \<le> 16" using b by (auto simp: fp_def optimal_fp_len_def s2_def buildable_def Let_def)
  have i: "init_ok ?b fp" using b fp by (simp add: init_ok_def buildable_def Let_def)
  obtain f where f: "vf_init (fits e) ?b 4 400 fp (vf s) = Inr f" "vf_wf f" "cells f = {#}" "filled_cell f = 0" "max_kick_steps f = 400"
     "fp_len f = fp" "vn f = ?b + ?b mod 2" "memory_consumption f = (nat (vn f * 4 * (fp - 1)) + 71) div 8 + 8" "eng f = 1" "len4 f = len4 (vf s)" "big_seg f = big_seg (vf s)"
    using vf_init_ok[OF i, of "vf s" "fits e" 400] s(3) unfolding sized_filter_def by (elim conjE exE impE) auto
  let ?s1 = "s2\<lparr>trk_fp_len := fp, vf := f, TNK_table := replicate (nat (vn f)) [], FPK_table := replicate (nat (vn f)) []\<rparr>"
  have R: "tracker_init e p n lf (1, 0) s = Inr ?s1"
  proof -
    have "vf s2 = vf s" by (simp add: s2_def)
    then show ?thesis unfolding tracker_init_def Let_def s2_def[symmetric] fp_def[symmetric] using f(1) by simp
  qed
  have "fresh_tracker ?s1" using s f(2-4) by (simp add: fresh_tracker_def s2_def)
  moreover have mc: "memory_consumption f < 2 ^ 30"
  proof -
    have "vn f * 4 * (fp - 1) \<le> 1315800 * 4 * 15" using b fp f(7) by (intro mult_mono) (auto simp: buildable_def Let_def)
    then have "nat (vn f * 4 * (fp - 1)) \<le> 78948000" by simp
    then have "(nat (vn f * 4 * (fp - 1)) + 71) div 8 + 8 < 1073741824" by linarith
    then show ?thesis unfolding f(8) by simp
  qed
  then have "compact f" using f(9) by (simp add: compact_def)
  moreover have "vf_ints f" using mc f(4,5,10,11) s(3) by (simp add: vf_ints_def sized_filter_def) (simp add: in32_def)
  moreover have "fp = fp_bits e p n" by (simp add: fp_def fp_bits_def optimal_fp_len_def s2_def)
  ultimately show ?thesis using R f(6) by (intro exI[of _ ?s1]) (simp add: s2_def)
qed

text \<open>The positive keys fit the filter at the first fingerprint length.\<close>

definition fills :: "env \<Rightarrow> float32 \<Rightarrow> u64 list \<Rightarrow> u64 list \<Rightarrow> tracker \<Rightarrow> bool" where
  "fills e lf pos neg s \<longleftrightarrow> buildable e lf (length pos) (length neg) \<and>
     (case tracker_init e (length pos) (length neg) lf (1, 0) s of Inl _ \<Rightarrow> False
      | Inr s1 \<Rightarrow> (case insert_positive pos s1 of Inl _ \<Rightarrow> False | Inr (ok, _) \<Rightarrow> ok))"

lemma fill_ok:
  fixes e :: env
  assumes t: "plain (tmpl e)" "tL (tmpl e) = 1" and s: "PK s = []" "NK s = []" "sized_filter (vf s)"
    and d: "distinct pos" "distinct neg" "set pos \<inter> set neg = {}" and fit: "fills e lf pos neg s"
  shows "case rbind (tracker_init e (length pos) (length neg) lf (1, 0) s) (batch_insert e pos neg) of
      Inr (ok, s') \<Rightarrow> ok \<and> classified (tmpl e) pos neg (vf s') s' \<and> vf_ints (vf s') \<and> compact (vf s') \<and>
        fp_len (vf s') = fp_bits e (length pos) (length neg)
    | Inl err \<Rightarrow> err = Thrown ''exception'' \<and> \<not> settles (tmpl e) pos neg"
proof -
  have b: "buildable e lf (length pos) (length neg)" using fit by (simp add: fills_def)
  obtain s1 where s1: "tracker_init e (length pos) (length neg) lf (1, 0) s = Inr s1" "fresh_tracker s1" "n_positive_keys s1 = length pos"
    "n_negative_keys s1 = length neg" "vf_ints (vf s1)" "compact (vf s1)"
    "fp_len (vf s1) = fp_bits e (length pos) (length neg)" using tracker_init_ok[OF s b] by blast
  obtain s2 where s2: "insert_positive pos s1 = Inr (True, s2)" using fit s1(1) by (auto simp: fills_def split: sum.splits)
  have n: "length pos + length neg < 2 ^ 24" using b by (simp add: buildable_def)
  note B = batch_insert_ok[OF t s1(2-4) n d s2]
  have "in32 (filled_cell (vf s2))" using B(2) n by (simp add: in32_def)
  then have "vf_ints (vf s2)" using ints_follows[OF s1(5)] B(2) by blast
  moreover have "compact (vf s2)"
    using B(2) s1(6) insert_positive_eng[OF s2] by (auto simp: compact_def follows_def)
  moreover have "fp_len (vf s2) = fp_bits e (length pos) (length neg)" using B(2) s1(7) by (auto simp: follows_def)
  ultimately show ?thesis using B(1) s1(1) by (auto simp: classified_def split: sum.splits)
qed

text \<open>Up to eight keys always fit: the first key that the filter refuses finds both its buckets full.\<close>

lemma insert_positive_few: "vf_wf (vf s) \<Longrightarrow> size (cells (vf s)) + length ks \<le> 8 \<Longrightarrow> \<exists>s'. insert_positive ks s = Inr (True, s')"
proof (induction ks arbitrary: s)
  case (Cons k ks)
  obtain r f where f: "vf_insert k (vf s) = Inr (r, f)" "inserted (vf s) (vf_tag (vf s) k) (r, f)" "r = 0 \<or> 8 \<le> size (cells (vf s))"
    using vf_insert_ok[OF Cons.prems(1), of k] by auto
  then have "r = 0" using Cons.prems(2) by auto
  then have "vf_wf f" "size (cells f) = Suc (size (cells (vf s)))" using f(2) by (simp_all add: inserted_def)
  with Cons.IH[of "s\<lparr>vf := f, PK := set_insert k (PK s)\<rparr>"] Cons.prems(2) show ?case using f(1) \<open>r = 0\<close> by (simp add: Let_def)
qed simp

lemma fills_few:
  fixes e :: env
  assumes s: "PK s = []" "NK s = []" "sized_filter (vf s)" and b: "buildable e lf (length pos) (length neg)" and n: "length pos \<le> 8"
  shows "fills e lf pos neg s"
proof -
  obtain s1 where s1: "tracker_init e (length pos) (length neg) lf (1, 0) s = Inr s1" "fresh_tracker s1" using tracker_init_ok[OF s b] by blast
  then have "vf_wf (vf s1)" "size (cells (vf s1)) + length pos \<le> 8" using n by (simp_all add: fresh_tracker_def)
  then obtain s2 where "insert_positive pos s1 = Inr (True, s2)" using insert_positive_few by blast
  then show ?thesis using b s1(1) by (simp add: fills_def)
qed

definition iterates :: "env \<Rightarrow> bool" where
  "iterates e \<longleftrightarrow> (\<forall>ks. mset (iter e ks) = mset ks)"

lemma iterates_simps: "iterates e \<Longrightarrow> set (iter e ks) = set ks \<and> distinct (iter e ks) = distinct ks \<and> length (iter e ks) = length ks"
  unfolding iterates_def by (metis mset_eq_setD mset_eq_imp_distinct_iff mset_eq_length)

lemma rebuild_ok:
  fixes e :: env
  assumes t: "plain (tmpl e)" "tL (tmpl e) = 1" "iterates e" and s: "sized_filter (vf s)"
    and d: "distinct (PK s)" "distinct (NK s)" "set (PK s) \<inter> set (NK s) = {}"
    and fit: "fills e lf (iter e (PK s)) (iter e (NK s)) (s\<lparr>PK := [], NK := []\<rparr>)"
  shows "case tracker_rebuild e lf (1, 0) s of
      Inr s' \<Rightarrow> tracker_inv (tmpl e) s' \<and> classes s' = classes s \<and> vf_ints (vf s') \<and> compact (vf s')
    | Inl err \<Rightarrow> err = Thrown ''exception'' \<and> \<not> settles (tmpl e) (PK s) (NK s)"
proof -
  note I = iterates_simps[OF t(3)]
  let ?s = "s\<lparr>PK := [], NK := []\<rparr>" and ?pos = "iter e (PK s)" and ?neg = "iter e (NK s)"
  have "distinct ?pos" "distinct ?neg" "set ?pos \<inter> set ?neg = {}" using d I by simp_all
  from fill_ok[OF t(1,2) _ _ _ this fit] s have
    F: "case rbind (tracker_init e (length ?pos) (length ?neg) lf (1, 0) ?s) (batch_insert e ?pos ?neg) of
      Inr (ok, s') \<Rightarrow> ok \<and> classified (tmpl e) ?pos ?neg (vf s') s' \<and> vf_ints (vf s') \<and> compact (vf s') \<and>
        fp_len (vf s') = fp_bits e (length ?pos) (length ?neg)
    | Inl err \<Rightarrow> err = Thrown ''exception'' \<and> \<not> settles (tmpl e) ?pos ?neg" by simp
  have st: "settles (tmpl e) ?pos ?neg = settles (tmpl e) (PK s) (NK s)" by (rule settles_cong) (use I in simp_all)
  have R: "tracker_rebuild e lf (1, 0) s = rbind (rbind (tracker_init e (length ?pos) (length ?neg) lf (1, 0) ?s) (batch_insert e ?pos ?neg)) (\<lambda>(_, s2). Inr s2)"
    by (simp add: tracker_rebuild_def Let_def rbind_assoc)
  have "divided ?pos ?neg = classes s" using I by (simp add: classes_divided divided_def cong: if_cong)
  with F show ?thesis unfolding R st by (auto simp: classified_def classes_divided rbind_def split: sum.splits)
qed

lemma control_init_ok:
  fixes e :: env
  assumes t: "plain (tmpl e)" "tL (tmpl e) = 1" and s: "PK (vo_control c) = []" "NK (vo_control c) = []" "sized_filter (vf (vo_control c))"
    and d: "distinct pos" "distinct neg" "set pos \<inter> set neg = {}" and fit: "fills e lf pos neg (vo_control c)"
  shows "case control_init e pos neg lf (1, 0) c of
      Inr c' \<Rightarrow> classified (tmpl e) pos neg (vf (vo_control c')) (vo_control c') \<and> vf_ints (vf (vo_control c')) \<and>
        in_step (tmpl e) (vo_control c') (vo_data c') \<and> c_o_ratio c' = (1, 0) \<and> c_loadfactor c' = c_loadfactor c \<and>
        fp_len (vf (vo_control c')) = fp_bits e (length pos) (length neg)
    | Inl err \<Rightarrow> err = Thrown ''exception'' \<and> \<not> settles (tmpl e) pos neg"
proof -
  have "length pos + length neg < 2 ^ 24" using fit by (simp add: fills_def buildable_def)
  then have w: "w32 (length pos) = length pos" "w32 (length neg) = length neg" by (simp_all add: w32_def)
  have R: "control_init e pos neg lf (1, 0) c = rbind (rbind (tracker_init e (length pos) (length neg) lf (1, 0) (vo_control c)) (batch_insert e pos neg))
     (\<lambda>(_, s2). rbind (verifier_install s2 (vo_data c)) (\<lambda>d. Inr (c\<lparr>c_o_ratio := (1, 0), vo_control := s2, vo_data := d\<rparr>)))"
    by (simp add: control_init_def w rbind_assoc)
  note F = fill_ok[OF t s d fit]
  show ?thesis
  proof (cases "rbind (tracker_init e (length pos) (length neg) lf (1, 0) (vo_control c)) (batch_insert e pos neg)")
    case (Inl err)
    with F show ?thesis unfolding R by (simp only: rbind_simps sum.case simp_thms)
  next
    case (Inr r)
    then obtain ok s' where r: "r = (ok, s')" by (cases r) simp
    have C: "classified (tmpl e) pos neg (vf s') s'" "vf_ints (vf s')" "fp_len (vf s') = fp_bits e (length pos) (length neg)" using F Inr by (simp_all add: r)
    then have inv: "tracker_inv (tmpl e) s'" "PK s' = pos" "NK s' = neg" by (simp_all add: classified_def)
    obtain d where "verifier_install s' (vo_data c) = Inr d" "in_step (tmpl e) s' d" using install_in_step[OF inv(1)] by blast
    then show ?thesis unfolding R Inr r using C by simp
  qed
qed

text \<open>A server's side whose verifier was installed from its tracker just now.\<close>

definition renewed :: "u64 template \<Rightarrow> control \<Rightarrow> bool" where
  "renewed t c \<longleftrightarrow> tracker_inv t (vo_control c) \<and> vf_ints (vf (vo_control c)) \<and> compact (vf (vo_control c)) \<and>
     (\<exists>d. verifier_install (vo_control c) d = Inr (vo_data c)) \<and> in_step t (vo_control c) (vo_data c) \<and> c_o_ratio c = (1, 0)"

lemma after_rebuild:
  fixes e :: env
  assumes t: "plain (tmpl e)" "tL (tmpl e) = 1" "iterates e" and s: "sized_filter (vf s)"
    and d: "distinct (PK s)" "distinct (NK s)" "set (PK s) \<inter> set (NK s) = {}" and c: "c_o_ratio c = (1, 0)"
    and fit: "fills e (c_loadfactor c) (iter e (PK s)) (iter e (NK s)) (s\<lparr>PK := [], NK := []\<rparr>)"
  shows "case after_update e ([REBUILD], s) c of
      Inr (ok, c') \<Rightarrow> \<not> ok \<and> renewed (tmpl e) c' \<and> tracker_rebuild e (c_loadfactor c) (1, 0) s = Inr (vo_control c') \<and>
        classes (vo_control c') = classes s \<and> c_loadfactor c' = c_loadfactor c \<and> flipped_indexes c' = [REBUILD]
    | Inl err \<Rightarrow> err = Thrown ''exception'' \<and> \<not> settles (tmpl e) (PK s) (NK s)"
proof -
  note F = rebuild_ok[OF t s d fit]
  have R: "after_update e ([REBUILD], s) c = rbind (tracker_rebuild e (c_loadfactor c) (1, 0) s) (\<lambda>s1.
          rbind (verifier_install s1 (vo_data c)) (\<lambda>d. Inr (False, c\<lparr>flipped_indexes := [REBUILD], vo_control := s1, vo_data := d\<rparr>)))"
    by (simp add: after_update_def Let_def c)
  show ?thesis
  proof (cases "tracker_rebuild e (c_loadfactor c) (1, 0) s")
    case (Inl err)
    with F show ?thesis unfolding R by (simp only: rbind_simps sum.case simp_thms)
  next
    case (Inr s')
    with F have s': "tracker_inv (tmpl e) s'" "classes s' = classes s" "vf_ints (vf s')" "compact (vf s')" by simp_all
    obtain d where "verifier_install s' (vo_data c) = Inr d" "in_step (tmpl e) s' d" using install_in_step[OF s'(1)] by blast
    then show ?thesis unfolding R Inr using s' c by (auto simp: renewed_def)
  qed
qed

subsection \<open>The server\<close>

text \<open>A server that has been started with these keys.\<close>

definition started :: "u64 template \<Rightarrow> u64 list \<Rightarrow> u64 list \<Rightarrow> server \<Rightarrow> server \<Rightarrow> bool" where
  "started t pos neg s s' \<longleftrightarrow> classified t pos neg (vf (tracker_of s')) (tracker_of s') \<and> vf_ints (vf (tracker_of s')) \<and>
     in_step t (tracker_of s') (vo_data (dassTracker s')) \<and> c_o_ratio (dassTracker s') = (1, 0) \<and>
     c_loadfactor (dassTracker s') = c_loadfactor (dassTracker s) \<and> connectedDevices s' = connectedDevices s"

lemma server_init_ok:
  fixes e :: env
  assumes "plain (tmpl e)" "tL (tmpl e) = 1" "PK (tracker_of s) = []" "NK (tracker_of s) = []" "sized_filter (vf (tracker_of s))"
    and "distinct pos" "distinct neg" "set pos \<inter> set neg = {}" and "fills e lf pos neg (tracker_of s)"
  shows "case server_init e pos neg lf (1, 0) s of
      Inr s' \<Rightarrow> started (tmpl e) pos neg s s' \<and> fp_len (vf (tracker_of s')) = fp_bits e (length pos) (length neg)
    | Inl err \<Rightarrow> err = Thrown ''exception'' \<and> \<not> settles (tmpl e) pos neg"
  using control_init_ok[OF assms(1,2) _ _ _ assms(6-8), of "dassTracker s" lf] assms(3-5,9)
  by (cases "control_init e pos neg lf (1, 0) (dassTracker s)") (simp_all add: server_init_def started_def tracker_of_def)

lemma started_classes: "started t pos neg s s' \<Longrightarrow> tracker_inv t (tracker_of s') \<and> classes (tracker_of s') = divided pos neg"
  by (auto simp: started_def classified_def classes_divided)

text \<open>With fewer than four positive keys the filter has no buckets, and the first key divides by zero.\<close>

lemma no_buckets: "p < 4 \<Longrightarrow> bucket_count (\<lambda>n. div_float32 n lf) p = 0"
  by (simp add: bucket_count_def div_float32_def div_float_def round_even_exact Let_def)

lemma empty_filter_fails: "vn f = 0 \<Longrightarrow> fp_len f \<noteq> 0 \<Longrightarrow> vf_insert k f = Inl Undefined \<and> vf_lookup f k = Inl Undefined"
  by (auto simp: vf_insert_def vf_lookup_def fingerprint_def position_hash_def guard_def Let_def)


text \<open>What the tracker is left with when an update returns, whether or not it asks for a rebuild.\<close>

definition left_with :: "tracker \<Rightarrow> u64 list \<Rightarrow> u64 list \<Rightarrow> tracker \<Rightarrow> bool" where
  "left_with s P N s' \<longleftrightarrow> PK s' = P \<and> NK s' = N \<and> distinct P \<and> distinct N \<and> set P \<inter> set N = {} \<and> follows (vf s) (vf s')"

lemma insert_leaves:
  fixes e :: env
  assumes I: "tracker_inv (tmpl e) s" and k: "classes s k = None" and v: "v = 0 \<or> v = 1"
    and run: "tracker_insert e (k, v) s = Inr (fl, tr)"
  shows "left_with s (if v = 1 then PK s @ [k] else PK s) (if v = 1 then NK s else NK s @ [k]) tr \<and> classes tr = (classes s)(k \<mapsto> v)"
proof -
  note i = tracker_invD[OF I]
  have kn: "k \<notin> set (PK s)" "k \<notin> set (NK s)" using k by (auto simp: classes_def split: if_splits)
  from v show ?thesis
  proof
    assume v: "v = 0"
    then have "sets_of tr = (PK s, NK s @ [k], vf s)" using insert_sets(2)[of v e k s fl tr] run set_insert_fresh[OF kn(2)] by simp
    with i(3-5) kn v show ?thesis by (auto simp: left_with_def sets_of_def classes_divided divided_def fun_eq_iff)
  next
    assume v: "v = 1"
    then obtain r f where f: "vf_insert k (vf s) = Inr (r, f)" "sets_of tr = (PK s @ [k], NK s, f)"
      using insert_sets(1)[of e k s fl tr] run set_insert_fresh[OF kn(1)] by auto
    have "follows (vf s) f" using vf_insert_ok[OF i(1), of k] f(1) by (auto simp: inserted_def)
    with i(3-5) kn v f(2) show ?thesis by (auto simp: left_with_def sets_of_def classes_divided divided_def fun_eq_iff)
  qed
qed

lemma set_positive_leaves:
  fixes e :: env
  assumes I: "tracker_inv (tmpl e) s" and k: "k \<in> set (NK s)" and run: "set_positive e (k, 1) s = Inr (fl, tr)"
  shows "left_with s (PK s @ [k]) (set_erase k (NK s)) tr \<and> classes tr = (classes s)(k \<mapsto> 1)"
proof -
  note i = tracker_invD[OF I]
  have kP: "k \<notin> set (PK s)" using i(5) k by auto
  obtain r f where f: "vf_insert k (vf s) = Inr (r, f)" "sets_of tr = (PK s @ [k], set_erase k (NK s), f)"
    using set_positive_sets[OF run] set_insert_fresh[OF kP] by auto
  have "follows (vf s) f" using vf_insert_ok[OF i(1), of k] f(1) by (auto simp: inserted_def)
  with i(3-5) kP f(2) show ?thesis
    by (auto simp: left_with_def sets_of_def classes_divided divided_def fun_eq_iff set_erase_simps)
qed

lemma send_all_full:
  assumes "full_stream (dassTracker s) = Inr data"
  shows "\<forall>h \<in> set hs. reach h \<Longrightarrow> send_to_hosts reach s hs sent = Inr (True, sent @ map (\<lambda>h. (h, data)) hs)"
  using assms by (induction hs arbitrary: sent) (simp_all add: sendFullUpdate_def)

definition rebuilt :: "u64 template \<Rightarrow> server \<Rightarrow> (u64 \<rightharpoonup> u32) \<Rightarrow> (bool \<times> packet list) \<times> server \<Rightarrow> bool" where
  "rebuilt t s m = (\<lambda>((ok, ps), s'). ok \<and> connectedDevices s' = connectedDevices s \<and>
     (\<exists>data. full_stream (dassTracker s') = Inr data \<and> length data < 2 ^ 32 \<and> ps = map (\<lambda>h. (h, data)) (connectedDevices s)) \<and>
     renewed t (dassTracker s') \<and> classes (tracker_of s') = m)"

lemma copies_ints: "copies g f \<Longrightarrow> vf_ints f \<Longrightarrow> vf_ints g"
  by (auto simp: copies_def other_def vf_ints_def)

lemma decimal_length: "length (decimal n) \<le> Suc n"
proof (induction n rule: decimal.induct)
  case (1 n)
  show ?case
  proof (cases "n < 10")
    case True
    then show ?thesis by (simp add: decimal.simps[of n])
  next
    case False
    then have "length (decimal (n div 10)) \<le> Suc (n div 10)" "n div 10 < n" using 1 by simp_all
    then show ?thesis using False by (simp add: decimal.simps[of n])
  qed
qed

lemma install_othello: "verifier_install s d = Inr d' \<Longrightarrow> v_othello d' = dplane_of (othello s)"
  by (auto simp: verifier_install_def rbind_eq_Inr)

lemma full_stream_total:
  assumes r: "renewed t c" and L: "tL t = 1"
  shows "\<exists>data. full_stream c = Inr data \<and> length data < 2 ^ 32"
proof -
  let ?d = "vo_data c" and ?tr = "vo_control c"
  have R: "tracker_inv t ?tr" "vf_ints (vf ?tr)" "compact (vf ?tr)" "in_step t ?tr ?d" using r by (simp_all add: renewed_def)
  obtain d where d: "verifier_install ?tr d = Inr ?d" using r by (auto simp: renewed_def)
  have cp: "copies (v_vf ?d) (vf ?tr)" using R(4) by (simp add: in_step_def)
  have i: "vf_ints (v_vf ?d)" by (rule copies_ints[OF cp R(2)])
  have wf: "vf_wf (v_vf ?d)" using in_step_fields[OF R(4,1)] by blast
  obtain v where v: "encode_full c = Inr v" "concat v = othello_bytes (v_othello ?d) @ filter_bytes (v_vf ?d)" using encode_full_ok[OF wf i] by blast
  have o: "v_othello ?d = dplane_of (othello ?tr)" by (rule install_othello[OF d])
  have "64 * length (mem (othello ?tr)) < nodes (othello ?tr) + 64" "nodes (othello ?tr) < 2 ^ 31"
    using invD(3)[OF tracker_invD(8)[OF R(1)]] L by (simp_all add: sizes_def)
  then have m: "length (dmem (v_othello ?d)) < 2 ^ 26" by (simp add: o dplane_of_def fullSync_def)
  have f: "length (T (v_vf ?d)) < 2 ^ 28" "length (len4 (v_vf ?d)) = 4" "eng (v_vf ?d) < 2 ^ 31"
    using wf i R(3) cp by (auto simp: vf_wf_def vf_geom_def vf_ints_def compact_def copies_def other_def)
  have e: "length (decimal (eng (v_vf ?d))) \<le> 2 ^ 31" using decimal_length[of "eng (v_vf ?d)"] f(3) by simp
  have "length ([70] @ concat v @ finish_mark) < 2 ^ 32"
    using m f(1) e unfolding v(2) othello_bytes_def filter_bytes_def
    by (simp add: be64.concat_length be32.concat_length finish_mark_def f(2) del: map_map)
  then show ?thesis by (simp add: full_stream_def v(1))
qed

lemma add_rebuilt:
  fixes e :: env
  assumes t: "plain (tmpl e)" "tL (tmpl e) = 1" "iterates e" and I: "tracker_inv (tmpl e) (tracker_of s)" and sz: "sized_filter (vf (tracker_of s))"
    and c: "c_o_ratio (dassTracker s) = (1, 0)" and reach: "\<forall>h \<in> set (connectedDevices s). reach h"
    and k: "classes (tracker_of s) k = None" "v = 0 \<or> v = 1"
    and run: "tracker_insert e (k, v) (tracker_of s) = Inr ([REBUILD], tr)"
    and fit: "fills e (c_loadfactor (dassTracker s)) (iter e (PK tr)) (iter e (NK tr)) (tr\<lparr>PK := [], NK := []\<rparr>)"
  shows "case addCertificate e reach (k, v) s of
      Inr out \<Rightarrow> rebuilt (tmpl e) s ((classes (tracker_of s))(k \<mapsto> v)) out
    | Inl err \<Rightarrow> err = Thrown ''exception'' \<and> \<not> settles (tmpl e) (PK tr) (NK tr)"
proof -
  have R: "distinct (PK tr)" "distinct (NK tr)" "set (PK tr) \<inter> set (NK tr) = {}" "follows (vf (tracker_of s)) (vf tr)"
    "classes tr = (classes (tracker_of s))(k \<mapsto> v)" using insert_leaves[OF I k run] by (auto simp: left_with_def)
  have sz': "sized_filter (vf tr)" by (rule sized_follows[OF sz R(4)])
  note A = after_rebuild[OF t sz' R(1-3) c fit, unfolded R(5)]
  have C: "control_insert e (k, v) (dassTracker s) = after_update e ([REBUILD], tr) (dassTracker s)"
    using run by (simp add: control_insert_def tracker_of_def)
  show ?thesis
  proof (cases "after_update e ([REBUILD], tr) (dassTracker s)")
    case (Inl err)
    with A C show ?thesis by (simp add: addCertificate_def)
  next
    case (Inr r)
    then obtain ok c' where r: "r = (ok, c')" by (cases r) simp
    let ?s' = "s\<lparr>dassTracker := c'\<rparr>"
    have B: "\<not> ok" "renewed (tmpl e) c'" "classes (vo_control c') = (classes (tracker_of s))(k \<mapsto> v)" using A Inr r by simp_all
    obtain data where d: "full_stream (dassTracker ?s') = Inr data" "length data < 2 ^ 32" using full_stream_total[OF B(2) t(2)] by auto
    obtain x where x: "encode_full (dassTracker ?s') = Inr x" using d by (auto simp: full_stream_def rbind_eq_Inr)
    have "sendFullUpdates reach ?s' = Inr (True, map (\<lambda>h. (h, data)) (connectedDevices s))"
      using send_all_full[OF d(1), of "connectedDevices s" reach "[]"] reach x by (simp add: sendFullUpdates_def)
    then have "addCertificate e reach (k, v) s = Inr ((True, map (\<lambda>h. (h, data)) (connectedDevices s)), ?s')"
      using C Inr r B(1) by (simp add: addCertificate_def)
    then show ?thesis using B d by (simp add: rebuilt_def tracker_of_def)
  qed
qed

end
