(* ===== verification/Replication.thy ===== *)
theory Replication
  imports Rebuild
begin

text \<open>
  The interface \<open>replication\<close> of a source that sends a message per operation and replicas that apply
  them, with the theorem on whole histories, and its interpretation on the server and a device.
\<close>

subsection \<open>Replicas\<close>

text \<open>A run of operations, with the messages it sends; \<open>legal_run\<close>: every one is legal when its turn comes.\<close>

fun serve_all :: "('op \<Rightarrow> 's \<Rightarrow> ('m \<times> 's) res) \<Rightarrow> 'op list \<Rightarrow> 's \<Rightarrow> ('m list \<times> 's) res" where
  "serve_all serve [] s = Inr ([], s)"
| "serve_all serve (x # xs) s =
     rbind (serve x s) (\<lambda>(m, s1). rbind (serve_all serve xs s1) (\<lambda>(ms, s2). Inr (m # ms, s2)))"

fun legal_run :: "('op \<Rightarrow> 's \<Rightarrow> bool) \<Rightarrow> ('op \<Rightarrow> 's \<Rightarrow> ('m \<times> 's) res) \<Rightarrow> 'op list \<Rightarrow> 's \<Rightarrow> bool" where
  "legal_run legal serve [] s = True"
| "legal_run legal serve (x # xs) s = (legal x s \<and> (\<forall>m s1. serve x s = Inr (m, s1) \<longrightarrow> legal_run legal serve xs s1))"

text \<open>
  A source of messages and a replica that applies them: \<open>serve\<close> performs an operation and returns
  the message, \<open>arrives w m\<close> says that the message \<open>m\<close> can reach the replica as \<open>w\<close>.
\<close>

locale replication =
  fixes serve :: "'op \<Rightarrow> 's \<Rightarrow> ('m \<times> 's) res"
    and legal :: "'op \<Rightarrow> 's \<Rightarrow> bool"
    and inv :: "'s \<Rightarrow> bool"
    and arrives :: "'w \<Rightarrow> 'm \<Rightarrow> bool"
    and learn :: "'w \<Rightarrow> 'd \<Rightarrow> 'd res"
    and agrees :: "'s \<Rightarrow> 'd \<Rightarrow> bool"
    and effect :: "'op \<Rightarrow> 'a \<Rightarrow> 'a"
    and view :: "'s \<Rightarrow> 'a"
  assumes step: "inv s \<Longrightarrow> legal x s \<Longrightarrow> \<exists>m s'. serve x s = Inr (m, s') \<and> inv s' \<and> view s' = effect x (view s) \<and>
    (\<forall>d w. agrees s d \<longrightarrow> arrives w m \<longrightarrow> (\<exists>d'. learn w d = Inr d' \<and> agrees s' d'))"
begin

lemma history:
  "inv s \<Longrightarrow> legal_run legal serve ops s \<Longrightarrow> \<exists>ms s'. serve_all serve ops s = Inr (ms, s') \<and> inv s' \<and> view s' = fold effect ops (view s) \<and>
    (\<forall>d ws. agrees s d \<longrightarrow> list_all2 arrives ws ms \<longrightarrow> (\<exists>d'. rfold learn ws d = Inr d' \<and> agrees s' d'))"
proof (induction ops arbitrary: s)
  case (Cons x ops)
  then obtain m s1 where S: "serve x s = Inr (m, s1)" "inv s1" "view s1 = effect x (view s)"
    "\<And>d w. agrees s d \<Longrightarrow> arrives w m \<Longrightarrow> \<exists>d'. learn w d = Inr d' \<and> agrees s1 d'" using step[of s x] by auto
  have "legal_run legal serve ops s1" using Cons.prems(2) S(1) by simp
  from Cons.IH[OF S(2) this] obtain ms s2 where R: "serve_all serve ops s1 = Inr (ms, s2)" "inv s2" "view s2 = fold effect ops (view s1)"
    "\<And>d ws. agrees s1 d \<Longrightarrow> list_all2 arrives ws ms \<Longrightarrow> \<exists>d'. rfold learn ws d = Inr d' \<and> agrees s2 d'" by blast
  have "\<exists>d'. rfold learn ws d = Inr d' \<and> agrees s2 d'" if a: "agrees s d" "list_all2 arrives ws (m # ms)" for d ws
  proof -
    from a(2) obtain w ws' where ws: "ws = w # ws'" "arrives w m" "list_all2 arrives ws' ms" by (auto simp: list_all2_Cons2)
    obtain d1 where "learn w d = Inr d1" "agrees s1 d1" using S(4)[OF a(1) ws(2)] by blast
    with R(4)[OF _ ws(3)] show ?thesis by (auto simp: ws(1))
  qed
  with S R show ?case by simp
qed simp

end

subsection \<open>The server and a device\<close>

datatype cert_op = AddCert u64 u32 | UnrevokeCert u64 | RevokeCert u64

text \<open>The directory of certificates both ends stand for.\<close>

fun directory_op :: "cert_op \<Rightarrow> (u64 \<rightharpoonup> u32) \<Rightarrow> u64 \<rightharpoonup> u32" where
  "directory_op (AddCert k v) m = m(k \<mapsto> v)"
| "directory_op (UnrevokeCert k) m = m(k \<mapsto> 0)"
| "directory_op (RevokeCert k) m = m(k \<mapsto> 1)"

fun server_op :: "env \<Rightarrow> (string \<Rightarrow> bool) \<Rightarrow> cert_op \<Rightarrow> server \<Rightarrow> ((bool \<times> packet list) \<times> server) res" where
  "server_op e reach (AddCert k v) s = addCertificate e reach (k, v) s"
| "server_op e reach (UnrevokeCert k) s = unrevokeCertificate e reach k s"
| "server_op e reach (RevokeCert k) s = revokeCertificate e reach k s"

text \<open>What one host receives of the packets of an operation.\<close>

definition serve_host :: "env \<Rightarrow> (string \<Rightarrow> bool) \<Rightarrow> string \<Rightarrow> cert_op \<Rightarrow> server \<Rightarrow> (u8 list \<times> server) res" where
  "serve_host e reach host x s =
     rbind (server_op e reach x s) (\<lambda>((_, ps), s'). Inr (concat (map snd (filter (\<lambda>p. fst p = host) ps)), s'))"

definition short_update :: "env \<Rightarrow> (string \<Rightarrow> bool) \<Rightarrow> cert_op \<Rightarrow> server \<Rightarrow> bool" where
  "short_update e reach x s \<longleftrightarrow>
     (case server_op e reach x s of Inl _ \<Rightarrow> True | Inr (_, s') \<Rightarrow> length (flipped_indexes (dassTracker s')) < 256)"

fun fits_op :: "u64 template \<Rightarrow> tracker \<Rightarrow> cert_op \<Rightarrow> bool" where
  "fits_op t tr (AddCert k v) \<longleftrightarrow> classes tr k = None \<and>
     (v = 1 \<and> (\<exists>f. vf_insert k (vf tr) = Inr (0, f)) \<and> storable t tr (PK tr @ [k]) (NK tr)
      \<or> v = 0 \<and> storable t tr (PK tr) (NK tr @ [k]))"
| "fits_op t tr (UnrevokeCert k) \<longleftrightarrow> settable t tr k 0"
| "fits_op t tr (RevokeCert k) \<longleftrightarrow> settable t tr k 1"

text \<open>
  A quiet operation is about a new key (add) or a known one (set), finds room in the filter and in
  Othello without closing a cycle, and flips fewer than 256 positions.
\<close>

definition quiet_op :: "env \<Rightarrow> (string \<Rightarrow> bool) \<Rightarrow> cert_op \<Rightarrow> server \<Rightarrow> bool" where
  "quiet_op e reach x s \<longleftrightarrow> fits_op (tmpl e) (tracker_of s) x \<and> short_update e reach x s"

text \<open>
  An addition that makes the tracker ask for a rebuild, with keys that fit the new filter at the first
  fingerprint length and for which \<open>build\<close> of the new Othello finds a seed.
\<close>

fun rebuild_op :: "env \<Rightarrow> (string \<Rightarrow> bool) \<Rightarrow> cert_op \<Rightarrow> server \<Rightarrow> bool" where
  "rebuild_op e reach (AddCert k v) s \<longleftrightarrow> classes (tracker_of s) k = None \<and> (v = 0 \<or> v = 1) \<and>
     (\<exists>tr. tracker_insert e (k, v) (tracker_of s) = Inr ([REBUILD], tr) \<and>
        fills e (c_loadfactor (dassTracker s)) (iter e (PK tr)) (iter e (NK tr)) (tr\<lparr>PK := [], NK := []\<rparr>)) \<and>
     addCertificate e reach (k, v) s \<noteq> Inl (Thrown ''exception'')"
| "rebuild_op e reach (UnrevokeCert k) s \<longleftrightarrow> False"
| "rebuild_op e reach (RevokeCert k) s \<longleftrightarrow> False"

definition legal_op :: "env \<Rightarrow> (string \<Rightarrow> bool) \<Rightarrow> cert_op \<Rightarrow> server \<Rightarrow> bool" where
  "legal_op e reach x s \<longleftrightarrow> quiet_op e reach x s \<or> rebuild_op e reach x s"

definition server_ok :: "env \<Rightarrow> (string \<Rightarrow> bool) \<Rightarrow> string \<Rightarrow> server \<Rightarrow> bool" where
  "server_ok e reach host s \<longleftrightarrow> tracker_inv (tmpl e) (tracker_of s) \<and> host \<in> set (connectedDevices s) \<and> distinct (connectedDevices s) \<and>
     (\<forall>h \<in> set (connectedDevices s). reach h) \<and> plain (tmpl e) \<and> tL (tmpl e) = 1 \<and> iterates e \<and>
     sized_filter (vf (tracker_of s)) \<and> c_o_ratio (dassTracker s) = (1, 0)"

definition client_ok :: "u64 template \<Rightarrow> server \<Rightarrow> client \<Rightarrow> bool" where
  "client_ok t s cl \<longleftrightarrow> in_step t (tracker_of s) (dassVerifier cl) \<and> \<not> queryLock cl"

lemma client_answers:
  fixes e :: env
  assumes I: "tracker_inv (tmpl e) (tracker_of s)" and L: "tL (tmpl e) = 1" and c: "client_ok (tmpl e) s cl"
  shows "\<forall>x w. classes (tracker_of s) x = Some w \<longrightarrow> client_queryCertificate (tmpl e) x cl = Inr (w = 1)"
proof (intro allI impI)
  fix x w assume w: "classes (tracker_of s) x = Some w"
  have "verifier_query (tmpl e) (dassVerifier cl) x = tracker_query e (tracker_of s) x"
    using in_step_query[OF I] c by (simp add: client_ok_def)
  also have "\<dots> = Inr w" using tracker_query_ok[OF I _ L, of x] w by (auto simp: classes_def split: if_splits)
  finally show "client_queryCertificate (tmpl e) x cl = Inr (w = 1)" using c by (simp add: client_queryCertificate_def data_query_def client_ok_def)
qed

definition learn_update :: "u64 template \<Rightarrow> u8 list list \<Rightarrow> client \<Rightarrow> client res" where
  "learn_update t chunks cl = rbind (receive_update t [] chunks cl) (\<lambda>(_, cl'). Inr cl')"

lemma learn_all: "rfold (learn_update t) css cl = listenForUpdates t [] css cl"
proof (induction css arbitrary: cl)
  case (Cons c css)
  have "rfold (learn_update t) css = listenForUpdates t [] css" by (rule ext) (rule Cons)
  then show ?case by (simp add: learn_update_def[of t c cl] rbind_assoc rbind_cases)
qed simp

lemma only_host: "distinct hs \<Longrightarrow> host \<in> set hs \<Longrightarrow> concat (map snd (filter (\<lambda>p. fst p = host) (map (\<lambda>h. (h, m)) hs))) = m"
  by (induction hs) (auto simp: filter_empty_conv)

lemma accepted_step:
  assumes ok: "server_ok e reach host s" and A: "server_op e reach x s = Inr out" "accepted (tmpl e) s k v a out"
    and x: "directory_op x (classes (tracker_of s)) = (classes (tracker_of s))(k \<mapsto> v)" and sh: "short_update e reach x s"
  shows "\<exists>m s'. serve_host e reach host x s = Inr (m, s') \<and> server_ok e reach host s' \<and>
    classes (tracker_of s') = directory_op x (classes (tracker_of s)) \<and>
    (\<forall>cl css. client_ok (tmpl e) s cl \<longrightarrow> delivers css m \<longrightarrow> (\<exists>cl'. learn_update (tmpl e) css cl = Inr cl' \<and> client_ok (tmpl e) s' cl'))"
proof -
  obtain b ps s' where out: "out = ((b, ps), s')" by (cases out) auto
  let ?m = "[1] @ entry a k v (flipped_indexes (dassTracker s')) @ finish_mark"
  have B: "connectedDevices s' = connectedDevices s" "ps = map (\<lambda>h. (h, ?m)) (connectedDevices s)" "tracker_inv (tmpl e) (tracker_of s')"
    "classes (tracker_of s') = (classes (tracker_of s))(k \<mapsto> v)"
    "follows (vf (tracker_of s)) (vf (tracker_of s'))" "c_o_ratio (dassTracker s') = c_o_ratio (dassTracker s)"
    "length (flipped_indexes (dassTracker s')) < 256 \<longrightarrow> carries (tmpl e) (tracker_of s) (tracker_of s') ?m"
    using A(2) unfolding out accepted_def Let_def by simp_all
  have "serve_host e reach host x s = Inr (?m, s')"
    using A(1) only_host[of "connectedDevices s" host ?m] ok unfolding out serve_host_def B(2) by (simp add: server_ok_def)
  moreover have "server_ok e reach host s'" using ok B(1,3,6) sized_follows[OF _ B(5)] by (simp add: server_ok_def)
  moreover have "carries (tmpl e) (tracker_of s) (tracker_of s') ?m"
    using B(7) sh A(1) by (simp add: short_update_def out)
  then have "\<exists>cl'. learn_update (tmpl e) css cl = Inr cl' \<and> client_ok (tmpl e) s' cl'" if a: "client_ok (tmpl e) s cl" "delivers css ?m" for cl css
  proof -
    assume c: "carries (tmpl e) (tracker_of s) (tracker_of s') ?m"
    obtain reply cl' where "receive_update (tmpl e) [] css cl = Inr (reply, cl')" "in_step (tmpl e) (tracker_of s') (dassVerifier cl')" "\<not> queryLock cl'"
      using c[unfolded carries_def, rule_format, of cl css "[]"] a by (auto simp: client_ok_def)
    then show ?thesis by (simp add: learn_update_def client_ok_def)
  qed
  ultimately show ?thesis using B(4) x by (metis (no_types, lifting))
qed

lemma op_accepted:
  assumes ok: "server_ok e reach host s" and l: "quiet_op e reach x s"
  shows "\<exists>out k v a. server_op e reach x s = Inr out \<and> accepted (tmpl e) s k v a out \<and>
    directory_op x (classes (tracker_of s)) = (classes (tracker_of s))(k \<mapsto> v)"
proof -
  have I: "tracker_inv (tmpl e) (tracker_of s)" and L: "tL (tmpl e) = 1" and r: "\<forall>h \<in> set (connectedDevices s). reach h"
    and fit: "fits_op (tmpl e) (tracker_of s) x" using ok l by (simp_all add: server_ok_def quiet_op_def)
  show ?thesis
  proof (cases x)
    case (AddCert k v)
    then obtain out where "server_op e reach x s = Inr out" "accepted (tmpl e) s k v 0 out"
      using add_accepted[OF I L r, of k v] fit by auto
    then show ?thesis by (intro exI[of _ out] exI[of _ k] exI[of _ v] exI[of _ 0]) (simp add: AddCert)
  next
    case (UnrevokeCert k)
    then obtain out where "server_op e reach x s = Inr out" "accepted (tmpl e) s k 0 2 out"
      using set_accepted(1)[OF I L r, of k 0] fit by auto
    then show ?thesis by (intro exI[of _ out] exI[of _ k] exI[of _ 0] exI[of _ 2]) (simp add: UnrevokeCert)
  next
    case (RevokeCert k)
    then obtain out where "server_op e reach x s = Inr out" "accepted (tmpl e) s k 1 3 out"
      using set_accepted(2)[OF I L r, of k 1] fit by auto
    then show ?thesis by (intro exI[of _ out] exI[of _ k] exI[of _ 1] exI[of _ 3]) (simp add: RevokeCert)
  qed
qed

lemma rebuilt_step:
  assumes ok: "server_ok e reach host s" and l: "rebuild_op e reach x s"
  shows "\<exists>m s'. serve_host e reach host x s = Inr (m, s') \<and> server_ok e reach host s' \<and>
    classes (tracker_of s') = directory_op x (classes (tracker_of s)) \<and>
    (\<forall>cl css. client_ok (tmpl e) s cl \<longrightarrow> delivers css m \<longrightarrow> (\<exists>cl'. learn_update (tmpl e) css cl = Inr cl' \<and> client_ok (tmpl e) s' cl'))"
proof -
  let ?t = "tmpl e"
  have S: "tracker_inv ?t (tracker_of s)" "plain ?t" "tL ?t = 1" "iterates e" "sized_filter (vf (tracker_of s))" "c_o_ratio (dassTracker s) = (1, 0)"
    "\<forall>h \<in> set (connectedDevices s). reach h" "distinct (connectedDevices s)" "host \<in> set (connectedDevices s)"
    using ok by (simp_all add: server_ok_def)
  obtain k v where x: "x = AddCert k v" using l by (cases x) simp_all
  obtain tr where L: "classes (tracker_of s) k = None" "v = 0 \<or> v = 1"
    "tracker_insert e (k, v) (tracker_of s) = Inr ([REBUILD], tr)"
    "fills e (c_loadfactor (dassTracker s)) (iter e (PK tr)) (iter e (NK tr)) (tr\<lparr>PK := [], NK := []\<rparr>)"
    and n: "addCertificate e reach (k, v) s \<noteq> Inl (Thrown ''exception'')" using l by (auto simp: x)
  obtain ok' ps s' where out: "addCertificate e reach (k, v) s = Inr ((ok', ps), s')"
    "rebuilt ?t s ((classes (tracker_of s))(k \<mapsto> v)) ((ok', ps), s')"
    using add_rebuilt[OF S(2-4,1,5-7) L] n by (auto split: sum.splits)
  then obtain m where m: "full_stream (dassTracker s') = Inr m" "length m < 2 ^ 32" "ps = map (\<lambda>h. (h, m)) (connectedDevices s)" by (auto simp: rebuilt_def)
  have B: "connectedDevices s' = connectedDevices s" "tracker_inv ?t (tracker_of s')" "classes (tracker_of s') = (classes (tracker_of s))(k \<mapsto> v)"
    "in_step ?t (tracker_of s') (vo_data (dassTracker s'))" "vf_ints (vf (tracker_of s'))" "c_o_ratio (dassTracker s') = (1, 0)"
    using out(2) by (simp_all add: rebuilt_def renewed_def tracker_of_def)
  have "sized_filter (vf (tracker_of s'))" by (rule sized_filterI[OF tracker_invD(1)[OF B(2)] B(5)])
  then have "server_ok e reach host s'" using S B by (simp add: server_ok_def)
  moreover have "serve_host e reach host x s = Inr (m, s')"
    using out(1) only_host[OF S(8,9), of m] by (simp add: x serve_host_def m(3))
  moreover have "\<exists>cl'. learn_update ?t css cl = Inr cl' \<and> client_ok ?t s' cl'" if a: "client_ok ?t s cl" "delivers css m" for cl css
  proof -
    have "vf_ints (v_vf (vo_data (dassTracker s')))" using B(4,5) copies_ints by (auto simp: in_step_def)
    moreover have "tables_sized (v_vf (dassVerifier cl))"
      using in_step_fields[of ?t "tracker_of s" "dassVerifier cl"] S(1) a(1) by (simp add: client_ok_def vf_wf_def vf_geom_def tables_ok_sized)
    ultimately show ?thesis using full_update_in_step[OF m(1,2) B(2,4), of cl "[]" css] a by (auto simp: client_ok_def learn_update_def)
  qed
  ultimately show ?thesis using B(3) by (intro exI[of _ m] exI[of _ s']) (simp add: x)
qed

lemma quiet_step:
  assumes ok: "server_ok e reach host s" and l: "quiet_op e reach x s"
  shows "\<exists>m s'. serve_host e reach host x s = Inr (m, s') \<and> server_ok e reach host s' \<and>
    classes (tracker_of s') = directory_op x (classes (tracker_of s)) \<and>
    (\<forall>cl css. client_ok (tmpl e) s cl \<longrightarrow> delivers css m \<longrightarrow> (\<exists>cl'. learn_update (tmpl e) css cl = Inr cl' \<and> client_ok (tmpl e) s' cl'))"
proof -
  obtain out k v a where "server_op e reach x s = Inr out" "accepted (tmpl e) s k v a out"
    "directory_op x (classes (tracker_of s)) = (classes (tracker_of s))(k \<mapsto> v)" using op_accepted[OF ok l] by blast
  moreover have "short_update e reach x s" using l by (simp add: quiet_op_def)
  ultimately show ?thesis by (rule accepted_step[OF ok])
qed

interpretation devices: replication "serve_host e reach host" "legal_op e reach" "server_ok e reach host" delivers
  "learn_update (tmpl e)" "client_ok (tmpl e)" directory_op "\<lambda>s. classes (tracker_of s)"
  for e :: env and reach :: "string \<Rightarrow> bool" and host :: string
proof
  fix s x assume ok: "server_ok e reach host s" and l: "legal_op e reach x s"
  show "\<exists>m s'. serve_host e reach host x s = Inr (m, s') \<and> server_ok e reach host s' \<and>
    classes (tracker_of s') = directory_op x (classes (tracker_of s)) \<and>
    (\<forall>cl css. client_ok (tmpl e) s cl \<longrightarrow> delivers css m \<longrightarrow> (\<exists>cl'. learn_update (tmpl e) css cl = Inr cl' \<and> client_ok (tmpl e) s' cl'))"
    using l quiet_step[OF ok] rebuilt_step[OF ok] unfolding legal_op_def by blast
qed

lemma quiet_run: "legal_run (quiet_op e reach) serve ops s \<Longrightarrow> legal_run (legal_op e reach) serve ops s"
  by (induction ops arbitrary: s) (auto simp: legal_op_def)

text \<open>The state that new devices receive is that of the last installation.\<close>

lemma op_installed:
  assumes "server_ok e reach host s" "quiet_op e reach x s" "serve_host e reach host x s = Inr (m, s')"
  shows "vo_data (dassTracker s') = vo_data (dassTracker s)"
proof -
  obtain out k v a where "server_op e reach x s = Inr out" "accepted (tmpl e) s k v a out" using op_accepted[OF assms(1,2)] by blast
  with assms(3) show ?thesis by (auto simp: serve_host_def accepted_def Let_def)
qed

lemma history_installed:
  "server_ok e reach host s \<Longrightarrow> legal_run (quiet_op e reach) (serve_host e reach host) ops s \<Longrightarrow>
    serve_all (serve_host e reach host) ops s = Inr (ms, s') \<Longrightarrow> vo_data (dassTracker s') = vo_data (dassTracker s)"
proof (induction ops arbitrary: s ms)
  case (Cons x ops)
  from Cons.prems(3) obtain m s1 ms' where S: "serve_host e reach host x s = Inr (m, s1)" "serve_all (serve_host e reach host) ops s1 = Inr (ms', s')"
    by (auto simp: rbind_eq_Inr)
  have l: "quiet_op e reach x s" "legal_run (quiet_op e reach) (serve_host e reach host) ops s1" using Cons.prems(2) S(1) by simp_all
  have "server_ok e reach host s1" using quiet_step[OF Cons.prems(1) l(1)] S(1) by auto
  from Cons.IH[OF this l(2) S(2)] op_installed[OF Cons.prems(1) l(1) S(1)] show ?case by simp
qed simp

lemma full_stream_data: "vo_data c' = vo_data c \<Longrightarrow> full_stream c' = full_stream c"
  by (simp add: full_stream_def encode_full_def)

end
