(* ===== verification/Demo_System.thy ===== *)
theory Demo_System
  imports Replication
begin

text \<open>
  One small system, from which the witnesses of the properties start: an Othello table of two
  one-bit cells on each side with room for four keys, the filter of 100 buckets, no keys, one
  connected device, and the same after one certificate has been added.
\<close>

definition plain64 :: "u64 template" where
  "plain64 = \<lparr>tL = 1, tDL = 0, tMaintainDP = True, tMaintainDisjointSet = True, tRandomized = False,
     hash64 = (\<lambda>_ k. k), hash32 = (\<lambda>_ _. 0), rand = word_of_nat\<rparr>"

definition table0 :: "u64 othello" where
  "table0 = \<lparr>mem = [0], ma = 2, mb = 2, hab = 0, hd_seed = 0, maintainingDP = True, keyCnt = 0,
     minimalKeyCapacity = 0, keys = replicate 4 0, vals = replicate 4 0, indMem = [0, 0, 0, 0],
     head = replicate 4 zero_cell, nextAtA = replicate 4 zero_cell, nextAtB = replicate 4 zero_cell,
     connectivityForest = [0, 0, 0, 0], rand_pos = 0\<rparr>"

definition table :: "u64 othello" where
  "table = (case tryBuild plain64 table0 of Inr (_, ot) \<Rightarrow> ot | Inl _ \<Rightarrow> table0)"

lemma table_inv: "othello_inv plain64 table" "keyCnt table = 0" "length (keys table) = 4" "contents table = Map.empty" "nodes table = 4"
  "length (mem table) = 1"
proof -
  have p: "plain plain64" "sizes plain64 table0" by (simp_all add: plain_def plain64_def sizes_def nodes_def table0_def)
  have e: "edges plain64 table0 = {}" by (simp add: edges_def table0_def)
  obtain ot' where "tryBuild plain64 table0 = Inr (True, ot')" "same_keys table0 ot'" "othello_inv plain64 ot'"
    using tryBuild_ok[OF p] unfolding e using forest_empty by metis
  then show "othello_inv plain64 table" "keyCnt table = 0" "length (keys table) = 4" "contents table = Map.empty" "nodes table = 4"
    by (simp_all add: table_def same_keys_def contents_def nodes_def) (simp_all add: table0_def)
  obtain o1 where o1: "resetBuildState plain64 table0 = Inr o1" "keyCnt o1 = keyCnt table0" by (rule resetBuildState_ok[OF p])
  have "keyCnt table0 = 0" by (simp add: table0_def)
  then have "tryBuild plain64 table0 = Inr (True, o1)" using o1 by (simp add: tryBuild_def)
  then have "resetBuildState plain64 table0 = Inr table" using o1(1) by (simp add: table_def)
  then show "length (mem table) = 1" using reset_length[of plain64 table0 table] by (simp add: plain64_def table0_def)
qed

definition env0 :: env where
  "env0 = \<lparr>tmpl = plain64, fits = (\<lambda>_ _ _. True), log_len = (\<lambda>_. 11), iter = id\<rparr>"

lemma env0_simps [simp]: "tmpl env0 = plain64" "tL plain64 = 1" "tL (tmpl env0) = Suc 0"
  by (simp_all add: env0_def plain64_def)

lemma env0_ok: "plain plain64" "iterates env0"
  by (simp_all add: plain_def plain64_def iterates_def env0_def)

definition tracker0 :: tracker where
  "tracker0 = \<lparr>othello = table, vf = demo_filter, PK = [], NK = [], n_positive_keys = 0, n_negative_keys = 0,
     key_ratio = (0, 0), TNK_table = replicate 100 [], FPK_table = replicate 100 [], trk_fp_len = 12,
     load_factor = (15938355, 24), o_ratio = (1, 0)\<rparr>"

lemma tracker0_simps [simp]: "PK tracker0 = []" "NK tracker0 = []" "othello tracker0 = table" "vf tracker0 = demo_filter"
  by (simp_all add: tracker0_def)

lemma tracker0_inv: "tracker_inv plain64 tracker0"
proof -
  have "rows_ok demo_filter (replicate 100 []) {}" by (simp add: rows_ok_def demo_filter_ok)
  then show ?thesis by (simp add: tracker_inv_def table_inv demo_filter_ok tracker0_def)
qed

text \<open>The first key always finds room.\<close>

lemma first_insert:
  obtains f where "vf_insert k demo_filter = Inr (0, f)"
  using vf_insert_ok[OF demo_filter_ok(1), of k] by (auto simp: demo_filter_ok inserted_def)

lemma one_no_cycle: "sizes t ot \<Longrightarrow> no_cycle t ot {k}"
proof -
  assume s: "sizes t ot"
  obtain a b where ab: "getIndices t ot k = (a, b)" by fastforce
  have "links {} = {}" by (auto simp: links_def)
  then have "conn {} a b \<longleftrightarrow> a = b" by (simp add: conn_def)
  then show ?thesis using getIndices_range[OF s ab] by (simp add: no_cycle_def ab key_graph_def)
qed

lemma table_one: "no_cycle plain64 table {k}"
  by (rule one_no_cycle[OF invD(3)[OF table_inv(1)]])

lemma first_storable: "storable plain64 tracker0 [k] []" "storable plain64 tracker0 [] [k]"
  by (simp_all add: storable_def stored_keys_def table_inv table_one no_cycle_def[of _ _ "{}"])

text \<open>The tracker after key 5 has been added, with value 1 and with value 0.\<close>

definition tracker1 :: tracker where
  "tracker1 = snd (projr (tracker_insert env0 (5, 1) tracker0))"

definition tracker2 :: tracker where
  "tracker2 = snd (projr (tracker_insert env0 (5, 0) tracker0))"

lemma classes0: "classes tracker0 = Map.empty"
  by (simp add: classes_def)

lemma tracker1_ok: "tracker_inv plain64 tracker1" "classes tracker1 = [5 \<mapsto> 1]"
  "\<exists>f fl. vf_insert 5 demo_filter = Inr (0, f) \<and> tracker_insert env0 (5, 1) tracker0 = Inr (fl, tracker1) \<and> moved_to plain64 tracker0 f [5] [] (fl, tracker1)"
proof -
  obtain f where f: "vf_insert 5 demo_filter = Inr (0, f)" by (rule first_insert)
  obtain fl s' where r: "tracker_insert env0 (5, 1) tracker0 = Inr (fl, s')" "moved_to plain64 tracker0 f [5] [] (fl, s')"
    using insert_positive_ok[of env0 tracker0 5 0 f] tracker0_inv f first_storable by (auto simp: outcome_def storable_def)
  then have "tracker1 = s'" by (simp add: tracker1_def)
  with r f show "tracker_inv plain64 tracker1" "classes tracker1 = [5 \<mapsto> 1]" 
    "\<exists>f fl. vf_insert 5 demo_filter = Inr (0, f) \<and> tracker_insert env0 (5, 1) tracker0 = Inr (fl, tracker1) \<and> moved_to plain64 tracker0 f [5] [] (fl, tracker1)"
    by (auto simp: moved_to_def classes_def fun_eq_iff)
qed

text \<open>Few positions are changed by the first certificate.\<close>

lemma empty_rows: "p < 100 \<Longrightarrow> promote t b (int p) (tracker0\<lparr>PK := P, vf := f\<rparr>, fl) = Inr (True, tracker0\<lparr>PK := P, vf := f\<rparr>, fl)"
  by (simp add: promote_def row_def tracker0_def)

lemma first_add: "\<exists>fl. tracker_insert env0 (5, 1) tracker0 = Inr (fl, tracker1) \<and> length fl \<le> 4"
proof -
  obtain f where f: "vf_insert 5 demo_filter = Inr (0, f)" by (rule first_insert)
  have "vf_wf f" "vn f = 100"
    using vf_insert_ok[OF demo_filter_ok(1), of 5] f by (auto simp: inserted_def follows_def demo_filter_ok)
  obtain p q where pq: "position_pair f 5 = Inr (int p, int q)" "p < 100" "q < 100"
    by (rule position_rows[OF \<open>vf_wf f\<close>, of 5]) (use that \<open>vn f = 100\<close> in auto)
  have n: "keyCnt table < length (keys table)" "5 \<notin> dom (contents table)" by (simp_all add: table_inv)
  have "acyclic_with plain64 table 5"
    using acyclic_with_iff[OF table_inv(1)] table_one[of 5] by (simp add: table_inv)
  from insert_on_demand_ok[OF table_inv(1) n this, of 1 "[]"] obtain ot new where
    o: "insert_on_demand plain64 (5, 1) (table, []) = Inr (True, ot, [] @ new)" "noted plain64 table ot new" by metis
  obtain v where v: "query plain64 table 5 = Inr v"
    by (cases "getIndices plain64 table 5") (simp add: query_total[OF invD(2,3)[OF table_inv(1)]])
  have "tracker_insert env0 (5, 1) tracker0 = Inr (new, tracker0\<lparr>PK := [5], vf := f, othello := ot\<rparr>)"
    using o v by (simp add: tracker_insert_def Let_def set_insert_def f pq empty_rows othello_insert_def)
  moreover have "set new \<subseteq> {..<4}" "distinct new" using o(2) unfolding noted_def table_inv(5) by auto
  then have "length new \<le> 4" using card_mono[of "{..<4}" "set new"] distinct_card[of new] by simp
  ultimately show ?thesis unfolding tracker1_def by (intro exI[of _ new]) simp
qed

lemma tracker2_table: "othello tracker2 = table"
proof -
  obtain p q where pq: "position_pair demo_filter 5 = Inr (int p, int q)" "p \<noteq> q" "p < 100" "q < 100"
    by (rule position_rows[OF demo_filter_ok(1), of 5, unfolded demo_filter_ok]) (use that in auto)
  have "(0 :: u32) \<noteq> 1" by simp
  then show ?thesis using push_pair_TNK[of p "tracker0\<lparr>NK := [5]\<rparr>" q 5 "\<lambda>s. Inr ([] :: nat list, s)"] pq
    by (simp add: tracker2_def tracker_insert_def vf_lookup_ok[OF demo_filter_ok(1)] demo_filter_ok(2) set_insert_def tracker0_def)
qed

lemma tracker2_ok: "tracker_inv plain64 tracker2" "classes tracker2 = [5 \<mapsto> 0]" "PK tracker2 = []" "NK tracker2 = [5]" "vf tracker2 = demo_filter"
  "tracker_insert env0 (5, 0) tracker0 = Inr ([], tracker2)" "moved_to plain64 tracker0 demo_filter [] [5] ([], tracker2)"
proof -
  obtain s' where r: "tracker_insert env0 (5, 0) tracker0 = Inr ([], s')" "moved_to plain64 tracker0 demo_filter [] [5] ([], s')"
    using insert_negative_ok[of env0 tracker0 5] tracker0_inv first_storable by (auto simp: outcome_def storable_def demo_filter_ok)
  then have "tracker2 = s'" by (simp add: tracker2_def)
  with r show "tracker_inv plain64 tracker2" "classes tracker2 = [5 \<mapsto> 0]" "PK tracker2 = []" "NK tracker2 = [5]" "vf tracker2 = demo_filter"
    "tracker_insert env0 (5, 0) tracker0 = Inr ([], tracker2)" "moved_to plain64 tracker0 demo_filter [] [5] ([], tracker2)"
    by (auto simp: moved_to_def classes_def fun_eq_iff)
qed

lemma demo_filter_ints: "vf_ints demo_filter"
  by (simp add: vf_ints_def demo_filter_ok in32_def)

subsection \<open>The server and the device\<close>

definition verifier0 :: verifier where
  "verifier0 = projr (verifier_install tracker0 \<lparr>v_othello = dplane_of table, v_vf = blank_filter\<rparr>)"

lemma verifier0_ok: "verifier_install tracker0 \<lparr>v_othello = dplane_of table, v_vf = blank_filter\<rparr> = Inr verifier0"
  "in_step plain64 tracker0 verifier0"
  using install_in_step[OF tracker0_inv, of "\<lparr>v_othello = dplane_of table, v_vf = blank_filter\<rparr>"] by (auto simp: verifier0_def)

definition server0 :: server where
  "server0 = \<lparr>dassTracker = \<lparr>vo_control = tracker0, vo_data = verifier0, flipped_indexes = [], c_loadfactor = (15938355, 24), c_o_ratio = (1, 0)\<rparr>,
     connectedDevices = [''dev''], positive_keys = [], negative_keys = [], running = True, updateLock = False\<rparr>"

definition client0 :: client where
  "client0 = \<lparr>dassVerifier = verifier0, queryLock = False\<rparr>"

lemma server0_simps [simp]: "tracker_of server0 = tracker0" "connectedDevices server0 = [''dev'']" "vo_data (dassTracker server0) = verifier0"
  "vo_control (dassTracker server0) = tracker0"
  by (simp_all add: server0_def tracker_of_def)

lemma client0_simps [simp]: "dassVerifier client0 = verifier0" "queryLock client0 = False"
  by (simp_all add: client0_def)

lemma server0_ok: "server_ok env0 (\<lambda>_. True) ''dev'' server0" "client_ok plain64 server0 client0"
proof -
  have "sized_filter demo_filter" by (rule sized_filterI[OF demo_filter_ok(1) demo_filter_ints])
  then show "server_ok env0 (\<lambda>_. True) ''dev'' server0" "client_ok plain64 server0 client0"
    using verifier0_ok(2) tracker0_inv env0_ok by (simp_all add: server_ok_def client_ok_def) (simp add: server0_def)
qed

lemma server0_query: "tracker_query env0 tracker0 k = Inr 0"
  by (simp add: tracker_query_def vf_lookup_ok[OF demo_filter_ok(1)] demo_filter_ok(2))

lemma client0_sized: "tables_sized (v_vf (dassVerifier client0))"
  using in_step_fields[OF verifier0_ok(2) tracker0_inv] by (simp add: vf_wf_def vf_geom_def tables_ok_sized)

lemma demo_delivers: "full_stream c = Inr data \<Longrightarrow> delivers [data] data"
proof -
  assume "full_stream c = Inr data"
  then obtain v where "data = ([70] @ v) @ finish_mark" by (auto simp: full_stream_def rbind_eq_Inr)
  then show ?thesis using delivers_one[of "[70] @ v"] by simp
qed

lemma add_runs:
  assumes "tracker_insert e (k, v) (tracker_of s) = Inr (fl, tr)" "\<not> (length fl = 1 \<and> fl ! 0 = REBUILD)" "\<forall>h \<in> set (connectedDevices s). reach h"
  shows "\<exists>ps. addCertificate e reach (k, v) s = Inr ((True, ps), s\<lparr>dassTracker := (dassTracker s)\<lparr>flipped_indexes := fl, vo_control := tr\<rparr>\<rparr>)"
proof -
  have "control_insert e (k, v) (dassTracker s) = Inr (True, (dassTracker s)\<lparr>flipped_indexes := fl, vo_control := tr\<rparr>)"
    using assms(1) quiet_update[OF assms(2)] by (simp add: control_insert_def tracker_of_def)
  then show ?thesis using send_summary[of "s\<lparr>dassTracker := (dassTracker s)\<lparr>flipped_indexes := fl, vo_control := tr\<rparr>\<rparr>" reach k v "action_code AddAction"] assms(3)
    by (simp add: addCertificate_def)
qed

lemma first_add_quiet: "tracker_insert env0 (5, 1) tracker0 = Inr (fl, tracker1) \<Longrightarrow> \<not> (length fl = 1 \<and> fl ! 0 = REBUILD)"
  using tracker1_ok(3) moved_not_rebuild[OF tracker0_inv] by force

end
