(* ===== verification/Tracker_Theorems.thy ===== *)
theory Tracker_Theorems
  imports Demo_System
begin

text \<open>
  The properties of the tracker and of a device that follows it.
\<close>

lemma tracker_query_classes:
  assumes "tracker_inv (tmpl e) s" "tL (tmpl e) = 1" "classes s k = Some v"
  shows "tracker_query e s k = Inr v"
  using tracker_query_ok[OF assms(1) _ assms(2), of k] assms(3) by (auto simp: classes_def split: if_splits)

lemma batch_step: "tracker_batch_query e s ks = rfold (\<lambda>k results. rbind (tracker_query e s k) (\<lambda>v. Inr (results @ [v]))) ks []"
  unfolding tracker_batch_query_def tracker_query_def rbind_assoc by (intro rfold_cong refl) (auto simp: rbind_def split: sum.splits)

lemma rfold_collect: "(\<And>k. k \<in> set ks \<Longrightarrow> q k = Inr (g k)) \<Longrightarrow> rfold (\<lambda>k results. rbind (q k) (\<lambda>v. Inr (results @ [v]))) ks acc = Inr (acc @ map g ks)"
  by (induction ks arbitrary: acc) simp_all

subsection \<open>Properties\<close>

text \<open>
  C10: The tracker answers every known certificate with its value, one at a time and in batches: 1 for
  the positive keys, 0 for the negative ones, whether or not the filter mistakes them.
\<close>

theorem tracker_lookup:
  fixes e :: env
  assumes "tracker_inv (tmpl e) s" "tL (tmpl e) = 1" "set ks \<subseteq> dom (classes s)"
  shows "(\<forall>k v. classes s k = Some v \<longrightarrow> tracker_query e s k = Inr v) \<and>
    tracker_batch_query e s ks = Inr (map (\<lambda>k. the (classes s k)) ks)"
proof -
  have "tracker_query e s k = Inr (the (classes s k))" if "k \<in> set ks" for k
    using tracker_query_classes[OF assms(1,2), of k] that assms(3) by auto
  then show ?thesis using tracker_query_classes[OF assms(1,2)] by (simp add: batch_step rfold_collect)
qed

lemma tracker_lookup_witness: "tracker_query env0 tracker1 5 = Inr 1 \<and> tracker_batch_query env0 tracker1 [5, 5] = Inr [1, 1]"
  using tracker_lookup[of env0 tracker1 "[5, 5]"] tracker1_ok by simp

text \<open>
  C3: Inserting a new key with value 1 returns and adds the key to the positive keys, provided the keys Othello then
  has to store (the positive keys and the negative ones the filter mistakes) fit its key vector: the code
  does not check this, and without room it writes past the end (\<open>othello_insert_full\<close>). It asks for a
  rebuild exactly when the filter refuses the key or the keys Othello must store then have a cycle;
  otherwise the invariant holds again (every negative key the filter now mistakes has moved to the
  false positives and into Othello) and the positions returned are those Othello has changed.
\<close>

theorem tracker_add_positive:
  fixes e :: env
  assumes "tracker_inv (tmpl e) s" "classes s k = None" "card (stored_keys (vf s) (PK s @ [k]) (NK s)) \<le> length (keys (othello s))"
  shows "\<exists>r f fl s'. vf_insert k (vf s) = Inr (r, f) \<and> tracker_insert e (k, 1) s = Inr (fl, s') \<and> classes s' = (classes s)(k \<mapsto> 1) \<and>
    (if r = 1 \<or> \<not> no_cycle (tmpl e) (othello s) (stored_keys (vf s) (PK s @ [k]) (NK s)) then fl = [REBUILD]
     else fl \<noteq> [REBUILD] \<and> vf s' = f \<and> tracker_inv (tmpl e) s' \<and> tells (tmpl e) (othello s) (othello s') fl)"
proof -
  have k: "k \<notin> set (PK s)" "k \<notin> set (NK s)" using assms(2) by (auto simp: classes_def split: if_splits)
  obtain r f where ins: "vf_insert k (vf s) = Inr (r, f)" using vf_insert_ok[OF tracker_invD(1)[OF assms(1)], of k] by (metis surj_pair)
  obtain fl s' where "tracker_insert e (k, 1) s = Inr (fl, s')"
    "outcome (tmpl e) s f (PK s @ [k]) (NK s) (r = 1 \<or> \<not> no_cycle (tmpl e) (othello s) (stored_keys (vf s) (PK s @ [k]) (NK s))) (fl, s')"
    using insert_positive_ok[OF assms(1) k assms(3) ins] by auto
  moreover have "divided (PK s @ [k]) (NK s) = (classes s)(k \<mapsto> 1)" by (auto simp: divided_def classes_def fun_eq_iff)
  ultimately show ?thesis using ins tells_not_rebuild[OF tracker_invD(8)[OF assms(1)], of _ fl]
    by (intro exI[of _ r] exI[of _ f] exI[of _ fl] exI[of _ s']) (auto simp: outcome_def moved_to_def classes_divided)
qed

lemma tracker_add_positive_witness:
  "\<exists>fl s'. tracker_insert env0 (5, 1) tracker0 = Inr (fl, s') \<and> fl \<noteq> [REBUILD] \<and> classes s' = [5 \<mapsto> 1] \<and> tracker_inv plain64 s'"
proof -
  obtain f where "vf_insert 5 demo_filter = Inr (0, f)" by (rule first_insert)
  then show ?thesis using tracker_add_positive[of env0 tracker0 5] tracker0_inv first_storable[of 5]
    unfolding classes0 by (auto simp: storable_def)
qed

text \<open>
  C11: Inserting a new key with value 0 returns, leaves the filter as it is and adds the key to the
  negative keys, provided the keys Othello then has to store fit its key vector (without room the code
  writes past its end). It asks for a rebuild exactly when the keys Othello must store then have a cycle.
\<close>

theorem tracker_add_negative:
  fixes e :: env
  assumes "tracker_inv (tmpl e) s" "classes s k = None" "card (stored_keys (vf s) (PK s) (NK s @ [k])) \<le> length (keys (othello s))"
  shows "\<exists>fl s'. tracker_insert e (k, 0) s = Inr (fl, s') \<and> classes s' = (classes s)(k \<mapsto> 0) \<and>
    (if no_cycle (tmpl e) (othello s) (stored_keys (vf s) (PK s) (NK s @ [k]))
     then fl \<noteq> [REBUILD] \<and> vf s' = vf s \<and> tracker_inv (tmpl e) s' \<and> tells (tmpl e) (othello s) (othello s') fl
     else fl = [REBUILD])"
proof -
  have k: "k \<notin> set (PK s)" "k \<notin> set (NK s)" using assms(2) by (auto simp: classes_def split: if_splits)
  obtain fl s' where "tracker_insert e (k, 0) s = Inr (fl, s')"
    "outcome (tmpl e) s (vf s) (PK s) (NK s @ [k]) (\<not> no_cycle (tmpl e) (othello s) (stored_keys (vf s) (PK s) (NK s @ [k]))) (fl, s')"
    using insert_negative_ok[OF assms(1) k assms(3)] by auto
  moreover have "divided (PK s) (NK s @ [k]) = (classes s)(k \<mapsto> 0)" using k by (auto simp: divided_def classes_def fun_eq_iff)
  ultimately show ?thesis using tells_not_rebuild[OF tracker_invD(8)[OF assms(1)], of _ fl]
    by (intro exI[of _ fl] exI[of _ s']) (auto simp: outcome_def moved_to_def classes_divided)
qed

lemma tracker_add_negative_witness:
  "\<exists>fl s'. tracker_insert env0 (5, 0) tracker0 = Inr (fl, s') \<and> fl \<noteq> [REBUILD] \<and> classes s' = [5 \<mapsto> 0] \<and> tracker_inv plain64 s'"
  using tracker_add_negative[of env0 tracker0 5] tracker0_inv first_storable[of 5]
  unfolding classes0 by (auto simp: storable_def)

text \<open>
  C5: Setting a known key to 0 always returns without a rebuild: a positive key leaves the filter, becomes a
  negative one, and the false positives it caused become true negatives and leave Othello.
\<close>

theorem tracker_set_zero:
  fixes e :: env
  assumes "tracker_inv (tmpl e) s" "tL (tmpl e) = 1" "classes s k = Some v"
  shows "\<exists>fl s'. tracker_setValue e (k, 0) s = Inr (fl, s') \<and> fl \<noteq> [REBUILD] \<and> classes s' = (classes s)(k \<mapsto> 0) \<and>
    tracker_inv (tmpl e) s' \<and> tells (tmpl e) (othello s) (othello s') fl"
proof -
  have "settable (tmpl e) s k 0" using assms(3) by (auto simp: settable_def classes_def split: if_splits)
  from settable_update[OF assms(1,2) this] obtain f fl s' P N where
    "tracker_setValue e (k, 0) s = Inr (fl, s')" "moved_to (tmpl e) s f P N (fl, s')" "divided P N = (classes s)(k \<mapsto> 0)" .
  then show ?thesis using tells_not_rebuild[OF tracker_invD(8)[OF assms(1)], of _ fl]
    by (intro exI[of _ fl] exI[of _ s']) (auto simp: moved_to_def classes_divided)
qed

lemma tracker_set_zero_witness:
  "\<exists>fl s'. tracker_setValue env0 (5, 0) tracker1 = Inr (fl, s') \<and> classes s' = [5 \<mapsto> 0] \<and> tracker_inv plain64 s'"
  using tracker_set_zero[of env0 tracker1 5 1] tracker1_ok(1,2) by auto

text \<open>
  C4: Setting a negative key to 1 returns, provided the keys Othello then has to store fit its key vector
  (without room the code writes past its end); it asks for a rebuild exactly when the filter refuses the
  key or the keys Othello must store then have a cycle, and otherwise restores the invariant.
\<close>

theorem tracker_set_one:
  fixes e :: env
  assumes "tracker_inv (tmpl e) s" "tL (tmpl e) = 1" "classes s k = Some 0"
    "card (stored_keys (vf s) (PK s @ [k]) (set_erase k (NK s))) \<le> length (keys (othello s))"
  shows "\<exists>r f fl s'. vf_insert k (vf s) = Inr (r, f) \<and> tracker_setValue e (k, 1) s = Inr (fl, s') \<and> classes s' = (classes s)(k \<mapsto> 1) \<and>
    (if r = 1 \<or> \<not> no_cycle (tmpl e) (othello s) (stored_keys (vf s) (PK s @ [k]) (set_erase k (NK s))) then fl = [REBUILD]
     else fl \<noteq> [REBUILD] \<and> vf s' = f \<and> tracker_inv (tmpl e) s' \<and> tells (tmpl e) (othello s) (othello s') fl)"
proof -
  have k: "k \<in> set (NK s)" using assms(3) by (auto simp: classes_def split: if_splits)
  obtain r f where ins: "vf_insert k (vf s) = Inr (r, f)" using vf_insert_ok[OF tracker_invD(1)[OF assms(1)], of k] by (metis surj_pair)
  obtain fl s' where "set_positive e (k, 1) s = Inr (fl, s')"
    "outcome (tmpl e) s f (PK s @ [k]) (set_erase k (NK s)) (r = 1 \<or> \<not> no_cycle (tmpl e) (othello s) (stored_keys (vf s) (PK s @ [k]) (set_erase k (NK s)))) (fl, s')"
    using set_positive_ok[OF assms(1) k assms(4) ins] by auto
  moreover have "divided (PK s @ [k]) (set_erase k (NK s)) = (classes s)(k \<mapsto> 1)"
    by (auto simp: divided_def classes_def set_erase_simps fun_eq_iff)
  ultimately show ?thesis using ins tracker_setValue_one[OF assms(1,2) k] tells_not_rebuild[OF tracker_invD(8)[OF assms(1)], of _ fl]
    by (intro exI[of _ r] exI[of _ f] exI[of _ fl] exI[of _ s']) (auto simp: outcome_def moved_to_def classes_divided)
qed

lemma tracker_set_one_witness:
  "\<exists>fl s'. tracker_setValue env0 (5, 1) tracker2 = Inr (fl, s') \<and> fl \<noteq> [REBUILD] \<and> classes s' = [5 \<mapsto> 1] \<and> tracker_inv plain64 s'"
proof -
  obtain f where "vf_insert 5 demo_filter = Inr (0, f)" by (rule first_insert)
  then show ?thesis using tracker_set_one[of env0 tracker2 5] tracker2_ok(1-5) tracker2_table first_storable(1)[of 5]
    by (auto simp: storable_def set_erase_def)
qed

lemma quiet_settable:
  fixes e :: env
  assumes I: "tracker_inv (tmpl e) s" and L: "tL (tmpl e) = 1" and w: "classes s k = Some w" and v: "v = 0 \<or> v = 1"
    and T: "tracker_setValue e (k, v) s = Inr (fl, s')" and fl: "fl \<noteq> [REBUILD]"
  shows "settable (tmpl e) s k v"
proof (cases "w = 0 \<and> v = 1")
  case True
  obtain r f where ins: "vf_insert k (vf s) = Inr (r, f)" and r: "r = 0 \<or> r = 1"
    using vf_insert_ok[OF tracker_invD(1)[OF I], of k] by (auto simp: inserted_def)
  have k: "k \<in> set (NK s)" using True w by (auto simp: classes_def split: if_splits)
  have "set_positive e (k, 1) s = Inr (fl, s')" using tracker_setValue_one[OF I L k] T True by simp
  from set_positive_room[OF I k this fl] have "card (stored_keys (vf s) (PK s @ [k]) (set_erase k (NK s))) \<le> length (keys (othello s)) \<and>
      \<not> (r = 1 \<or> \<not> no_cycle (tmpl e) (othello s) (stored_keys (vf s) (PK s @ [k]) (set_erase k (NK s))))"
    using set_positive_ok[OF I k _ ins] tracker_setValue_one[OF I L k] T fl True by (auto simp: outcome_def split: if_splits)
  with r ins w True show ?thesis by (auto simp: settable_def storable_def)
next
  case False
  moreover have "w = 0 \<or> w = 1" using w by (auto simp: classes_def split: if_splits)
  ultimately show ?thesis using v w by (auto simp: settable_def)
qed

text \<open>
  C6: Whatever update of the tracker (a new key with either value, or a known key set to either) returns without
  asking for a rebuild, the device that was in step with the
  tracker and repeats it with the positions the tracker returned does not fail (in particular, it never
  finds its filter full), is in step again, and answers every lookup, of known and unknown keys, as the
  tracker does.
\<close>

theorem device_update:
  fixes e :: env
  assumes I: "tracker_inv (tmpl e) s" and L: "tL (tmpl e) = 1" and S: "in_step (tmpl e) s d" and v: "v = 0 \<or> v = 1"
    and run: "(if classes s k = None then tracker_insert e (k, v) s else tracker_setValue e (k, v) s) = Inr (fl, s')" and fl: "fl \<noteq> [REBUILD]"
  shows "\<exists>d'. (if classes s k = None then verifier_insert (tmpl e) (k, v) fl d else verifier_setValue (tmpl e) (k, v) fl d) = Inr d' \<and>
     in_step (tmpl e) s' d' \<and> (\<forall>x. verifier_query (tmpl e) d' x = tracker_query e s' x)"
proof -
  let ?t = "tmpl e" and ?dev = "if classes s k = None then verifier_insert (tmpl e) (k, v) fl d else verifier_setValue (tmpl e) (k, v) fl d"
  obtain r f where ins: "vf_insert k (vf s) = Inr (r, f)" and r: "r = 0 \<or> r = 1"
    using vf_insert_ok[OF tracker_invD(1)[OF I], of k] by (auto simp: inserted_def)
  have "tracker_inv ?t s' \<and> (\<exists>d'. ?dev = Inr d' \<and> in_step ?t s' d')"
  proof (cases "classes s k = None")
    case True
    then have k: "k \<notin> set (PK s)" "k \<notin> set (NK s)" and T: "tracker_insert e (k, v) s = Inr (fl, s')" using run by (auto simp: classes_def split: if_splits)
    from v show ?thesis
    proof
      assume v: "v = 0"
      from insert_negative_room[OF I k T[unfolded v] fl] have M: "moved_to ?t s (vf s) (PK s) (NK s @ [k]) (fl, s')" "\<not> hit (vf s) k \<longrightarrow> fl = []"
        using insert_negative_ok[OF I k] T fl unfolding v by (auto simp: outcome_def split: if_splits)
      from M(1) True v device_insert_negative[OF I L S M] show ?thesis by (simp add: moved_to_def)
    next
      assume v: "v = 1"
      from insert_positive_room[OF I k T[unfolded v] fl] have M: "r \<noteq> 1" "moved_to ?t s f (PK s @ [k]) (NK s) (fl, s')"
        using insert_positive_ok[OF I k _ ins] T fl unfolding v by (auto simp: outcome_def split: if_splits)
      with r ins have "vf_insert k (vf s) = Inr (0, f)" by simp
      from M(2) True v device_insert_positive[OF I L S this M(2)] show ?thesis by (simp add: moved_to_def)
    qed
  next
    case False
    then obtain w where w: "classes s k = Some w" by blast
    have T: "tracker_setValue e (k, v) s = Inr (fl, s')" using run False by simp
    obtain f' fl' tr' P N where U: "tracker_setValue e (k, v) s = Inr (fl', tr')" "moved_to ?t s f' P N (fl', tr')"
      "\<And>d. in_step ?t s d \<Longrightarrow> \<exists>d'. verifier_setValue ?t (k, v) fl' d = Inr d' \<and> in_step ?t tr' d'"
      by (rule settable_update[OF I L quiet_settable[OF I L w v T fl]]) (rule that)
    from U(1,2) T U(3)[OF S] show ?thesis by (simp add: moved_to_def w)
  qed
  then show ?thesis using in_step_query by blast
qed

lemma device_update_witness: "\<exists>fl d'. verifier_insert plain64 (5, 1) fl verifier0 = Inr d' \<and> in_step plain64 tracker1 d' \<and> verifier_query plain64 d' 5 = Inr 1"
proof -
  obtain fl f where T: "tracker_insert env0 (5, 1) tracker0 = Inr (fl, tracker1)" "moved_to plain64 tracker0 f [5] [] (fl, tracker1)"
    using tracker1_ok(3) by blast
  have "fl \<noteq> [REBUILD]" using tells_not_rebuild[OF table_inv(1), of _ fl] T(2) by (auto simp: moved_to_def)
  then have "\<exists>d'. verifier_insert plain64 (5, 1) fl verifier0 = Inr d' \<and> in_step plain64 tracker1 d' \<and> verifier_query plain64 d' 5 = tracker_query env0 tracker1 5"
    using device_update[of env0 tracker0 verifier0 1 5 fl tracker1] tracker0_inv verifier0_ok(2) T(1) by (auto simp: classes0 table_inv)
  moreover have "tracker_query env0 tracker1 5 = Inr 1" using tracker_query_classes[of env0 tracker1 5 1] tracker1_ok(1,2) by simp
  ultimately show ?thesis by metis
qed

text \<open>
  C14: A device installed from a tracker, whatever it held before, is in step with it and answers every
  lookup and every batch of lookups as the tracker does.
\<close>

theorem device_install:
  fixes e :: env
  assumes "tracker_inv (tmpl e) s"
  shows "\<exists>d'. verifier_install s d = Inr d' \<and> in_step (tmpl e) s d' \<and>
    (\<forall>k. verifier_query (tmpl e) d' k = tracker_query e s k) \<and> (\<forall>ks. verifier_batch_query (tmpl e) d' ks = tracker_batch_query e s ks)"
proof -
  obtain d' where d': "verifier_install s d = Inr d'" "in_step (tmpl e) s d'" using install_in_step[OF assms] by blast
  have "verifier_batch_query (tmpl e) d' ks = rfold (\<lambda>k results. rbind (verifier_query (tmpl e) d' k) (\<lambda>v. Inr (results @ [v]))) ks []" for ks
    unfolding verifier_batch_query_def verifier_query_def rbind_assoc by (intro rfold_cong refl) (auto simp: rbind_def split: sum.splits)
  then show ?thesis using d' in_step_query[OF assms d'(2)] by (simp add: batch_step)
qed

lemma device_install_witness:
  "\<exists>d'. verifier_install tracker1 verifier0 = Inr d' \<and> verifier_query plain64 d' 5 = Inr 1 \<and> verifier_batch_query plain64 d' [5] = Inr [1]"
  using device_install[of env0 tracker1 verifier0] tracker_query_classes[of env0 tracker1 5 1] tracker1_ok(1,2) by (auto simp: batch_step)

end
