(* ===== verification/Protocol_Theorems.thy ===== *)
theory Protocol_Theorems
  imports Demo_System
begin

text \<open>
  The properties of the update protocol: full updates, summaries, and how messages are reassembled.
\<close>

subsection \<open>Full updates\<close>

lemma full_state_read:
  fixes e :: env
  assumes I: "tracker_inv (tmpl e) tr" and S: "in_step (tmpl e) tr (vo_data c)" and V: "vf_ints (vf tr)"
  shows "\<exists>data. full_stream c = Inr data \<and> (\<forall>cl chunks tail. length data < 2 ^ 32 \<longrightarrow> delivers chunks data \<longrightarrow> tables_sized (v_vf (dassVerifier cl)) \<longrightarrow>
     \<not> queryLock cl \<longrightarrow> takeWhile is_digit tail = [] \<longrightarrow>
     (\<exists>cl'. receive_update (tmpl e) tail chunks cl = Inr (''FullDone'', cl') \<and> in_step (tmpl e) tr (dassVerifier cl') \<and>
        (\<forall>k. client_queryCertificate (tmpl e) k cl' = rbind (tracker_query e tr k) (\<lambda>v. Inr (v = 1)))))"
proof -
  have i: "vf_ints (v_vf (vo_data c))" using S V copies_ints by (auto simp: in_step_def)
  have "vf_wf (v_vf (vo_data c))" using in_step_fields[OF S I] by blast
  then obtain v where "encode_full c = Inr v" using encode_full_ok i by blast
  then obtain data where d: "full_stream c = Inr data" by (simp add: full_stream_def)
  have "\<exists>cl'. receive_update (tmpl e) tail chunks cl = Inr (''FullDone'', cl') \<and> in_step (tmpl e) tr (dassVerifier cl') \<and>
        (\<forall>k. client_queryCertificate (tmpl e) k cl' = rbind (tracker_query e tr k) (\<lambda>v. Inr (v = 1)))"
    if a: "length data < 2 ^ 32" "delivers chunks data" "tables_sized (v_vf (dassVerifier cl))" "\<not> queryLock cl" "takeWhile is_digit tail = []" for cl chunks tail
  proof -
    obtain cl' where "receive_update (tmpl e) tail chunks cl = Inr (''FullDone'', cl')" "in_step (tmpl e) tr (dassVerifier cl')" "queryLock cl' = False"
      using full_update_in_step[OF d a(1) I S i a(3,5) _ a(2)] a(4) by auto
    then show ?thesis using in_step_query[OF I] by (simp add: client_queryCertificate_def data_query_def)
  qed
  with d show ?thesis by blast
qed


lemma demo_length: "full_stream (dassTracker server0) = Inr data \<Longrightarrow> length data < 1000"
proof -
  assume d: "full_stream (dassTracker server0) = Inr data"
  have i: "vf_ints (v_vf verifier0)" and wf: "vf_wf (v_vf verifier0)"
    using verifier0_ok(2) copies_ints[of _ demo_filter] demo_filter_ints in_step_fields[OF verifier0_ok(2) tracker0_inv]
    by (auto simp: in_step_def)
  have f: "len4 (v_vf verifier0) = [0, 0, 0, 0]" "eng (v_vf verifier0) = 1" "T (v_vf verifier0) = T demo_filter"
    using verifier0_ok(2) demo_filter_ok by (auto simp: in_step_def copies_def other_def)
  have T: "length (T demo_filter) = 141" using demo_filter_ok(1,6) by (simp add: vf_wf_def vf_geom_def)
  obtain g where "\<lparr>v_othello = dplane_of table, v_vf = g\<rparr> = verifier0"
    using verifier0_ok(1) by (auto simp: verifier_install_def rbind_eq_Inr)
  then have "v_othello verifier0 = dplane_of table" by (metis verifier.select_convs(1))
  then have o: "length (dmem (v_othello verifier0)) = 1" using table_inv(6) by (simp add: dplane_of_def fullSync_def)
  obtain v where "encode_full (dassTracker server0) = Inr v" "concat v = othello_bytes (v_othello verifier0) @ filter_bytes (v_vf verifier0)"
    using encode_full_ok[of "dassTracker server0"] i wf by auto
  with d have "data = [70] @ othello_bytes (v_othello verifier0) @ filter_bytes (v_vf verifier0) @ finish_mark" by (simp add: full_stream_def)
  then show ?thesis
    by (simp add: othello_bytes_def filter_bytes_def be64.concat_length be32.concat_length finish_mark_def f T o decimal.simps[of "Suc 0"])
qed


subsection \<open>Summaries\<close>

lemma decode_entries:
  assumes "holds_at data off (concat (map (\<lambda>(kv, a). entry a (fst kv) (snd kv) fl) xs))" "length fl < 256" "\<forall>j \<in> set fl. j < 2 ^ 32"
  shows "length is = length xs \<Longrightarrow> rbind (rfold (\<lambda>_. decode_sub_summary t data) is (off, d)) (\<lambda>(_, d'). Inr d') =
     rfold (\<lambda>(kv, a). apply_action t (a, fst kv, snd kv, fl)) xs d"
  using assms(1)
proof (induction xs arbitrary: "is" off d)
  case (Cons x xs)
  obtain k v a where x: "x = ((k, v), a)" by (metis surj_pair)
  from Cons.prems(1) obtain i is' where is_eq: "is = i # is'" and l: "length is' = length xs" by (cases "is") auto
  have H: "holds_at data off (entry a k v fl)" "holds_at data (off + length (entry a k v fl)) (concat (map (\<lambda>(kv, a). entry a (fst kv) (snd kv) fl) xs))"
    using Cons.prems(2) by (simp_all add: x holds_at_append)
  have R: "read_entry data off = Inr ((a, k, v, fl), off + length (entry a k v fl))"
    using read_entry_ok[OF H(1) assms(3)] assms(2) by (simp add: entry_length)
  have "decode_sub_summary t data (off, d) = rbind (apply_action t (a, k, v, fl) d) (\<lambda>d'. Inr (off + length (entry a k v fl), d'))"
    by (simp add: decode_sub_summary_def R)
  then show ?case unfolding is_eq x by (simp add: rbind_assoc Cons.IH[OF l H(2)])
qed simp

lemma encode_entries:
  assumes "length kvs = length actions" "m \<le> length actions"
  shows "rfold (\<lambda>i encoded. rbind (vat kvs i) (\<lambda>kv. rbind (vat actions i) (\<lambda>a. Inr (encoded @ encode_summary kv a c)))) [0..<m] acc =
    Inr (acc @ concat (map (\<lambda>(kv, a). entry a (fst kv) (snd kv) (flipped_indexes c)) (take m (zip kvs actions))))"
  using assms(2)
proof (induction m)
  case (Suc m)
  obtain k v where "kvs ! m = (k, v)" by fastforce
  then show ?case using Suc assms(1) by (simp add: rfold_append take_Suc_conv_app_nth encode_summary_entry)
qed simp

lemma encode_batch_entries:
  assumes "length kvs = length actions"
  shows "encode_batch_summary kvs actions c = Inr ([word_of_nat (length actions)] @
    concat (map (\<lambda>(kv, a). entry a (fst kv) (snd kv) (flipped_indexes c)) (zip kvs actions)))"
  using encode_entries[OF assms order_refl, of c "[word_of_nat (length actions)]"] assms by (simp add: encode_batch_summary_def)

lemma entries_length: "length (concat (map (\<lambda>(kv, a). entry a (fst kv) (snd kv) fl) xs)) = length xs * (14 + 4 * length fl)"
  by (induction xs) (auto simp: entry_length)

text \<open>
  C12: A batch of fewer than 256 operations with fewer than 256 positions, encoded, closed with the finish
  mark and decoded, applies exactly the operations it was encoded from, in order, with their keys,
  values and positions.
\<close>

theorem summary_roundtrip:
  assumes "length kvs = length actions" "length actions < 256" "length (flipped_indexes c) < 256" "\<forall>j \<in> set (flipped_indexes c). j < 2 ^ 32"
  shows "\<exists>msg. encode_batch_summary kvs actions c = Inr msg \<and>
     decode_batch_summary t (msg @ finish_mark) d =
       rfold (\<lambda>(kv, a). apply_action t (a, fst kv, snd kv, flipped_indexes c)) (zip kvs actions) d"
proof -
  let ?fl = "flipped_indexes c"
  let ?body = "concat (map (\<lambda>(kv, a). entry a (fst kv) (snd kv) ?fl) (zip kvs actions))"
  let ?n = "word_of_nat (length actions) :: u8"
  have n: "unat ?n = length actions" using assms(2) by (simp add: unat_of_nat take_bit_eq_mod)
  have "length (zip kvs actions) * (14 + 4 * length ?fl) \<le> 256 * (14 + 4 * 256)"
    using assms(1-3) by (intro mult_mono) simp_all
  then have "length ([?n] @ ?body @ finish_mark) < 2 ^ 32" by (simp add: entries_length finish_mark_def)
  then have "holds_at ([?n] @ ?body @ finish_mark) (length [?n]) ?body" by (rule holds_at_self)
  then have H: "holds_at ([?n] @ ?body @ finish_mark) 1 ?body" by simp
  have "decode_batch_summary t ([?n] @ ?body @ finish_mark) d = rfold (\<lambda>(kv, a). apply_action t (a, fst kv, snd kv, ?fl)) (zip kvs actions) d"
    unfolding decode_batch_summary_def using decode_entries[OF H assms(3,4), of "[0..<length actions]" t d] assms(1) n by simp
  then show ?thesis using encode_batch_entries[OF assms(1), of c] by simp
qed

lemma rfold_one: "rfold f [x] = f x"
  by (rule ext) (simp add: rbind_def split: sum.split)

lemma summary_roundtrip_witness:
  "\<exists>msg. encode_batch_summary [(5, 0), (6, 1)] [0, 3] (dassTracker server0) = Inr msg \<and>
     decode_batch_summary plain64 (msg @ finish_mark) verifier0 =
       rbind (apply_action plain64 (0, 5, 0, []) verifier0) (apply_action plain64 (3, 6, 1, []))"
  using summary_roundtrip[of "[(5, 0), (6, 1)]" "[0, 3]" "dassTracker server0" plain64 verifier0]
  by (simp add: server0_def rfold_one)

text \<open>
  C20: The number of positions of an operation is sent as one byte, so a device that receives a summary
  with \<open>n\<close> positions applies the operation with the first \<open>n mod 256\<close> of them only: with
  256 positions it flips none, and its tables are those of the state before.
\<close>

theorem summary_truncated:
  assumes "\<forall>j \<in> set (flipped_indexes c). j < 2 ^ 32" "length (flipped_indexes c) < 2 ^ 29"
  shows "\<exists>msg. encode_batch_summary [(k, v)] [a] c = Inr msg \<and> decode_batch_summary t (msg @ finish_mark) d =
     apply_action t (a, k, v, take (length (flipped_indexes c) mod 256) (flipped_indexes c)) d"
proof -
  have "length ([1] @ entry a k v (flipped_indexes c) @ finish_mark) < 2 ^ 32" using assms(2) by (simp add: entry_length finish_mark_def)
  from decode_batch_one[OF this assms(1), of t d] show ?thesis by (simp add: one_summary)
qed

lemma summary_truncated_witness:
  "\<exists>msg. encode_batch_summary [(5, 0)] [0] ((dassTracker server0)\<lparr>flipped_indexes := [0..<256]\<rparr>) = Inr msg \<and>
     decode_batch_summary plain64 (msg @ finish_mark) verifier0 = apply_action plain64 (0, 5, 0, []) verifier0"
  using summary_truncated[of "(dassTracker server0)\<lparr>flipped_indexes := [0..<256]\<rparr>" 5 0 0 plain64 verifier0] by simp

subsection \<open>Reassembly\<close>

lemma finish_prefix: "finish_mark = u @ w \<Longrightarrow> u \<noteq> [] \<Longrightarrow> w \<noteq> [] \<Longrightarrow>
   ends_finish (b @ u) = Inr False \<and> ends_finish w = Inl OutOfBounds"
proof -
  assume h: "finish_mark = u @ w" "u \<noteq> []" "w \<noteq> []"
  define n where "n = length u"
  have "length finish_mark = length u + length w" unfolding h(1) by simp
  moreover have "0 < length u" "0 < length w" "length finish_mark = 6" using h(2,3) by (simp_all add: finish_mark_def)
  ultimately have n: "0 < n" "n < 6" unfolding n_def by linarith+
  have uw: "u = take n finish_mark" "w = drop n finish_mark" unfolding h(1) by (simp_all add: n_def)
  have "n = 1 \<or> n = 2 \<or> n = 3 \<or> n = 4 \<or> n = 5" using n by auto
  then show ?thesis by (elim disjE) (simp_all add: uw ends_finish_def finish_mark_def)
qed

text \<open>
  C16: The reader puts together any chunks of which only the last ends in the finish mark. When a chunk
  boundary falls inside the finish mark, it does not find the mark in the first of the two chunks and
  reads in front of the buffer on the second.
\<close>

theorem message_reassembly:
  assumes "\<forall>c \<in> set cs. ends_finish c = Inr False"
  shows "read_message (cs @ [b @ finish_mark]) [] = Inr (concat cs @ b @ finish_mark) \<and>
    (\<forall>u w. finish_mark = u @ w \<longrightarrow> u \<noteq> [] \<longrightarrow> w \<noteq> [] \<longrightarrow> read_message (cs @ [b @ u, w]) [] = Inl OutOfBounds)"
proof (intro conjI allI impI)
  show "read_message (cs @ [b @ finish_mark]) [] = Inr (concat cs @ b @ finish_mark)"
    using read_message_ok[OF assms ends_finish_mark] by simp
  fix u w assume "finish_mark = u @ w" "u \<noteq> []" "w \<noteq> []"
  note e = finish_prefix[OF this, of b]
  have "read_message (cs @ [b @ u, w]) m = Inl OutOfBounds" for m
    using assms by (induction cs arbitrary: m) (simp_all add: e)
  then show "read_message (cs @ [b @ u, w]) [] = Inl OutOfBounds" .
qed

lemma message_reassembly_witness:
  "read_message [[70, 1, 2, 3, 4, 5], [9] @ finish_mark] [] = Inr ([70, 1, 2, 3, 4, 5] @ [9] @ finish_mark) \<and>
   read_message [[70, 1, 2, 3, 4, 5], [9, 102, 105, 110], [105, 115, 104]] [] = Inl OutOfBounds"
proof -
  have e: "\<forall>c \<in> set [[70, 1, 2, 3, 4, 5]]. ends_finish c = Inr False" by (simp add: ends_finish_def finish_mark_def)
  have "finish_mark = [102, 105, 110] @ [105, 115, 104]" by (simp add: finish_mark_def)
  with message_reassembly[OF e, of "[9]"] show ?thesis by fastforce
qed

end
