(* ===== verification/Demo_Rebuild.thy ===== *)
theory Demo_Rebuild
  imports Demo_System
begin

text \<open>
  A server started with four certificates, and a fifth one whose edge closes a cycle in its Othello
  table: the witnesses for starting and for rebuilding. The keys are chosen so that the table of the
  five of them has no cycle under any seed.
\<close>

lemma no_cycle_distinct:
  assumes s: "sizes t ot" and i: "inj_on (\<lambda>k. fst (getIndices t ot k)) K"
  shows "no_cycle t ot K"
  unfolding no_cycle_def
proof (intro ballI, clarify)
  fix k a b assume k: "k \<in> K" "getIndices t ot k = (a, b)" and c: "conn (key_graph t ot (K - {k})) a b"
  have "a \<noteq> b" using getIndices_range[OF s k(2)] by simp
  then obtain x where "(a, x) \<in> links (key_graph t ot (K - {k}))" using c unfolding conn_def by (metis converse_rtranclE)
  then obtain k' y where k': "k' \<in> K" "k' \<noteq> k" "getIndices t ot k' = (a, y) \<or> getIndices t ot k' = (y, a)"
    by (auto simp: links_def key_graph_iff)
  from k'(3) show False
  proof
    assume "getIndices t ot k' = (a, y)"
    with i k k'(1,2) show False by (auto simp: inj_on_def)
  next
    assume "getIndices t ot k' = (y, a)"
    then show False using getIndices_range[OF s k(2)] getIndices_range[OF s, of k' y a] by simp
  qed
qed

lemma same_ends_cycle: "k \<in> K \<Longrightarrow> k' \<in> K \<Longrightarrow> k \<noteq> k' \<Longrightarrow> getIndices t ot k = getIndices t ot k' \<Longrightarrow> \<not> no_cycle t ot K"
proof
  assume a: "k \<in> K" "k' \<in> K" "k \<noteq> k'" "getIndices t ot k = getIndices t ot k'" "no_cycle t ot K"
  obtain x y where xy: "getIndices t ot k = (x, y)" by force
  have "(0, x, y) \<in> key_graph t ot (K - {k})" unfolding key_graph_iff using a(2-4) xy by (intro conjI refl bexI[of _ k']) simp_all
  then have "conn (key_graph t ot (K - {k})) x y" unfolding conn_def links_def by blast
  with no_cycleD[OF a(5,1) xy] show False by simp
qed

lemma short_key:
  assumes "sizes plain64 ot" "unat k < 2 ^ 32"
  shows "getIndices plain64 ot k = (unat k * ma ot div 2 ^ 32, ma ot)"
proof -
  have m: "ma ot < 2 ^ 31" using assms(1) by (simp add: sizes_def nodes_def)
  have "unat k * ma ot < 2 ^ 32 * 2 ^ 31" by (rule mult_strict_mono) (use assms(2) m in simp_all)
  then have "unat k * ma ot mod 2 ^ 64 div 2 ^ 32 < 2 ^ 32" "unat k * ma ot mod 2 ^ 64 = unat k * ma ot" by simp_all
  then have "multiply_high_u32 (unat k) (ma ot) = unat k * ma ot div 2 ^ 32" unfolding multiply_high_u32_def w32_def by simp
  moreover have "unat (drop_bit 32 k) = 0" unfolding unat_drop_bit_eq using assms(2) by (simp add: drop_bit_eq_div)
  ultimately show ?thesis using assms(2) m by (simp add: getIndices_def plain64_def multiply_high_u32_def w32_def)
qed

definition start_keys :: "u64 list" where
  "start_keys = [0, 0x40000000, 0x80000000, 0xC0000000]"

definition clash_key :: u64 where
  "clash_key = 0x26666666"

lemma key_values: "distinct (start_keys @ [clash_key])" "length start_keys = 4" "\<forall>k \<in> set (start_keys @ [clash_key]). unat k < 2 ^ 32"
  by (simp_all add: start_keys_def clash_key_def)

lemma sizes_of_tables: "mul_1_33334 5 = 6" "mul_1_33334 6 = 8"
  by (simp_all add: mul_1_33334_def round_even_def Let_def bit_length.simps)

lemma apart: "inj_on (\<lambda>k :: u64. unat k * 6 div 2 ^ 32) (set start_keys)" "inj_on (\<lambda>k :: u64. unat k * 8 div 2 ^ 32) (set (start_keys @ [clash_key]))"
  by (simp_all add: start_keys_def clash_key_def)

lemma settlesI:
  assumes "distinct ks" "\<forall>k \<in> set ks. unat k < 2 ^ 32" "inj_on (\<lambda>k :: u64. unat k * mul_1_33334 (Suc (length ks)) div 2 ^ 32) (set ks)"
  shows "settles plain64 ks []"
proof -
  have "no_cycle plain64 ot (set ks)" if "sizes plain64 ot" "ma ot = mul_1_33334 (Suc (length ks))" for ot :: "u64 othello"
  proof (rule no_cycle_distinct[OF that(1)])
    have "inj_on (\<lambda>k. fst (getIndices plain64 ot k)) (set ks) = inj_on (\<lambda>k. unat k * ma ot div 2 ^ 32) (set ks)"
      by (rule inj_on_cong) (use short_key[OF that(1)] assms(2) in simp)
    then show "inj_on (\<lambda>k. fst (getIndices plain64 ot k)) (set ks)" using assms(3) that(2) by simp
  qed
  moreover have "stored_keys f ks [] = set ks" for f by (simp add: stored_keys_def)
  ultimately show ?thesis by (simp add: settles_def settled_def distinct_card[OF assms(1)])
qed

lemma demo_settles: "settles plain64 start_keys []" "settles plain64 (start_keys @ [clash_key]) []"
  using settlesI[of start_keys] settlesI[of "start_keys @ [clash_key]"] key_values apart by (simp_all add: sizes_of_tables)

definition load :: float32 where
  "load = (15938355, 24)"

lemma load_one: "div_float32 1 load = 1"
proof -
  have "bit_length 38835251168811971967 = 66" by (simp add: bit_length.simps)
  then have "round_even 24 38835251168811971967 div 2 ^ 65 = 1" by (simp add: round_even_def)
  moreover have "div_float 24 1 load = round_even 24 38835251168811971967 div 2 ^ 65"
    unfolding div_float_def Let_def fst_conv snd_conv load_def by simp
  ultimately show ?thesis by (simp add: div_float32_def round_even_exact)
qed

lemma demo_buildable: "n = 4 \<or> n = 5 \<Longrightarrow> q \<le> 1 \<Longrightarrow> buildable env0 load n q"
proof -
  assume n: "n = 4 \<or> n = 5" and q: "q \<le> 1"
  have "bucket_count (\<lambda>n. div_float32 n load) n = (let m = div_float32 1 load in int (m + m mod 2))" using n by (auto simp: bucket_count_def)
  also have "\<dots> = 2" unfolding load_one by simp
  finally show "buildable env0 load n q" using n q by (auto simp: buildable_def env0_def)
qed

subsection \<open>Starting\<close>

definition server1 :: server where
  "server1 = projr (server_init env0 start_keys [] load (1, 0) server0)"

lemma server0_sized: "sized_filter (vf (tracker_of server0))"
  using sized_filterI[OF demo_filter_ok(1) demo_filter_ints] by simp

lemma server0_fills: "fills env0 load start_keys [] (tracker_of server0)"
  by (rule fills_few) (use server0_sized demo_buildable[of 4 0] key_values in simp_all)

lemma server1_started: "server_init env0 start_keys [] load (1, 0) server0 = Inr server1" "started plain64 start_keys [] server0 server1"
  using server_init_ok[of env0 server0 start_keys "[]" load] env0_ok server0_sized key_values(1) server0_fills demo_settles(1)
  by (auto simp: server1_def split: sum.splits)

lemma server1_facts: "tracker_inv plain64 (tracker_of server1)" "PK (tracker_of server1) = start_keys" "NK (tracker_of server1) = []"
  "classes (tracker_of server1) = divided start_keys []" "mb (othello (tracker_of server1)) = 5" "ma (othello (tracker_of server1)) = 6"
  "5 \<le> length (keys (othello (tracker_of server1)))" "vf_ints (vf (tracker_of server1))" "c_loadfactor (dassTracker server1) = load"
  "connectedDevices server1 = [''dev'']" "c_o_ratio (dassTracker server1) = (1, 0)"
  "in_step plain64 (tracker_of server1) (vo_data (dassTracker server1))" "sized_filter (vf (tracker_of server1))"
proof -
  have K: "card (stored_keys f start_keys []) = 4" for f using distinct_card[of start_keys] key_values(1,2) by (simp add: stored_keys_def)
  have C: "classified plain64 start_keys [] (vf (tracker_of server1)) (tracker_of server1)" "vf_ints (vf (tracker_of server1))"
    using server1_started(2) by (simp_all add: started_def)
  then show "tracker_inv plain64 (tracker_of server1)" "PK (tracker_of server1) = start_keys" "NK (tracker_of server1) = []"
    "classes (tracker_of server1) = divided start_keys []" "mb (othello (tracker_of server1)) = 5" "ma (othello (tracker_of server1)) = 6"
    "5 \<le> length (keys (othello (tracker_of server1)))" "vf_ints (vf (tracker_of server1))"
    by (simp_all add: classified_def classes_divided K sizes_of_tables Let_def)
  then show "sized_filter (vf (tracker_of server1))" using sized_filterI tracker_invD(1) by blast
qed (use server1_started(2) in \<open>simp_all add: started_def server0_def load_def\<close>)

lemma server1_ok: "server_ok env0 (\<lambda>_. True) ''dev'' server1"
  using server1_facts env0_ok by (simp add: server_ok_def)

subsection \<open>A certificate that needs a rebuild\<close>

lemma clash_new: "classes (tracker_of server1) clash_key = None"
  using key_values(1) by (simp add: classes_def server1_facts(2,3))

lemma clash_rebuilds:
  obtains tr where "tracker_insert env0 (clash_key, 1) (tracker_of server1) = Inr ([REBUILD], tr)" "PK tr = start_keys @ [clash_key]" "NK tr = []"
    "sized_filter (vf tr)"
proof -
  note F = server1_facts and I = tracker_invD[OF server1_facts(1)]
  let ?tr = "tracker_of server1"
  have k: "clash_key \<notin> set (PK ?tr)" "clash_key \<notin> set (NK ?tr)" using key_values(1) by (simp_all add: F)
  obtain r f where f: "vf_insert clash_key (vf ?tr) = Inr (r, f)" "follows (vf ?tr) f" using vf_insert_ok[OF I(1), of clash_key] by (auto simp: inserted_def)
  have K: "stored_keys (vf ?tr) (PK ?tr @ [clash_key]) (NK ?tr) = set (start_keys @ [clash_key])" by (simp add: stored_keys_def F)
  have room: "card (stored_keys (vf ?tr) (PK ?tr @ [clash_key]) (NK ?tr)) \<le> length (keys (othello ?tr))"
    unfolding K distinct_card[OF key_values(1)] using F(7) key_values(2) by simp
  have s: "sizes plain64 (othello ?tr)" using invD(3)[OF I(8)] by simp
  have "getIndices plain64 (othello ?tr) clash_key = getIndices plain64 (othello ?tr) 0"
    using short_key[OF s, of clash_key] short_key[OF s, of 0] by (simp add: F(6) clash_key_def)
  then have "\<not> no_cycle plain64 (othello ?tr) (set (start_keys @ [clash_key]))"
    using same_ends_cycle[of clash_key _ 0] by (simp add: start_keys_def clash_key_def)
  then obtain tr where "tracker_insert env0 (clash_key, 1) ?tr = Inr ([REBUILD], tr)" "PK tr = start_keys @ [clash_key]" "NK tr = []" "vf tr = f"
    using insert_positive_ok[of env0 ?tr clash_key r f] F(1) k room f(1) unfolding K env0_simps by (auto simp: outcome_def F)
  then show thesis using that sized_follows[OF F(13) f(2)] by blast
qed

lemma clash_fills: "PK tr = start_keys @ [clash_key] \<Longrightarrow> NK tr = [] \<Longrightarrow> sized_filter (vf tr) \<Longrightarrow>
    fills env0 load (iter env0 (PK tr)) (iter env0 (NK tr)) (tr\<lparr>PK := [], NK := []\<rparr>)"
  by (rule fills_few) (use demo_buildable[of 5 0] key_values in \<open>simp_all add: env0_def\<close>)

lemma clash_added:
  obtains ps s2 where "addCertificate env0 (\<lambda>_. True) (clash_key, 1) server1 = Inr ((True, ps), s2)"
    "rebuilt plain64 server1 ((divided start_keys [])(clash_key \<mapsto> 1)) ((True, ps), s2)"
proof -
  obtain tr where tr: "tracker_insert env0 (clash_key, 1) (tracker_of server1) = Inr ([REBUILD], tr)" "PK tr = start_keys @ [clash_key]" "NK tr = []"
    "sized_filter (vf tr)" by (rule clash_rebuilds)
  have "case addCertificate env0 (\<lambda>_. True) (clash_key, 1) server1 of
      Inr out \<Rightarrow> rebuilt (tmpl env0) server1 ((classes (tracker_of server1))(clash_key \<mapsto> 1)) out
    | Inl err \<Rightarrow> err = Thrown ''exception'' \<and> \<not> settles (tmpl env0) (PK tr) (NK tr)"
    by (rule add_rebuilt[OF _ _ _ _ _ _ _ _ _ tr(1)])
       (use server1_facts env0_ok clash_new clash_fills[OF tr(2-4)] in simp_all)
  then obtain ok ps s2 where "addCertificate env0 (\<lambda>_. True) (clash_key, 1) server1 = Inr ((ok, ps), s2)"
    "rebuilt plain64 server1 ((divided start_keys [])(clash_key \<mapsto> 1)) ((ok, ps), s2)"
    using demo_settles(2) by (auto simp: tr(2,3) server1_facts(4) split: sum.splits)
  then show thesis using that by (simp add: rebuilt_def)
qed

lemma clash_legal: "rebuild_op env0 (\<lambda>_. True) (AddCert clash_key 1) server1"
proof -
  obtain tr where tr: "tracker_insert env0 (clash_key, 1) (tracker_of server1) = Inr ([REBUILD], tr)" "PK tr = start_keys @ [clash_key]" "NK tr = []"
    "sized_filter (vf tr)" by (rule clash_rebuilds)
  obtain ps s2 where "addCertificate env0 (\<lambda>_. True) (clash_key, 1) server1 = Inr ((True, ps), s2)" by (rule clash_added)
  then show ?thesis using clash_new server1_facts(7,9) tr(1) clash_fills[OF tr(2-4)] by simp
qed

subsection \<open>A revocation that needs a rebuild\<close>

text \<open>
  The server started with the four certificates revoked and the fifth one valid. The filter does not
  mistake the fifth key, so that Othello stores the other four in its smaller table, where the fifth
  one closes a cycle.
\<close>

definition print :: "u64 \<Rightarrow> u64" where
  "print k = MurmurHash64 (mixed k XOR 0x192837319273) mod (push_bit 12 1 - 1) + 1"

lemma prints:
  "print 0 = 549"
  "print 0x40000000 = 4040"
  "print 0x80000000 = 2758"
  "print 0xC0000000 = 1142"
  "print 0x26666666 = 1702"
  by (simp_all add: print_def mixed_def MurmurHash64_def)

lemma vf_tag_print: "fp_len f = 12 \<Longrightarrow> fst (vf_tag f k) = print k"
  by (simp add: vf_tag_def tag_of_def fingerprint_def print_def Let_def)

lemma demo_settles_any: "settles plain64 start_keys [clash_key]"
  unfolding settles_def
proof (intro allI)
  fix f
  have S: "let K = set ks; c = Suc (card K) in settled plain64 (mul_1_33334 c) c K" if "settles plain64 ks []" for ks
    using that by (simp add: settles_def stored_keys_def)
  have "stored_keys f start_keys [clash_key] = set start_keys \<or> stored_keys f start_keys [clash_key] = set (start_keys @ [clash_key])"
    by (auto simp: stored_keys_def)
  then show "let K = stored_keys f start_keys [clash_key]; c = Suc (card K) in settled plain64 (mul_1_33334 c) c K"
    using S[OF demo_settles(1)] S[OF demo_settles(2)] by (elim disjE) simp_all
qed

definition server2 :: server where
  "server2 = projr (server_init env0 start_keys [clash_key] load (1, 0) server0)"

lemma server2_started: "server_init env0 start_keys [clash_key] load (1, 0) server0 = Inr server2"
  "started plain64 start_keys [clash_key] server0 server2" "fp_len (vf (tracker_of server2)) = 12"
proof -
  have "fills env0 load start_keys [clash_key] (tracker_of server0)"
    by (rule fills_few) (use server0_sized demo_buildable[of 4 1] key_values in simp_all)
  then show "server_init env0 start_keys [clash_key] load (1, 0) server0 = Inr server2"
    "started plain64 start_keys [clash_key] server0 server2" "fp_len (vf (tracker_of server2)) = 12"
    using server_init_ok[of env0 server0 start_keys "[clash_key]" load] env0_ok server0_sized key_values(1) demo_settles_any
    by (auto simp: server2_def fp_bits_def env0_def split: sum.splits)
qed

lemma server2_facts: "tracker_inv plain64 (tracker_of server2)" "PK (tracker_of server2) = start_keys" "NK (tracker_of server2) = [clash_key]"
  "\<not> hit (vf (tracker_of server2)) clash_key" "mb (othello (tracker_of server2)) = 5" "ma (othello (tracker_of server2)) = 6"
  "5 \<le> length (keys (othello (tracker_of server2)))" "c_loadfactor (dassTracker server2) = load"
  "connectedDevices server2 = [''dev'']" "c_o_ratio (dassTracker server2) = (1, 0)" "sized_filter (vf (tracker_of server2))"
  "in_step plain64 (tracker_of server2) (vo_data (dassTracker server2))"
proof -
  let ?tr = "tracker_of server2"
  have C: "classified plain64 start_keys [clash_key] (vf ?tr) ?tr" "vf_ints (vf ?tr)"
    using server2_started(2) by (simp_all add: started_def)
  then show I: "tracker_inv plain64 ?tr" "PK ?tr = start_keys" "NK ?tr = [clash_key]" by (simp_all add: classified_def)
  then show "sized_filter (vf ?tr)" using sized_filterI tracker_invD(1) C(2) by blast
  have "fst (vf_tag (vf ?tr) clash_key) \<notin> (\<lambda>k. fst (vf_tag (vf ?tr) k)) ` set start_keys"
    by (simp add: vf_tag_print[OF server2_started(3)] start_keys_def clash_key_def prints)
  then have n: "vf_tag (vf ?tr) clash_key \<notin> vf_tag (vf ?tr) ` set start_keys" by (auto simp: image_iff)
  then show "\<not> hit (vf ?tr) clash_key" using tracker_hit[OF I(1), of clash_key] I(2) by simp
  have "stored_keys (vf ?tr) start_keys [clash_key] = set start_keys" using n by (auto simp: stored_keys_def)
  then have "card (stored_keys (vf ?tr) start_keys [clash_key]) = 4" using distinct_card[of start_keys] key_values(1,2) by simp
  then show "mb (othello ?tr) = 5" "ma (othello ?tr) = 6" "5 \<le> length (keys (othello ?tr))"
    using C(1) by (simp_all add: classified_def sizes_of_tables Let_def)
qed (use server2_started(2) in \<open>simp_all add: started_def server0_def load_def\<close>)

lemma clash_revoked:
  obtains tr where "tracker_setValue env0 (clash_key, 1) (tracker_of server2) = Inr ([REBUILD], tr)" "PK tr = start_keys @ [clash_key]" "NK tr = []"
    "sized_filter (vf tr)" "classes tr = (classes (tracker_of server2))(clash_key \<mapsto> 1)"
proof -
  note F = server2_facts and I = tracker_invD[OF server2_facts(1)]
  let ?tr = "tracker_of server2"
  have k: "clash_key \<in> set (NK ?tr)" by (simp add: F)
  have P: "clash_key \<notin> set start_keys" using key_values(1) by simp
  obtain r f where f: "vf_insert clash_key (vf ?tr) = Inr (r, f)" "follows (vf ?tr) f" using vf_insert_ok[OF I(1), of clash_key] by (auto simp: inserted_def)
  have E: "set_erase clash_key (NK ?tr) = []" by (simp add: F set_erase_def)
  have K: "stored_keys (vf ?tr) (PK ?tr @ [clash_key]) (set_erase clash_key (NK ?tr)) = set (start_keys @ [clash_key])"
    unfolding E by (simp add: stored_keys_def F)
  have room: "card (stored_keys (vf ?tr) (PK ?tr @ [clash_key]) (set_erase clash_key (NK ?tr))) \<le> length (keys (othello ?tr))"
    unfolding K distinct_card[OF key_values(1)] using F(7) key_values(2) by simp
  have s: "sizes plain64 (othello ?tr)" using invD(3)[OF I(8)] by simp
  have "getIndices plain64 (othello ?tr) clash_key = getIndices plain64 (othello ?tr) 0"
    using short_key[OF s, of clash_key] short_key[OF s, of 0] by (simp add: F(6) clash_key_def)
  then have c: "\<not> no_cycle plain64 (othello ?tr) (set (start_keys @ [clash_key]))"
    using same_ends_cycle[of clash_key _ 0] by (simp add: start_keys_def clash_key_def)
  obtain tr where tr: "set_positive env0 (clash_key, 1) ?tr = Inr ([REBUILD], tr)" "PK tr = start_keys @ [clash_key]" "NK tr = []" "vf tr = f"
    using set_positive_ok[of env0 ?tr clash_key r f] F(1) k room f(1) c unfolding K env0_simps by (auto simp: outcome_def F(2) E)
  have "tracker_setValue env0 (clash_key, 1) ?tr = Inr ([REBUILD], tr)" using tracker_setValue_one[of env0 ?tr clash_key] F(1) k tr(1) by simp
  moreover have "classes tr = (classes ?tr)(clash_key \<mapsto> 1)" using set_positive_leaves[of env0 ?tr clash_key "[REBUILD]" tr] F(1) k tr(1) by simp
  ultimately show thesis using that tr(2-4) sized_follows[OF F(11) f(2)] by blast
qed

lemma clash_revoke_sent:
  obtains tr s' where "tracker_setValue env0 (clash_key, 1) (tracker_of server2) = Inr ([REBUILD], tr)"
    "revokeCertificate env0 (\<lambda>_. True) clash_key server2 =
       Inr ((True, [(''dev'', [1] @ entry (action_code RevokeAction) clash_key 1 [REBUILD] @ finish_mark)]), s')"
    "classes (tracker_of s') clash_key = Some 1"
proof -
  obtain tr where tr: "tracker_setValue env0 (clash_key, 1) (tracker_of server2) = Inr ([REBUILD], tr)" "PK tr = start_keys @ [clash_key]" "NK tr = []"
    "sized_filter (vf tr)" "classes tr = (classes (tracker_of server2))(clash_key \<mapsto> 1)" by (rule clash_revoked)
  have "case after_update env0 ([REBUILD], tr) (dassTracker server2) of
      Inr (ok, c') \<Rightarrow> \<not> ok \<and> renewed (tmpl env0) c' \<and> tracker_rebuild env0 (c_loadfactor (dassTracker server2)) (1, 0) tr = Inr (vo_control c') \<and>
        classes (vo_control c') = classes tr \<and> c_loadfactor c' = c_loadfactor (dassTracker server2) \<and> flipped_indexes c' = [REBUILD]
    | Inl err \<Rightarrow> err = Thrown ''exception'' \<and> \<not> settles (tmpl env0) (PK tr) (NK tr)"
    by (rule after_rebuild) (use env0_ok key_values(1) tr server2_facts clash_fills[OF tr(2-4)] in simp_all)
  then obtain ok c' where c': "after_update env0 ([REBUILD], tr) (dassTracker server2) = Inr (ok, c')" "flipped_indexes c' = [REBUILD]" "classes (vo_control c') = classes tr"
    using demo_settles(2) by (auto simp: tr(2,3) split: sum.splits)
  let ?s = "server2\<lparr>dassTracker := c'\<rparr>"
  have "control_setValue env0 (clash_key, 1) (dassTracker server2) = Inr (ok, c')"
    using tr(1) c'(1) by (simp add: control_setValue_def tracker_of_def)
  then have "revokeCertificate env0 (\<lambda>_. True) clash_key server2 =
       Inr ((True, [(''dev'', [1] @ entry (action_code RevokeAction) clash_key 1 [REBUILD] @ finish_mark)]), ?s)"
    using send_summary[of ?s "\<lambda>_. True" clash_key 1 "action_code RevokeAction"] c'(2) server2_facts(9) by (simp add: revokeCertificate_def)
  with tr(1) show thesis by (rule that) (simp add: tracker_of_def c'(3) tr(5))
qed

end
