(* ===== verification/Server_Theorems.thy ===== *)
theory Server_Theorems
  imports Demo_Rebuild
begin

text \<open>
  The properties of the server's operations in every state, also without the invariant of the
  tracker: the packets it sends and its command loop.
\<close>

subsection \<open>Packets\<close>

text \<open>What a device may receive: the full state, or the summary of one operation.\<close>

definition formed :: "control \<Rightarrow> u8 list \<Rightarrow> bool" where
  "formed c m \<longleftrightarrow> full_stream c = Inr m \<or> (\<exists>a k v. a < 4 \<and> m = [1] @ entry a k v (flipped_indexes c) @ finish_mark)"

lemma sent_summary:
  "sendSummaryUpdate reach [(k, v)] [a] s = Inr (ok, ps) \<Longrightarrow> (h, m) \<in> set ps \<Longrightarrow>
    h \<in> set (connectedDevices s) \<and> m = [1] @ entry a k v (flipped_indexes (dassTracker s)) @ finish_mark"
proof -
  assume a: "sendSummaryUpdate reach [(k, v)] [a] s = Inr (ok, ps)" "(h, m) \<in> set ps"
  let ?m = "[1] @ entry a k v (flipped_indexes (dassTracker s)) @ finish_mark"
  have R: "rfold (\<lambda>host sent. if reach host then Inr (sent @ [(host, ?m)]) else Inl Exit) hs acc = Inr ps \<Longrightarrow>
    set ps \<subseteq> set acc \<union> (\<lambda>h. (h, ?m)) ` set hs" for hs acc
    by (induction hs arbitrary: acc) (force simp: rbind_eq_Inr split: if_splits)+
  have "connectedDevices s \<noteq> []" using a by (auto simp: sendSummaryUpdate_def)
  then have "rfold (\<lambda>host sent. if reach host then Inr (sent @ [(host, ?m)]) else Inl Exit) (connectedDevices s) [] = Inr ps"
    using a(1) unfolding sendSummaryUpdate_def one_summary rbind_simps append_assoc by (auto simp: rbind_eq_Inr)
  from R[OF this] a(2) show ?thesis by auto
qed

lemma sent_full:
  "send_to_hosts reach s hs sent = Inr (ok, ps) \<Longrightarrow> (h, m) \<in> set ps \<Longrightarrow> (h, m) \<in> set sent \<or> h \<in> set hs \<and> full_stream (dassTracker s) = Inr m"
  by (induction hs arbitrary: sent) (force simp: rbind_eq_Inr sendFullUpdate_def split: if_splits)+

lemma sent_fulls: "sendFullUpdates reach s = Inr (ok, ps) \<Longrightarrow> (h, m) \<in> set ps \<Longrightarrow> h \<in> set (connectedDevices s) \<and> full_stream (dassTracker s) = Inr m"
  by (auto simp: sendFullUpdates_def rbind_eq_Inr dest: sent_full split: if_splits)

lemma formedI: "full_stream c = Inr m \<Longrightarrow> formed c m" "a < 4 \<Longrightarrow> formed c (1 # entry a k v (flipped_indexes c) @ finish_mark)"
  by (auto simp: formed_def)

text \<open>
  C15: Whatever state the server is in, every packet that any of its operations sends goes to a registered
  host and is either the complete full update of the new state, or the summary of one operation with
  one of the four action codes and the positions of the last update.
\<close>

theorem packets_formed:
  assumes "addCertificate e reach kv s = Inr ((ok, ps), s') \<or> removeCertificate e reach key s = Inr ((ok, ps), s') \<or>
     unrevokeCertificate e reach key s = Inr ((ok, ps), s') \<or> revokeCertificate e reach key s = Inr ((ok, ps), s') \<or>
     listenForNewDevices host s = Inr (ps, s')"
  shows "\<forall>(h, m) \<in> set ps. h \<in> set (connectedDevices s') \<and> formed (dassTracker s') m"
proof -
  have "h \<in> set (connectedDevices s') \<and> formed (dassTracker s') m" if "(h, m) \<in> set ps" for h m
    using assms
  proof (elim disjE)
    assume "addCertificate e reach kv s = Inr ((ok, ps), s')"
    then show ?thesis using that
      by (cases kv) (auto simp: addCertificate_def rbind_eq_Inr formedI Let_def dest!: sent_summary sent_fulls split: if_splits)
  next
    assume "removeCertificate e reach key s = Inr ((ok, ps), s')"
    then show ?thesis using that by (force simp: removeCertificate_def rbind_eq_Inr formedI Let_def dest!: sent_summary)
  next
    assume "unrevokeCertificate e reach key s = Inr ((ok, ps), s')"
    then show ?thesis using that 
      by (auto simp: unrevokeCertificate_def rbind_eq_Inr formedI Let_def dest!: sent_summary sent_fulls split: if_splits)
  next
    assume "revokeCertificate e reach key s = Inr ((ok, ps), s')"
    then show ?thesis using that
      by (auto simp: revokeCertificate_def rbind_eq_Inr formedI Let_def dest!: sent_summary sent_fulls split: if_splits)
  next
    assume "listenForNewDevices host s = Inr (ps, s')"
    then show ?thesis using that by (auto simp: listenForNewDevices_def rbind_eq_Inr formedI Let_def sendFullUpdate_def split: if_splits)
  qed
  then show ?thesis by blast
qed

lemma server0_revoke: "\<exists>ps s'. unrevokeCertificate env0 (\<lambda>_. True) k server0 = Inr ((True, ps), s') \<and> ps \<noteq> []"
  using send_summary[of "server0\<lparr>dassTracker := (dassTracker server0)\<lparr>flipped_indexes := [], vo_control := tracker0\<rparr>\<rparr>" "\<lambda>_. True" k 0 2]
  by (simp add: unrevokeCertificate_def control_setValue_def tracker_setValue_def server0_query after_update_def)

lemma packets_formed_witness:
  "\<exists>p ps s'. unrevokeCertificate env0 (\<lambda>_. True) 5 server0 = Inr ((True, p # ps), s') \<and> fst p \<in> set (connectedDevices s') \<and>
     formed (dassTracker s') (snd p)"
proof -
  obtain p ps s' where r: "unrevokeCertificate env0 (\<lambda>_. True) 5 server0 = Inr ((True, p # ps), s')"
    using server0_revoke[of 5] by (metis list.exhaust)
  have "\<forall>(h, m) \<in> set (p # ps). h \<in> set (connectedDevices s') \<and> formed (dassTracker s') m"
    by (rule packets_formed[where kv = "(0, 0)" and key = 5 and host = "[]"]) (intro disjI2 disjI1, rule r)
  with r show ?thesis by auto
qed

subsection \<open>Removing and revoking\<close>

text \<open>
  C21: A removed certificate is announced with the action code of an addition with value 0 and with the
  positions of the update before it, which a device that received them flips a second time.
\<close>

theorem remove_sends_add:
  assumes "removeCertificate e reach k s = Inr ((ok, ps), s')" "(h, m) \<in> set ps"
  shows "flipped_indexes (dassTracker s') = flipped_indexes (dassTracker s) \<and>
    m = [1] @ entry (action_code AddAction) k 0 (flipped_indexes (dassTracker s)) @ finish_mark \<and>
    (length (flipped_indexes (dassTracker s)) < 256 \<longrightarrow> (\<forall>j \<in> set (flipped_indexes (dassTracker s)). j < 2 ^ 32) \<longrightarrow>
      decode_batch_summary (tmpl e) m d = verifier_insert (tmpl e) (k, 0) (flipped_indexes (dassTracker s)) d)"
proof -
  let ?fl = "flipped_indexes (dassTracker s)"
  obtain c tr where c: "c = (dassTracker s)\<lparr>vo_control := tr\<rparr>" "s' = s\<lparr>dassTracker := c\<rparr>"
    and S: "sendSummaryUpdate reach [(k, 0)] [0] s' = Inr (ok, ps)"
    using assms(1) by (auto simp: removeCertificate_def control_erase_def rbind_eq_Inr Let_def)
  have fl: "flipped_indexes (dassTracker s') = ?fl" by (simp add: c)
  have m: "m = [1] @ entry 0 k 0 ?fl @ finish_mark" using sent_summary[OF S assms(2)] fl by simp
  moreover have "decode_batch_summary (tmpl e) m d = verifier_insert (tmpl e) (k, 0) ?fl d" if "length ?fl < 256" "\<forall>j \<in> set ?fl. j < 2 ^ 32"
  proof -
    have "length ([1] @ entry 0 k 0 ?fl @ finish_mark) < 2 ^ 32" using that(1) by (simp add: entry_length finish_mark_def)
    from decode_batch_one[OF this that(2), of "tmpl e" d] that(1) m show ?thesis by (simp add: apply_action_def)
  qed
  ultimately show ?thesis using fl by simp
qed

lemma remove_sends_add_witness:
  "\<exists>p ps s'. removeCertificate env0 (\<lambda>_. True) 5 server0 = Inr ((True, p # ps), s') \<and>
     decode_batch_summary plain64 (snd p) verifier0 = verifier_insert plain64 (5, 0) [] verifier0"
proof -
  have f: "flipped_indexes (dassTracker server0) = []" by (simp add: server0_def)
  have "tracker_erase env0 5 tracker0 = Inr tracker0"
    by (simp add: tracker_erase_def server0_query set_erase_def vf_lookup_ok[OF demo_filter_ok(1)] demo_filter_ok(2))
  then obtain p ps s' where r: "removeCertificate env0 (\<lambda>_. True) 5 server0 = Inr ((True, p # ps), s')"
    using send_summary[of "server0\<lparr>dassTracker := (dassTracker server0)\<lparr>vo_control := tracker0\<rparr>\<rparr>" "\<lambda>_. True" 5 0 0]
    by (simp add: removeCertificate_def control_erase_def)
  with remove_sends_add[OF r, of "fst p" "snd p" verifier0] show ?thesis by (auto simp: f)
qed

text \<open>
  C18: Revoking never sends a full update, also when the tracker was rebuilt: each device gets a
  summary with the positions of the update. When the update of the tracker asks for a rebuild, the server
  does rebuild its tables, the summary carries the request of a rebuild as its only position, and a
  device that applies that summary keeps its Othello table as it was.
\<close>

theorem revoke_never_full:
  assumes "revokeCertificate e reach k s = Inr ((ok, ps), s')" "(h, m) \<in> set ps"
  shows "m = [1] @ entry (action_code RevokeAction) k 1 (flipped_indexes (dassTracker s')) @ finish_mark \<and>
    (\<forall>tr. tracker_setValue e (k, 1) (tracker_of s) = Inr ([REBUILD], tr) \<longrightarrow>
       tracker_rebuild e (c_loadfactor (dassTracker s)) (c_o_ratio (dassTracker s)) tr = Inr (tracker_of s') \<and>
       flipped_indexes (dassTracker s') = [REBUILD]) \<and>
    (flipped_indexes (dassTracker s') = [REBUILD] \<longrightarrow> (\<forall>d d'. decode_batch_summary (tmpl e) m d = Inr d' \<longrightarrow> v_othello d' = v_othello d))"
proof -
  let ?fl = "flipped_indexes (dassTracker s')"
  have S: "sendSummaryUpdate reach [(k, 1)] [3] s' = Inr (ok, ps)"
    using assms(1) by (auto simp: revokeCertificate_def rbind_eq_Inr Let_def)
  have m: "m = [1] @ entry 3 k 1 ?fl @ finish_mark" using sent_summary[OF S assms(2)] by simp
  moreover have "tracker_rebuild e (c_loadfactor (dassTracker s)) (c_o_ratio (dassTracker s)) tr = Inr (tracker_of s') \<and> ?fl = [REBUILD]"
    if T: "tracker_setValue e (k, 1) (tracker_of s) = Inr ([REBUILD], tr)" for tr
  proof -
    have "control_setValue e (k, 1) (dassTracker s) = after_update e ([REBUILD], tr) (dassTracker s)"
      using T by (simp add: control_setValue_def tracker_of_def)
    then obtain ok' c' where c': "after_update e ([REBUILD], tr) (dassTracker s) = Inr (ok', c')" "s' = s\<lparr>dassTracker := c'\<rparr>"
      using assms(1) by (auto simp: revokeCertificate_def rbind_eq_Inr Let_def)
    then show ?thesis by (auto simp: after_update_def rbind_eq_Inr tracker_of_def Let_def)
  qed
  moreover have "v_othello d' = v_othello d" if fl: "?fl = [REBUILD]" and r: "decode_batch_summary (tmpl e) m d = Inr d'" for d d'
  proof -
    have "length ([1] @ entry 3 k 1 ?fl @ finish_mark) < 2 ^ 32" "\<forall>j \<in> set ?fl. j < 2 ^ 32"
      using fl by (simp_all add: entry_length finish_mark_def REBUILD_def)
    from decode_batch_one[OF this, of "tmpl e" d] r m fl have "verifier_setValue (tmpl e) (k, 1) [REBUILD] d = Inr d'"
      by (simp add: apply_action_def)
    then show ?thesis by (auto simp: verifier_setValue_def rbind_eq_Inr Let_def split: if_splits)
  qed
  ultimately show ?thesis by simp
qed

lemma rebuild_summary_applied:
  "\<exists>d'. decode_batch_summary plain64 ([1] @ entry (action_code RevokeAction) clash_key 1 [REBUILD] @ finish_mark) (vo_data (dassTracker server2)) = Inr d'"
proof -
  let ?d = "vo_data (dassTracker server2)" and ?tr = "tracker_of server2"
  have "length ([1] @ entry 3 clash_key 1 [REBUILD] @ finish_mark) < 2 ^ 32" "\<forall>j \<in> set [REBUILD]. j < 2 ^ 32"
    by (simp_all add: entry_length finish_mark_def REBUILD_def)
  from decode_batch_one[OF this, of plain64 ?d]
  have D: "decode_batch_summary plain64 ([1] @ entry 3 clash_key 1 [REBUILD] @ finish_mark) ?d = verifier_setValue plain64 (clash_key, 1) [REBUILD] ?d"
    by (simp add: apply_action_def)
  have I: "tracker_inv (tmpl env0) ?tr" "in_step (tmpl env0) ?tr ?d" using server2_facts by simp_all
  have "tracker_query env0 ?tr clash_key = Inr 0"
    using tracker_query_ok[OF I(1), of clash_key] server2_facts(2,3) key_values(1) by simp
  then have "verifier_query plain64 ?d clash_key = Inr 0" using in_step_query[OF I] by simp
  moreover obtain r f where "vf_insert clash_key (v_vf ?d) = Inr (r, f)"
    using vf_insert_ok[of "v_vf ?d" clash_key] in_step_fields[OF I(2,1)] by auto
  ultimately show ?thesis unfolding D[folded action_code.simps(4)] by (simp add: D verifier_setValue_def Let_def)
qed

lemma revoke_never_full_witness:
  "\<exists>p s' d'. revokeCertificate env0 (\<lambda>_. True) clash_key server2 = Inr ((True, [p]), s') \<and>
     snd p = [1] @ entry (action_code RevokeAction) clash_key 1 [REBUILD] @ finish_mark \<and>
     flipped_indexes (dassTracker s') = [REBUILD] \<and> classes (tracker_of s') clash_key = Some 1 \<and>
     decode_batch_summary plain64 (snd p) (vo_data (dassTracker server2)) = Inr d' \<and>
     v_othello d' = v_othello (vo_data (dassTracker server2))"
proof -
  define m where "m = [1] @ entry (action_code RevokeAction) clash_key 1 [REBUILD] @ finish_mark"
  obtain tr s' where R: "tracker_setValue env0 (clash_key, 1) (tracker_of server2) = Inr ([REBUILD], tr)"
    "revokeCertificate env0 (\<lambda>_. True) clash_key server2 = Inr ((True, [(''dev'', m)]), s')" "classes (tracker_of s') clash_key = Some 1"
    unfolding m_def by (rule clash_revoke_sent)
  obtain d' where d': "decode_batch_summary plain64 m (vo_data (dassTracker server2)) = Inr d'" using rebuild_summary_applied unfolding m_def by blast
  have "(''dev'', m) \<in> set [(''dev'', m)]" by simp
  note N = revoke_never_full[OF R(2) this, unfolded env0_simps(1)]
  have fl: "flipped_indexes (dassTracker s') = [REBUILD]" using N R(1) by blast
  then have "v_othello d' = v_othello (vo_data (dassTracker server2))" using N d' by blast
  with R(2,3) d' fl m_def show ?thesis by (intro exI[of _ "(''dev'', m)"] exI[of _ s'] exI[of _ d']) simp
qed

subsection \<open>The command loop\<close>

text \<open>Commands that leave the certificates alone.\<close>

definition harmless :: "string \<Rightarrow> bool" where
  "harmless c \<longleftrightarrow> (case command_name c of None \<Rightarrow> False
     | Some n \<Rightarrow> n \<notin> {''add'', ''rem'', ''unr'', ''rev'', ''exi'', ''show''})"

lemma harmless_round:
  assumes "harmless c" "\<not> updateLock s"
  shows "\<exists>r. command_round e reach rtt stat c s = Inr (r, [], s)"
  using assms by (cases s) (auto simp: harmless_def command_round_def run_command_def Let_def split: option.splits)

text \<open>A round never leaves the lock taken when the command has a word, whatever the command does to the certificates.\<close>

lemma running_updates: "running (s\<lparr>dassTracker := c\<rparr>) = running s" "running (s\<lparr>updateLock := b\<rparr>) = running s"
  by simp_all

lemma ops_running:
  "addCertificate e reach kv s = Inr (x, s') \<Longrightarrow> running s' = running s"
  "removeCertificate e reach k s = Inr (x, s') \<Longrightarrow> running s' = running s"
  "unrevokeCertificate e reach k s = Inr (x, s') \<Longrightarrow> running s' = running s"
  "revokeCertificate e reach k s = Inr (x, s') \<Longrightarrow> running s' = running s"
  by (auto simp: addCertificate_def removeCertificate_def unrevokeCertificate_def revokeCertificate_def rbind_eq_Inr Let_def)

lemma run_running:
  assumes "run_command e reach rtt stat n c s = Inr (r, ps, s')"
  shows "if n = ''exi'' then r = ''exiting'' \<and> ps = [] \<and> \<not> running s' else running s' = running s"
proof (cases "n = ''exi''")
  case True
  with assms show ?thesis by (auto simp: run_command_def exitCommand_def Let_def)
next
  case False
  with assms show ?thesis
    by (auto simp: run_command_def addCommand_def removeCommand_def unrevokeCommand_def revokeCommand_def rbind_eq_Inr
        split: if_splits option.splits dest: ops_running)
qed

lemma word_round:
  assumes "command_name c = Some n" "\<not> updateLock s"
  shows "command_round e reach rtt stat c s =
    rbind (run_command e reach rtt stat n c (s\<lparr>updateLock := True\<rparr>)) (\<lambda>(r, ps, s'). Inr (r, ps, s'\<lparr>updateLock := False\<rparr>))"
  using assms by (simp add: command_round_def)

text \<open>How the loop ends when it does not answer all commands: a command exits, or fails by itself.\<close>

definition cut_short :: "env \<Rightarrow> (string \<Rightarrow> bool) \<Rightarrow> string \<Rightarrow> (string \<Rightarrow> string) \<Rightarrow> string list \<Rightarrow> server
    \<Rightarrow> (string \<times> packet list) list \<Rightarrow> cpp_error \<Rightarrow> bool" where
  "cut_short e reach rtt stat cs s out err \<longleftrightarrow> (\<exists>pre c post n s1 out1. cs = pre @ c # post \<and> command_name c = Some n \<and>
     listenForCACommands e reach rtt stat pre s = (out1, Inr s1) \<and> length out1 = length pre \<and>
     (n = ''exi'' \<and> err = Exit \<and> out = out1 @ [(''exiting'', [])] \<or>
      run_command e reach rtt stat n c (s1\<lparr>updateLock := True\<rparr>) = Inl err \<and> out = out1))"

lemma cut_short_Cons:
  assumes "running s" "command_round e reach rtt stat c s = Inr (r, ps, s1)" "cut_short e reach rtt stat cs s1 out err"
  shows "cut_short e reach rtt stat (c # cs) s ((r, ps) # out) err"
proof -
  obtain pre d post n s2 out1 where C: "cs = pre @ d # post" "command_name d = Some n"
    "listenForCACommands e reach rtt stat pre s1 = (out1, Inr s2)" "length out1 = length pre"
    "n = ''exi'' \<and> err = Exit \<and> out = out1 @ [(''exiting'', [])] \<or> run_command e reach rtt stat n d (s2\<lparr>updateLock := True\<rparr>) = Inl err \<and> out = out1"
    using assms(3) unfolding cut_short_def by (elim exE conjE) (rule that)
  have "listenForCACommands e reach rtt stat (c # pre) s = ((r, ps) # out1, Inr s2)" using assms(1,2) C(3) by simp
  with C show ?thesis unfolding cut_short_def
    by (intro exI[of _ "c # pre"] exI[of _ d] exI[of _ post] exI[of _ n] exI[of _ s2] exI[of _ "(r, ps) # out1"]) auto
qed

text \<open>
  C17: As long as every command has a word, the loop answers one command after the other and the lock is
  free again after each, also after one that changes certificates: the loop answers all of them, with the server
  unlocked at the end, unless a command exits the process or its operation itself fails; commands that leave the
  certificates alone never fail and leave the server as it is. A command without a word is answered too,
  but leaves the lock taken, so that the next command, whatever it is, never gets an answer.
\<close>

theorem command_loop_blocks:
  assumes "\<forall>c \<in> set cs. command_name c \<noteq> None" "running s" "\<not> updateLock s" "command_name bad = None"
  shows "case listenForCACommands e reach rtt stat cs s of
      (out, Inr s') \<Rightarrow> length out = length cs \<and> running s' \<and> \<not> updateLock s' \<and> ((\<forall>c \<in> set cs. harmless c) \<longrightarrow> s' = s) \<and>
        listenForCACommands e reach rtt stat (cs @ bad # next_cmd # rest) s = (out @ [(''Command not recognized'', [])], Inl Diverges)
    | (out, Inl err) \<Rightarrow> (\<exists>c \<in> set cs. \<not> harmless c) \<and> cut_short e reach rtt stat cs s out err"
  using assms(1-3)
proof (induction cs arbitrary: s)
  case Nil
  then show ?case using assms(4) by (simp add: command_round_def)
next
  case (Cons c cs)
  obtain n where n: "command_name c = Some n" using Cons.prems(1) by auto
  note W = word_round[OF n Cons.prems(3), of e reach rtt stat]
  show ?case
  proof (cases "run_command e reach rtt stat n c (s\<lparr>updateLock := True\<rparr>)")
    case (Inl err)
    then have "\<not> harmless c" using harmless_round[of c s e reach rtt stat] Cons.prems(3) W by auto
    moreover have "cut_short e reach rtt stat (c # cs) s [] err" unfolding cut_short_def
      using n Inl Cons.prems(2) by (intro exI[of _ "[]"] exI[of _ c] exI[of _ cs] exI[of _ n] exI[of _ s]) simp
    ultimately show ?thesis using W Inl Cons.prems(2) by simp
  next
    case (Inr x)
    obtain r ps s1 where x: "x = (r, ps, s1)" by (metis surj_pair)
    let ?s1 = "s1\<lparr>updateLock := False\<rparr>"
    have R: "command_round e reach rtt stat c s = Inr (r, ps, ?s1)" using W Inr x by simp
    note run = run_running[OF Inr[unfolded x]]
    show ?thesis
    proof (cases "n = ''exi''")
      case True
      then have "\<not> harmless c" "\<not> running ?s1" "r = ''exiting''" "ps = []" using n run by (simp_all add: harmless_def)
      moreover from this have "listenForCACommands e reach rtt stat cs ?s1 = ([], Inl Exit)" by (cases cs) simp_all
      moreover have "cut_short e reach rtt stat (c # cs) s [(''exiting'', [])] Exit" unfolding cut_short_def
        using n True Cons.prems(2) by (intro exI[of _ "[]"] exI[of _ c] exI[of _ cs] exI[of _ n] exI[of _ s]) simp
      ultimately show ?thesis using Cons.prems(2) R by simp
    next
      case False
      then have s1: "running ?s1" "\<not> updateLock ?s1" using run Cons.prems(2) by simp_all
      have h: "?s1 = s" if "harmless c" using harmless_round[OF that Cons.prems(3), of e reach rtt stat] R by auto
      have "\<forall>c \<in> set cs. command_name c \<noteq> None" using Cons.prems(1) by simp
      note IH = Cons.IH[OF this s1]
      obtain out res where L: "listenForCACommands e reach rtt stat cs ?s1 = (out, res)" by force
      show ?thesis
      proof (cases res)
        case (Inl err)
        then show ?thesis using IH L R Cons.prems(2) cut_short_Cons[OF Cons.prems(2) R, of cs out err] by auto
      next
        case (Inr s2)
        then show ?thesis using IH L R Cons.prems(2) h by auto
      qed
    qed
  qed
qed

lemma command_loop_blocks_witness:
  "\<exists>out s'. length out = 2 \<and> listenForCACommands env0 (\<lambda>_. True) ''1 ms'' id [''ping'', ''add 5 1''] server0 = (out, Inr s') \<and>
     classes (tracker_of s') 5 = Some 1 \<and> \<not> updateLock s' \<and>
     listenForCACommands env0 (\<lambda>_. True) ''1 ms'' id [''ping'', ''add 5 1'', ''!'', ''ping''] server0 =
       (out @ [(''Command not recognized'', [])], Inl Diverges)"
proof -
  let ?loop = "listenForCACommands env0 (\<lambda>_. True) ''1 ms'' id"
  have w: "command_name ''ping'' = Some ''ping''" "command_name ''add 5 1'' = Some ''add''" "command_name ''!'' = None"
    by (simp_all add: command_name_def word_char_def lower_def digit_def)
  have a: "add_args ''add 5 1'' = Some (''5'', ''1'')" "stoul ''5'' = Inr 5" "stoul ''1'' = Inr 1"
    by (simp_all add: add_args_def three_letters_def lower_def match_pairs.simps match_number_def digit_def stoul_def)
  have s: "running server0" "\<not> updateLock server0" by (simp_all add: server0_def)
  obtain fl where fl: "tracker_insert env0 (5, 1) tracker0 = Inr (fl, tracker1)" using first_add by blast
  let ?s = "server0\<lparr>updateLock := True\<rparr>"
  obtain ps where A: "addCertificate env0 (\<lambda>_. True) (5, 1) ?s =
      Inr ((True, ps), ?s\<lparr>dassTracker := (dassTracker ?s)\<lparr>flipped_indexes := fl, vo_control := tracker1\<rparr>\<rparr>)"
    using add_runs[of env0 5 1 ?s fl tracker1 "\<lambda>_. True"] fl first_add_quiet[OF fl] by (auto simp: tracker_of_def)
  define s2 where "s2 = (?s\<lparr>dassTracker := (dassTracker ?s)\<lparr>flipped_indexes := fl, vo_control := tracker1\<rparr>\<rparr>)\<lparr>updateLock := False\<rparr>"
  have R: "command_round env0 (\<lambda>_. True) ''1 ms'' id ''ping'' server0 = Inr (''pong'', [], server0)"
    "command_round env0 (\<lambda>_. True) ''1 ms'' id ''add 5 1'' server0 = Inr (''Add Duration: 1 ms'', ps, s2)"
    using word_round[OF w(1) s(2)] word_round[OF w(2) s(2)] A
    by (simp_all add: run_command_def pingCommand_def addCommand_def a s2_def server0_def)
  have "running s2" by (simp add: s2_def server0_def)
  then have L: "?loop [''ping'', ''add 5 1''] server0 = ([(''pong'', []), (''Add Duration: 1 ms'', ps)], Inr s2)" using R s by simp
  have "\<forall>c \<in> set [''ping'', ''add 5 1'']. command_name c \<noteq> None" using w by simp
  from command_loop_blocks[OF this s w(3), of env0 "\<lambda>_. True" "''1 ms''" id "''ping''" "[]", unfolded L]
  have "\<not> updateLock s2" "?loop [''ping'', ''add 5 1'', ''!'', ''ping''] server0 =
       ([(''pong'', []), (''Add Duration: 1 ms'', ps)] @ [(''Command not recognized'', [])], Inl Diverges)" by simp_all
  moreover have "classes (tracker_of s2) 5 = Some 1" using tracker1_ok(2) by (simp add: s2_def tracker_of_def)
  ultimately show ?thesis using L by (intro exI[of _ "[(''pong'', []), (''Add Duration: 1 ms'', ps)]"] exI[of _ s2]) simp
qed

end
