(* ===== verification/Rebuild_Theorems.thy ===== *)
theory Rebuild_Theorems
  imports Demo_Rebuild
begin

text \<open>
  The properties of starting a server from lists of keys and of the rebuild of its tables.
\<close>

subsection \<open>Starting\<close>

lemma started_answers:
  fixes e :: env
  assumes "started (tmpl e) pos neg s s'" "tL (tmpl e) = 1" "classes (tracker_of s') k = Some v"
  shows "server_queryCertificate e s' k = Inr (v = 1)"
proof -
  have I: "tracker_inv (tmpl e) (tracker_of s')" using started_classes[OF assms(1)] by blast
  have "tracker_query e (tracker_of s') k = Inr v"
    using tracker_query_ok[OF I _ assms(2), of k] assms(3) by (auto simp: classes_def split: if_splits)
  then show ?thesis by (simp add: server_queryCertificate_def control_query_def tracker_of_def)
qed

text \<open>
  C9: Starting the server with disjoint lists of positive and negative keys, with positive keys that fit
  the filter at the first fingerprint length, either returns or ends with the exception of
  \<open>build\<close>, which it never does when the keys to store have no cycle in the new table whatever its seeds. When
  it returns, the tracker satisfies its invariant, the verifier is in step with it, and the server answers
  every positive key with true and every negative key with false.
\<close>

theorem server_starts:
  fixes e :: env
  assumes t: "plain (tmpl e)" "tL (tmpl e) = 1" and s: "PK (tracker_of s) = []" "NK (tracker_of s) = []" "sized_filter (vf (tracker_of s))"
    and d: "distinct pos" "distinct neg" "set pos \<inter> set neg = {}" and fit: "fills e lf pos neg (tracker_of s)"
  shows "case server_init e pos neg lf (1, 0) s of
      Inr s' \<Rightarrow> tracker_inv (tmpl e) (tracker_of s') \<and> in_step (tmpl e) (tracker_of s') (vo_data (dassTracker s')) \<and>
        (\<forall>k \<in> set pos. server_queryCertificate e s' k = Inr True) \<and> (\<forall>k \<in> set neg. server_queryCertificate e s' k = Inr False)
    | Inl err \<Rightarrow> err = Thrown ''exception'' \<and> \<not> settles (tmpl e) pos neg"
proof (cases "server_init e pos neg lf (1, 0) s")
  case (Inl err)
  with server_init_ok[OF t s d fit] show ?thesis by simp
next
  case (Inr s')
  with server_init_ok[OF t s d fit] have S: "started (tmpl e) pos neg s s'" by simp
  then have c: "tracker_inv (tmpl e) (tracker_of s')" "classes (tracker_of s') = divided pos neg" using started_classes by blast+
  have "server_queryCertificate e s' k = Inr True" if "k \<in> set pos" for k
    using started_answers[OF S t(2), of k 1] that by (simp add: c divided_def)
  moreover have "server_queryCertificate e s' k = Inr False" if "k \<in> set neg" for k
  proof -
    have "k \<notin> set pos" using that d(3) by blast
    then show ?thesis using started_answers[OF S t(2), of k 0] that by (simp add: c divided_def)
  qed
  ultimately show ?thesis using Inr c S by (simp add: started_def)
qed

lemma server_starts_witness:
  "\<exists>s'. server_init env0 start_keys [] load (1, 0) server0 = Inr s' \<and> tracker_inv plain64 (tracker_of s') \<and>
     server_queryCertificate env0 s' 0x80000000 = Inr True"
  using server_starts[of env0 server0 start_keys "[]" load] env0_ok server0_sized key_values(1) server0_fills server1_started(1)
  by (simp add: start_keys_def)

lemma empty_init:
  assumes "tables_sized f0"
  shows "\<exists>f. vf_init g 0 4 step fp f0 = Inr f \<and> vn f = 0 \<and> fp_len f = fp"
proof -
  let ?f = "f0\<lparr>fp_len := fp, isSmall := True, vn := 0, vm := 4, max_kick_steps := step, filled_cell := 0, full_bucket := 0,
      memory_consumption := 16, max_2_power := int (double_below (nat 0) 1), T := replicate (16 div 4) 0, eng := 1\<rparr>"
  have "to_u64 0 = 0" unfolding to_u64_def by simp
  then have E: "vf_init g 0 4 step fp f0 = fill_tables ?f" by (simp add: vf_init_def Let_def)
  have "length (encode_table ?f) = 65536" "length (decode_table ?f) = 65536" "vm ?f = 4" using assms by (simp_all add: tables_sized_def)
  from fill_tables_ok[OF this(3,1,2)] obtain x y where "fill_tables ?f = Inr (?f\<lparr>encode_table := x, decode_table := y\<rparr>)" by blast
  then show ?thesis unfolding E by (intro exI[of _ "?f\<lparr>encode_table := x, decode_table := y\<rparr>"]) simp
qed

text \<open>
  C19: A server that is started with fewer than four positive keys divides by zero at the first key: its
  filter is given \<open>n / 4 / load_factor\<close> buckets, which is none, and the hash of every key is taken modulo
  that number.
\<close>

theorem few_keys_fail:
  assumes "length pos < 4" "pos @ neg \<noteq> []" "length neg < 2 ^ 32" "tables_sized (vf (tracker_of s))"
  shows "server_init e pos neg lf r s = Inl Undefined"
proof -
  define s2 where "s2 = (tracker_of s)\<lparr>load_factor := lf, o_ratio := r, n_positive_keys := length pos, n_negative_keys := length neg, key_ratio := (length pos, length neg)\<rparr>"
  define fp where "fp = optimal_fp_len e s2"
  have v: "vf s2 = vf (tracker_of s)" by (simp add: s2_def)
  obtain f where f: "vf_init (fits e) 0 4 400 fp (vf s2) = Inr f" "vn f = 0" "fp_len f = fp"
    using empty_init[of "vf s2" "fits e" 400 fp] assms(4) unfolding v by blast
  let ?s1 = "s2\<lparr>trk_fp_len := fp, vf := f, TNK_table := replicate (nat (vn f)) [], FPK_table := replicate (nat (vn f)) []\<rparr>"
  have "tracker_init e (length pos) (length neg) lf r (tracker_of s) = Inr ?s1"
    unfolding tracker_init_def Let_def s2_def[symmetric] fp_def[symmetric] no_buckets[OF assms(1)] using f(1) by simp
  moreover have "fp \<noteq> 0" by (simp add: fp_def optimal_fp_len_def Let_def)
  ultimately obtain s1 where s1: "tracker_init e (length pos) (length neg) lf r (tracker_of s) = Inr s1" "vn (vf s1) = 0" "fp_len (vf s1) \<noteq> 0"
    "n_positive_keys s1 = length pos" "n_negative_keys s1 = length neg" using f(2,3)
    by - (rule that[of ?s1], simp_all add: s2_def)
  note F = empty_filter_fails[OF s1(2,3)]
  have "batch_insert e pos neg s1 = batch_insert_retry (Suc 19) e pos neg s1" by (simp add: batch_insert_def)
  also have "\<dots> = Inl Undefined"
    unfolding batch_insert_retry.simps(2) using assms(2) s1(4,5) F by (cases pos; cases neg) (simp_all add: insert_negative_def)
  finally show ?thesis using s1(1) assms(1,3) by (simp add: server_init_def control_init_def tracker_of_def w32_def)
qed

lemma few_keys_fail_witness: "server_init env0 [1, 2, 3] [4] load (1, 0) server0 = Inl Undefined"
  by (rule few_keys_fail) (use server0_sized in \<open>simp_all add: sized_filter_def\<close>)

subsection \<open>Rebuilding\<close>

text \<open>
  C8: When the tracker asks for a rebuild while a certificate is added, and the positive keys, the new one
  included, fit the rebuilt filter at its first fingerprint length (\<open>fills\<close>, so that \<open>batch_insert\<close> does
  not have to retry with another one), the server either rebuilds its tables
  from all keys it knows and sends every device the full update of the new state, or
  ends with the exception of \<open>build\<close>, which cannot happen when the keys to store have no cycle in the new
  table whatever its seeds. Every device that reads that update, in any chunks the reader tolerates and whatever
  state it was in before, then answers each of the certificates with its value. How full the old
  tables were does not matter.
\<close>

theorem rebuild_reaches_devices:
  fixes e :: env
  assumes t: "plain (tmpl e)" "tL (tmpl e) = 1" "iterates e" and I: "tracker_inv (tmpl e) (tracker_of s)" and sz: "sized_filter (vf (tracker_of s))"
    and c: "c_o_ratio (dassTracker s) = (1, 0)" and reach: "\<forall>h \<in> set (connectedDevices s). reach h"
    and k: "classes (tracker_of s) k = None" "v = 0 \<or> v = 1"
    and run: "tracker_insert e (k, v) (tracker_of s) = Inr ([REBUILD], tr)"
    and fit: "fills e (c_loadfactor (dassTracker s)) (iter e (PK tr)) (iter e (NK tr)) (tr\<lparr>PK := [], NK := []\<rparr>)"
  shows "case addCertificate e reach (k, v) s of
      Inr ((ok, ps), s') \<Rightarrow> ok \<and> classes (tracker_of s') = (classes (tracker_of s))(k \<mapsto> v) \<and>
        (\<exists>m. full_stream (dassTracker s') = Inr m \<and> ps = map (\<lambda>h. (h, m)) (connectedDevices s) \<and>
          (\<forall>cl chunks. delivers chunks m \<longrightarrow> tables_sized (v_vf (dassVerifier cl)) \<longrightarrow> \<not> queryLock cl \<longrightarrow>
            (\<exists>cl'. receive_update (tmpl e) [] chunks cl = Inr (''FullDone'', cl') \<and>
              (\<forall>x w. classes (tracker_of s') x = Some w \<longrightarrow> client_queryCertificate (tmpl e) x cl' = Inr (w = 1)))))
    | Inl err \<Rightarrow> err = Thrown ''exception'' \<and> \<not> settles (tmpl e) (PK tr) (NK tr)"
proof (cases "addCertificate e reach (k, v) s")
  case (Inl err)
  with add_rebuilt[OF t I sz c reach k run fit] show ?thesis by simp
next
  case (Inr out)
  obtain ok ps s' where out: "out = ((ok, ps), s')" by (metis surj_pair)
  have R: "rebuilt (tmpl e) s ((classes (tracker_of s))(k \<mapsto> v)) ((ok, ps), s')"
    using add_rebuilt[OF t I sz c reach k run fit] Inr out by simp
  then obtain m where m: "full_stream (dassTracker s') = Inr m" "length m < 2 ^ 32" "ps = map (\<lambda>h. (h, m)) (connectedDevices s)" by (auto simp: rebuilt_def)
  have B: "ok" "tracker_inv (tmpl e) (tracker_of s')" "in_step (tmpl e) (tracker_of s') (vo_data (dassTracker s'))"
    "vf_ints (v_vf (vo_data (dassTracker s')))" "classes (tracker_of s') = (classes (tracker_of s))(k \<mapsto> v)"
    using R copies_ints by (auto simp: rebuilt_def renewed_def tracker_of_def in_step_def)
  have "\<exists>cl'. receive_update (tmpl e) [] chunks cl = Inr (''FullDone'', cl') \<and>
      (\<forall>x w. classes (tracker_of s') x = Some w \<longrightarrow> client_queryCertificate (tmpl e) x cl' = Inr (w = 1))"
    if a: "delivers chunks m" "tables_sized (v_vf (dassVerifier cl))" "\<not> queryLock cl" for cl chunks
  proof -
    obtain cl' where cl': "receive_update (tmpl e) [] chunks cl = Inr (''FullDone'', cl')" "client_ok (tmpl e) s' cl'"
      using full_update_in_step[OF m(1,2) B(2-4) a(2), of "[]" chunks] a(1,3) by (auto simp: client_ok_def)
    with client_answers[OF B(2) t(2)] show ?thesis by blast
  qed
  then show ?thesis unfolding Inr out sum.case prod.case using B(1,5) m(1,3) by blast
qed

lemma rebuild_reaches_devices_witness:
  "\<exists>p s' cl'. addCertificate env0 (\<lambda>_. True) (clash_key, 1) server1 = Inr ((True, [p]), s') \<and> fst p = ''dev'' \<and>
     receive_update plain64 [] [snd p] client0 = Inr (''FullDone'', cl') \<and>
     client_queryCertificate plain64 clash_key cl' = Inr True \<and> client_queryCertificate plain64 0x80000000 cl' = Inr True"
proof -
  obtain tr where tr: "tracker_insert env0 (clash_key, 1) (tracker_of server1) = Inr ([REBUILD], tr)" "PK tr = start_keys @ [clash_key]" "NK tr = []"
    "sized_filter (vf tr)" by (rule clash_rebuilds)
  obtain ps s2 where A: "addCertificate env0 (\<lambda>_. True) (clash_key, 1) server1 = Inr ((True, ps), s2)" by (rule clash_added)
  have "case addCertificate env0 (\<lambda>_. True) (clash_key, 1) server1 of
      Inr ((ok, ps), s') \<Rightarrow> ok \<and> classes (tracker_of s') = (classes (tracker_of server1))(clash_key \<mapsto> 1) \<and>
        (\<exists>m. full_stream (dassTracker s') = Inr m \<and> ps = map (\<lambda>h. (h, m)) (connectedDevices server1) \<and>
          (\<forall>cl chunks. delivers chunks m \<longrightarrow> tables_sized (v_vf (dassVerifier cl)) \<longrightarrow> \<not> queryLock cl \<longrightarrow>
            (\<exists>cl'. receive_update (tmpl env0) [] chunks cl = Inr (''FullDone'', cl') \<and>
              (\<forall>x w. classes (tracker_of s') x = Some w \<longrightarrow> client_queryCertificate (tmpl env0) x cl' = Inr (w = 1)))))
    | Inl err \<Rightarrow> err = Thrown ''exception'' \<and> \<not> settles (tmpl env0) (PK tr) (NK tr)"
    by (rule rebuild_reaches_devices[OF _ _ _ _ _ _ _ _ _ tr(1)])
       (use server1_facts env0_ok clash_new clash_fills[OF tr(2-4)] in simp_all)
  then obtain m where m: "full_stream (dassTracker s2) = Inr m" "ps = [(''dev'', m)]" "classes (tracker_of s2) = (classes (tracker_of server1))(clash_key \<mapsto> 1)"
    "\<forall>cl chunks. delivers chunks m \<longrightarrow> tables_sized (v_vf (dassVerifier cl)) \<longrightarrow> \<not> queryLock cl \<longrightarrow>
       (\<exists>cl'. receive_update plain64 [] chunks cl = Inr (''FullDone'', cl') \<and>
         (\<forall>x w. classes (tracker_of s2) x = Some w \<longrightarrow> client_queryCertificate plain64 x cl' = Inr (w = 1)))"
    unfolding A sum.case prod.case env0_simps(1) server1_facts(10) by (elim conjE exE) (rule that, simp_all)
  have "classes (tracker_of s2) clash_key = Some 1" "classes (tracker_of s2) 0x80000000 = Some 1"
    unfolding m(3) server1_facts(4) by (simp_all add: divided_def start_keys_def clash_key_def)
  then obtain cl' where "receive_update plain64 [] [m] client0 = Inr (''FullDone'', cl')"
    "client_queryCertificate plain64 clash_key cl' = Inr True" "client_queryCertificate plain64 0x80000000 cl' = Inr True"
    using m(4)[rule_format, OF demo_delivers[OF m(1)] client0_sized] client0_simps(2) by fastforce
  with A m(2) show ?thesis by (intro exI[of _ "(''dev'', m)"] exI[of _ s2] exI[of _ cl']) simp
qed

end
