(* ===== verification/System_Theorems.thy ===== *)
theory System_Theorems
  imports Tracker_Theorems Protocol_Theorems Server_Theorems Rebuild_Theorems
begin

text \<open>
  The properties of the server, the update protocol and the devices together.
\<close>

subsection \<open>Histories\<close>



lemma revoke_runs:
  assumes "tracker_setValue e (k, 1) (tracker_of s) = Inr (fl, tr)" "\<not> (length fl = 1 \<and> fl ! 0 = REBUILD)" "\<forall>h \<in> set (connectedDevices s). reach h"
  shows "\<exists>ps. revokeCertificate e reach k s = Inr ((True, ps), s\<lparr>dassTracker := (dassTracker s)\<lparr>flipped_indexes := fl, vo_control := tr\<rparr>\<rparr>)"
proof -
  have "control_setValue e (k, 1) (dassTracker s) = Inr (True, (dassTracker s)\<lparr>flipped_indexes := fl, vo_control := tr\<rparr>)"
    using assms(1) quiet_update[OF assms(2)] by (simp add: control_setValue_def tracker_of_def)
  then show ?thesis using send_summary[of "s\<lparr>dassTracker := (dassTracker s)\<lparr>flipped_indexes := fl, vo_control := tr\<rparr>\<rparr>" reach k 1 "action_code RevokeAction"] assms(3)
    by (simp add: revokeCertificate_def)
qed

lemma demo_add:
  obtains m s1 where "quiet_op env0 (\<lambda>_. True) (AddCert 5 1) server0" "serve_host env0 (\<lambda>_. True) ''dev'' (AddCert 5 1) server0 = Inr (m, s1)"
    "tracker_of s1 = tracker1" "\<not> updateLock s1" "full_stream (dassTracker s1) = full_stream (dassTracker server0)"
    "connectedDevices s1 = [''dev'']"
proof -
  obtain fl where fl: "tracker_insert env0 (5, 1) tracker0 = Inr (fl, tracker1)" "length fl \<le> 4" using first_add by blast
  obtain f where f: "vf_insert 5 demo_filter = Inr (0, f)" by (rule first_insert)
  have fit: "fits_op plain64 tracker0 (AddCert 5 1)" using f first_storable(1) by (simp add: classes0)
  define s1 where "s1 = server0\<lparr>dassTracker := (dassTracker server0)\<lparr>flipped_indexes := fl, vo_control := tracker1\<rparr>\<rparr>"
  obtain ps where A: "addCertificate env0 (\<lambda>_. True) (5, 1) server0 = Inr ((True, ps), s1)"
    using add_runs[of env0 5 1 server0 fl tracker1 "\<lambda>_. True"] fl(1) first_add_quiet[OF fl(1)] by (auto simp: s1_def)
  have "quiet_op env0 (\<lambda>_. True) (AddCert 5 1) server0" using fit fl(2) A by (simp add: quiet_op_def short_update_def s1_def)
  moreover have "serve_host env0 (\<lambda>_. True) ''dev'' (AddCert 5 1) server0 = Inr (concat (map snd (filter (\<lambda>p. fst p = ''dev'') ps)), s1)"
    using A by (simp add: serve_host_def)
  moreover have "\<not> updateLock s1" by (simp add: s1_def server0_def)
  ultimately show thesis by (intro that[of _ s1]) (simp_all add: s1_def tracker_of_def full_stream_data)
qed

lemma demo_history:
  "legal_run (legal_op env0 (\<lambda>_. True)) (serve_host env0 (\<lambda>_. True) ''dev'') [AddCert clash_key 1, RevokeCert clash_key] server1"
proof -
  obtain ps s2 where s2: "addCertificate env0 (\<lambda>_. True) (clash_key, 1) server1 = Inr ((True, ps), s2)"
    "rebuilt plain64 server1 ((divided start_keys [])(clash_key \<mapsto> 1)) ((True, ps), s2)" by (rule clash_added)
  have B: "tracker_inv plain64 (tracker_of s2)" "classes (tracker_of s2) clash_key = Some 1" using s2(2) by (simp_all add: rebuilt_def renewed_def tracker_of_def)
  have "tracker_setValue env0 (clash_key, 1) (tracker_of s2) = Inr ([], tracker_of s2)"
    using setValue_same[of env0 "tracker_of s2" clash_key 1] B by simp
  then obtain ps2 where "revokeCertificate env0 (\<lambda>_. True) clash_key s2 =
      Inr ((True, ps2), s2\<lparr>dassTracker := (dassTracker s2)\<lparr>flipped_indexes := [], vo_control := tracker_of s2\<rparr>\<rparr>)"
    using revoke_runs[of env0 clash_key s2 "[]" "tracker_of s2" "\<lambda>_. True"] by auto
  then have "legal_op env0 (\<lambda>_. True) (RevokeCert clash_key) s2"
    using B(2) by (simp add: legal_op_def quiet_op_def short_update_def settable_def)
  moreover have "legal_op env0 (\<lambda>_. True) (AddCert clash_key 1) server1" using clash_legal by (simp add: legal_op_def)
  ultimately show ?thesis using s2(1) by (simp add: serve_host_def)
qed


text \<open>
  C13: A device that registers late, after any history of quiet operations without a rebuild, is sent the
  state of the last rebuild: none of the operations since then is in it. It answers every lookup as the
  tracker did then, so a certificate revoked in between passes as unrevoked.
\<close>

theorem late_device:
  fixes e :: env
  assumes "server_ok e reach host s" "legal_run (quiet_op e reach) (serve_host e reach host) ops s"
    and "tracker_inv (tmpl e) tr0" "in_step (tmpl e) tr0 (vo_data (dassTracker s))" "vf_ints (vf tr0)"
  shows "\<exists>ms s' data. serve_all (serve_host e reach host) ops s = Inr (ms, s') \<and>
     (\<not> updateLock s' \<longrightarrow> listenForNewDevices device s' = Inr ([(device, data)], s'\<lparr>connectedDevices := connectedDevices s' @ [device]\<rparr>)) \<and>
     (\<forall>cl chunks tail. length data < 2 ^ 32 \<longrightarrow> delivers chunks data \<longrightarrow> tables_sized (v_vf (dassVerifier cl)) \<longrightarrow>
        \<not> queryLock cl \<longrightarrow> takeWhile is_digit tail = [] \<longrightarrow>
        (\<exists>cl'. receive_update (tmpl e) tail chunks cl = Inr (''FullDone'', cl') \<and>
           (\<forall>k. client_queryCertificate (tmpl e) k cl' = rbind (tracker_query e tr0 k) (\<lambda>v. Inr (v = 1)))))"
proof -
  obtain ms s' where R: "serve_all (serve_host e reach host) ops s = Inr (ms, s')" using devices.history[OF assms(1) quiet_run[OF assms(2)]] by blast
  have "vo_data (dassTracker s') = vo_data (dassTracker s)" by (rule history_installed[OF assms(1,2) R])
  then have F: "full_stream (dassTracker s') = full_stream (dassTracker s)" by (rule full_stream_data)
  obtain data where d: "full_stream (dassTracker s) = Inr data" and D: "\<forall>cl chunks tail. length data < 2 ^ 32 \<longrightarrow> delivers chunks data \<longrightarrow> tables_sized (v_vf (dassVerifier cl)) \<longrightarrow>
     \<not> queryLock cl \<longrightarrow> takeWhile is_digit tail = [] \<longrightarrow>
     (\<exists>cl'. receive_update (tmpl e) tail chunks cl = Inr (''FullDone'', cl') \<and> in_step (tmpl e) tr0 (dassVerifier cl') \<and>
        (\<forall>k. client_queryCertificate (tmpl e) k cl' = rbind (tracker_query e tr0 k) (\<lambda>v. Inr (v = 1))))"
    using full_state_read[OF assms(3-5)] by blast
  have "listenForNewDevices device s' = Inr ([(device, data)], s'\<lparr>connectedDevices := connectedDevices s' @ [device]\<rparr>)" if "\<not> updateLock s'"
    using that d F by (simp add: listenForNewDevices_def sendFullUpdate_def Let_def)
  with R D show ?thesis by blast
qed

lemma late_device_witness:
  "\<exists>ms s' data p cl'. serve_all (serve_host env0 (\<lambda>_. True) ''dev'') [AddCert 5 1] server0 = Inr (ms, s') \<and>
     server_queryCertificate env0 s' 5 = Inr True \<and> listenForNewDevices ''new'' s' = Inr ([(''new'', data)], p) \<and>
     receive_update plain64 [] [data] client0 = Inr (''FullDone'', cl') \<and> client_queryCertificate plain64 5 cl' = Inr False"
proof -
  obtain m s1 where s1: "quiet_op env0 (\<lambda>_. True) (AddCert 5 1) server0" "serve_host env0 (\<lambda>_. True) ''dev'' (AddCert 5 1) server0 = Inr (m, s1)"
    "tracker_of s1 = tracker1" "\<not> updateLock s1" "full_stream (dassTracker s1) = full_stream (dassTracker server0)" by (rule demo_add)
  obtain data where d: "listenForNewDevices ''new'' s1 = Inr ([(''new'', data)], s1\<lparr>connectedDevices := connectedDevices s1 @ [''new'']\<rparr>)"
    "\<forall>cl chunks tail. length data < 2 ^ 32 \<longrightarrow> delivers chunks data \<longrightarrow> tables_sized (v_vf (dassVerifier cl)) \<longrightarrow>
        \<not> queryLock cl \<longrightarrow> takeWhile is_digit tail = [] \<longrightarrow>
        (\<exists>cl'. receive_update plain64 tail chunks cl = Inr (''FullDone'', cl') \<and>
           (\<forall>k. client_queryCertificate plain64 k cl' = rbind (tracker_query env0 tracker0 k) (\<lambda>v. Inr (v = 1))))"
    using late_device[of env0 "\<lambda>_. True" "''dev''" server0 "[AddCert 5 1]" tracker0 "''new''"] s1 server0_ok(1) verifier0_ok(2) tracker0_inv demo_filter_ints
    by auto
  then have F: "full_stream (dassTracker server0) = Inr data" using s1(4,5) by (auto simp: listenForNewDevices_def sendFullUpdate_def rbind_eq_Inr Let_def)
  obtain cl' where "receive_update plain64 [] [data] client0 = Inr (''FullDone'', cl')" "client_queryCertificate plain64 5 cl' = Inr False"
    using d(2)[rule_format, of "[data]" client0 "[]"] demo_delivers[OF F] demo_length[OF F] client0_sized server0_query by auto
  moreover have "server_queryCertificate env0 s1 5 = Inr True"
    using tracker_query_classes[of env0 tracker1 5 1] tracker1_ok(1,2) s1(3) by (simp add: server_queryCertificate_def control_query_def tracker_of_def)
  ultimately show ?thesis using s1(2) d(1) 
    by - (rule exI[of _ "[m]"], rule exI[of _ s1], rule exI[of _ data], rule exI, rule exI[of _ cl'], simp)
qed

end
