(* ===== verification/Bloom.thy ===== *)
theory Bloom
  imports Othello_Control
begin

text \<open>
  The Bloom filter of \<open>src/platform/bloom_filter.h\<close> with cells of \<open>L\<close> bits, \<open>L \<le> 64\<close>. The seeded hash
  function behind \<open>Hasher32\<close> is the parameter \<open>H\<close> (seed, then key), as in the Othello planes; the
  sizes the constructor computes in floating point are parameters too. Proofs are in
  \<open>Bloom_Theorems\<close>.
\<close>

record bloom =
  bh :: "u32 list"
  capacity :: nat
  bm :: nat
  bmem :: "u64 list"
  bk :: int

subsection \<open>Cells\<close>

definition fast_map_to_buckets :: "bloom \<Rightarrow> u32 \<Rightarrow> nat" where
  "fast_map_to_buckets f x = multiply_high_u32 (unat x) (bm f)"

definition bloom_memSet :: "nat \<Rightarrow> nat \<Rightarrow> u64 \<Rightarrow> bloom \<Rightarrow> bloom res" where
  "bloom_memSet L index value f =
     rbind (packed_set L (w32 (index * L)) value (bmem f)) (\<lambda>m. Inr (f\<lparr>bmem := m\<rparr>))"

text \<open>With 64-bit cells the mask of \<open>getAt\<close> is a shift by 64.\<close>

definition getAt :: "nat \<Rightarrow> bloom \<Rightarrow> nat \<Rightarrow> u64 res" where
  "getAt L f index = (if L = 64 then Inl Undefined else packed_get L (w32 (index * L)) (bmem f))"

definition increaseAt :: "nat \<Rightarrow> nat \<Rightarrow> bloom \<Rightarrow> bloom res" where
  "increaseAt L index f = bloom_memSet L index 1 f"

definition decreaseAt :: "nat \<Rightarrow> nat \<Rightarrow> bloom \<Rightarrow> (bool \<times> bloom) res" where
  "decreaseAt L index f =
     rbind (getAt L f index) (\<lambda>result.
       if 0 < result
       then rbind (bloom_memSet L index (result - 1) f) (\<lambda>f'. Inr (result - 1 = 0, f'))
       else Inr (result = 0, f))"

subsection \<open>Construction\<close>

text \<open>
  \<open>m\<close> and \<open>k\<close> are the sizes the constructor has computed, \<open>rnd\<close> the values of \<open>InputBase::rand()\<close>.
\<close>

definition bloom_new :: "nat \<Rightarrow> nat \<Rightarrow> nat \<Rightarrow> int \<Rightarrow> (nat \<Rightarrow> u32) \<Rightarrow> bloom" where
  "bloom_new L cap m k rnd =
     \<lparr>bh = map rnd [0..<nat k], capacity = cap, bm = m,
      bmem = vresize (w32 (w32 (m * L) + 63) div 64) 0 [], bk = k\<rparr>"

text \<open>The other constructor leaves \<open>k\<close> as it is in memory (\<open>k0\<close>).\<close>

definition bloom_from :: "u32 list \<Rightarrow> nat \<Rightarrow> nat \<Rightarrow> u64 list \<Rightarrow> int \<Rightarrow> bloom" where
  "bloom_from h cap m mem0 k0 = \<lparr>bh = h, capacity = cap, bm = m, bmem = mem0, bk = k0\<rparr>"

subsection \<open>Operations\<close>

definition slot :: "(u32 \<Rightarrow> 'k \<Rightarrow> u32) \<Rightarrow> bloom \<Rightarrow> u32 \<Rightarrow> 'k \<Rightarrow> nat" where
  "slot H f s key = fast_map_to_buckets f (H s key)"

definition bloom_insert :: "(u32 \<Rightarrow> 'k \<Rightarrow> u32) \<Rightarrow> nat \<Rightarrow> 'k \<Rightarrow> bloom \<Rightarrow> bloom res" where
  "bloom_insert H L key f = rfold (\<lambda>s f. increaseAt L (slot H f s key) f) (bh f) f"

definition bloom_erase :: "(u32 \<Rightarrow> 'k \<Rightarrow> u32) \<Rightarrow> nat \<Rightarrow> 'k \<Rightarrow> bloom \<Rightarrow> (u64 \<times> bloom) res" where
  "bloom_erase H L key f =
     rbind (rfold (\<lambda>s (toErase, b, f).
       rbind (decreaseAt L (slot H f s key) f) (\<lambda>(z, f').
       Inr (if z then toErase OR b else toErase, push_bit 1 b, f'))) (bh f) (0, 1, f)) (\<lambda>(toErase, _, f').
     Inr (toErase, f'))"

fun member_loop :: "(u32 \<Rightarrow> 'k \<Rightarrow> u32) \<Rightarrow> nat \<Rightarrow> bloom \<Rightarrow> 'k \<Rightarrow> u32 list \<Rightarrow> bool res" where
  "member_loop H L f key [] = Inr True"
| "member_loop H L f key (s # ss) =
     rbind (getAt L f (slot H f s key)) (\<lambda>r. if r = 0 then Inr False else member_loop H L f key ss)"

definition bloom_isMember :: "(u32 \<Rightarrow> 'k \<Rightarrow> u32) \<Rightarrow> nat \<Rightarrow> bloom \<Rightarrow> 'k \<Rightarrow> bool res" where
  "bloom_isMember H L f key = member_loop H L f key (bh f)"

lemma shift_less: "e \<noteq> 0 \<Longrightarrow> unat (drop_bit 1 e) < unat (e :: u64)"
proof -
  assume "e \<noteq> 0"
  then have "0 < unat e" by (simp add: unat_gt_0)
  moreover have "unat (drop_bit 1 e) = unat e div 2" unfolding unat_drop_bit_eq by (simp add: drop_bit_eq_div)
  ultimately show ?thesis by linarith
qed

text \<open>\<open>for (int i = 0; toErase; i++, toErase >>= 1)\<close>.\<close>

function mask_loop :: "(u32 \<Rightarrow> 'k \<Rightarrow> u32) \<Rightarrow> nat \<Rightarrow> 'k \<Rightarrow> nat \<Rightarrow> u64 \<Rightarrow> bloom \<Rightarrow> bloom res" where
  "mask_loop H L key i toErase f =
     (if toErase = 0 then Inr f
      else rbind (if toErase AND 1 \<noteq> 0 then rbind (vat (bh f) i) (\<lambda>s. bloom_memSet L (slot H f s key) 0 f) else Inr f)
             (mask_loop H L key (i + 1) (drop_bit 1 toErase)))"
  by pat_completeness auto

termination
  by (relation "measure (\<lambda>(H, L, key, i, toErase, f). unat toErase)") (use shift_less in simp_all)

declare mask_loop.simps [simp del]

definition bloom_mask :: "(u32 \<Rightarrow> 'k \<Rightarrow> u32) \<Rightarrow> nat \<Rightarrow> 'k \<Rightarrow> u64 \<Rightarrow> bloom \<Rightarrow> bloom res" where
  "bloom_mask H L key toErase f = rbind (guard AssertFailed (L = 1)) (\<lambda>_. mask_loop H L key 0 toErase f)"

definition bloom_getMemoryCost :: "nat \<Rightarrow> bloom \<Rightarrow> nat" where
  "bloom_getMemoryCost L f = w32 (bm f * L) div 8"

definition getK :: "bloom \<Rightarrow> u32" where
  "getK f = word_of_int (bk f)"

end
