(* ===== verification/Bloom_Theorems.thy ===== *)
theory Bloom_Theorems
  imports Bloom
begin

text \<open>
  The Bloom filter implements a set of filled cells: insertion fills the cells of the key, erasure
  empties them, and a key is a member when its cells are filled. Every counter is 0 or 1.
\<close>

subsection \<open>Cells\<close>

definition counter :: "nat \<Rightarrow> bloom \<Rightarrow> nat \<Rightarrow> u64" where
  "counter L f i = cell_val L (bmem f) i"

definition bloom_ok :: "nat \<Rightarrow> bloom \<Rightarrow> bool" where
  "bloom_ok L f \<longleftrightarrow> cells_valid L (bm f) (bmem f) \<and> L < 64 \<and> 0 < bm f \<and> bm f * L < 2 ^ 32 \<and>
     (\<forall>i < bm f. counter L f i = 0 \<or> counter L f i = 1)"

definition filled :: "nat \<Rightarrow> bloom \<Rightarrow> nat set" where
  "filled L f = {i. i < bm f \<and> counter L f i = 1}"

definition slots :: "(u32 \<Rightarrow> 'k \<Rightarrow> u32) \<Rightarrow> bloom \<Rightarrow> 'k \<Rightarrow> nat set" where
  "slots H f k = (\<lambda>s. slot H f s k) ` set (bh f)"

text \<open>The same filter with other cells.\<close>

definition same_shape :: "bloom \<Rightarrow> bloom \<Rightarrow> bool" where
  "same_shape f f' \<longleftrightarrow> bh f' = bh f \<and> capacity f' = capacity f \<and> bm f' = bm f \<and> bk f' = bk f"

lemma shape_facts: "same_shape f f' \<Longrightarrow> bh f' = bh f \<and> bm f' = bm f"
  by (simp add: same_shape_def)

lemma slot_shape: "same_shape f f' \<Longrightarrow> slot H f' s k = slot H f s k"
  by (simp add: slot_def fast_map_to_buckets_def shape_facts)

lemma slots_shape: "same_shape f f' \<Longrightarrow> slots H f' k = slots H f k"
  by (simp add: slots_def slot_shape shape_facts)

lemma shape_trans: "same_shape f g \<Longrightarrow> same_shape g h \<Longrightarrow> same_shape f h"
  by (simp add: same_shape_def)

lemma multiply_high_less: "x < 2 ^ 32 \<Longrightarrow> 0 < y \<Longrightarrow> y < 2 ^ 32 \<Longrightarrow> multiply_high_u32 x y < y"
proof -
  assume a: "x < 2 ^ 32" "0 < y" "y < 2 ^ 32"
  have "x * y < 2 ^ 32 * y" using a(1,2) by (intro mult_strict_right_mono)
  then have "x * y div 2 ^ 32 < y" by (simp add: div_less_iff_less_mult mult.commute)
  moreover have "x * y div 2 ^ 32 \<le> x * y" "(x * y mod 2 ^ 64) div 2 ^ 32 \<le> x * y div 2 ^ 32" by (intro div_le_dividend div_le_mono mod_less_eq_dividend)+
  moreover have "w32 n \<le> n" for n by (simp add: w32_def)
  ultimately show ?thesis unfolding multiply_high_u32_def using le_less_trans le_trans by metis
qed

lemma slot_less: "bloom_ok L f \<Longrightarrow> slot H f s k < bm f"
proof -
  assume ok: "bloom_ok L f"
  then have L: "0 < L" by (simp add: bloom_ok_def cells_valid_def)
  have "bm f * 1 \<le> bm f * L" by (rule mult_le_mono2) (use L in simp)
  then have "bm f < 2 ^ 32" using ok unfolding bloom_ok_def by linarith
  then show ?thesis unfolding slot_def fast_map_to_buckets_def
    by (intro multiply_high_less) (use ok unsigned_less[of "H s k"] in \<open>simp_all add: bloom_ok_def\<close>)
qed

lemma bloom_cell_pos: "bloom_ok L f \<Longrightarrow> i < bm f \<Longrightarrow> w32 (i * L) = i * L"
proof -
  assume a: "bloom_ok L f" "i < bm f"
  have "i * L \<le> bm f * L" by (rule mult_le_mono1) (use a(2) in simp)
  also have "\<dots> < 2 ^ 32" using a(1) by (simp add: bloom_ok_def)
  finally show ?thesis unfolding w32_def by (rule mod_less)
qed

lemma getAt_ok: "bloom_ok L f \<Longrightarrow> i < bm f \<Longrightarrow> getAt L f i = Inr (counter L f i)"
  using packed_get_cell[of L "bm f" "bmem f" i] by (simp add: getAt_def bloom_cell_pos counter_def) (simp add: bloom_ok_def)

text \<open>Writing 0 or 1 into a cell.\<close>

lemma bloom_memSet_ok:
  assumes ok: "bloom_ok L f" and i: "i < bm f" and v: "v = 0 \<or> v = 1"
  shows "\<exists>f'. bloom_memSet L i v f = Inr f' \<and> bloom_ok L f' \<and> same_shape f f' \<and>
    filled L f' = (if v = 1 then insert i (filled L f) else filled L f - {i})"
proof -
  have V: "cells_valid L (bm f) (bmem f)" "0 < L" using ok by (simp_all add: bloom_ok_def cells_valid_def)
  obtain m' where m: "packed_set L (i * L) v (bmem f) = Inr m'" "cells_valid L (bm f) m'"
    "\<And>j. j < bm f \<Longrightarrow> cell_val L m' j = (if j = i then v AND low_mask L else cell_val L (bmem f) j)"
    using packed_set_cell[OF V(1) i] by metis
  have "v AND low_mask L = v" using v V(2) by (auto intro!: bit_word_eqI simp: bit_simps)
  then have c: "\<And>j. j < bm f \<Longrightarrow> cell_val L m' j = (if j = i then v else cell_val L (bmem f) j)" using m(3) by simp
  let ?f = "f\<lparr>bmem := m'\<rparr>"
  have "bloom_memSet L i v f = Inr ?f" using m(1) by (simp add: bloom_memSet_def bloom_cell_pos[OF ok i])
  moreover have "bloom_ok L ?f" using ok m(2) c v by (simp add: bloom_ok_def counter_def)
  moreover have "same_shape f ?f" by (simp add: same_shape_def)
  moreover have "filled L ?f = (if v = 1 then insert i (filled L f) else filled L f - {i})"
    using c i v by (auto simp: filled_def counter_def split: if_splits)
  ultimately show ?thesis by blast
qed

lemma decreaseAt_ok:
  assumes ok: "bloom_ok L f" and i: "i < bm f"
  shows "\<exists>f'. decreaseAt L i f = Inr (True, f') \<and> bloom_ok L f' \<and> same_shape f f' \<and> filled L f' = filled L f - {i}"
proof (cases "counter L f i = 0")
  case True
  then show ?thesis using ok i by (auto simp: decreaseAt_def getAt_ok filled_def same_shape_def)
next
  case False
  then have "counter L f i = 1" using ok i by (auto simp: bloom_ok_def)
  with bloom_memSet_ok[OF ok i, of 0] show ?thesis by (auto simp: decreaseAt_def getAt_ok[OF ok i])
qed

subsection \<open>Operations\<close>

lemma insert_loop:
  assumes "bloom_ok L f" "same_shape f0 f"
  shows "\<exists>f'. rfold (\<lambda>s f. increaseAt L (slot H f s k) f) ss f = Inr f' \<and> bloom_ok L f' \<and> same_shape f0 f' \<and>
    filled L f' = filled L f \<union> (\<lambda>s. slot H f0 s k) ` set ss"
  using assms
proof (induction ss arbitrary: f)
  case (Cons s ss)
  obtain f1 where f1: "increaseAt L (slot H f s k) f = Inr f1" "bloom_ok L f1" "same_shape f f1" "filled L f1 = insert (slot H f s k) (filled L f)"
    using bloom_memSet_ok[OF Cons.prems(1) slot_less[OF Cons.prems(1), of H s k], of 1] by (auto simp: increaseAt_def)
  from Cons.IH[OF f1(2) shape_trans[OF Cons.prems(2) f1(3)]] f1(1,4) show ?case by (auto simp: slot_shape[OF Cons.prems(2)])
qed simp

lemma insert_ok: "bloom_ok L f \<Longrightarrow> \<exists>f'. bloom_insert H L k f = Inr f' \<and> bloom_ok L f' \<and> same_shape f f' \<and> filled L f' = filled L f \<union> slots H f k"
  using insert_loop[of L f f H k "bh f"] by (simp add: bloom_insert_def slots_def same_shape_def)

lemma member_ok: "bloom_ok L f \<Longrightarrow> bloom_isMember H L f k = Inr (slots H f k \<subseteq> filled L f)"
proof -
  assume ok: "bloom_ok L f"
  have "member_loop H L f k ss = Inr ((\<lambda>s. slot H f s k) ` set ss \<subseteq> filled L f)" for ss
  proof (induction ss)
    case (Cons s ss)
    note l = slot_less[OF ok, of H s k]
    have "counter L f (slot H f s k) = 0 \<longleftrightarrow> slot H f s k \<notin> filled L f" using ok l by (auto simp: bloom_ok_def filled_def)
    with Cons show ?case by (simp add: getAt_ok[OF ok l])
  qed simp
  then show ?thesis by (simp add: bloom_isMember_def slots_def)
qed

lemma inserts_ok:
  "bloom_ok L f \<Longrightarrow> \<exists>f'. rfold (bloom_insert H L) ks f = Inr f' \<and> bloom_ok L f' \<and> same_shape f f' \<and> filled L f' = filled L f \<union> (\<Union>k \<in> set ks. slots H f k)"
proof (induction ks arbitrary: f)
  case (Cons k ks)
  obtain f1 where f1: "bloom_insert H L k f = Inr f1" "bloom_ok L f1" "same_shape f f1" "filled L f1 = filled L f \<union> slots H f k"
    using insert_ok[OF Cons.prems, of H k] by blast
  from Cons.IH[OF f1(2)] obtain f' where "rfold (bloom_insert H L) ks f1 = Inr f'" "bloom_ok L f'" "same_shape f1 f'"
    "filled L f' = filled L f1 \<union> (\<Union>k \<in> set ks. slots H f1 k)" by blast
  with f1 shape_trans[OF f1(3)] show ?case by (intro exI[of _ f']) (simp add: slots_shape[OF f1(3)] Un_assoc)
qed (simp add: same_shape_def)

lemma erase_loop:
  assumes "bloom_ok L f" "same_shape f0 f"
  shows "\<exists>e b f'. rfold (\<lambda>s (toErase, b, f). rbind (decreaseAt L (slot H f s k) f) (\<lambda>(z, f').
       Inr (if z then toErase OR b else toErase, push_bit 1 b, f'))) ss (e0 :: u64, b0, f) = Inr (e, b, f') \<and>
     bloom_ok L f' \<and> same_shape f0 f' \<and> filled L f' = filled L f - (\<lambda>s. slot H f0 s k) ` set ss"
  using assms
proof (induction ss arbitrary: f e0 b0)
  case (Cons s ss)
  obtain f1 where f1: "decreaseAt L (slot H f s k) f = Inr (True, f1)" "bloom_ok L f1" "same_shape f f1" "filled L f1 = filled L f - {slot H f s k}"
    using decreaseAt_ok[OF Cons.prems(1) slot_less[OF Cons.prems(1), of H s k]] by blast
  from Cons.IH[OF f1(2) shape_trans[OF Cons.prems(2) f1(3)], of "e0 OR b0" "push_bit 1 b0"] f1(1,4)
  show ?case by (auto simp: slot_shape[OF Cons.prems(2)])
qed simp

lemma bloom_erase_ok: "bloom_ok L f \<Longrightarrow> \<exists>e f'. bloom_erase H L k f = Inr (e, f') \<and> bloom_ok L f' \<and> same_shape f f' \<and> filled L f' = filled L f - slots H f k"
  using erase_loop[of L f f H k "bh f" 0 1] by (auto simp: bloom_erase_def slots_def same_shape_def)

text \<open>
  C36: The Bloom filter implements its set of filled cells: inserting keys returns for every list of keys and
  fills exactly their cells, and a key is a member exactly when all its cells are filled; so every key
  inserted is a member.
\<close>

theorem bloom_membership:
  assumes "bloom_ok L f"
  shows "\<exists>f'. rfold (bloom_insert H L) ks f = Inr f' \<and> bloom_ok L f' \<and> filled L f' = filled L f \<union> (\<Union>k \<in> set ks. slots H f k) \<and>
     (\<forall>x. bloom_isMember H L f' x = Inr (slots H f x \<subseteq> filled L f')) \<and> (\<forall>k \<in> set ks. bloom_isMember H L f' k = Inr True)"
proof -
  obtain f' where f: "rfold (bloom_insert H L) ks f = Inr f'" "bloom_ok L f'" "same_shape f f'" "filled L f' = filled L f \<union> (\<Union>k \<in> set ks. slots H f k)"
    using inserts_ok[OF assms, of H ks] by blast
  have "bloom_isMember H L f' x = Inr (slots H f x \<subseteq> filled L f')" for x
    using member_ok[OF f(2), of H x] slots_shape[OF f(3), of H x] by simp
  moreover from this have "\<forall>k \<in> set ks. bloom_isMember H L f' k = Inr True" using f(4) by auto
  ultimately show ?thesis using f by blast
qed

text \<open>
  C37: However many bits a counter has, it never counts: after a key that shares a cell with another one has been
  erased, the other key is not a member any more, although it was inserted and never erased.
\<close>

theorem bloom_erase_shared:
  assumes "bloom_ok L f" "a \<in> set ks" "b \<in> set ks" "slots H f a \<inter> slots H f b \<noteq> {}"
  shows "\<exists>f1 e f2. rfold (bloom_insert H L) ks f = Inr f1 \<and> bloom_isMember H L f1 b = Inr True \<and>
     bloom_erase H L a f1 = Inr (e, f2) \<and> bloom_isMember H L f2 b = Inr False"
proof -
  obtain f1 where f1: "rfold (bloom_insert H L) ks f = Inr f1" "bloom_ok L f1" "same_shape f f1" "filled L f1 = filled L f \<union> (\<Union>k \<in> set ks. slots H f k)"
    using inserts_ok[OF assms(1), of H ks] by blast
  obtain e f2 where f2: "bloom_erase H L a f1 = Inr (e, f2)" "bloom_ok L f2" "same_shape f1 f2" "filled L f2 = filled L f1 - slots H f1 a"
    using bloom_erase_ok[OF f1(2), of H a] by blast
  have e: "slots H f1 a = slots H f a" "slots H f1 b = slots H f b" "slots H f2 b = slots H f b"
    using slots_shape[OF f1(3), of H] slots_shape[OF f2(3), of H] by simp_all
  have "slots H f b \<subseteq> filled L f1" using f1(4) assms(3) by blast
  then have "bloom_isMember H L f1 b = Inr True" using member_ok[OF f1(2), of H b] e(2) by simp
  moreover have "bloom_isMember H L f2 b = Inr False"
  proof -
    have "\<not> slots H f b \<subseteq> filled L f2" using f2(4) assms(4) e(1) by blast
    then show ?thesis using member_ok[OF f2(2), of H b] e(3) by simp
  qed
  ultimately show ?thesis using f1(1) f2(1) by blast
qed

text \<open>A filter of 16 four-bit counters with two hash functions.\<close>

definition demo_bloom :: bloom where
  "demo_bloom = bloom_new 4 8 16 2 (\<lambda>i. if i = 0 then 1 else 3)"

definition demo_hash :: "u32 \<Rightarrow> u32 \<Rightarrow> u32" where
  "demo_hash s k = push_bit 28 (s * k)"

lemma demo_bloom_ok: "bloom_ok 4 demo_bloom" "filled 4 demo_bloom = {}"
proof -
  have z: "cell_val 4 [0] i = 0" if "i < 16" for i
  proof (rule bit_word_eqI)
    fix b have "bit (cell_val 4 [0] i) b \<longleftrightarrow> b < 4 \<and> mbit [0] (i * 4 + b)" by (rule bit_cell_val[of 4 16]) (use that in \<open>simp_all add: cells_valid_def\<close>)
    moreover have "\<not> (b < 4 \<and> mbit [0] (i * 4 + b))" using that by (auto simp: mbit_def)
    ultimately show "bit (cell_val 4 [0] i) b = bit (0 :: u64) b" by simp
  qed
  have m: "bmem demo_bloom = [0]" "bm demo_bloom = 16" by (simp_all add: demo_bloom_def bloom_new_def vresize_def w32_def)
  show "bloom_ok 4 demo_bloom" using z by (simp add: bloom_ok_def m cells_valid_def counter_def)
  show "filled 4 demo_bloom = {}" using z by (auto simp: filled_def m counter_def)
qed

lemma demo_slots: "slots demo_hash demo_bloom k = {unat (push_bit 28 k :: u32) * 16 div 2 ^ 32, unat (push_bit 28 (3 * k) :: u32) * 16 div 2 ^ 32}"
proof -
  have "multiply_high_u32 (unat x) 16 = unat x * 16 div 2 ^ 32" for x :: u32
  proof -
    have "unat x < 2 ^ 32" using unsigned_less[of x] by simp
    then have "unat x * 16 mod 2 ^ 64 = unat x * 16" "unat x * 16 div 2 ^ 32 < 2 ^ 32" by simp_all
    then show ?thesis unfolding multiply_high_u32_def w32_def by simp
  qed
  moreover have "set (bh demo_bloom) = {1, 3}" "bm demo_bloom = 16" by (simp_all add: demo_bloom_def bloom_new_def upt_rec)
  ultimately show ?thesis by (simp add: slots_def slot_def fast_map_to_buckets_def demo_hash_def)
qed

lemma bloom_membership_witness:
  "\<exists>f'. rfold (bloom_insert demo_hash 4) [1, 5] demo_bloom = Inr f' \<and> bloom_isMember demo_hash 4 f' 5 = Inr True \<and>
     bloom_isMember demo_hash 4 f' 2 = Inr False"
proof -
  obtain f' where f: "rfold (bloom_insert demo_hash 4) [1, 5] demo_bloom = Inr f'"
    "filled 4 f' = filled 4 demo_bloom \<union> (\<Union>k \<in> set [1, 5]. slots demo_hash demo_bloom k)"
    "\<forall>x. bloom_isMember demo_hash 4 f' x = Inr (slots demo_hash demo_bloom x \<subseteq> filled 4 f')" "\<forall>k \<in> set [1, 5]. bloom_isMember demo_hash 4 f' k = Inr True"
    using bloom_membership[OF demo_bloom_ok(1), of demo_hash "[1, 5]"] by blast
  have "\<not> slots demo_hash demo_bloom 2 \<subseteq> filled 4 f'" unfolding f(2) demo_bloom_ok(2) by (simp add: demo_slots)
  with f show ?thesis by auto
qed

lemma bloom_erase_shared_witness:
  "\<exists>f1 e f2. rfold (bloom_insert demo_hash 4) [1, 3] demo_bloom = Inr f1 \<and> bloom_isMember demo_hash 4 f1 3 = Inr True \<and>
     bloom_erase demo_hash 4 1 f1 = Inr (e, f2) \<and> bloom_isMember demo_hash 4 f2 3 = Inr False"
  by (rule bloom_erase_shared[OF demo_bloom_ok(1)]) (simp_all add: demo_slots)

subsection \<open>Replaying an erasure\<close>

text \<open>With cells of one bit, to decrease a cell is to clear it.\<close>

lemma decrease_clears:
  assumes ok: "bloom_ok 1 f" and i: "i < bm f"
  shows "decreaseAt 1 i f = rbind (bloom_memSet 1 i 0 f) (\<lambda>f'. Inr (True, f'))"
proof (cases "counter 1 f i = 0")
  case True
  have v: "cells_valid 1 (bm f) (bmem f)" using ok by (simp add: bloom_ok_def)
  have "\<not> mbit (bmem f) i" using bit_cell_val[OF v i, of 0] True by (simp add: counter_def)
  moreover have "i < 64 * length (bmem f)" using cell_pos_bound[OF v i] by simp
  ultimately have "packed_set 1 i 0 (bmem f) = Inr (bmem f)" using packed_set_flip[of i "bmem f" 0] by simp
  then have "bloom_memSet 1 i 0 f = Inr f" using bloom_cell_pos[OF ok i] by (simp add: bloom_memSet_def)
  then show ?thesis unfolding decreaseAt_def getAt_ok[OF ok i] using True by simp
next
  case False
  then have "counter 1 f i = 1" using ok i by (auto simp: bloom_ok_def)
  then show ?thesis unfolding decreaseAt_def getAt_ok[OF ok i] by simp
qed

definition clear_all :: "(u32 \<Rightarrow> 'k \<Rightarrow> u32) \<Rightarrow> 'k \<Rightarrow> u32 list \<Rightarrow> bloom \<Rightarrow> bloom res" where
  "clear_all H k ss = rfold (\<lambda>s f. bloom_memSet 1 (slot H f s k) 0 f) ss"

lemma low_bits: "j < 64 \<Longrightarrow> mask j OR push_bit j 1 = (mask (Suc j) :: u64)" "n < 64 \<Longrightarrow> drop_bit 1 (mask (Suc n) :: u64) = mask n"
  "(mask (Suc n) :: u64) AND 1 \<noteq> 0" "(mask (Suc n) :: u64) \<noteq> 0"
proof -
  show "mask j OR push_bit j 1 = (mask (Suc j) :: u64)" if "j < 64"
    using that by (intro bit_word_eqI) (auto simp: bit_simps)
  show "drop_bit 1 (mask (Suc n) :: u64) = mask n" if "n < 64"
    using that by (intro bit_word_eqI) (auto simp: bit_simps)
  have "bit ((mask (Suc n) :: u64) AND 1) 0" by (simp add: bit_simps)
  then show "(mask (Suc n) :: u64) AND 1 \<noteq> 0" by (metis bit_0_eq bot_apply bot_bool_def)
  then show "(mask (Suc n) :: u64) \<noteq> 0" by (metis and_zero_eq and.commute)
qed

lemma erase_pattern:
  "bloom_ok 1 f \<Longrightarrow> j + length ss \<le> 64 \<Longrightarrow>
    rfold (\<lambda>s (toErase, b, f). rbind (decreaseAt 1 (slot H f s k) f) (\<lambda>(z, f').
       Inr (if z then toErase OR b else toErase, push_bit 1 b, f'))) ss (mask j :: u64, push_bit j 1, f) =
    rbind (clear_all H k ss f) (\<lambda>f'. Inr (mask (j + length ss), push_bit (j + length ss) 1, f'))"
proof (induction ss arbitrary: f j)
  case (Cons s ss)
  note l = slot_less[OF Cons.prems(1), of H s k]
  obtain f1 where f1: "bloom_memSet 1 (slot H f s k) 0 f = Inr f1" "bloom_ok 1 f1" using bloom_memSet_ok[OF Cons.prems(1) l, of 0] by auto
  show ?case using Cons.IH[OF f1(2), of "Suc j"] Cons.prems(2) f1(1) low_bits(1)[of j]
    unfolding clear_all_def rfold.simps prod.case decrease_clears[OF Cons.prems(1) l] by (simp add: mult.commute[of _ 2])
qed (simp add: clear_all_def)

lemma mask_clears:
  "bloom_ok 1 f \<Longrightarrow> i + n = length (bh f) \<Longrightarrow> n \<le> 64 \<Longrightarrow> mask_loop H 1 k i (mask n) f = clear_all H k (drop i (bh f)) f"
proof (induction n arbitrary: f i)
  case 0
  then show ?case by (subst mask_loop.simps) (simp add: clear_all_def)
next
  case (Suc n)
  have i: "i < length (bh f)" using Suc.prems(2) by simp
  obtain f1 where f1: "bloom_memSet 1 (slot H f (bh f ! i) k) 0 f = Inr f1" "bloom_ok 1 f1" "same_shape f f1"
    using bloom_memSet_ok[OF Suc.prems(1) slot_less[OF Suc.prems(1), of H "bh f ! i" k], of 0] by auto
  have "mask_loop H 1 k (Suc i) (mask n) f1 = clear_all H k (drop (Suc i) (bh f)) f1"
    using Suc.IH[OF f1(2), of "Suc i"] Suc.prems(2,3) shape_facts[OF f1(3)] by simp
  moreover have "drop i (bh f) = bh f ! i # drop (Suc i) (bh f)" using i by (simp add: Cons_nth_drop_Suc)
  moreover have "drop_bit 1 (mask (Suc n) :: u64) = mask n" using low_bits(2)[of n] Suc.prems(3) by simp
  ultimately show ?case using f1(1) i low_bits(3,4)[of n]
    unfolding mask_loop.simps[of H 1 k i "mask (Suc n)"] by (simp add: clear_all_def del: mask_Suc_exp)
qed

text \<open>
  With cells of one bit and at most 64 hash functions, a copy of the filter that is sent the key and the bit
  pattern that \<open>erase\<close> returned, and applies \<open>mask\<close>, is again a copy.
\<close>

lemma mask_replays_erase:
  assumes "bloom_ok 1 f" "length (bh f) \<le> 64"
  shows "\<exists>e f'. bloom_erase H 1 k f = Inr (e, f') \<and> bloom_mask H 1 k e f = Inr f'"
proof -
  obtain e f' where E: "bloom_erase H 1 k f = Inr (e, f')" using bloom_erase_ok[OF assms(1), of H k] by blast
  then have "clear_all H k (bh f) f = Inr f'" "e = mask (length (bh f))"
    using erase_pattern[of f 0 "bh f" H k] assms by (auto simp: bloom_erase_def rbind_eq_Inr)
  then show ?thesis using E mask_clears[OF assms(1), of 0 "length (bh f)" H k] assms(2) by (simp add: bloom_mask_def)
qed

end
