(* ===== verification/Lfsr.thy ===== *)
theory Lfsr
  imports Prelude
begin

text \<open>
  The key generator of \<open>src/utils/lfsr64.h\<close>: shift registers of 64 bits, as many as the generated type of
  \<open>S\<close> bytes needs. The type is a template parameter; its size is the parameter \<open>S\<close> of the operations. A
  little-endian machine is assumed where the registers are read as bytes.
\<close>

record lfsr =
  maxvalue :: nat
  currentid :: nat
  regArray :: "u64 list"
  reg0 :: "u64 list"
  prest :: nat

definition reg_count :: "nat \<Rightarrow> nat" where
  "reg_count S = (S + 7) div 8"

definition tailLength :: "nat \<Rightarrow> nat" where
  "tailLength S = S mod 8"

definition lfsr_reset :: "lfsr \<Rightarrow> lfsr" where
  "lfsr_reset g = g\<lparr>currentid := 0, regArray := reg0 g\<rparr>"

definition tail_taps :: "nat \<Rightarrow> u64" where
  "tail_taps t =
     (if t = 1 then 0xB8 else if t = 2 then 0xB400 else if t = 3 then 0xD80000 else if t = 4 then 0x80200003
      else if t = 5 then 0x9C00000000
      else if t = 6 then push_bit 47 1 + push_bit 43 1 + push_bit 40 1 + push_bit 38 1
      else push_bit 55 1 + push_bit 53 1 + push_bit 51 1 + push_bit 48 1)"

definition full_step :: "u64 \<Rightarrow> u64" where
  "full_step r = drop_bit 1 r XOR (- (r AND 1) AND 0xD800000000000000)"

definition tail_step :: "nat \<Rightarrow> u64 \<Rightarrow> u64" where
  "tail_step t r = (if r AND 1 \<noteq> 0 then drop_bit 1 r XOR tail_taps t else drop_bit 1 r)"

definition shift_regs :: "nat \<Rightarrow> u64 list \<Rightarrow> u64 list" where
  "shift_regs S rs =
     map (\<lambda>(i, r). if tailLength S \<noteq> 0 \<and> i = reg_count S - 1 then tail_step (tailLength S) r else full_step r) (enumerate 0 rs)"

definition lfsr_shift :: "nat \<Rightarrow> lfsr \<Rightarrow> lfsr" where
  "lfsr_shift S g =
     (let g1 = g\<lparr>regArray := shift_regs S (regArray g), currentid := w32 (currentid g + 1)\<rparr>
      in if currentid g1 = maxvalue g1 then lfsr_reset g1 else g1)"

definition reg_bytes :: "u64 \<Rightarrow> u8 list" where
  "reg_bytes r = map (\<lambda>i. ucast (drop_bit (8 * i) r)) [0..<8]"

definition lfsr_gen :: "nat \<Rightarrow> lfsr \<Rightarrow> u8 list \<times> lfsr" where
  "lfsr_gen S g = (take S (concat (map reg_bytes (regArray g))), lfsr_shift S g)"

text \<open>The constructor; its loop cannot need more rounds than \<open>prestart\<close>, unless it never ends.\<close>

definition next_seed :: "u64 \<Rightarrow> u64" where
  "next_seed s =
     (let sv = (ucast s :: 128 word); sv1 = drop_bit 32 (sv * (0xA1B2C3D4 XOR sv))
      in ucast (sv1 + ucast s))"

fun seed_regs :: "nat \<Rightarrow> u64 \<Rightarrow> u64 list" where
  "seed_regs 0 s = []"
| "seed_regs (Suc n) s = s # seed_regs n (next_seed s)"

fun prestart_loop :: "nat \<Rightarrow> nat \<Rightarrow> lfsr \<Rightarrow> lfsr res" where
  "prestart_loop S 0 g = Inl Diverges"
| "prestart_loop S (Suc fuel) g = (if currentid g < prest g then prestart_loop S fuel (lfsr_shift S g) else Inr g)"

definition lfsr_new :: "nat \<Rightarrow> u64 \<Rightarrow> nat \<Rightarrow> nat \<Rightarrow> lfsr res" where
  "lfsr_new S seed maxv prestart =
     (let regs = seed_regs (reg_count S) seed
      in if tailLength S \<noteq> 0 then Inl OutOfBounds
         else prestart_loop S (Suc prestart) (lfsr_reset \<lparr>maxvalue = maxv, currentid = 0, regArray = regs, reg0 = regs, prest = prestart\<rparr>))"

subsection \<open>Registers\<close>

text \<open>No register value is lost: a step is a permutation of the 64-bit words that keeps 0 apart.\<close>

lemma lsb_cases: "(r :: u64) AND 1 = (if bit r 0 then 1 else 0)"
  by (simp add: and_one_eq mod2_eq_if bit_0)

lemma top_tap: "bit (full_step r) 63 = bit r 0"
proof -
  have "bit (0xD800000000000000 :: u64) 63" by simp
  then show ?thesis unfolding full_step_def lsb_cases by (auto simp: bit_simps dest: bit_imp_le_length)
qed

lemma full_step_inj: "inj full_step"
proof (rule injI)
  fix r s assume e: "full_step r = full_step s"
  then have l: "bit r 0 = bit s 0" using top_tap by metis
  let ?c = "- (s AND 1) AND 0xD800000000000000"
  have "drop_bit 1 r XOR ?c = drop_bit 1 s XOR ?c" using e l unfolding full_step_def lsb_cases by simp
  then have "(drop_bit 1 r XOR ?c) XOR ?c = (drop_bit 1 s XOR ?c) XOR ?c" by (rule arg_cong)
  then have "drop_bit 1 r = drop_bit 1 s" unfolding xor.assoc xor_self_eq xor.right_neutral .
  then have "bit r (Suc n) = bit s (Suc n)" for n by (metis bit_drop_bit_eq comp_apply plus_1_eq_Suc)
  with l show "r = s" by (intro bit_word_eqI) (metis not0_implies_Suc)
qed

lemma full_step_zero: "full_step r = 0 \<longleftrightarrow> r = 0"
  using full_step_inj[THEN injD, of r 0] by (auto simp: full_step_def)

subsection \<open>Cycles\<close>

lemma shift_fields: "reg0 (lfsr_shift S g) = reg0 g \<and> maxvalue (lfsr_shift S g) = maxvalue g \<and> prest (lfsr_shift S g) = prest g"
  by (simp add: lfsr_shift_def lfsr_reset_def Let_def)

lemma shift_low: "Suc (currentid g) < 2 ^ 32 \<Longrightarrow> Suc (currentid g) \<noteq> maxvalue g \<Longrightarrow> currentid (lfsr_shift S g) = Suc (currentid g)"
  by (simp add: lfsr_shift_def w32_def Let_def)

lemma shift_wraps: "Suc (currentid g) < 2 ^ 32 \<Longrightarrow> Suc (currentid g) = maxvalue g \<Longrightarrow> lfsr_shift S g = lfsr_reset g"
  by (simp add: lfsr_shift_def lfsr_reset_def w32_def Let_def)

lemma shifts_below:
  "currentid g = 0 \<Longrightarrow> j < maxvalue g \<or> maxvalue g = 0 \<Longrightarrow> j < 2 ^ 32 \<Longrightarrow>
    currentid ((lfsr_shift S ^^ j) g) = j \<and> reg0 ((lfsr_shift S ^^ j) g) = reg0 g \<and> maxvalue ((lfsr_shift S ^^ j) g) = maxvalue g \<and>
      prest ((lfsr_shift S ^^ j) g) = prest g"
  by (induction j) (auto simp: shift_fields shift_low)

lemma lfsr_cycle:
  assumes "currentid g = 0" "regArray g = reg0 g" "0 < maxvalue g" "maxvalue g < 2 ^ 32"
  shows "(lfsr_shift S ^^ maxvalue g) g = g"
proof -
  obtain n where n: "maxvalue g = Suc n" using assms(3) gr0_conv_Suc by blast
  let ?h = "(lfsr_shift S ^^ n) g"
  have h: "currentid ?h = n" "reg0 ?h = reg0 g" "maxvalue ?h = maxvalue g" "prest ?h = prest g" using shifts_below[OF assms(1), of n S] n assms(4) by simp_all
  then have "lfsr_shift S ?h = lfsr_reset ?h" using n assms(4) by (intro shift_wraps) simp_all
  also have "\<dots> = g" by (rule lfsr.equality) (use h assms(1,2) in \<open>simp_all add: lfsr_reset_def\<close>)
  finally show ?thesis by (simp add: n)
qed

text \<open>
  The constructor returns exactly for types of a multiple of 8 bytes (for the others it writes behind the
  registers) and a \<open>prestart\<close> that is reached before the generator winds back.
\<close>

lemma prestart_reaches:
  "currentid g \<le> prest g \<Longrightarrow> prest g < maxvalue g \<or> maxvalue g = 0 \<Longrightarrow> prest g < 2 ^ 32 \<Longrightarrow> prest g - currentid g < fuel \<Longrightarrow>
    \<exists>g'. prestart_loop S fuel g = Inr g'"
proof (induction fuel arbitrary: g)
  case (Suc fuel)
  show ?case
  proof (cases "currentid g < prest g")
    case True
    then have "currentid (lfsr_shift S g) = Suc (currentid g)" using Suc.prems by (intro shift_low) auto
    with Suc.IH[of "lfsr_shift S g"] Suc.prems True shift_fields[of S g] show ?thesis by simp
  qed simp
qed simp

lemma prestart_never:
  "currentid g < maxvalue g \<Longrightarrow> maxvalue g \<le> prest g \<Longrightarrow> maxvalue g < 2 ^ 32 \<Longrightarrow> prestart_loop S fuel g = Inl Diverges"
proof (induction fuel arbitrary: g)
  case (Suc fuel)
  have "currentid (lfsr_shift S g) < maxvalue (lfsr_shift S g)"
  proof (cases "Suc (currentid g) = maxvalue g")
    case True
    then have "lfsr_shift S g = lfsr_reset g" using Suc.prems by (intro shift_wraps) auto
    then show ?thesis using Suc.prems(1) by (simp add: lfsr_reset_def)
  next
    case False
    then show ?thesis using Suc.prems shift_low[of g S] shift_fields[of S g] by simp
  qed
  with Suc.IH[of "lfsr_shift S g"] Suc.prems shift_fields[of S g] show ?case by simp
qed simp

theorem lfsr_new_returns:
  assumes "maxv < 2 ^ 32" "prestart < 2 ^ 32"
  shows "(\<exists>g. lfsr_new S seed maxv prestart = Inr g) \<longleftrightarrow> S mod 8 = 0 \<and> (prestart < maxv \<or> maxv = 0)"
proof -
  let ?g = "lfsr_reset \<lparr>maxvalue = maxv, currentid = 0, regArray = seed_regs (reg_count S) seed, reg0 = seed_regs (reg_count S) seed, prest = prestart\<rparr>"
  have g: "currentid ?g = 0" "maxvalue ?g = maxv" "prest ?g = prestart" by (simp_all add: lfsr_reset_def)
  show ?thesis
  proof (cases "prestart < maxv \<or> maxv = 0")
    case True
    then have "\<exists>g'. prestart_loop S (Suc prestart) ?g = Inr g'" by (intro prestart_reaches) (use g assms in simp_all)
    then show ?thesis using True by (auto simp: lfsr_new_def tailLength_def Let_def)
  next
    case False
    then have "prestart_loop S (Suc prestart) ?g = Inl Diverges" by (intro prestart_never) (use g assms in simp_all)
    then show ?thesis using False by (auto simp: lfsr_new_def tailLength_def Let_def simp del: prestart_loop.simps)
  qed
qed

end
