(* ===== verification/Input_Types.thy ===== *)
theory Input_Types
  imports Prelude "HOL-Library.Char_ord"
begin

text \<open>
  The key types of \<open>src/utils/input_types.h\<close> and their generators: the \<open>n\<close>-th key of a type, and the
  comparisons. The orders of addresses and of connections are instances of \<open>linorder\<close>. Random keys are
  those of a random number.
\<close>

subsection \<open>Addresses\<close>

type_synonym mac = "u8 list"

definition mac_of :: "u32 \<Rightarrow> mac" where
  "mac_of seed =
     (let s = map (\<lambda>i. ucast (drop_bit (8 * i) seed)) [0..<4]
      in s @ [s ! 0 XOR s ! 1, s ! 2 XOR s ! 3])"

definition mac_eq :: "mac \<Rightarrow> mac \<Rightarrow> bool" where
  "mac_eq a b = list_all (\<lambda>i. a ! i = b ! i) [0..<6]"

definition IPv4_enumerate :: "u32 \<Rightarrow> u32" where
  "IPv4_enumerate seed = seed"

definition IPv6_enumerate :: "u32 \<Rightarrow> 128 word" where
  "IPv6_enumerate seed =
     push_bit 96 (ucast seed) + push_bit 64 (ucast seed) + push_bit 32 (ucast seed) + ucast seed"

datatype Addr_Port = Addr_Port (addr: u32) (port: u16)

definition Addr_Port_less :: "Addr_Port \<Rightarrow> Addr_Port \<Rightarrow> bool" where
  "Addr_Port_less a b \<longleftrightarrow> addr a < addr b \<or> addr a = addr b \<and> port a < port b"

definition Addr_Port_enumerate :: "u32 \<Rightarrow> Addr_Port" where
  "Addr_Port_enumerate seed = Addr_Port seed (ucast seed)"

text \<open>The constructor cuts the protocol to 8 bits.\<close>

datatype Tuple5 = Tuple5 (dst: Addr_Port) (src: Addr_Port) (protocol: u16)

definition Tuple5_new :: "Addr_Port \<Rightarrow> Addr_Port \<Rightarrow> u8 \<Rightarrow> Tuple5" where
  "Tuple5_new d s p = Tuple5 d s (ucast p)"

definition Tuple5_enumerate :: "u32 \<Rightarrow> Tuple5" where
  "Tuple5_enumerate seed =
     Tuple5_new (Addr_Port_enumerate seed) (Addr_Port_enumerate (NOT seed)) (if seed AND 1 \<noteq> 0 then 6 else 17)"

lemma Addr_Port_eq: "a = b \<longleftrightarrow> addr a = addr b \<and> port a = port b"
  by (cases a; cases b) simp

lemma Tuple5_eq: "a = b \<longleftrightarrow> dst a = dst b \<and> src a = src b \<and> protocol a = protocol b"
  by (cases a; cases b) simp

instantiation Addr_Port :: linorder
begin

definition less_Addr_Port :: "Addr_Port \<Rightarrow> Addr_Port \<Rightarrow> bool" where
  "less_Addr_Port = Addr_Port_less"

definition less_eq_Addr_Port :: "Addr_Port \<Rightarrow> Addr_Port \<Rightarrow> bool" where
  "less_eq_Addr_Port a b \<longleftrightarrow> a = b \<or> Addr_Port_less a b"

instance
  by standard (auto simp: less_Addr_Port_def less_eq_Addr_Port_def Addr_Port_less_def Addr_Port_eq)

end

definition Tuple5_less :: "Tuple5 \<Rightarrow> Tuple5 \<Rightarrow> bool" where
  "Tuple5_less a b \<longleftrightarrow> dst a < dst b \<or> dst a = dst b \<and> (src a < src b \<or> src a = src b \<and> protocol a < protocol b)"

instantiation Tuple5 :: linorder
begin

definition less_Tuple5 :: "Tuple5 \<Rightarrow> Tuple5 \<Rightarrow> bool" where
  "less_Tuple5 = Tuple5_less"

definition less_eq_Tuple5 :: "Tuple5 \<Rightarrow> Tuple5 \<Rightarrow> bool" where
  "less_eq_Tuple5 a b \<longleftrightarrow> a = b \<or> Tuple5_less a b"

instance
  by standard (auto simp: less_Tuple5_def less_eq_Tuple5_def Tuple5_less_def Tuple5_eq)

end

subsection \<open>Names\<close>

definition hex_char :: "u32 \<Rightarrow> char" where
  "hex_char w = (let h = unat (w AND 15) in char_of (if h < 10 then 48 + h else 97 + h - 10))"

definition id_place :: "nat \<Rightarrow> nat" where
  "id_place i = (if 8 \<le> i then i + 1 + (i - 8) div 4 else i)"

definition ID_enumerate :: "u32 \<Rightarrow> string" where
  "ID_enumerate seed =
     (let s1 = seed; s2 = NOT seed; s3 = s1 * s2; s4 = NOT s3; s = [s1, s2, s3, s4]
      in fold (\<lambda>i id. id[id_place i := hex_char (drop_bit (i mod 8 * 4) (s ! (i div 8)))]) [0..<32] (replicate 45 (CHR ''-'')))"

definition URL_enumerate :: "u32 \<Rightarrow> string" where
  "URL_enumerate seed =
     ''https://d2lkq7nlcrdi7q.cloudfront.net/dm/2$KNA2j5deIAM-rbspbnnKxFBPg4M~/4bd5/ac42/8a57/485b-8fe3-3f823e0db83c/'' @ ID_enumerate seed"

subsection \<open>Different numbers give different keys\<close>

lemma ucast_as_nat: "(ucast (u :: u32) :: 128 word) = word_of_nat (unat u)"
  by transfer simp

lemma mac_eq_iff: "length a = 6 \<Longrightarrow> length b = 6 \<Longrightarrow> mac_eq a b \<longleftrightarrow> a = b"
  by (auto simp: mac_eq_def list_all_iff intro: nth_equalityI)

lemma word_nibbles:
  assumes "\<And>j. j < 8 \<Longrightarrow> drop_bit (j * 4) v AND 15 = drop_bit (j * 4) w AND 15"
  shows "v = (w :: u32)"
proof (rule bit_word_eqI)
  fix n assume n: "n < LENGTH(32)"
  then have j: "n div 4 < 8" by simp
  have b: "bit (drop_bit (n div 4 * 4) u AND 15) (n mod 4) = bit u n" for u :: u32
  proof -
    have m: "(15 :: u32) = mask 4" by (simp add: mask_eq_exp_minus_1)
    have "n div 4 * 4 + n mod 4 = n" "n mod 4 < 4" "n mod 4 < 32" by (simp_all add: less_trans[OF mod_less_divisor])
    then show ?thesis unfolding m bit_and_iff bit_drop_bit_eq comp_apply by (simp add: bit_mask_iff)
  qed
  show "bit v n = bit w n" using assms[OF j] b[of v] b[of w] by simp
qed

lemma hex_char_inj: "hex_char v = hex_char w \<Longrightarrow> v AND 15 = w AND 15"
proof -
  assume e: "hex_char v = hex_char w"
  have h: "unat (u AND 15 :: u32) < 16" for u
  proof -
    have "u AND 15 = take_bit 4 u" by (simp add: take_bit_eq_mask mask_eq_exp_minus_1)
    then show ?thesis using take_bit_nat_less_exp[of 4 "unat u"] by (simp add: unsigned_take_bit_eq)
  qed
  let ?f = "\<lambda>n :: nat. if n < 10 then 48 + n else 97 + n - 10"
  have "(of_char (hex_char v) :: nat) = of_char (hex_char w)" using e by simp
  then have "?f (unat (v AND 15)) = ?f (unat (w AND 15))" using h[of v] h[of w] by (simp add: hex_char_def Let_def split: if_splits)
  then have "unat (v AND 15) = unat (w AND 15)" using h[of v] h[of w] by (auto split: if_splits)
  then show ?thesis by (rule unsigned_word_eqI)
qed

lemma fold_places:
  "distinct is \<Longrightarrow> inj_on r (set is) \<Longrightarrow> i \<in> set is \<Longrightarrow> r i < length xs \<Longrightarrow> fold (\<lambda>i xs. xs[r i := c i]) is xs ! r i = c i"
proof (induction "is" arbitrary: xs)
  case (Cons j js)
  have keep: "r i \<notin> r ` set js \<Longrightarrow> fold (\<lambda>i xs. xs[r i := c i]) js ys ! r i = ys ! r i" for ys
    by (induction js arbitrary: ys) auto
  show ?case
  proof (cases "i = j")
    case True
    then have "r i \<notin> r ` set js" using Cons.prems(1,2) by (auto simp: inj_on_def)
    with keep True Cons.prems(4) show ?thesis by simp
  next
    case False
    with Cons show ?thesis by (auto simp: inj_on_def)
  qed
qed simp

lemma id_place_inj: "inj_on id_place (set [0..<32])"
proof (rule inj_onI)
  fix i j assume "id_place i = id_place j"
  then show "i = j" unfolding id_place_def by (auto split: if_splits)
qed

lemma ID_digit: "j < 8 \<Longrightarrow> ID_enumerate seed ! j = hex_char (drop_bit (j * 4) seed)"
  using fold_places[OF _ id_place_inj, of j "replicate 45 (CHR ''-'')"
      "\<lambda>i. hex_char (drop_bit (i mod 8 * 4) ([seed, NOT seed, seed * NOT seed, NOT (seed * NOT seed)] ! (i div 8)))"]
  by (simp add: ID_enumerate_def Let_def id_place_def)

theorem enumerate_inj: "inj mac_of" "inj ID_enumerate" "inj URL_enumerate" "inj IPv4_enumerate" "inj IPv6_enumerate"
  "inj Addr_Port_enumerate" "inj Tuple5_enumerate"
proof -
  show "inj mac_of"
  proof (rule injI)
    fix v w assume "mac_of v = mac_of w"
    then have "take 4 (mac_of v) = take 4 (mac_of w)" by simp
    then have e: "map (\<lambda>i. ucast (drop_bit (8 * i) v) :: u8) [0..<4] = map (\<lambda>i. ucast (drop_bit (8 * i) w)) [0..<4]" by (simp add: mac_of_def Let_def)
    show "v = w"
    proof (rule bit_word_eqI)
      fix n assume n: "n < LENGTH(32)"
      then have "n div 8 \<in> set [0..<4]" by auto
      with e have "(ucast (drop_bit (8 * (n div 8)) v) :: u8) = ucast (drop_bit (8 * (n div 8)) w)" unfolding map_eq_conv by blast
      then have "bit (ucast (drop_bit (8 * (n div 8)) v) :: u8) (n mod 8) = bit (ucast (drop_bit (8 * (n div 8)) w) :: u8) (n mod 8)" by simp
      then show "bit v n = bit w n" by (simp add: bit_simps)
    qed
  qed
  show I: "inj ID_enumerate"
    by (rule injI, rule word_nibbles, rule hex_char_inj) (metis ID_digit)
  then show "inj URL_enumerate" by (auto simp: inj_def URL_enumerate_def)
  show "inj IPv4_enumerate" by (simp add: inj_def IPv4_enumerate_def)
  show "inj IPv6_enumerate"
  proof (rule injI)
    let ?K = "2 ^ 96 + 2 ^ 64 + 2 ^ 32 + 1 :: nat"
    have ipv6: "IPv6_enumerate u = word_of_nat (unat u * ?K)" for u
      by (simp only: IPv6_enumerate_def push_bit_eq_mult ucast_as_nat of_nat_mult of_nat_add of_nat_power of_nat_numeral of_nat_1 distrib_left mult_1_right)
    fix v w assume "IPv6_enumerate v = IPv6_enumerate w"
    then have "(word_of_nat (unat v * ?K) :: 128 word) = word_of_nat (unat w * ?K)" unfolding ipv6 .
    moreover have "unat u * ?K < 2 ^ 128" for u :: u32
    proof -
      have "unat u < 2 ^ 32" by (rule order_less_le_trans[OF unsigned_less]) simp
      then have "unat u \<le> 2 ^ 32 - 1" by simp
      then have "unat u * ?K \<le> (2 ^ 32 - 1) * ?K" by (rule mult_le_mono1)
      then show ?thesis by simp
    qed
    moreover have "unat (word_of_nat n :: 128 word) = n" if "n < 2 ^ 128" for n
      using that by (simp add: unat_of_nat)
    ultimately have "unat v * ?K = unat w * ?K" by metis
    then have "unat v = unat w" by simp
    then show "v = w" by (rule unsigned_word_eqI)
  qed
  show "inj Addr_Port_enumerate" by (simp add: inj_def Addr_Port_enumerate_def)
  then show "inj Tuple5_enumerate" by (auto simp: inj_def Tuple5_enumerate_def Tuple5_new_def Addr_Port_enumerate_def)
qed

end
